(* ===== verification/Prelude.thy ===== *)
theory Prelude
  imports Main "HOL-Library.Word"
begin

text \<open>
  Shared material of the development: the machine types of the C sources, the ways in
  which the C code can go wrong, the sum-typed results and their bind, byte encodings of
  the unsigned fields that cross a shared buffer, and the list and word lemmas the
  components use.  The collections \<open>c_defs\<close> (definitions a component proof may always
  unfold) and \<open>c_bounds\<close> (unsigned bounds) carry the component proofs.
\<close>

named_theorems c_defs
named_theorems c_bounds

unbundle bit_operations_syntax

subsection \<open>Machine types\<close>

type_synonym u8 = "8 word"
type_synonym u16 = "16 word"
type_synonym u32 = "32 word"
type_synonym u64 = "64 word"
type_synonym byte = "8 word"
type_synonym bytes = "8 word list"

text \<open>
  What a C statement may do instead of returning: dereference a null pointer, touch
  memory outside an object, divide by zero, use freed memory, read a variable that was never
  set, or fail an assertion
  (\<open>BUG_ON\<close> in the kernel, \<open>assert\<close> in user space).  \<open>No_fuel\<close> is not a behaviour of the
  code: a loop whose recursion is bounded by fuel returns it when the fuel runs out, and
  the components prove that theirs does not.
\<close>

datatype fault = Null_deref | Out_of_bounds | Div_by_zero | Use_after_free | Uninit_read
  | Assert_failed | No_fuel

type_synonym 'a result = "fault + 'a"

definition bindR :: "'e + 'a \<Rightarrow> ('a \<Rightarrow> 'e + 'b) \<Rightarrow> 'e + 'b" where
  "bindR m f = (case m of Inl e \<Rightarrow> Inl e | Inr a \<Rightarrow> f a)"

lemma bindR_simps [simp]:
  "bindR (Inl e) f = Inl e"
  "bindR (Inr a) f = f a"
  by (simp_all add: bindR_def)

lemma bindR_eq_Inr: "bindR m f = Inr b \<longleftrightarrow> (\<exists>a. m = Inr a \<and> f a = Inr b)"
  by (cases m) auto

lemma bindR_eq_Inl: "bindR m f = Inl e \<longleftrightarrow> m = Inl e \<or> (\<exists>a. m = Inr a \<and> f a = Inl e)"
  by (cases m) auto

lemma bindR_assoc: "bindR (bindR m f) g = bindR m (\<lambda>a. bindR (f a) g)"
  by (cases m) auto

text \<open>The guard of an assertion.\<close>

definition assertR :: "bool \<Rightarrow> unit result" where
  "assertR b = (if b then Inr () else Inl Assert_failed)"

lemma assertR_simps [simp]: "assertR True = Inr ()" "assertR False = Inl Assert_failed"
  by (simp_all add: assertR_def)

subsection \<open>Errno values\<close>

abbreviation (input) EPERM :: int where "EPERM \<equiv> 1"
abbreviation (input) ENOMEM :: int where "ENOMEM \<equiv> 12"
abbreviation (input) EINVAL :: int where "EINVAL \<equiv> 22"

subsection \<open>Lists as byte arrays\<close>

text \<open>
  \<open>mem_write off src a\<close> is \<open>memcpy (a + off, src, length src)\<close> on an array of known
  length; \<open>mem_read off n a\<close> reads \<open>n\<close> bytes.
\<close>

definition overlay :: "nat \<Rightarrow> 'a list \<Rightarrow> 'a list \<Rightarrow> 'a list" where
  "overlay off src a = take off a @ src @ drop (off + length src) a"

definition window :: "nat \<Rightarrow> nat \<Rightarrow> 'a list \<Rightarrow> 'a list" where
  "window off n a = take n (drop off a)"

definition mem_write :: "nat \<Rightarrow> 'a list \<Rightarrow> 'a list \<Rightarrow> 'a list result" where
  "mem_write off src a =
     (if off + length src \<le> length a then Inr (overlay off src a) else Inl Out_of_bounds)"

definition mem_read :: "nat \<Rightarrow> nat \<Rightarrow> 'a list \<Rightarrow> 'a list result" where
  "mem_read off n a = (if off + n \<le> length a then Inr (window off n a) else Inl Out_of_bounds)"

lemma length_overlay [simp]: "off + length src \<le> length a \<Longrightarrow> length (overlay off src a) = length a"
  by (simp add: overlay_def)

lemma length_window [simp]: "off + n \<le> length a \<Longrightarrow> length (window off n a) = n"
  by (simp add: window_def)

lemma window_overlay_same:
  "off + length src \<le> length a \<Longrightarrow> window off (length src) (overlay off src a) = src"
  by (simp add: window_def overlay_def)

lemma window_overlay_within:
  assumes "off + length src \<le> length a" and "n \<le> length src"
  shows "window off n (overlay off src a) = take n src"
  using assms by (simp add: window_def overlay_def)

lemma window_overlay_before:
  assumes "o2 + n \<le> off" and "off + length src \<le> length a"
  shows "window o2 n (overlay off src a) = window o2 n a"
  using assms by (simp add: window_def overlay_def drop_take)

lemma window_overlay_after:
  assumes "off + length src \<le> o2" and "off + length src \<le> length a"
  shows "window o2 n (overlay off src a) = window o2 n a"
  using assms by (simp add: window_def overlay_def)

lemma window_take_prefix: "k \<le> n \<Longrightarrow> take k (window off n a) = window off k a"
  by (simp add: window_def min_def)

lemma window_append: "window d (m + n) a = window d m a @ window (d + m) n a"
  by (simp add: window_def take_add add.commute [of d m])

text \<open>\<open>chunk n i a\<close> is the \<open>i\<close>-th of the consecutive \<open>n\<close>-byte slots of \<open>a\<close>.\<close>

definition chunk :: "nat \<Rightarrow> nat \<Rightarrow> 'a list \<Rightarrow> 'a list" where
  "chunk n i a = window (n * i) n a"

lemma chunk_end:
  fixes n :: nat
  assumes "i < c"
  shows "n * i + n \<le> n * c"
proof -
  have "n * Suc i \<le> n * c" using assms by (intro mult_le_mono2) simp
  then show ?thesis by simp
qed

lemma chunk_overlay_other:
  assumes "i \<noteq> j" and "length src \<le> n" and "n * j + n \<le> length a"
  shows "chunk n i (overlay (n * j) src a) = chunk n i a"
proof (cases "i < j")
  case True
  then have "n * i + n \<le> n * j" by (rule chunk_end)
  then show ?thesis using assms by (simp add: chunk_def window_overlay_before)
next
  case False
  with assms have "j < i" by simp
  then have "n * j + n \<le> n * i" by (rule chunk_end)
  then show ?thesis using assms by (simp add: chunk_def window_overlay_after)
qed

lemma chunk_overlay_same:
  assumes "length src \<le> n" and "n * j + n \<le> length a"
  shows "take (length src) (chunk n j (overlay (n * j) src a)) = src"
proof -
  have "take (length src) (chunk n j (overlay (n * j) src a))
      = window (n * j) (length src) (overlay (n * j) src a)"
    using assms(1) by (simp add: chunk_def window_take_prefix)
  also have "\<dots> = src" using assms by (simp add: window_overlay_same)
  finally show ?thesis .
qed

text \<open>Writing one byte at a time.\<close>

lemma overlay_single: "off < length a \<Longrightarrow> overlay off [b] a = a[off := b]"
  by (simp add: overlay_def upd_conv_take_nth_drop)

lemma chunk_update_other:
  assumes "i \<noteq> j" "k < n"
  shows "chunk n i (a[n * j + k := b]) = chunk n i a"
proof (cases "i < j")
  case True
  then have "n * i + n \<le> n * j" by (rule chunk_end)
  then show ?thesis by (simp add: chunk_def window_def drop_update_swap)
next
  case False
  with assms have "j < i" by simp
  then have "n * j + n \<le> n * i" by (rule chunk_end)
  then show ?thesis using assms(2) by (simp add: chunk_def window_def)
qed

lemma chunk_update_same: "chunk n j (a[n * j + k := b]) = (chunk n j a)[k := b]"
  by (simp add: chunk_def window_def drop_update_swap take_update_swap)

lemma length_chunk [simp]: "n * i + n \<le> length a \<Longrightarrow> length (chunk n i a) = n"
  by (simp add: chunk_def)

lemma nth_chunk: "k < n \<Longrightarrow> n * i + n \<le> length a \<Longrightarrow> chunk n i a ! k = a ! (n * i + k)"
  by (simp add: chunk_def window_def)

subsection \<open>Unsigned words\<close>

lemma unat_less_size [c_bounds]:
  "unat (x :: u8) < 256" "unat (y :: u16) < 65536" "unat (z :: u32) < 4294967296"
  using unsigned_less [of x] unsigned_less [of y] unsigned_less [of z] by simp_all

lemma unat_of_nat16: "n < 65536 \<Longrightarrow> unat (of_nat n :: u16) = n"
  by (simp add: unat_of_nat take_bit_nat_eq_self)

lemma unat_of_nat32: "n < 4294967296 \<Longrightarrow> unat (of_nat n :: u32) = n"
  by (simp add: unat_of_nat take_bit_nat_eq_self)

lemma of_nat_eq_word: "unat a = n \<Longrightarrow> a = of_nat n" for a :: "'l::len word"
  by auto

lemma word_eq_iff_unat: "a = b \<longleftrightarrow> unat a = unat b" for a b :: "'l::len word"
  by (rule word_unat_eq_iff)

subsection \<open>Modular successor arithmetic of ring indices\<close>

text \<open>
  \<open>ring_dist c a b\<close> is the number of steps from index \<open>a\<close> forward to \<open>b\<close> in a ring of
  \<open>c\<close> slots.
\<close>

definition ring_dist :: "nat \<Rightarrow> nat \<Rightarrow> nat \<Rightarrow> nat" where
  "ring_dist c a b = (b + c - a) mod c"

lemma ring_dist_self [simp]: "a < c \<Longrightarrow> ring_dist c a a = 0"
  by (simp add: ring_dist_def)

lemma ring_dist_less: "0 < c \<Longrightarrow> ring_dist c a b < c"
  by (simp add: ring_dist_def)

lemma ring_dist_cases:
  "a < c \<Longrightarrow> b < c \<Longrightarrow> ring_dist c a b = (if a \<le> b then b - a else b + c - a)"
  by (auto simp: ring_dist_def mod_if)

lemma ring_dist_0_iff: "a < c \<Longrightarrow> b < c \<Longrightarrow> ring_dist c a b = 0 \<longleftrightarrow> a = b"
  by (auto simp: ring_dist_cases)

lemma succ_mod_cases: "a < c \<Longrightarrow> Suc a mod c = (if Suc a = c then 0 else Suc a)"
  by (auto simp: mod_if)

lemma ring_dist_succ_right:
  assumes "a < c" "b < c" "Suc b mod c \<noteq> a"
  shows "ring_dist c a (Suc b mod c) = Suc (ring_dist c a b)"
  using assms by (auto simp: ring_dist_cases succ_mod_cases split: if_splits)

lemma ring_dist_succ_left:
  assumes "a < c" "b < c" "a \<noteq> b"
  shows "ring_dist c a b = Suc (ring_dist c (Suc a mod c) b)"
  using assms by (auto simp: ring_dist_cases succ_mod_cases split: if_splits)

lemma ring_dist_full:
  assumes "a < c" "b < c" "Suc b mod c = a"
  shows "ring_dist c a b = c - 1"
  using assms by (auto simp: ring_dist_cases succ_mod_cases split: if_splits)

lemma ring_index_end:
  assumes "a < c" "b < c" shows "(a + ring_dist c a b) mod c = b"
  using assms by (auto simp: ring_dist_cases mod_if)

lemma ring_index_inj:
  fixes a :: nat
  assumes "i < c" "j < c" "(a + i) mod c = (a + j) mod c"
  shows "i = j"
proof -
  have "c dvd j - i" if "i \<le> j" "(a + i) mod c = (a + j) mod c" for i j
    using that mod_eq_dvd_iff_nat [of "a + i" "a + j" c] by simp
  then have "i \<le> j \<Longrightarrow> c dvd j - i" "j \<le> i \<Longrightarrow> c dvd i - j"
    using assms(3) by simp_all
  moreover have "k < c \<Longrightarrow> c dvd k \<Longrightarrow> k = 0" for k
    by (auto dest: dvd_imp_le)
  ultimately show ?thesis
    using assms(1,2) by (metis diff_diff_cancel diff_le_self diff_zero le_cases le_less_trans)
qed

end
