(* ===== verification/RingConcurrency.thy ===== *)
theory RingConcurrency
  imports RingBuffer
begin

text \<open>
  The ring between one producer and one consumer that run at the same time, as the kernel
  worker of \<open>ntrack_msg.c\<close> and the reading loop of \<open>nt_message.c\<close> do (and as the two
  processes of \<open>apps/ntrackd/src/main_test.c\<close> do).  A step of \<open>spsc_step\<close> is one call of an
  \<open>rbf_\<close> function or the copy of a single byte, and the two sides interleave freely.  The
  histories \<open>sent\<close> and \<open>seen\<close> record what was published and what the consumer looked at.
  Memory is sequentially consistent here, as the \<open>volatile\<close> indices are meant to be used.
\<close>

subsection \<open>The interleaved system\<close>

datatype prod_pc = P_idle | P_fill nat bytes nat
datatype cons_pc = C_idle | C_look nat bytes

record spsc =
  ring :: rbf_t
  prod :: prod_pc
  cons :: cons_pc
  sent :: "bytes list"
  seen :: "bytes list"

inductive spsc_step :: "spsc \<Rightarrow> spsc \<Rightarrow> bool" where
  reserve: "prod s = P_idle \<Longrightarrow> rbf_get_buff (ring s) = Inr (Some off) \<Longrightarrow>
    length msg \<le> RBF_NODE_SIZE \<Longrightarrow> spsc_step s (s\<lparr>prod := P_fill off msg 0\<rparr>)"
| full: "prod s = P_idle \<Longrightarrow> rbf_get_buff (ring s) = Inr None \<Longrightarrow> spsc_step s s"
| copy: "prod s = P_fill off msg k \<Longrightarrow> k < length msg \<Longrightarrow>
    rbf_write (ring s) (off + k) [msg ! k] = Inr rb' \<Longrightarrow>
    spsc_step s (s\<lparr>ring := rb', prod := P_fill off msg (Suc k)\<rparr>)"
| publish: "prod s = P_fill off msg (length msg) \<Longrightarrow> rbf_release_buff (ring s) = Inr rb' \<Longrightarrow>
    spsc_step s (s\<lparr>ring := rb', prod := P_idle, sent := sent s @ [msg]\<rparr>)"
| peek: "cons s = C_idle \<Longrightarrow> rbf_get_data (ring s) = Some off \<Longrightarrow>
    spsc_step s (s\<lparr>cons := C_look off []\<rparr>)"
| empty: "cons s = C_idle \<Longrightarrow> rbf_get_data (ring s) = None \<Longrightarrow> spsc_step s s"
| look: "cons s = C_look off acc \<Longrightarrow> length acc < RBF_NODE_SIZE \<Longrightarrow>
    mem_read (off + length acc) 1 (buffer (ring s)) = Inr bs \<Longrightarrow>
    spsc_step s (s\<lparr>cons := C_look off (acc @ bs)\<rparr>)"
| release: "cons s = C_look off acc \<Longrightarrow> rbf_release_data (ring s) = Inr rb' \<Longrightarrow>
    spsc_step s (s\<lparr>ring := rb', cons := C_idle, seen := seen s @ [acc]\<rparr>)"

definition spsc_start :: "rbf_t \<Rightarrow> spsc" where
  "spsc_start rb = \<lparr>ring = rb, prod = P_idle, cons = C_idle, sent = [], seen = []\<rparr>"

inductive spsc_reach :: "rbf_t \<Rightarrow> spsc \<Rightarrow> bool" for rb where
  start: "spsc_reach rb (spsc_start rb)"
| step: "spsc_reach rb s \<Longrightarrow> spsc_step s t \<Longrightarrow> spsc_reach rb t"

subsection \<open>The invariant\<close>

text \<open>What the consumer has looked at agrees with the message as far as both go.\<close>

definition agrees :: "bytes \<Rightarrow> bytes \<Rightarrow> bool" where
  "agrees acc msg \<longleftrightarrow> (\<forall>i < min (length acc) (length msg). acc ! i = msg ! i)"

definition prod_inv :: "spsc \<Rightarrow> bool" where
  "prod_inv s = (case prod s of
      P_idle \<Rightarrow> True
    | P_fill off msg k \<Rightarrow> off = RBF_NODE_SIZE * ring_w (ring s) \<and> length msg \<le> RBF_NODE_SIZE
        \<and> k \<le> length msg \<and> rbf_used (ring s) < rbf_capacity (ring s)
        \<and> take k (rbf_slot (ring s) (ring_w (ring s))) = take k msg)"

definition cons_inv :: "spsc \<Rightarrow> bool" where
  "cons_inv s = (case cons s of
      C_idle \<Rightarrow> True
    | C_look off acc \<Rightarrow> off = RBF_NODE_SIZE * ring_r (ring s) \<and> rbf_contents (ring s) \<noteq> []
        \<and> length acc \<le> RBF_NODE_SIZE
        \<and> acc = take (length acc) (rbf_slot (ring s) (ring_r (ring s))))"

definition hist_inv :: "spsc \<Rightarrow> bool" where
  "hist_inv s \<longleftrightarrow> length (seen s) \<le> length (sent s)
     \<and> list_all2 agrees (seen s) (take (length (seen s)) (sent s))
     \<and> list_all2 carries (rbf_contents (ring s)) (drop (length (seen s)) (sent s))"

definition spsc_inv :: "spsc \<Rightarrow> bool" where
  "spsc_inv s \<longleftrightarrow> rbf_ok (ring s) \<and> prod_inv s \<and> cons_inv s \<and> hist_inv s"

lemma inv_frame [simp]:
  "prod_inv (s\<lparr>cons := c\<rparr>) = prod_inv s" "cons_inv (s\<lparr>prod := p\<rparr>) = cons_inv s"
  "hist_inv (s\<lparr>cons := c\<rparr>) = hist_inv s" "hist_inv (s\<lparr>prod := p\<rparr>) = hist_inv s"
  by (simp_all add: prod_inv_def cons_inv_def hist_inv_def split: prod_pc.split cons_pc.split)

lemma carries_agrees:
  assumes "carries slot msg" "acc = take (length acc) slot"
  shows "agrees acc msg"
  unfolding agrees_def
proof (intro allI impI)
  fix i assume i: "i < min (length acc) (length msg)"
  have "acc ! i = take (length acc) slot ! i" by (rule arg_cong [OF assms(2)])
  also have "\<dots> = take (length msg) slot ! i" using i by simp
  also have "\<dots> = msg ! i" using assms(1) by (simp only: carries_def)
  finally show "acc ! i = msg ! i" .
qed

lemma slot_length: "rbf_ok rb \<Longrightarrow> i < ring_count rb \<Longrightarrow> length (rbf_slot rb i) = RBF_NODE_SIZE"
  using slot_end by (simp add: rbf_slot_def)

text \<open>The copy of one byte into the reserved node.\<close>

lemma write_byte_w:
  assumes "rbf_ok rb" "k < RBF_NODE_SIZE"
    and "rbf_write rb (RBF_NODE_SIZE * ring_w rb + k) [b] = Inr rb'"
  shows "rbf_ok rb'" "hdr rb' = hdr rb" "rbf_contents rb' = rbf_contents rb"
    "rbf_slot rb' (ring_w rb) = (rbf_slot rb (ring_w rb))[k := b]"
    "i \<noteq> ring_w rb \<Longrightarrow> rbf_slot rb' i = rbf_slot rb i"
proof -
  have "RBF_NODE_SIZE * ring_w rb + k < length (buffer rb)"
    using slot_end [OF assms(1) rbf_okD(2) [OF assms(1)]] assms(2) by simp
  then have rb': "rb' = rb\<lparr>buffer := (buffer rb)[RBF_NODE_SIZE * ring_w rb + k := b]\<rparr>"
    using assms(3) by (simp add: rbf_write_def mem_write_def overlay_single)
  then show "rbf_ok rb'" "hdr rb' = hdr rb" using assms(1) by (simp_all add: rbf_ok_def)
  show "rbf_slot rb' (ring_w rb) = (rbf_slot rb (ring_w rb))[k := b]"
    by (simp add: rb' rbf_slot_def chunk_update_same)
  show other: "rbf_slot rb' i = rbf_slot rb i" if "i \<noteq> ring_w rb" for i
    using that assms(2) by (simp add: rb' rbf_slot_def chunk_update_other)
  have "rbf_slot rb' ((ring_r rb + i) mod ring_count rb) = rbf_slot rb ((ring_r rb + i) mod ring_count rb)"
    if "i < rbf_used rb" for i
    by (rule other) (rule live_slot_not_w [OF assms(1) that])
  then show "rbf_contents rb' = rbf_contents rb"
    by (simp add: rbf_contents_def rbf_used_def rb')
qed

lemma take_Suc_update: "k < length xs \<Longrightarrow> take (Suc k) (xs[k := b]) = take k xs @ [b]"
  by (simp add: take_Suc_conv_app_nth)

lemma r_is_live:
  assumes "rbf_ok rb" "rbf_contents rb \<noteq> []" shows "ring_r rb \<noteq> ring_w rb"
  using assms rbf_okD(1) [OF assms(1)] by (auto simp: rbf_contents_def rbf_used_def)

lemma copy_inv:
  assumes "spsc_inv s" "prod s = P_fill off msg k" "k < length msg"
    and "rbf_write (ring s) (off + k) [msg ! k] = Inr rb'"
  shows "spsc_inv (s\<lparr>ring := rb', prod := P_fill off msg (Suc k)\<rparr>)"
proof -
  let ?rb = "ring s"
  have ok: "rbf_ok ?rb" and p: "off = RBF_NODE_SIZE * ring_w ?rb" "length msg \<le> RBF_NODE_SIZE"
    "rbf_used ?rb < rbf_capacity ?rb" "take k (rbf_slot ?rb (ring_w ?rb)) = take k msg"
    using assms(1,2) by (simp_all add: spsc_inv_def prod_inv_def)
  have k: "k < RBF_NODE_SIZE" using assms(3) p(2) by simp
  note wr = write_byte_w [OF ok k, of "msg ! k" rb', OF assms(4) [unfolded p(1)]]
  have len: "length (rbf_slot ?rb (ring_w ?rb)) = RBF_NODE_SIZE"
    using ok rbf_okD(2) by (intro slot_length)
  have "take (Suc k) (rbf_slot rb' (ring_w ?rb)) = take (Suc k) msg"
    using p(4) k len assms(3) by (simp add: wr(4) take_Suc_update take_Suc_conv_app_nth)
  then have "prod_inv (s\<lparr>ring := rb', prod := P_fill off msg (Suc k)\<rparr>)"
    using p assms(3) by (simp add: prod_inv_def rbf_used_def rbf_capacity_def wr(2))
  moreover have "cons_inv (s\<lparr>ring := rb', prod := P_fill off msg (Suc k)\<rparr>)"
  proof (cases "cons s")
    case C_idle then show ?thesis by (simp add: cons_inv_def)
  next
    case (C_look o2 acc)
    with assms(1) have "rbf_contents ?rb \<noteq> []" by (simp add: spsc_inv_def cons_inv_def)
    then have "rbf_slot rb' (ring_r ?rb) = rbf_slot ?rb (ring_r ?rb)"
      using r_is_live [OF ok] by (intro wr(5))
    then show ?thesis
      using assms(1) C_look by (simp add: spsc_inv_def cons_inv_def wr(2,3))
  qed
  moreover have "hist_inv (s\<lparr>ring := rb', prod := P_fill off msg (Suc k)\<rparr>)"
    using assms(1) by (simp add: spsc_inv_def hist_inv_def wr(3))
  ultimately show ?thesis using wr(1) by (simp add: spsc_inv_def)
qed

lemma publish_inv:
  assumes "spsc_inv s" "prod s = P_fill off msg (length msg)"
    and "rbf_release_buff (ring s) = Inr rb'"
  shows "spsc_inv (s\<lparr>ring := rb', prod := P_idle, sent := sent s @ [msg]\<rparr>)"
proof -
  let ?rb = "ring s"
  have ok: "rbf_ok ?rb" and free: "rbf_used ?rb < rbf_capacity ?rb"
    and car: "carries (rbf_slot ?rb (ring_w ?rb)) msg"
    using assms(1,2) by (simp_all add: spsc_inv_def prod_inv_def carries_def)
  obtain rb'': "rbf_ok rb'" "hdr_r (hdr rb') = hdr_r (hdr ?rb)" "buffer rb' = buffer ?rb"
    "rbf_contents rb' = rbf_contents ?rb @ [rbf_slot ?rb (ring_w ?rb)]"
    using rbf_release_buff_ok [OF ok free] assms(3) by auto
  have "hist_inv (s\<lparr>ring := rb', prod := P_idle, sent := sent s @ [msg]\<rparr>)"
    using assms(1) car
    by (auto simp: spsc_inv_def hist_inv_def rb''(4) intro: list_all2_appendI)
  moreover have "cons_inv (s\<lparr>ring := rb', prod := P_idle, sent := sent s @ [msg]\<rparr>)"
    using assms(1) rb'' by (auto simp: spsc_inv_def cons_inv_def rbf_slot_def split: cons_pc.splits)
  ultimately show ?thesis using rb''(1) by (simp add: spsc_inv_def prod_inv_def)
qed

text \<open>Looking at one more byte of a node.\<close>

lemma read_byte_slot:
  assumes "RBF_NODE_SIZE * i + RBF_NODE_SIZE \<le> length (buffer rb)" "acc = take (length acc) (rbf_slot rb i)"
    and "length acc < RBF_NODE_SIZE" "mem_read (RBF_NODE_SIZE * i + length acc) 1 (buffer rb) = Inr bs"
  shows "acc @ bs = take (length (acc @ bs)) (rbf_slot rb i)" "length bs = 1"
proof -
  have "bs = [buffer rb ! (RBF_NODE_SIZE * i + length acc)]"
    using assms by (simp add: mem_read_def window_def take_Suc_conv_app_nth split: if_splits)
  also have "\<dots> = [rbf_slot rb i ! length acc]" using assms by (simp add: rbf_slot_def nth_chunk)
  finally have bs: "bs = [rbf_slot rb i ! length acc]" .
  then show "length bs = 1" by simp
  have "length (rbf_slot rb i) = RBF_NODE_SIZE" using assms(1) by (simp add: rbf_slot_def)
  then have "take (Suc (length acc)) (rbf_slot rb i) = take (length acc) (rbf_slot rb i) @ [rbf_slot rb i ! length acc]"
    using assms(3) by (simp add: take_Suc_conv_app_nth)
  then show "acc @ bs = take (length (acc @ bs)) (rbf_slot rb i)" using assms(2) bs by simp
qed

lemma look_inv:
  assumes "spsc_inv s" "cons s = C_look off acc" "length acc < RBF_NODE_SIZE"
    and "mem_read (off + length acc) 1 (buffer (ring s)) = Inr bs"
  shows "spsc_inv (s\<lparr>cons := C_look off (acc @ bs)\<rparr>)"
proof -
  let ?slot = "rbf_slot (ring s) (ring_r (ring s))"
  have ok: "rbf_ok (ring s)" and c: "off = RBF_NODE_SIZE * ring_r (ring s)" "acc = take (length acc) ?slot"
    using assms(1,2) by (simp_all add: spsc_inv_def cons_inv_def)
  have "acc @ bs = take (length (acc @ bs)) ?slot" "length bs = 1"
    by (fact read_byte_slot [OF slot_end [OF ok rbf_okD(1) [OF ok]] c(2) assms(3) assms(4) [unfolded c(1)]])+
  then have "cons_inv (s\<lparr>cons := C_look off (acc @ bs)\<rparr>)"
    using assms(1-3) slot_length [OF ok rbf_okD(1) [OF ok]] unfolding spsc_inv_def cons_inv_def by simp
  then show ?thesis using assms(1) by (simp add: spsc_inv_def)
qed

lemma release_inv:
  assumes "spsc_inv s" "cons s = C_look off acc" "rbf_release_data (ring s) = Inr rb'"
  shows "spsc_inv (s\<lparr>ring := rb', cons := C_idle, seen := seen s @ [acc]\<rparr>)"
proof -
  let ?rb = "ring s"
  have ok: "rbf_ok ?rb" and ne: "rbf_contents ?rb \<noteq> []"
    and acc: "acc = take (length acc) (rbf_slot ?rb (ring_r ?rb))" and hi: "hist_inv s"
    using assms(1,2) by (simp_all add: spsc_inv_def cons_inv_def)
  obtain rb'': "rbf_ok rb'" "hdr_count (hdr rb') = hdr_count (hdr ?rb)"
    "hdr_w (hdr rb') = hdr_w (hdr ?rb)" "buffer rb' = buffer ?rb"
    "rbf_used ?rb = Suc (rbf_used rb')" "rbf_contents rb' = tl (rbf_contents ?rb)"
    using rbf_release_data_ok [OF ok ne] assms(3) by auto
  obtain c cs where cs: "rbf_contents ?rb = c # cs" using ne by (cases "rbf_contents ?rb") auto
  obtain m ms where ms: "drop (length (seen s)) (sent s) = m # ms" "carries c m"
    "list_all2 carries cs ms"
    using hi cs by (auto simp: hist_inv_def list_all2_Cons1)
  have "c = rbf_slot ?rb (ring_r ?rb)" using rbf_hd_contents [OF ok ne] cs by simp
  with ms(2) acc have ag: "agrees acc m" by (intro carries_agrees) simp_all
  have len: "length (seen s) < length (sent s)" using ms(1) by (cases "length (sent s) \<le> length (seen s)") auto
  have m: "sent s ! length (seen s) = m" using ms(1) len by (metis Cons_nth_drop_Suc list.inject)
  have ms': "drop (Suc (length (seen s))) (sent s) = ms"
    using ms(1) len by (metis Cons_nth_drop_Suc list.inject)
  have "hist_inv (s\<lparr>ring := rb', cons := C_idle, seen := seen s @ [acc]\<rparr>)"
    using hi len ag m ms' ms(3) cs rb''(6)
    by (auto simp: hist_inv_def take_Suc_conv_app_nth intro!: list_all2_appendI)
  moreover have "prod_inv (s\<lparr>ring := rb', cons := C_idle, seen := seen s @ [acc]\<rparr>)"
    using assms(1) rb''
    by (auto simp: spsc_inv_def prod_inv_def rbf_capacity_def rbf_slot_def split: prod_pc.splits)
  ultimately show ?thesis using rb''(1) by (simp add: spsc_inv_def cons_inv_def)
qed

lemma spsc_step_inv: "spsc_step s t \<Longrightarrow> spsc_inv s \<Longrightarrow> spsc_inv t"
proof (induction rule: spsc_step.induct)
  case (reserve s off msg)
  then show ?case
    using rbf_get_buff_ok [of "ring s"]
    by (auto simp: spsc_inv_def prod_inv_def split: if_splits)
next
  case (copy s off msg k rb') then show ?case by (intro copy_inv)
next
  case (publish s off msg rb') then show ?case by (intro publish_inv)
next
  case (peek s off)
  then show ?case
    using rbf_get_data_ok [of "ring s"]
    by (auto simp: spsc_inv_def cons_inv_def split: if_splits)
next
  case (look s off acc bs) then show ?case by (intro look_inv)
next
  case (release s off acc rb') then show ?case by (intro release_inv)
qed simp_all

lemma spsc_start_inv: "rbf_ok rb \<Longrightarrow> rbf_contents rb = [] \<Longrightarrow> spsc_inv (spsc_start rb)"
  by (simp add: spsc_inv_def spsc_start_def prod_inv_def cons_inv_def hist_inv_def)

lemma spsc_reach_inv:
  assumes "spsc_reach rb s" "rbf_ok rb" "rbf_contents rb = []"
  shows "spsc_inv s"
  using assms by (induction rule: spsc_reach.induct) (auto intro: spsc_start_inv spsc_step_inv)

subsection \<open>Delivery and absence of faults\<close>

text \<open>
  C1.  First-in first-out delivery under every interleaving.  In every state that one
  producer and one consumer can reach from an empty well-formed ring, the consumer has
  seen a prefix of the published messages, in the order of publication; every byte it
  looked at inside a message is that message's byte (no torn or stale read); and at most
  \<open>count - 1\<close> messages are in flight.
\<close>

theorem spsc_fifo:
  assumes "spsc_reach rb s" "rbf_ok rb" "rbf_contents rb = []"
  shows "length (seen s) \<le> length (sent s)
    \<and> list_all2 agrees (seen s) (take (length (seen s)) (sent s))
    \<and> length (sent s) - length (seen s) \<le> rbf_capacity (ring s)"
proof -
  have inv: "spsc_inv s" by (rule spsc_reach_inv [OF assms])
  then have "length (rbf_contents (ring s)) = length (drop (length (seen s)) (sent s))"
    unfolding spsc_inv_def hist_inv_def by (blast dest: list_all2_lengthD)
  moreover have "rbf_used (ring s) \<le> rbf_capacity (ring s)"
    using inv by (intro rbf_used_le) (simp add: spsc_inv_def)
  ultimately show ?thesis using inv by (simp add: spsc_inv_def hist_inv_def)
qed

definition ring2 :: rbf_t where
  "ring2 = \<lparr>hdr = \<lparr>hdr_r = 1, hdr_w = 1, hdr_size = 4096, hdr_count = 2, hdr_pad = 0\<rparr>,
            buffer = replicate 4096 0\<rparr>"

lemma ring2_ok: "rbf_ok ring2" "rbf_contents ring2 = []" "rbf_used ring2 = 0"
  by (simp_all add: rbf_ok_def ring2_def rbf_contents_def rbf_used_def)

definition ring2_full :: rbf_t where
  "ring2_full = ring2\<lparr>hdr := (hdr ring2)\<lparr>hdr_w := 0\<rparr>, buffer := (buffer ring2)[2048 := 7]\<rparr>"

definition ring2_done :: rbf_t where
  "ring2_done = ring2_full\<lparr>hdr := (hdr ring2_full)\<lparr>hdr_r := 0\<rparr>\<rparr>"

lemma ring2_filling: "spsc_reach ring2 ((spsc_start ring2)\<lparr>prod := P_fill 2048 [7] 0\<rparr>)"
  by (rule spsc_reach.step [OF spsc_reach.start], rule spsc_step.reserve)
    (simp_all add: spsc_start_def ring2_def rbf_get_buff_def rbf_next_def)

text \<open>A run: one byte is published across the wrap of the index and read back.\<close>

lemma ring2_run:
  "spsc_reach ring2
     \<lparr>ring = ring2_done, prod = P_idle, cons = C_idle, sent = [[7]], seen = [[7]]\<rparr>"
proof -
  let ?mid = "ring2\<lparr>buffer := (buffer ring2)[2048 := 7]\<rparr>"
  have 2: "spsc_reach ring2 ((spsc_start ring2)\<lparr>ring := ?mid, prod := P_fill 2048 [7] 1\<rparr>)"
    using spsc_reach.step [OF ring2_filling, OF spsc_step.copy [where k = 0 and rb' = ?mid]]
    by (simp add: spsc_start_def ring2_def rbf_write_def mem_write_def overlay_single)
  have 3: "spsc_reach ring2 ((spsc_start ring2)\<lparr>ring := ring2_full, sent := [[7]]\<rparr>)"
    using spsc_reach.step [OF 2, OF spsc_step.publish [where rb' = ring2_full]]
    by (simp add: spsc_start_def ring2_def ring2_full_def rbf_release_buff_def rbf_next_def)
  have 4: "spsc_reach ring2 ((spsc_start ring2)\<lparr>ring := ring2_full, sent := [[7]], cons := C_look 2048 []\<rparr>)"
    using spsc_reach.step [OF 3, OF spsc_step.peek [where off = 2048]]
    by (simp add: spsc_start_def ring2_def ring2_full_def rbf_get_data_def)
  have 5: "spsc_reach ring2 ((spsc_start ring2)\<lparr>ring := ring2_full, sent := [[7]], cons := C_look 2048 [7]\<rparr>)"
    using spsc_reach.step [OF 4, OF spsc_step.look [where bs = "[7]"]]
    by (simp add: spsc_start_def ring2_def ring2_full_def mem_read_def window_def
        drop_update_swap take_update_swap)
  show ?thesis
    using spsc_reach.step [OF 5, OF spsc_step.release [where rb' = ring2_done]]
    by (simp add: spsc_start_def ring2_def ring2_full_def ring2_done_def rbf_release_data_def rbf_next_def)
qed

lemma spsc_fifo_witness:
  "\<exists>s. spsc_reach ring2 s \<and> seen s = [[7]]
     \<and> list_all2 agrees (seen s) (take (length (seen s)) (sent s))
     \<and> length (sent s) - length (seen s) \<le> rbf_capacity (ring s)"
  using ring2_run spsc_fifo [OF ring2_run ring2_ok(1,2)]
  by (intro exI [of _ "\<lparr>ring = ring2_done, prod = P_idle, cons = C_idle, sent = [[7]], seen = [[7]]\<rparr>"]) simp

text \<open>
  No interleaving faults.  In every reachable state the reservation never divides by
  zero, a producer that is filling a node writes inside the ring and can publish, and a
  consumer that holds a node reads inside the ring and can release it.
\<close>

theorem spsc_no_fault:
  assumes "spsc_reach rb s" "rbf_ok rb" "rbf_contents rb = []"
  shows "(\<exists>p. rbf_get_buff (ring s) = Inr p)
    \<and> (\<forall>off msg k. prod s = P_fill off msg k \<longrightarrow>
         (k < length msg \<longrightarrow> (\<exists>rb'. rbf_write (ring s) (off + k) [msg ! k] = Inr rb'))
         \<and> (\<exists>rb'. rbf_release_buff (ring s) = Inr rb'))
    \<and> (\<forall>off acc. cons s = C_look off acc \<longrightarrow>
         (length acc < RBF_NODE_SIZE \<longrightarrow> (\<exists>b. mem_read (off + length acc) 1 (buffer (ring s)) = Inr b))
         \<and> (\<exists>rb'. rbf_release_data (ring s) = Inr rb'))"
proof (intro conjI allI impI)
  have inv: "spsc_inv s" by (rule spsc_reach_inv [OF assms])
  then have ok: "rbf_ok (ring s)" by (simp add: spsc_inv_def)
  note w = slot_end [OF ok rbf_okD(2) [OF ok]] and r = slot_end [OF ok rbf_okD(1) [OF ok]]
  show "\<exists>p. rbf_get_buff (ring s) = Inr p" by (simp add: rbf_get_buff_ok [OF ok])
  {
    fix off msg k assume p: "prod s = P_fill off msg k"
    then have *: "off = RBF_NODE_SIZE * ring_w (ring s)" "length msg \<le> RBF_NODE_SIZE"
      "rbf_used (ring s) < rbf_capacity (ring s)"
      using inv by (simp_all add: spsc_inv_def prod_inv_def)
    show "\<exists>rb'. rbf_write (ring s) (off + k) [msg ! k] = Inr rb'" if "k < length msg"
      using that * w by (simp add: rbf_write_def mem_write_def)
    show "\<exists>rb'. rbf_release_buff (ring s) = Inr rb'"
      using rbf_release_buff_ok [OF ok *(3)] by blast
  }
  {
    fix off acc assume c: "cons s = C_look off acc"
    then have *: "off = RBF_NODE_SIZE * ring_r (ring s)" "rbf_contents (ring s) \<noteq> []"
      using inv by (simp_all add: spsc_inv_def cons_inv_def)
    show "\<exists>b. mem_read (off + length acc) 1 (buffer (ring s)) = Inr b" if "length acc < RBF_NODE_SIZE"
      using that * r by (simp add: mem_read_def)
    show "\<exists>rb'. rbf_release_data (ring s) = Inr rb'"
      using rbf_release_data_ok [OF ok *(2)] by blast
  }
qed

lemma spsc_no_fault_witness:
  "let s = (spsc_start ring2)\<lparr>prod := P_fill 2048 [7] 0\<rparr> in
     spsc_reach ring2 s \<and> (\<exists>rb'. rbf_write (ring s) 2048 [7] = Inr rb')
     \<and> (\<exists>rb'. rbf_release_buff (ring s) = Inr rb')"
  using spsc_no_fault [OF ring2_filling ring2_ok(1,2)] ring2_filling by (auto simp: Let_def)

end
