(* ===== verification/RingTest.thy ===== *)
theory RingTest
  imports RingConcurrency
begin

text \<open>
  The ring test \<open>apps/ntrackd/src/main_test.c\<close>: a child process fills nodes with \<open>x\<close> and publishes
  them, the parent checks the first bytes of every node it is given, overwrites the node with
  dots and releases it.  The two run at the same time on one mapping; a step is one call of an
  \<open>rbf_\<close> function, one byte written or read, or one message printed.  The theory shows that the
  test never reports wrong data, and that neither process is ever stuck.
\<close>

subsection \<open>The two processes\<close>

abbreviation (input) letter_x :: byte where "letter_x \<equiv> 0x78"
abbreviation (input) letter_dot :: byte where "letter_dot \<equiv> 0x2e"

datatype child_pc = Ch_loop | Ch_fill nat nat
datatype parent_pc = Pa_loop | Pa_cmp nat bytes | Pa_fill nat nat

record ring_test =
  t_ring :: rbf_t
  t_child :: child_pc
  t_parent :: parent_pc
  t_out :: "string list"

inductive child_step :: "ring_test \<Rightarrow> ring_test \<Rightarrow> bool" where
  overflow: "t_child s = Ch_loop \<Longrightarrow> rbf_get_buff (t_ring s) = Inr None \<Longrightarrow>
    child_step s (s\<lparr>t_out := t_out s @ [''overflow'']\<rparr>)"
| get_buff: "t_child s = Ch_loop \<Longrightarrow> rbf_get_buff (t_ring s) = Inr (Some p) \<Longrightarrow>
    child_step s (s\<lparr>t_child := Ch_fill p 0\<rparr>)"
| set_x: "t_child s = Ch_fill p k \<Longrightarrow> k < RBF_NODE_SIZE \<Longrightarrow> rbf_write (t_ring s) (p + k) [letter_x] = Inr rb' \<Longrightarrow>
    child_step s (s\<lparr>t_ring := rb', t_child := Ch_fill p (Suc k)\<rparr>)"
| release_buff: "t_child s = Ch_fill p k \<Longrightarrow> k = RBF_NODE_SIZE \<Longrightarrow> rbf_release_buff (t_ring s) = Inr rb' \<Longrightarrow>
    child_step s (s\<lparr>t_ring := rb', t_child := Ch_loop\<rparr>)"

inductive parent_step :: "ring_test \<Rightarrow> ring_test \<Rightarrow> bool" where
  read_empty: "t_parent s = Pa_loop \<Longrightarrow> rbf_get_data (t_ring s) = None \<Longrightarrow>
    parent_step s (s\<lparr>t_out := t_out s @ [''read empty.'']\<rparr>)"
| get_data: "t_parent s = Pa_loop \<Longrightarrow> rbf_get_data (t_ring s) = Some p \<Longrightarrow>
    parent_step s (s\<lparr>t_parent := Pa_cmp p []\<rparr>)"
| cmp_byte: "t_parent s = Pa_cmp p acc \<Longrightarrow> length acc < 5 \<Longrightarrow>
    mem_read (p + length acc) 1 (buffer (t_ring s)) = Inr bs \<Longrightarrow>
    parent_step s (s\<lparr>t_parent := Pa_cmp p (acc @ bs)\<rparr>)"
| verdict: "t_parent s = Pa_cmp p acc \<Longrightarrow> length acc = 5 \<Longrightarrow>
    parent_step s (s\<lparr>t_parent := Pa_fill p 0,
      t_out := t_out s @ [if acc \<noteq> replicate 5 letter_x then ''read error data.'' else ''ok'']\<rparr>)"
| set_dot: "t_parent s = Pa_fill p k \<Longrightarrow> k < RBF_NODE_SIZE \<Longrightarrow> rbf_write (t_ring s) (p + k) [letter_dot] = Inr rb' \<Longrightarrow>
    parent_step s (s\<lparr>t_ring := rb', t_parent := Pa_fill p (Suc k)\<rparr>)"
| release_data: "t_parent s = Pa_fill p k \<Longrightarrow> k = RBF_NODE_SIZE \<Longrightarrow> rbf_release_data (t_ring s) = Inr rb' \<Longrightarrow>
    parent_step s (s\<lparr>t_ring := rb', t_parent := Pa_loop\<rparr>)"

definition test_start :: "rbf_t \<Rightarrow> ring_test" where
  "test_start rb = \<lparr>t_ring = rb, t_child = Ch_loop, t_parent = Pa_loop, t_out = []\<rparr>"

inductive test_reach :: "rbf_t \<Rightarrow> ring_test \<Rightarrow> bool" for rb where
  start: "test_reach rb (test_start rb)"
| child: "test_reach rb s \<Longrightarrow> child_step s t \<Longrightarrow> test_reach rb t"
| parent: "test_reach rb s \<Longrightarrow> parent_step s t \<Longrightarrow> test_reach rb t"

subsection \<open>Start-up\<close>

text \<open>
  What the system calls of \<open>main\<close> answer: whether \<open>open\<close> gives a descriptor, what \<open>mmap\<close> maps (nothing
  when it fails: it then returns \<open>MAP_FAILED\<close>, which is not null), whether \<open>fork\<close> and the two calls of
  \<open>sched_setaffinity\<close> succeed.
\<close>

record test_env =
  e_open :: bool
  e_mmap :: "rbf_t option"
  e_fork :: bool
  e_child_affinity :: bool
  e_parent_affinity :: bool

text \<open>A process that exits says why; one that does not runs its loop on the ring.\<close>

datatype test_run =
    Exits string
  | Runs "string option" "string option" rbf_t

definition test_size :: u32 where
  "test_size = word_of_nat RBF_NODE_SIZE * 1024 + sizeof_rbf_hdr_t"

definition test_main :: "test_env \<Rightarrow> test_run result" where
  "test_main e =
     (if \<not> e_open e then Inr (Exits ''open shm.'')
      else case e_mmap e of
        None \<Rightarrow> Inl Out_of_bounds
      | Some mem \<Rightarrow>
          let rbp = rbf_init mem test_size in
          if \<not> e_fork e then Inr (Exits ''fork failed.'')
          else Inr (Runs (if e_child_affinity e then None else Some ''set c affinity.'')
                         (if e_parent_affinity e then None else Some ''set p affinity.'') rbp))"

subsection \<open>The invariant\<close>

abbreviation node_x :: bytes where "node_x \<equiv> replicate RBF_NODE_SIZE letter_x"

definition child_inv :: "ring_test \<Rightarrow> bool" where
  "child_inv s = (case t_child s of
      Ch_loop \<Rightarrow> True
    | Ch_fill p k \<Rightarrow> p = RBF_NODE_SIZE * ring_w (t_ring s) \<and> k \<le> RBF_NODE_SIZE
        \<and> rbf_used (t_ring s) < rbf_capacity (t_ring s)
        \<and> take k (rbf_slot (t_ring s) (ring_w (t_ring s))) = replicate k letter_x)"

text \<open>The published nodes hold \<open>x\<close> throughout, apart from the one the parent is overwriting.\<close>

definition parent_inv :: "ring_test \<Rightarrow> bool" where
  "parent_inv s = (case t_parent s of
      Pa_loop \<Rightarrow> set (rbf_contents (t_ring s)) \<subseteq> {node_x}
    | Pa_cmp p acc \<Rightarrow> p = RBF_NODE_SIZE * ring_r (t_ring s) \<and> rbf_contents (t_ring s) \<noteq> []
        \<and> set (rbf_contents (t_ring s)) \<subseteq> {node_x} \<and> length acc \<le> 5 \<and> acc = replicate (length acc) letter_x
    | Pa_fill p k \<Rightarrow> p = RBF_NODE_SIZE * ring_r (t_ring s) \<and> rbf_contents (t_ring s) \<noteq> []
        \<and> set (tl (rbf_contents (t_ring s))) \<subseteq> {node_x} \<and> k \<le> RBF_NODE_SIZE)"

definition test_inv :: "ring_test \<Rightarrow> bool" where
  "test_inv s \<longleftrightarrow> rbf_ok (t_ring s) \<and> child_inv s \<and> parent_inv s \<and> ''read error data.'' \<notin> set (t_out s)"

lemma test_inv_frame [simp]:
  "child_inv (s\<lparr>t_parent := c\<rparr>) = child_inv s" "parent_inv (s\<lparr>t_child := d\<rparr>) = parent_inv s"
  "child_inv (s\<lparr>t_out := out\<rparr>) = child_inv s" "parent_inv (s\<lparr>t_out := out\<rparr>) = parent_inv s"
  by (simp_all add: child_inv_def parent_inv_def split: child_pc.split parent_pc.split)

text \<open>The copy of one byte into the node the consumer holds.\<close>

lemma write_byte_r:
  assumes "rbf_ok rb" "k < RBF_NODE_SIZE" "rbf_contents rb \<noteq> []"
    and "rbf_write rb (RBF_NODE_SIZE * ring_r rb + k) [b] = Inr rb'"
  shows "rbf_ok rb'" "hdr rb' = hdr rb" "tl (rbf_contents rb') = tl (rbf_contents rb)" "rbf_contents rb' \<noteq> []"
    "rbf_slot rb' (ring_w rb) = rbf_slot rb (ring_w rb)"
proof -
  note ok = rbf_okD [OF assms(1)]
  have "RBF_NODE_SIZE * ring_r rb + k < length (buffer rb)" using slot_end [OF assms(1) ok(1)] assms(2) by simp
  then have rb': "rb' = rb\<lparr>buffer := (buffer rb)[RBF_NODE_SIZE * ring_r rb + k := b]\<rparr>"
    using assms(4) by (simp add: rbf_write_def mem_write_def overlay_single)
  then show "rbf_ok rb'" "hdr rb' = hdr rb" using assms(1) by (simp_all add: rbf_ok_def)
  have other: "rbf_slot rb' i = rbf_slot rb i" if "i \<noteq> ring_r rb" for i
    using that assms(2) by (simp add: rb' rbf_slot_def chunk_update_other)
  then show "rbf_slot rb' (ring_w rb) = rbf_slot rb (ring_w rb)" using r_is_live [OF assms(1,3)] by simp
  show "rbf_contents rb' \<noteq> []" using assms(3) by (simp add: rbf_contents_def rbf_used_def rb')
  have "(ring_r rb + i) mod ring_count rb \<noteq> ring_r rb" if "0 < i" "i < rbf_used rb" for i
    using ring_index_inj [of i "ring_count rb" 0 "ring_r rb"] that ok(1) ring_dist_less [OF ok(3)]
    by (fastforce simp: rbf_used_def intro: less_trans)
  then show "tl (rbf_contents rb') = tl (rbf_contents rb)"
    using other by (simp add: rbf_contents_def rbf_used_def rb' flip: map_tl)
qed

lemma set_x_inv:
  assumes "test_inv s" "t_child s = Ch_fill p k" "k < RBF_NODE_SIZE" "rbf_write (t_ring s) (p + k) [letter_x] = Inr rb'"
  shows "test_inv (s\<lparr>t_ring := rb', t_child := Ch_fill p (Suc k)\<rparr>)"
proof -
  let ?rb = "t_ring s"
  have ok: "rbf_ok ?rb" and p: "p = RBF_NODE_SIZE * ring_w ?rb" "rbf_used ?rb < rbf_capacity ?rb"
    "take k (rbf_slot ?rb (ring_w ?rb)) = replicate k letter_x"
    using assms(1,2) by (simp_all add: test_inv_def child_inv_def)
  note wr = write_byte_w [OF ok assms(3), of letter_x rb', OF assms(4) [unfolded p(1)]]
  have "length (rbf_slot ?rb (ring_w ?rb)) = RBF_NODE_SIZE" using ok rbf_okD(2) by (intro slot_length)
  then have "take (Suc k) (rbf_slot rb' (ring_w ?rb)) = replicate (Suc k) letter_x"
    using p(3) assms(3) by (simp add: wr(4) take_Suc_update replicate_append_same)
  then have "child_inv (s\<lparr>t_ring := rb', t_child := Ch_fill p (Suc k)\<rparr>)"
    using p assms(3) by (simp add: child_inv_def rbf_used_def rbf_capacity_def wr(2))
  moreover have "parent_inv (s\<lparr>t_ring := rb', t_child := Ch_fill p (Suc k)\<rparr>)"
    using assms(1) by (simp add: test_inv_def parent_inv_def wr(2,3) split: parent_pc.splits)
  ultimately show ?thesis using assms(1) wr(1) by (simp add: test_inv_def)
qed

lemma release_buff_inv:
  assumes "test_inv s" "t_child s = Ch_fill p RBF_NODE_SIZE" "rbf_release_buff (t_ring s) = Inr rb'"
  shows "test_inv (s\<lparr>t_ring := rb', t_child := Ch_loop\<rparr>)"
proof -
  let ?rb = "t_ring s"
  have ok: "rbf_ok ?rb" and free: "rbf_used ?rb < rbf_capacity ?rb"
    and x: "take RBF_NODE_SIZE (rbf_slot ?rb (ring_w ?rb)) = node_x"
    using assms(1,2) by (simp_all add: test_inv_def child_inv_def)
  have "length (rbf_slot ?rb (ring_w ?rb)) = RBF_NODE_SIZE" using ok rbf_okD(2) by (intro slot_length)
  then have w: "rbf_slot ?rb (ring_w ?rb) = node_x" using x by simp
  obtain rb'': "rbf_ok rb'" "hdr_r (hdr rb') = hdr_r (hdr ?rb)"
    "rbf_contents rb' = rbf_contents ?rb @ [rbf_slot ?rb (ring_w ?rb)]"
    using rbf_release_buff_ok [OF ok free] assms(3) by auto
  have "parent_inv (s\<lparr>t_ring := rb', t_child := Ch_loop\<rparr>)"
    using assms(1) by (auto simp: test_inv_def parent_inv_def rb'' w split: parent_pc.splits)
  then show ?thesis using assms(1) rb''(1) by (simp add: test_inv_def child_inv_def)
qed

lemma child_step_inv: "child_step s t \<Longrightarrow> test_inv s \<Longrightarrow> test_inv t"
proof (induction rule: child_step.induct)
  case (get_buff s p)
  then show ?case using rbf_get_buff_ok [of "t_ring s"] by (auto simp: test_inv_def child_inv_def split: if_splits)
next
  case (set_x s p k rb') then show ?case by (intro set_x_inv)
next
  case (release_buff s p k rb') then show ?case using release_buff_inv by blast
qed (simp add: test_inv_def)

lemma cmp_byte_inv:
  assumes "test_inv s" "t_parent s = Pa_cmp p acc" "length acc < 5" "mem_read (p + length acc) 1 (buffer (t_ring s)) = Inr bs"
  shows "test_inv (s\<lparr>t_parent := Pa_cmp p (acc @ bs)\<rparr>)"
proof -
  let ?rb = "t_ring s"
  have ok: "rbf_ok ?rb" and c: "p = RBF_NODE_SIZE * ring_r ?rb" "rbf_contents ?rb \<noteq> []" "set (rbf_contents ?rb) \<subseteq> {node_x}"
    "acc = replicate (length acc) letter_x"
    using assms(1,2) by (simp_all add: test_inv_def parent_inv_def)
  have slot: "rbf_slot ?rb (ring_r ?rb) = node_x" using rbf_hd_contents [OF ok c(2)] c(2,3) hd_in_set by fastforce
  have se: "RBF_NODE_SIZE * ring_r ?rb + RBF_NODE_SIZE \<le> length (buffer ?rb)"
    using slot_end [OF ok rbf_okD(1) [OF ok]] .
  have "bs = [buffer ?rb ! (p + length acc)]"
    using assms(3,4) c(1) se by (simp add: mem_read_def window_def take_Suc_conv_app_nth split: if_splits)
  also have "\<dots> = [rbf_slot ?rb (ring_r ?rb) ! length acc]"
    using assms(3) c(1) se by (simp add: rbf_slot_def nth_chunk)
  finally have bs: "bs = [letter_x]" using assms(3) by (simp add: slot)
  have "acc @ [letter_x] = replicate (length acc) letter_x @ [letter_x]" by (rule arg_cong [OF c(4)])
  then have "acc @ bs = replicate (length (acc @ bs)) letter_x" unfolding bs by (simp add: replicate_append_same)
  then show ?thesis using assms(1-3) c bs by (simp add: test_inv_def parent_inv_def)
qed

lemma set_dot_inv:
  assumes "test_inv s" "t_parent s = Pa_fill p k" "k < RBF_NODE_SIZE" "rbf_write (t_ring s) (p + k) [letter_dot] = Inr rb'"
  shows "test_inv (s\<lparr>t_ring := rb', t_parent := Pa_fill p (Suc k)\<rparr>)"
proof -
  let ?rb = "t_ring s"
  have ok: "rbf_ok ?rb" and c: "p = RBF_NODE_SIZE * ring_r ?rb" "rbf_contents ?rb \<noteq> []" "set (tl (rbf_contents ?rb)) \<subseteq> {node_x}"
    using assms(1,2) by (simp_all add: test_inv_def parent_inv_def)
  note wr = write_byte_r [OF ok assms(3) c(2), of letter_dot rb', OF assms(4) [unfolded c(1)]]
  have "child_inv (s\<lparr>t_ring := rb', t_parent := Pa_fill p (Suc k)\<rparr>)"
    using assms(1) by (simp add: test_inv_def child_inv_def rbf_used_def rbf_capacity_def wr split: child_pc.splits)
  moreover have "parent_inv (s\<lparr>t_ring := rb', t_parent := Pa_fill p (Suc k)\<rparr>)"
    using c assms(3) by (simp add: parent_inv_def wr)
  ultimately show ?thesis using assms(1) wr(1) by (simp add: test_inv_def)
qed

lemma release_data_inv:
  assumes "test_inv s" "t_parent s = Pa_fill p k" "rbf_release_data (t_ring s) = Inr rb'"
  shows "test_inv (s\<lparr>t_ring := rb', t_parent := Pa_loop\<rparr>)"
proof -
  let ?rb = "t_ring s"
  have ok: "rbf_ok ?rb" and ne: "rbf_contents ?rb \<noteq> []" and x: "set (tl (rbf_contents ?rb)) \<subseteq> {node_x}"
    using assms(1,2) by (simp_all add: test_inv_def parent_inv_def)
  obtain rb'': "rbf_ok rb'" "hdr_count (hdr rb') = hdr_count (hdr ?rb)" "hdr_w (hdr rb') = hdr_w (hdr ?rb)"
    "buffer rb' = buffer ?rb" "rbf_used ?rb = Suc (rbf_used rb')" "rbf_contents rb' = tl (rbf_contents ?rb)"
    using rbf_release_data_ok [OF ok ne] assms(3) by auto
  have "child_inv (s\<lparr>t_ring := rb', t_parent := Pa_loop\<rparr>)"
    using assms(1) rb'' by (auto simp: test_inv_def child_inv_def rbf_capacity_def rbf_slot_def split: child_pc.splits)
  then show ?thesis using assms(1) rb'' x by (simp add: test_inv_def parent_inv_def)
qed

lemma parent_step_inv: "parent_step s t \<Longrightarrow> test_inv s \<Longrightarrow> test_inv t"
proof (induction rule: parent_step.induct)
  case (get_data s p)
  then show ?case using rbf_get_data_ok [of "t_ring s"] by (auto simp: test_inv_def parent_inv_def split: if_splits)
next
  case (cmp_byte s p acc bs) then show ?case by (intro cmp_byte_inv)
next
  case (verdict s p acc)
  then have "acc = replicate 5 letter_x" "set (tl (rbf_contents (t_ring s))) \<subseteq> set (rbf_contents (t_ring s))"
    using list.set_sel(2) by (auto simp: test_inv_def parent_inv_def)
  then show ?case using verdict by (auto simp: test_inv_def parent_inv_def child_inv_def split: child_pc.splits)
next
  case (set_dot s p k rb') then show ?case by (intro set_dot_inv)
next
  case (release_data s p k rb') then show ?case by (intro release_data_inv)
qed (simp add: test_inv_def)

lemma test_reach_inv:
  assumes "test_reach rb s" "rbf_ok rb" "rbf_contents rb = []"
  shows "test_inv s"
  using assms(1)
proof (induction rule: test_reach.induct)
  case start
  then show ?case using assms(2,3) by (simp add: test_inv_def test_start_def child_inv_def parent_inv_def)
next
  case (child s t)
  then show ?case using child_step_inv by blast
next
  case (parent s t)
  then show ?case using parent_step_inv by blast
qed

text \<open>Neither process is ever stuck: whatever the other does, its next statement can be executed.\<close>

lemma child_not_stuck:
  assumes "test_inv s" shows "\<exists>t. child_step s t"
proof -
  let ?rb = "t_ring s"
  have ok: "rbf_ok ?rb" using assms by (simp add: test_inv_def)
  show ?thesis
  proof (cases "t_child s")
    case Ch_loop
    then show ?thesis using rbf_get_buff_ok [OF ok] child_step.overflow [of s] child_step.get_buff [of s]
      by (cases "rbf_used ?rb < rbf_capacity ?rb") auto
  next
    case (Ch_fill p k)
    then have *: "p = RBF_NODE_SIZE * ring_w ?rb" "k \<le> RBF_NODE_SIZE" "rbf_used ?rb < rbf_capacity ?rb"
      using assms by (simp_all add: test_inv_def child_inv_def)
    show ?thesis
    proof (cases "k = RBF_NODE_SIZE")
      case True
      then show ?thesis using rbf_release_buff_ok [OF ok *(3)] child_step.release_buff [OF Ch_fill] by metis
    next
      case False
      then have "\<exists>rb'. rbf_write ?rb (p + k) [letter_x] = Inr rb'"
        using * slot_end [OF ok rbf_okD(2) [OF ok]] by (simp add: rbf_write_def mem_write_def)
      then show ?thesis using False *(2) child_step.set_x [OF Ch_fill] by fastforce
    qed
  qed
qed

lemma parent_not_stuck:
  assumes "test_inv s" shows "\<exists>t. parent_step s t"
proof -
  let ?rb = "t_ring s"
  have ok: "rbf_ok ?rb" using assms by (simp add: test_inv_def)
  note se = slot_end [OF ok rbf_okD(1) [OF ok]]
  show ?thesis
  proof (cases "t_parent s")
    case Pa_loop
    then show ?thesis using parent_step.read_empty [of s] parent_step.get_data [of s] by (cases "rbf_get_data ?rb") auto
  next
    case (Pa_cmp p acc)
    then have *: "p = RBF_NODE_SIZE * ring_r ?rb" "length acc \<le> 5"
      using assms by (simp_all add: test_inv_def parent_inv_def)
    then have "length acc < 5 \<Longrightarrow> \<exists>bs. mem_read (p + length acc) 1 (buffer ?rb) = Inr bs"
      using se by (simp add: mem_read_def)
    then show ?thesis using parent_step.cmp_byte [OF Pa_cmp] parent_step.verdict [OF Pa_cmp] *(2)
      by (cases "length acc = 5") auto
  next
    case (Pa_fill p k)
    then have *: "p = RBF_NODE_SIZE * ring_r ?rb" "k \<le> RBF_NODE_SIZE" "rbf_contents ?rb \<noteq> []"
      using assms by (simp_all add: test_inv_def parent_inv_def)
    show ?thesis
    proof (cases "k = RBF_NODE_SIZE")
      case True
      then show ?thesis using rbf_release_data_ok [OF ok *(3)] parent_step.release_data [OF Pa_fill] by metis
    next
      case False
      then have "\<exists>rb'. rbf_write ?rb (p + k) [letter_dot] = Inr rb'"
        using * se by (simp add: rbf_write_def mem_write_def)
      then show ?thesis using False *(2) parent_step.set_dot [OF Pa_fill] by fastforce
    qed
  qed
qed

text \<open>A node that is there is found right: the parent compares five bytes and prints \<open>ok\<close>.\<close>

inductive_cases parent_cmp_cases: "parent_step s t"

lemma parent_compares:
  assumes "test_inv s" "t_parent s = Pa_cmp p acc"
  shows "\<exists>t. parent_step\<^sup>*\<^sup>* s t \<and> t_out t = t_out s @ [''ok'']"
  using assms
proof (induction "5 - length acc" arbitrary: s acc)
  case 0
  then have acc: "length acc = 5" "acc = replicate 5 letter_x" by (auto simp: test_inv_def parent_inv_def)
  show ?case using parent_step.verdict [OF 0(3) acc(1)] acc(2) by (intro exI conjI r_into_rtranclp) auto
next
  case (Suc n)
  obtain t where t: "parent_step s t" using parent_not_stuck [OF Suc(3)] by blast
  then obtain bs where bs: "t = s\<lparr>t_parent := Pa_cmp p (acc @ bs)\<rparr>" "length bs = 1"
    using Suc(2,4) by (auto elim!: parent_cmp_cases simp: mem_read_def window_def split: if_splits)
  have "\<exists>u. parent_step\<^sup>*\<^sup>* t u \<and> t_out u = t_out t @ [''ok'']"
    using Suc(2) bs parent_step_inv [OF t Suc(3)] by (intro Suc(1) [of "acc @ bs"]) auto
  then show ?case using t bs(1) by (auto intro: converse_rtranclp_into_rtranclp)
qed

lemma parent_finds_ok:
  assumes "test_inv s" "t_parent s = Pa_loop" "rbf_contents (t_ring s) \<noteq> []"
  shows "\<exists>t. parent_step\<^sup>*\<^sup>* s t \<and> t_out t = t_out s @ [''ok'']"
proof -
  have "rbf_get_data (t_ring s) = Some (RBF_NODE_SIZE * ring_r (t_ring s))"
    using assms by (simp add: rbf_get_data_ok test_inv_def)
  then have step: "parent_step s (s\<lparr>t_parent := Pa_cmp (RBF_NODE_SIZE * ring_r (t_ring s)) []\<rparr>)"
    using assms(2) by (intro parent_step.get_data)
  show ?thesis using parent_compares [OF parent_step_inv [OF step assms(1)], of _ "[]"] step
    by (auto intro: converse_rtranclp_into_rtranclp)
qed

text \<open>The ring of the test: 1024 nodes at the start of the mapping of 4 MiB.\<close>

lemma test_ring_ok:
  assumes "hdr_r (hdr mem) = hdr_w (hdr mem)" "unat (hdr_r (hdr mem)) < 1024" "length (buffer mem) = 4 * 2 ^ 20 - 12"
  shows "rbf_ok (rbf_init mem test_size)" "rbf_contents (rbf_init mem test_size) = []"
proof -
  have c: "hdr_count (hdr (rbf_init mem test_size)) = 1024"
    by (simp add: rbf_init_def Let_def test_size_def)
  then show "rbf_ok (rbf_init mem test_size)"
    using assms by (simp add: rbf_ok_def) (simp add: rbf_init_def Let_def)
  show "rbf_contents (rbf_init mem test_size) = []"
    using assms(1) by (simp add: rbf_contents_def rbf_used_def ring_dist_def rbf_init_def Let_def)
qed

text \<open>
  C22.  The ring test passes under every interleaving.  When its system calls succeed and the
  memory it maps holds equal indices inside the ring, the two processes run on a ring of 1024
  nodes; the parent never reports wrong data, though it overwrites every node it has checked
  while the child is writing others; in every state each of the two can go on; and when a node
  is published and the parent is back at the head of its loop, it goes on to find the node right.
\<close>

theorem ring_test_passes:
  assumes "test_main e = Inr (Runs None None rb)" "e_mmap e = Some mem"
    and "hdr_r (hdr mem) = hdr_w (hdr mem)" "unat (hdr_r (hdr mem)) < 1024" "length (buffer mem) = 4 * 2 ^ 20 - 12"
    and "test_reach rb s"
  shows "''read error data.'' \<notin> set (t_out s) \<and> (\<exists>t. child_step s t) \<and> (\<exists>t. parent_step s t)
    \<and> (t_parent s = Pa_loop \<longrightarrow> rbf_contents (t_ring s) \<noteq> []
         \<longrightarrow> (\<exists>t. parent_step\<^sup>*\<^sup>* s t \<and> t_out t = t_out s @ [''ok'']))"
proof -
  have "rb = rbf_init mem test_size" using assms(1,2) by (auto simp: test_main_def Let_def split: if_splits)
  then have "test_inv s" using test_reach_inv [OF assms(6)] test_ring_ok [OF assms(3-5)] by simp
  then show ?thesis using child_not_stuck parent_not_stuck parent_finds_ok by (simp add: test_inv_def)
qed

definition test_memory :: rbf_t where
  "test_memory = \<lparr>hdr = \<lparr>hdr_r = 5, hdr_w = 5, hdr_size = 0, hdr_count = 0, hdr_pad = 0\<rparr>,
                  buffer = replicate (4 * 2 ^ 20 - 12) 0\<rparr>"

lemma ring_test_passes_witness:
  "let e = \<lparr>e_open = True, e_mmap = Some test_memory, e_fork = True, e_child_affinity = True, e_parent_affinity = True\<rparr>;
       s = (test_start (rbf_init test_memory test_size))\<lparr>t_out := [''read empty.'']\<rparr>
   in test_main e = Inr (Runs None None (rbf_init test_memory test_size))
      \<and> test_reach (rbf_init test_memory test_size) s
      \<and> ''read error data.'' \<notin> set (t_out s) \<and> (\<exists>t. child_step s t) \<and> (\<exists>t. parent_step s t)"
proof -
  let ?e = "\<lparr>e_open = True, e_mmap = Some test_memory, e_fork = True, e_child_affinity = True, e_parent_affinity = True\<rparr>"
    and ?rb = "rbf_init test_memory test_size"
  have run: "test_main ?e = Inr (Runs None None ?rb)" by (simp add: test_main_def Let_def)
  have step: "parent_step (test_start ?rb) ((test_start ?rb)\<lparr>t_out := [''read empty.'']\<rparr>)"
    using parent_step.read_empty [of "test_start ?rb"]
    by (simp add: test_start_def rbf_get_data_def rbf_init_def test_memory_def Let_def)
  have reach: "test_reach ?rb ((test_start ?rb)\<lparr>t_out := [''read empty.'']\<rparr>)"
    by (rule test_reach.parent [OF test_reach.start step])
  show ?thesis using ring_test_passes [OF run _ _ _ _ reach, of test_memory] run reach
    by (simp add: test_memory_def Let_def)
qed

end
