(* ===== verification/RingStores.thy ===== *)
theory RingStores
  imports RingConcurrency
begin

text \<open>
  The ring of \<open>include/src/ntrack_rbf.h\<close> on machines whose stores do not reach the memory at once.
  The stores of each side wait in a buffer of its own; a side sees its own stores, the other
  side sees what has been committed.  The functions of the header run on the view of the side
  that calls them.  \<open>RingConcurrency\<close> is the case of empty buffers.  Loads take effect in program
  order.

  Three kinds of machines are compared: stores are committed in order, as on x86; stores of
  bytes may overtake each other but not the store of an index, which is what a write barrier
  in front of the publication gives; and stores to different places are committed in any
  order.  The header has no barrier (the indices are \<open>volatile\<close>, the bytes are not, and nothing
  orders the stores of the bytes before that of the index), so the third kind is the one that the
  code meets on weakly ordered machines.
\<close>

subsection \<open>Stores and their order\<close>

datatype store = Byte nat byte | Set_w u16 | Set_r u16

fun apply_store :: "store \<Rightarrow> rbf_t \<Rightarrow> rbf_t" where
  "apply_store (Byte i b) rb = rb\<lparr>buffer := (buffer rb)[i := b]\<rparr>"
| "apply_store (Set_w v) rb = rb\<lparr>hdr := (hdr rb)\<lparr>hdr_w := v\<rparr>\<rparr>"
| "apply_store (Set_r v) rb = rb\<lparr>hdr := (hdr rb)\<lparr>hdr_r := v\<rparr>\<rparr>"

definition apply_stores :: "store list \<Rightarrow> rbf_t \<Rightarrow> rbf_t" where
  "apply_stores ws rb = fold apply_store ws rb"

fun same_place :: "store \<Rightarrow> store \<Rightarrow> bool" where
  "same_place (Byte i _) (Byte j _) \<longleftrightarrow> i = j"
| "same_place (Set_w _) (Set_w _) \<longleftrightarrow> True"
| "same_place (Set_r _) (Set_r _) \<longleftrightarrow> True"
| "same_place _ _ \<longleftrightarrow> False"

datatype machine = In_order | Barrier | Unordered

text \<open>May a store be committed before one that was issued earlier?\<close>

fun overtakes :: "machine \<Rightarrow> store \<Rightarrow> store \<Rightarrow> bool" where
  "overtakes In_order x y \<longleftrightarrow> False"
| "overtakes Barrier (Byte i _) (Byte j _) \<longleftrightarrow> i \<noteq> j"
| "overtakes Barrier _ _ \<longleftrightarrow> False"
| "overtakes Unordered x y \<longleftrightarrow> \<not> same_place x y"

subsection \<open>The interleaved system with store buffers\<close>

record buffered =
  b_mem :: rbf_t
  b_pbuf :: "store list"
  b_cbuf :: "store list"
  b_prod :: prod_pc
  b_cons :: cons_pc
  b_sent :: "bytes list"
  b_seen :: "bytes list"

definition pview :: "buffered \<Rightarrow> rbf_t" where
  "pview s = apply_stores (b_pbuf s) (b_mem s)"

definition cview :: "buffered \<Rightarrow> rbf_t" where
  "cview s = apply_stores (b_cbuf s) (b_mem s)"

inductive store_step :: "machine \<Rightarrow> buffered \<Rightarrow> buffered \<Rightarrow> bool" for m :: machine where
  reserve: "b_prod s = P_idle \<Longrightarrow> rbf_get_buff (pview s) = Inr (Some off) \<Longrightarrow> length msg \<le> RBF_NODE_SIZE
    \<Longrightarrow> store_step m s (s\<lparr>b_prod := P_fill off msg 0\<rparr>)"
| full: "b_prod s = P_idle \<Longrightarrow> rbf_get_buff (pview s) = Inr None \<Longrightarrow> store_step m s s"
| copy: "b_prod s = P_fill off msg k \<Longrightarrow> k < length msg
    \<Longrightarrow> store_step m s (s\<lparr>b_pbuf := b_pbuf s @ [Byte (off + k) (msg ! k)], b_prod := P_fill off msg (Suc k)\<rparr>)"
| publish: "b_prod s = P_fill off msg (length msg) \<Longrightarrow> rbf_release_buff (pview s) = Inr rb'
    \<Longrightarrow> store_step m s (s\<lparr>b_pbuf := b_pbuf s @ [Set_w (hdr_w (hdr rb'))], b_prod := P_idle, b_sent := b_sent s @ [msg]\<rparr>)"
| peek: "b_cons s = C_idle \<Longrightarrow> rbf_get_data (cview s) = Some off
    \<Longrightarrow> store_step m s (s\<lparr>b_cons := C_look off []\<rparr>)"
| empty: "b_cons s = C_idle \<Longrightarrow> rbf_get_data (cview s) = None \<Longrightarrow> store_step m s s"
| look: "b_cons s = C_look off acc \<Longrightarrow> length acc < RBF_NODE_SIZE
    \<Longrightarrow> mem_read (off + length acc) 1 (buffer (cview s)) = Inr bs
    \<Longrightarrow> store_step m s (s\<lparr>b_cons := C_look off (acc @ bs)\<rparr>)"
| release: "b_cons s = C_look off acc \<Longrightarrow> rbf_release_data (cview s) = Inr rb'
    \<Longrightarrow> store_step m s (s\<lparr>b_cbuf := b_cbuf s @ [Set_r (hdr_r (hdr rb'))], b_cons := C_idle, b_seen := b_seen s @ [acc]\<rparr>)"
| commit_p: "b_pbuf s = pre @ x # post \<Longrightarrow> \<forall>y \<in> set pre. overtakes m x y
    \<Longrightarrow> store_step m s (s\<lparr>b_mem := apply_store x (b_mem s), b_pbuf := pre @ post\<rparr>)"
| commit_c: "b_cbuf s = pre @ x # post \<Longrightarrow> \<forall>y \<in> set pre. overtakes m x y
    \<Longrightarrow> store_step m s (s\<lparr>b_mem := apply_store x (b_mem s), b_cbuf := pre @ post\<rparr>)"

definition store_start :: "rbf_t \<Rightarrow> buffered" where
  "store_start rb = \<lparr>b_mem = rb, b_pbuf = [], b_cbuf = [], b_prod = P_idle, b_cons = C_idle, b_sent = [], b_seen = []\<rparr>"

inductive store_reach :: "machine \<Rightarrow> rbf_t \<Rightarrow> buffered \<Rightarrow> bool" for m rb where
  start: "store_reach m rb (store_start rb)"
| step: "store_reach m rb s \<Longrightarrow> store_step m s t \<Longrightarrow> store_reach m rb t"

text \<open>A machine that commits in order is a machine with a barrier.\<close>

lemma In_order_Barrier: "store_step In_order s t \<Longrightarrow> store_step Barrier s t"
  by (induction rule: store_step.induct)
    (auto intro: store_step.intros store_step.commit_p [where pre = "[]", simplified]
      store_step.commit_c [where pre = "[]", simplified])

lemma store_reach_Barrier: "store_reach In_order rb s \<Longrightarrow> store_reach Barrier rb s"
  by (induction rule: store_reach.induct) (auto intro: store_reach.intros In_order_Barrier)

subsection \<open>What pending stores change\<close>

lemma apply_stores_simps [simp]:
  "apply_stores [] rb = rb"
  "apply_stores (x # ws) rb = apply_stores ws (apply_store x rb)"
  "apply_stores (ws @ vs) rb = apply_stores vs (apply_stores ws rb)"
  by (simp_all add: apply_stores_def)

text \<open>
  The pending stores of a producer whose committed index is \<open>n\<close> (counted without wrapping): bytes
  of the node of that index, then the next index, and so on.
\<close>

fun fills :: "nat \<Rightarrow> nat \<Rightarrow> store list \<Rightarrow> bool" where
  "fills c n [] \<longleftrightarrow> True"
| "fills c n (Byte i b # ws) \<longleftrightarrow> i div RBF_NODE_SIZE = n mod c \<and> fills c n ws"
| "fills c n (Set_w v # ws) \<longleftrightarrow> unat v = Suc n mod c \<and> fills c (Suc n) ws"
| "fills c n (Set_r v # ws) \<longleftrightarrow> False"

fun publishes :: "store list \<Rightarrow> nat" where
  "publishes [] = 0"
| "publishes (Set_w v # ws) = Suc (publishes ws)"
| "publishes (_ # ws) = publishes ws"

fun frees :: "nat \<Rightarrow> nat \<Rightarrow> store list \<Rightarrow> bool" where
  "frees c n [] \<longleftrightarrow> True"
| "frees c n (Set_r v # ws) \<longleftrightarrow> unat v = Suc n mod c \<and> frees c (Suc n) ws"
| "frees c n (_ # ws) \<longleftrightarrow> False"

lemma publishes_append [simp]: "publishes (ws @ vs) = publishes ws + publishes vs"
  by (induction ws rule: publishes.induct) simp_all

lemma fills_append [simp]: "fills c n (ws @ vs) \<longleftrightarrow> fills c n ws \<and> fills c (n + publishes ws) vs"
  by (induction c n ws rule: fills.induct) simp_all

lemma frees_append [simp]: "frees c n (ws @ vs) \<longleftrightarrow> frees c n ws \<and> frees c (n + length ws) vs"
  by (induction c n ws rule: frees.induct) simp_all

lemma slot_byte_other:
  "i div RBF_NODE_SIZE \<noteq> j \<Longrightarrow> rbf_slot (rb\<lparr>buffer := (buffer rb)[i := b]\<rparr>) j = rbf_slot rb j"
  using chunk_update_other [of j "i div RBF_NODE_SIZE" "i mod RBF_NODE_SIZE" RBF_NODE_SIZE "buffer rb" b]
  by (simp add: rbf_slot_def mult.commute)

lemma slot_hdr [simp]: "rbf_slot (rb\<lparr>hdr := h\<rparr>) j = rbf_slot rb j"
  by (simp add: rbf_slot_def)

text \<open>The producer's view: its index, the consumer's index as committed, and the nodes it is not filling.\<close>

lemma fills_view:
  assumes "fills c n ws"
  shows "hdr_r (hdr (apply_stores ws rb)) = hdr_r (hdr rb)" "hdr_count (hdr (apply_stores ws rb)) = hdr_count (hdr rb)"
    "length (buffer (apply_stores ws rb)) = length (buffer rb)"
    "ring_w rb = n mod c \<Longrightarrow> ring_w (apply_stores ws rb) = (n + publishes ws) mod c"
    "\<forall>k. n \<le> k \<longrightarrow> k \<le> n + publishes ws \<longrightarrow> k mod c \<noteq> j \<Longrightarrow> rbf_slot (apply_stores ws rb) j = rbf_slot rb j"
  using assms by (induction c n ws arbitrary: rb rule: fills.induct) (auto simp: slot_byte_other)

lemma frees_view:
  assumes "frees c n ws"
  shows "hdr_w (hdr (apply_stores ws rb)) = hdr_w (hdr rb)" "hdr_count (hdr (apply_stores ws rb)) = hdr_count (hdr rb)"
    "buffer (apply_stores ws rb) = buffer rb" "ring_r rb = n mod c \<Longrightarrow> ring_r (apply_stores ws rb) = (n + length ws) mod c"
  using assms by (induction c n ws arbitrary: rb rule: frees.induct) auto

lemma buffer_view: "buffer rb = buffer rb' \<Longrightarrow> buffer (apply_stores ws rb) = buffer (apply_stores ws rb')"
proof (induction ws arbitrary: rb rb')
  case (Cons x ws)
  show ?case unfolding apply_stores_simps by (rule Cons.IH) (use Cons.prems in \<open>cases x; simp\<close>)
qed simp

text \<open>A byte that overtakes bytes of other places.\<close>

lemma commit_byte_view:
  assumes "\<forall>y \<in> set pre. overtakes Barrier (Byte i b) y"
  shows "apply_stores pre (apply_store (Byte i b) rb) = apply_store (Byte i b) (apply_stores pre rb)"
  using assms
proof (induction pre arbitrary: rb)
  case (Cons y pre)
  then show ?case using Cons.IH [of "apply_store y rb"] by (cases y) (auto simp: list_update_swap)
qed simp

lemma commit_publishes:
  assumes "\<forall>y \<in> set pre. overtakes Barrier x y" "pre \<noteq> []"
  shows "publishes pre = 0"
proof -
  obtain i b where x: "x = Byte i b" using assms by (cases x; cases pre) auto
  show ?thesis using assms(1) unfolding x
  proof (induction pre)
    case (Cons y pre)
    then show ?case by (cases y) auto
  qed simp
qed

subsection \<open>The invariant\<close>

lemma mod_apart:
  fixes i n c :: nat
  assumes "i < n" "n < i + c" shows "i mod c \<noteq> n mod c"
proof
  assume "i mod c = n mod c"
  then have "c dvd n - i" using assms(1) mod_eq_dvd_iff_nat [of i n c] by simp
  then show False using assms nat_dvd_not_less [of "n - i" c] by simp
qed

text \<open>
  Indices are counted from the start of the ring without wrapping: \<open>R\<close> and \<open>W\<close> are those in memory,
  which lag behind what the consumer has released and the producer has published.
\<close>

definition released :: "nat \<Rightarrow> buffered \<Rightarrow> nat" where
  "released base s = base + length (b_seen s)"

definition published :: "nat \<Rightarrow> buffered \<Rightarrow> nat" where
  "published base s = base + length (b_sent s)"

abbreviation size_of :: "buffered \<Rightarrow> nat" where
  "size_of s \<equiv> ring_count (b_mem s)"

definition index_inv :: "nat \<Rightarrow> nat \<Rightarrow> nat \<Rightarrow> buffered \<Rightarrow> bool" where
  "index_inv base R W s \<longleftrightarrow> RBF_NODE_SIZE * size_of s \<le> length (buffer (b_mem s))
     \<and> R \<le> released base s \<and> released base s \<le> W \<and> W \<le> published base s \<and> published base s < R + size_of s
     \<and> ring_r (b_mem s) = R mod size_of s \<and> ring_w (b_mem s) = W mod size_of s
     \<and> fills (size_of s) W (b_pbuf s) \<and> W + publishes (b_pbuf s) = published base s
     \<and> frees (size_of s) R (b_cbuf s) \<and> R + length (b_cbuf s) = released base s"

definition nodes_inv :: "nat \<Rightarrow> buffered \<Rightarrow> bool" where
  "nodes_inv base s \<longleftrightarrow> (\<forall>i. length (b_seen s) \<le> i \<longrightarrow> i < length (b_sent s)
     \<longrightarrow> carries (rbf_slot (pview s) ((base + i) mod size_of s)) (b_sent s ! i))"

definition fill_inv :: "nat \<Rightarrow> nat \<Rightarrow> buffered \<Rightarrow> bool" where
  "fill_inv base R s = (case b_prod s of P_idle \<Rightarrow> True
    | P_fill off msg k \<Rightarrow> off = RBF_NODE_SIZE * (published base s mod size_of s) \<and> length msg \<le> RBF_NODE_SIZE
        \<and> k \<le> length msg \<and> Suc (published base s) < R + size_of s
        \<and> take k (rbf_slot (pview s) (published base s mod size_of s)) = take k msg)"

definition look_ok :: "nat \<Rightarrow> nat \<Rightarrow> buffered \<Rightarrow> bool" where
  "look_ok base W s = (case b_cons s of C_idle \<Rightarrow> True
    | C_look off acc \<Rightarrow> off = RBF_NODE_SIZE * (released base s mod size_of s) \<and> released base s < W
        \<and> length acc \<le> RBF_NODE_SIZE \<and> acc = take (length acc) (rbf_slot (b_mem s) (released base s mod size_of s)))"

lemma look_okI:
  assumes "b_cons s = C_look off acc" "off = RBF_NODE_SIZE * (released base s mod size_of s)" "released base s < W"
    "length acc \<le> RBF_NODE_SIZE" "acc = take (length acc) (rbf_slot (b_mem s) (released base s mod size_of s))"
  shows "look_ok base W s"
  unfolding look_ok_def assms(1) cons_pc.case by (intro conjI assms(2-5))

definition store_inv :: "nat \<Rightarrow> nat \<Rightarrow> nat \<Rightarrow> buffered \<Rightarrow> bool" where
  "store_inv base R W s \<longleftrightarrow> index_inv base R W s \<and> nodes_inv base s \<and> fill_inv base R s \<and> look_ok base W s
     \<and> list_all2 agrees (b_seen s) (take (length (b_seen s)) (b_sent s))"

text \<open>The program counters do not matter for the views and the indices.\<close>

lemma store_frame [simp]:
  "pview (s\<lparr>b_prod := p\<rparr>) = pview s" "pview (s\<lparr>b_cons := c\<rparr>) = pview s" "cview (s\<lparr>b_cons := c\<rparr>) = cview s"
  "released base (s\<lparr>b_prod := p\<rparr>) = released base s" "released base (s\<lparr>b_cons := c\<rparr>) = released base s"
  "published base (s\<lparr>b_prod := p\<rparr>) = published base s" "published base (s\<lparr>b_cons := c\<rparr>) = published base s"
  "index_inv base R W (s\<lparr>b_prod := p\<rparr>) = index_inv base R W s" "index_inv base R W (s\<lparr>b_cons := c\<rparr>) = index_inv base R W s"
  "nodes_inv base (s\<lparr>b_prod := p\<rparr>) = nodes_inv base s" "nodes_inv base (s\<lparr>b_cons := c\<rparr>) = nodes_inv base s"
  "fill_inv base R (s\<lparr>b_cons := c\<rparr>) = fill_inv base R s" "look_ok base W (s\<lparr>b_prod := p\<rparr>) = look_ok base W s"
  "look_ok base W (s\<lparr>b_pbuf := ws\<rparr>) = look_ok base W s" "look_ok base W (s\<lparr>b_sent := h\<rparr>) = look_ok base W s"
  by (simp_all add: pview_def cview_def released_def published_def index_inv_def nodes_inv_def fill_inv_def look_ok_def
      split: prod_pc.split cons_pc.split)

lemma index_invD:
  assumes "index_inv base R W s"
  shows "0 < size_of s" "length (b_seen s) \<le> length (b_sent s)"
    "hdr_count (hdr (pview s)) = hdr_count (hdr (b_mem s))" "hdr_r (hdr (pview s)) = hdr_r (hdr (b_mem s))"
    "ring_w (pview s) = published base s mod size_of s"
    "hdr_count (hdr (cview s)) = hdr_count (hdr (b_mem s))" "hdr_w (hdr (cview s)) = hdr_w (hdr (b_mem s))"
    "ring_r (cview s) = released base s mod size_of s" "buffer (cview s) = buffer (b_mem s)"
  using assms fills_view [where c = "size_of s" and n = W and ws = "b_pbuf s" and rb = "b_mem s"]
    frees_view [where c = "size_of s" and n = R and ws = "b_cbuf s" and rb = "b_mem s"]
  by (auto simp: index_inv_def pview_def cview_def released_def published_def)

text \<open>The nodes the consumer may look at are the same in memory and in the producer's view.\<close>

lemma live_slot_view:
  assumes "index_inv base R W s" "released base s \<le> n" "n < W"
  shows "rbf_slot (pview s) (n mod size_of s) = rbf_slot (b_mem s) (n mod size_of s)"
  unfolding pview_def
proof (rule fills_view(5))
  show "fills (size_of s) W (b_pbuf s)" using assms(1) by (simp add: index_inv_def)
  show "\<forall>k. W \<le> k \<longrightarrow> k \<le> W + publishes (b_pbuf s) \<longrightarrow> k mod size_of s \<noteq> n mod size_of s"
  proof (intro allI impI)
    fix k assume "W \<le> k" "k \<le> W + publishes (b_pbuf s)"
    then have "n < k" "k < n + size_of s" using assms by (auto simp: index_inv_def)
    then show "k mod size_of s \<noteq> n mod size_of s" using mod_apart by metis
  qed
qed

subsection \<open>Steps of the producer\<close>

lemma rbf_next_mod:
  assumes "c \<noteq> 0" "unat i = n mod unat c"
  shows "\<exists>j. rbf_next i c = Inr j \<and> unat j = Suc n mod unat c"
proof -
  have "unat i < unat c" using assms by (simp add: unat_gt_0)
  then obtain j where "rbf_next i c = Inr j" "unat j = Suc (unat i) mod unat c" using rbf_next_ok [OF assms(1)] by blast
  then show ?thesis using assms(2) by (simp add: mod_Suc_eq)
qed

lemma next_p:
  assumes "index_inv base R W s"
  obtains j where "rbf_next (hdr_w (hdr (pview s))) (hdr_count (hdr (pview s))) = Inr j"
    "unat j = Suc (published base s) mod size_of s"
proof -
  note d = index_invD [OF assms]
  have "hdr_count (hdr (b_mem s)) \<noteq> 0" using d(1) by auto
  then show thesis using rbf_next_mod [of "hdr_count (hdr (b_mem s))" "hdr_w (hdr (pview s))" "published base s"] d(3,5) that
    by auto
qed

lemma get_buff_view:
  assumes "index_inv base R W s" "rbf_get_buff (pview s) = Inr (Some off)"
  shows "off = RBF_NODE_SIZE * (published base s mod size_of s)" "Suc (published base s) < R + size_of s"
proof -
  note d = index_invD [OF assms(1)]
  obtain j where j: "rbf_next (hdr_w (hdr (pview s))) (hdr_count (hdr (pview s))) = Inr j"
    "unat j = Suc (published base s) mod size_of s" by (rule next_p [OF assms(1)])
  then show "off = RBF_NODE_SIZE * (published base s mod size_of s)"
    using assms(2) d(5) by (simp add: rbf_get_buff_def split: if_splits)
  have "unat j \<noteq> ring_r (b_mem s)" using assms(2) j(1) d(4) by (auto simp: rbf_get_buff_def word_eq_iff_unat split: if_splits)
  then have "Suc (published base s) \<noteq> R + size_of s"
    using j(2) assms(1) by (auto simp: index_inv_def)
  then show "Suc (published base s) < R + size_of s" using assms(1) by (simp add: index_inv_def)
qed

text \<open>The slot being filled is none of those that hold a message.\<close>

lemma slot_in:
  assumes "index_inv base R W s" shows "RBF_NODE_SIZE * (n mod size_of s) + RBF_NODE_SIZE \<le> length (buffer (b_mem s))"
proof -
  have "n mod size_of s < size_of s" using index_invD(1) [OF assms] by simp
  from chunk_end [OF this, of RBF_NODE_SIZE] show ?thesis using assms by (simp add: index_inv_def)
qed

lemma length_pview: "index_inv base R W s \<Longrightarrow> length (buffer (pview s)) = length (buffer (b_mem s))"
  using fills_view(3) [where c = "size_of s" and n = W] by (simp add: index_inv_def pview_def)

lemma filled_slot_other:
  assumes "index_inv base R W s" "length (b_seen s) \<le> i" "i < length (b_sent s)"
  shows "(base + i) mod size_of s \<noteq> published base s mod size_of s"
  using assms by (intro mod_apart) (auto simp: index_inv_def released_def published_def)

lemma reserve_store:
  assumes "store_inv base R W s" "rbf_get_buff (pview s) = Inr (Some off)" "length msg \<le> RBF_NODE_SIZE"
  shows "store_inv base R W (s\<lparr>b_prod := P_fill off msg 0\<rparr>)"
  using assms get_buff_view [of base R W s off]
  by (auto simp: store_inv_def fill_inv_def)

lemma copy_store:
  assumes "store_inv base R W s" "b_prod s = P_fill off msg k" "k < length msg"
  shows "store_inv base R W (s\<lparr>b_pbuf := b_pbuf s @ [Byte (off + k) (msg ! k)], b_prod := P_fill off msg (Suc k)\<rparr>)"
    (is "store_inv base R W ?t")
proof -
  let ?p = "published base s mod size_of s"
  have ix: "index_inv base R W s" using assms(1) by (simp add: store_inv_def)
  have f: "off = RBF_NODE_SIZE * ?p" "length msg \<le> RBF_NODE_SIZE" "Suc (published base s) < R + size_of s"
    "take k (rbf_slot (pview s) ?p) = take k msg"
    using assms(1,2) by (simp_all add: store_inv_def fill_inv_def)
  have dv: "(off + k) div RBF_NODE_SIZE = ?p" using assms(3) f(1,2) by simp
  have view: "pview ?t = (pview s)\<lparr>buffer := (buffer (pview s))[off + k := msg ! k]\<rparr>" by (simp add: pview_def)
  have len: "length (rbf_slot (pview s) ?p) = RBF_NODE_SIZE"
    using slot_in [OF ix, of "published base s"] length_pview [OF ix] by (simp add: rbf_slot_def)
  have "rbf_slot (pview ?t) ?p = (rbf_slot (pview s) ?p)[k := msg ! k]"
    unfolding view by (simp add: f(1) rbf_slot_def chunk_update_same)
  then have "take (Suc k) (rbf_slot (pview ?t) ?p) = take (Suc k) msg"
    using f(2,4) len assms(3) by (simp add: take_Suc_update take_Suc_conv_app_nth)
  then have "fill_inv base R ?t" using f assms(3) by (simp add: fill_inv_def published_def)
  moreover have "nodes_inv base ?t"
    unfolding nodes_inv_def
  proof (intro allI impI)
    fix i assume i: "length (b_seen ?t) \<le> i" "i < length (b_sent ?t)"
    then have "rbf_slot (pview ?t) ((base + i) mod size_of s) = rbf_slot (pview s) ((base + i) mod size_of s)"
      unfolding view using filled_slot_other [OF ix, of i] dv by (intro slot_byte_other) simp
    then show "carries (rbf_slot (pview ?t) ((base + i) mod size_of ?t)) (b_sent ?t ! i)"
      using i assms(1) by (simp add: store_inv_def nodes_inv_def)
  qed
  moreover have "index_inv base R W ?t"
    using ix dv by (auto simp: index_inv_def released_def published_def)
  moreover have "look_ok base W ?t" using assms(1) by (simp add: store_inv_def)
  ultimately show ?thesis using assms(1) by (simp add: store_inv_def)
qed

lemma publish_store:
  assumes "store_inv base R W s" "b_prod s = P_fill off msg (length msg)" "rbf_release_buff (pview s) = Inr rb'"
  shows "store_inv base R W (s\<lparr>b_pbuf := b_pbuf s @ [Set_w (hdr_w (hdr rb'))], b_prod := P_idle, b_sent := b_sent s @ [msg]\<rparr>)"
    (is "store_inv base R W ?t")
proof -
  let ?p = "published base s mod size_of s"
  have ix: "index_inv base R W s" using assms(1) by (simp add: store_inv_def)
  have f: "Suc (published base s) < R + size_of s" "carries (rbf_slot (pview s) ?p) msg"
    using assms(1,2) by (simp_all add: store_inv_def fill_inv_def carries_def)
  obtain j where j: "rbf_next (hdr_w (hdr (pview s))) (hdr_count (hdr (pview s))) = Inr j"
    "unat j = Suc (published base s) mod size_of s" by (rule next_p [OF ix])
  then have w: "hdr_w (hdr rb') = j" using assms(3) by (auto simp: rbf_release_buff_def)
  have slots: "rbf_slot (pview ?t) i = rbf_slot (pview s) i" for i by (simp add: pview_def)
  have "nodes_inv base ?t"
    using assms(1) f(2) unfolding nodes_inv_def slots
    by (auto simp: store_inv_def nodes_inv_def nth_append less_Suc_eq published_def)
  moreover have "index_inv base R W ?t"
    using ix f(1) j(2) w by (auto simp: index_inv_def released_def published_def)
  moreover have "look_ok base W ?t" using assms(1) by (simp add: store_inv_def)
  moreover have "fill_inv base R ?t" by (simp add: fill_inv_def)
  ultimately show ?thesis using assms(1) index_invD(2) [OF ix] by (simp add: store_inv_def)
qed

subsection \<open>Steps of the consumer\<close>

lemma get_data_view:
  assumes "index_inv base R W s" "rbf_get_data (cview s) = Some off"
  shows "off = RBF_NODE_SIZE * (released base s mod size_of s)" "released base s < W"
proof -
  note d = index_invD [OF assms(1)]
  show "off = RBF_NODE_SIZE * (released base s mod size_of s)"
    using assms(2) d(8) by (simp add: rbf_get_data_def Let_def split: if_splits)
  have "ring_r (cview s) \<noteq> ring_w (b_mem s)"
    using assms(2) d(7) by (auto simp: rbf_get_data_def Let_def word_eq_iff_unat split: if_splits)
  then have "released base s \<noteq> W" using d(8) assms(1) by (auto simp: index_inv_def)
  then show "released base s < W" using assms(1) by (simp add: index_inv_def)
qed

lemma peek_store:
  assumes "store_inv base R W s" "rbf_get_data (cview s) = Some off"
  shows "store_inv base R W (s\<lparr>b_cons := C_look off []\<rparr>)"
  using assms get_data_view [of base R W s off] by (auto simp: store_inv_def look_ok_def)

lemma look_store:
  assumes "store_inv base R W s" "b_cons s = C_look off acc" "length acc < RBF_NODE_SIZE"
    "mem_read (off + length acc) 1 (buffer (cview s)) = Inr bs"
  shows "store_inv base R W (s\<lparr>b_cons := C_look off (acc @ bs)\<rparr>)"
proof -
  let ?i = "released base s mod size_of s"
  have ix: "index_inv base R W s" using assms(1) by (simp add: store_inv_def)
  have l: "off = RBF_NODE_SIZE * ?i" "acc = take (length acc) (rbf_slot (b_mem s) ?i)" "released base s < W"
    using assms(1,2) by (simp_all add: store_inv_def look_ok_def)
  have rd: "acc @ bs = take (length (acc @ bs)) (rbf_slot (b_mem s) ?i)" "length bs = 1"
    by (fact read_byte_slot [OF slot_in [OF ix] l(2) assms(3) assms(4) [unfolded l(1) index_invD(9) [OF ix]]])+
  have "look_ok base W (s\<lparr>b_cons := C_look off (acc @ bs)\<rparr>)"
  proof (rule look_okI)
    show "acc @ bs = take (length (acc @ bs)) (rbf_slot (b_mem (s\<lparr>b_cons := C_look off (acc @ bs)\<rparr>))
        (released base (s\<lparr>b_cons := C_look off (acc @ bs)\<rparr>) mod size_of (s\<lparr>b_cons := C_look off (acc @ bs)\<rparr>)))"
      by (rule trans [OF rd(1)]) simp
  qed (use assms(3) l(1,3) rd(2) in simp_all)
  then show ?thesis using assms(1) by (simp add: store_inv_def)
qed

lemma next_c:
  assumes "index_inv base R W s"
  obtains j where "rbf_next (hdr_r (hdr (cview s))) (hdr_count (hdr (cview s))) = Inr j"
    "unat j = Suc (released base s) mod size_of s"
proof -
  note d = index_invD [OF assms]
  have "hdr_count (hdr (b_mem s)) \<noteq> 0" using d(1) by auto
  then show thesis using rbf_next_mod [of "hdr_count (hdr (b_mem s))" "hdr_r (hdr (cview s))" "released base s"] d(6,8) that
    by auto
qed

lemma release_store:
  assumes "store_inv base R W s" "b_cons s = C_look off acc" "rbf_release_data (cview s) = Inr rb'"
  shows "store_inv base R W (s\<lparr>b_cbuf := b_cbuf s @ [Set_r (hdr_r (hdr rb'))], b_cons := C_idle, b_seen := b_seen s @ [acc]\<rparr>)"
    (is "store_inv base R W ?t")
proof -
  let ?i = "released base s mod size_of s" and ?n = "length (b_seen s)"
  have ix: "index_inv base R W s" using assms(1) by (simp add: store_inv_def)
  have l: "acc = take (length acc) (rbf_slot (b_mem s) ?i)" "released base s < W"
    using assms(1,2) by (simp_all add: store_inv_def look_ok_def)
  obtain j where j: "rbf_next (hdr_r (hdr (cview s))) (hdr_count (hdr (cview s))) = Inr j"
    "unat j = Suc (released base s) mod size_of s" by (rule next_c [OF ix])
  then have w: "hdr_r (hdr rb') = j" using assms(3) by (auto simp: rbf_release_data_def)
  have n: "?n < length (b_sent s)" using l(2) ix by (simp add: index_inv_def released_def published_def)
  have "carries (rbf_slot (pview s) ?i) (b_sent s ! ?n)"
    using assms(1) n by (simp add: store_inv_def nodes_inv_def released_def)
  then have "agrees acc (b_sent s ! ?n)"
    using l live_slot_view [OF ix order_refl l(2)] by (intro carries_agrees) simp_all
  then have "list_all2 agrees (b_seen ?t) (take (length (b_seen ?t)) (b_sent ?t))"
    using assms(1) n by (auto simp: store_inv_def take_Suc_conv_app_nth intro!: list_all2_appendI)
  moreover have "index_inv base R W ?t"
    using ix j(2) w l(2) by (auto simp: index_inv_def released_def published_def)
  moreover have "nodes_inv base ?t" using assms(1) by (simp add: store_inv_def nodes_inv_def pview_def)
  moreover have "fill_inv base R ?t"
    using assms(1) by (simp add: store_inv_def fill_inv_def pview_def published_def split: prod_pc.splits)
  moreover have "look_ok base W ?t" by (simp add: look_ok_def)
  ultimately show ?thesis by (simp add: store_inv_def)
qed

subsection \<open>Commits\<close>

text \<open>A commit leaves the producer's view of the nodes alone.\<close>

lemma view_inv:
  assumes "\<forall>i. rbf_slot (pview t) i = rbf_slot (pview s) i" "R \<le> R'" "b_prod t = b_prod s" "b_sent t = b_sent s"
    "b_seen t = b_seen s" "hdr_count (hdr (b_mem t)) = hdr_count (hdr (b_mem s))" "nodes_inv base s" "fill_inv base R s"
  shows "nodes_inv base t \<and> fill_inv base R' t"
  using assms by (auto simp: nodes_inv_def fill_inv_def published_def split: prod_pc.splits)

lemma commit_p_byte:
  assumes "store_inv base R W s" "b_pbuf s = pre @ Byte i b # post" "\<forall>y \<in> set pre. overtakes Barrier (Byte i b) y"
  shows "store_inv base R W (s\<lparr>b_mem := apply_store (Byte i b) (b_mem s), b_pbuf := pre @ post\<rparr>)"
    (is "store_inv base R W ?t")
proof -
  have ix: "index_inv base R W s" using assms(1) by (simp add: store_inv_def)
  have "publishes pre = 0" using commit_publishes [OF assms(3)] by (cases "pre = []") simp_all
  then have i: "i div RBF_NODE_SIZE = W mod size_of s" using ix assms(2) by (simp add: index_inv_def)
  have view: "pview ?t = pview s" using commit_byte_view [OF assms(3)] assms(2) by (simp add: pview_def)
  have "look_ok base W ?t"
  proof (cases "b_cons s")
    case (C_look off acc)
    then have l: "released base s < W" using assms(1) by (simp add: store_inv_def look_ok_def)
    have "W mod size_of s \<noteq> released base s mod size_of s"
      using mod_apart [OF l, of "size_of s"] ix by (auto simp: index_inv_def)
    then have "rbf_slot (b_mem ?t) (released base s mod size_of s) = rbf_slot (b_mem s) (released base s mod size_of s)"
      using slot_byte_other i by simp
    then show ?thesis using assms(1) C_look by (simp add: store_inv_def look_ok_def released_def)
  qed (simp add: look_ok_def)
  moreover have "index_inv base R W ?t"
    using ix assms(2) by (simp add: index_inv_def released_def published_def)
  moreover have "nodes_inv base ?t \<and> fill_inv base R ?t"
    using assms(1) view by (intro view_inv [of ?t s R R]) (simp_all add: store_inv_def)
  ultimately show ?thesis using assms(1) by (simp add: store_inv_def)
qed

lemma commit_p_index:
  assumes "store_inv base R W s" "b_pbuf s = Set_w v # post"
  shows "store_inv base R (Suc W) (s\<lparr>b_mem := apply_store (Set_w v) (b_mem s), b_pbuf := post\<rparr>)"
    (is "store_inv base R (Suc W) ?t")
proof -
  have view: "pview ?t = pview s" using assms(2) by (simp add: pview_def)
  have "index_inv base R (Suc W) ?t"
    using assms by (auto simp: store_inv_def index_inv_def released_def published_def)
  moreover have "look_ok base (Suc W) ?t"
    using assms(1) by (auto simp: store_inv_def look_ok_def released_def split: cons_pc.splits)
  moreover have "nodes_inv base ?t \<and> fill_inv base R ?t"
    using assms(1) view by (intro view_inv [of ?t s R R]) (simp_all add: store_inv_def)
  ultimately show ?thesis using assms(1) by (simp add: store_inv_def)
qed

lemma commit_c_index:
  assumes "store_inv base R W s" "b_cbuf s = Set_r v # post"
  shows "store_inv base (Suc R) W (s\<lparr>b_mem := apply_store (Set_r v) (b_mem s), b_cbuf := post\<rparr>)"
    (is "store_inv base (Suc R) W ?t")
proof -
  have slots: "rbf_slot (pview ?t) i = rbf_slot (pview s) i" for i
    using buffer_view [of "b_mem ?t" "b_mem s" "b_pbuf s"] by (simp add: pview_def rbf_slot_def)
  have "index_inv base (Suc R) W ?t"
    using assms by (auto simp: store_inv_def index_inv_def released_def published_def)
  moreover have "look_ok base W ?t"
    using assms(1) by (auto simp: store_inv_def look_ok_def released_def split: cons_pc.splits)
  moreover have "nodes_inv base ?t \<and> fill_inv base (Suc R) ?t"
    using assms(1) slots by (intro view_inv [of ?t s R "Suc R"]) (simp_all add: store_inv_def)
  ultimately show ?thesis using assms(1) by (simp add: store_inv_def)
qed

lemma commit_p_store:
  assumes "store_inv base R W s" "b_pbuf s = pre @ x # post" "\<forall>y \<in> set pre. overtakes Barrier x y"
  shows "\<exists>R W. store_inv base R W (s\<lparr>b_mem := apply_store x (b_mem s), b_pbuf := pre @ post\<rparr>)"
proof (cases x)
  case (Byte i b)
  then show ?thesis using commit_p_byte assms by blast
next
  case (Set_w v)
  then have "pre = []" using assms(3) by (cases pre) auto
  then show ?thesis using commit_p_index [OF assms(1)] assms(2) Set_w by auto
next
  case (Set_r v)
  then show ?thesis using assms(1,2) by (auto simp: store_inv_def index_inv_def)
qed

lemma frees_only:
  assumes "frees c n ws" "x \<in> set ws" shows "\<exists>v. x = Set_r v"
  using assms by (induction c n ws rule: frees.induct) auto

lemma commit_c_store:
  assumes "store_inv base R W s" "b_cbuf s = pre @ x # post" "\<forall>y \<in> set pre. overtakes Barrier x y"
  shows "\<exists>R W. store_inv base R W (s\<lparr>b_mem := apply_store x (b_mem s), b_cbuf := pre @ post\<rparr>)"
proof -
  obtain v where x: "x = Set_r v"
    using frees_only [of "size_of s" R "b_cbuf s" x] assms(1,2) by (auto simp: store_inv_def index_inv_def)
  then have "pre = []" using assms(3) by (cases pre) auto
  then show ?thesis using commit_c_index [OF assms(1)] assms(2) x by auto
qed

lemma store_step_inv:
  "store_step Barrier s t \<Longrightarrow> \<exists>R W. store_inv base R W s \<Longrightarrow> \<exists>R W. store_inv base R W t"
proof (induction rule: store_step.induct)
  case (commit_p s pre x post)
  then show ?case using commit_p_store by blast
next
  case (commit_c s pre x post)
  then show ?case using commit_c_store by blast
qed (blast intro: reserve_store copy_store publish_store peek_store look_store release_store)+

lemma store_start_inv:
  assumes "rbf_ok rb" "rbf_contents rb = []" shows "store_inv (ring_r rb) (ring_r rb) (ring_r rb) (store_start rb)"
proof -
  have "ring_r rb = ring_w rb" using assms ring_dist_0_iff [OF rbf_okD(1,2) [OF assms(1)]]
    by (simp add: rbf_contents_def rbf_used_def)
  then show ?thesis using rbf_okD [OF assms(1)]
    by (simp add: store_inv_def store_start_def index_inv_def nodes_inv_def fill_inv_def look_ok_def released_def published_def)
qed

lemma store_reach_inv:
  assumes "store_reach Barrier rb s" "rbf_ok rb" "rbf_contents rb = []"
  shows "\<exists>R W. store_inv (ring_r rb) R W s"
  using assms by (induction rule: store_reach.induct) (blast intro: store_start_inv store_step_inv)+

subsection \<open>The machine without buffers\<close>

text \<open>Every run of \<open>RingConcurrency\<close> is a run of this machine in which each store is committed at once.\<close>

definition unbuffered :: "spsc \<Rightarrow> buffered" where
  "unbuffered s = \<lparr>b_mem = ring s, b_pbuf = [], b_cbuf = [], b_prod = prod s, b_cons = cons s, b_sent = sent s, b_seen = seen s\<rparr>"

lemma unbuffered_views [simp]: "pview (unbuffered s) = ring s" "cview (unbuffered s) = ring s"
  by (simp_all add: pview_def cview_def unbuffered_def)

lemma reach_two: "store_reach m rb s \<Longrightarrow> store_step m s u \<Longrightarrow> store_step m u t \<Longrightarrow> store_reach m rb t"
  using store_reach.step by blast

lemma unbuffered_copy:
  assumes "store_reach m rb (unbuffered s)" "prod s = P_fill off msg k" "k < length msg" "rbf_write (ring s) (off + k) [msg ! k] = Inr rb'"
  shows "store_reach m rb (unbuffered (s\<lparr>ring := rb', prod := P_fill off msg (Suc k)\<rparr>))"
proof (rule reach_two [OF assms(1)])
  let ?u = "(unbuffered s)\<lparr>b_pbuf := [Byte (off + k) (msg ! k)], b_prod := P_fill off msg (Suc k)\<rparr>"
  show "store_step m (unbuffered s) ?u"
    using store_step.copy [of "unbuffered s" off msg k m] assms(2,3) by (simp add: unbuffered_def)
  show "store_step m ?u (unbuffered (s\<lparr>ring := rb', prod := P_fill off msg (Suc k)\<rparr>))"
    using store_step.commit_p [of ?u "[]" "Byte (off + k) (msg ! k)" "[]" m] assms(4)
    by (simp add: unbuffered_def rbf_write_def mem_write_def overlay_single split: if_splits)
qed

lemma unbuffered_publish:
  assumes "store_reach m rb (unbuffered s)" "prod s = P_fill off msg (length msg)" "rbf_release_buff (ring s) = Inr rb'"
  shows "store_reach m rb (unbuffered (s\<lparr>ring := rb', prod := P_idle, sent := sent s @ [msg]\<rparr>))"
proof (rule reach_two [OF assms(1)])
  let ?u = "(unbuffered s)\<lparr>b_pbuf := [Set_w (hdr_w (hdr rb'))], b_prod := P_idle, b_sent := sent s @ [msg]\<rparr>"
  show "store_step m (unbuffered s) ?u"
    using store_step.publish [of "unbuffered s" off msg rb' m] assms(2,3) by (simp add: unbuffered_def pview_def)
  show "store_step m ?u (unbuffered (s\<lparr>ring := rb', prod := P_idle, sent := sent s @ [msg]\<rparr>))"
    using store_step.commit_p [of ?u "[]" "Set_w (hdr_w (hdr rb'))" "[]" m] assms(3)
    by (auto simp: unbuffered_def rbf_release_buff_def rbf_next_def split: if_splits)
qed

lemma unbuffered_release:
  assumes "store_reach m rb (unbuffered s)" "cons s = C_look off acc" "rbf_release_data (ring s) = Inr rb'"
  shows "store_reach m rb (unbuffered (s\<lparr>ring := rb', cons := C_idle, seen := seen s @ [acc]\<rparr>))"
proof (rule reach_two [OF assms(1)])
  let ?u = "(unbuffered s)\<lparr>b_cbuf := [Set_r (hdr_r (hdr rb'))], b_cons := C_idle, b_seen := seen s @ [acc]\<rparr>"
  show "store_step m (unbuffered s) ?u"
    using store_step.release [of "unbuffered s" off acc rb' m] assms(2,3) by (simp add: unbuffered_def cview_def)
  show "store_step m ?u (unbuffered (s\<lparr>ring := rb', cons := C_idle, seen := seen s @ [acc]\<rparr>))"
    using store_step.commit_c [of ?u "[]" "Set_r (hdr_r (hdr rb'))" "[]" m] assms(3)
    by (auto simp: unbuffered_def rbf_release_data_def rbf_next_def split: if_splits)
qed

lemma unbuffered_step:
  assumes "spsc_step s t" "store_reach m rb (unbuffered s)"
  shows "store_reach m rb (unbuffered t)"
  using assms
proof (induction rule: spsc_step.induct)
  case (reserve s off msg)
  have "store_step m (unbuffered s) (unbuffered (s\<lparr>prod := P_fill off msg 0\<rparr>))"
    using store_step.reserve [of "unbuffered s" off msg m] reserve(1-3) by (simp add: unbuffered_def pview_def)
  then show ?case using reserve.prems store_reach.step by blast
next
  case (peek s off)
  have "store_step m (unbuffered s) (unbuffered (s\<lparr>cons := C_look off []\<rparr>))"
    using store_step.peek [of "unbuffered s" off m] peek(1,2) by (simp add: unbuffered_def cview_def)
  then show ?case using peek.prems store_reach.step by blast
next
  case (look s off acc bs)
  have "store_step m (unbuffered s) (unbuffered (s\<lparr>cons := C_look off (acc @ bs)\<rparr>))"
    using store_step.look [of "unbuffered s" off acc bs m] look(1-3) by (simp add: unbuffered_def cview_def)
  then show ?case using look.prems store_reach.step by blast
qed (simp_all add: unbuffered_copy unbuffered_publish unbuffered_release)

lemma unbuffered_reach: "spsc_reach rb s \<Longrightarrow> store_reach m rb (unbuffered s)"
proof (induction rule: spsc_reach.induct)
  case start
  then show ?case using store_reach.start [of m rb] by (simp add: unbuffered_def spsc_start_def store_start_def)
qed (rule unbuffered_step)

subsection \<open>Delivery with and without a barrier\<close>

text \<open>
  C16.  The ring on a machine that commits stores in order, or in which the bytes of a node are
  committed before the index that publishes it: in every state that a producer and a consumer
  with store buffers can reach from an empty well-formed ring, the consumer has seen a prefix of
  the published messages in order, with no torn or stale byte, at most \<open>count - 1\<close> messages are
  between them, and no call or access of either side faults.
\<close>

theorem stores_ordered_fifo:
  assumes "store_reach m rb s" "m \<noteq> Unordered" "rbf_ok rb" "rbf_contents rb = []"
  shows "length (b_seen s) \<le> length (b_sent s)
    \<and> list_all2 agrees (b_seen s) (take (length (b_seen s)) (b_sent s))
    \<and> length (b_sent s) - length (b_seen s) \<le> rbf_capacity (b_mem s)
    \<and> (\<exists>p. rbf_get_buff (pview s) = Inr p)
    \<and> (\<forall>off msg k. b_prod s = P_fill off msg k \<longrightarrow>
         (k < length msg \<longrightarrow> off + k < length (buffer (b_mem s))) \<and> (\<exists>rb'. rbf_release_buff (pview s) = Inr rb'))
    \<and> (\<forall>off acc. b_cons s = C_look off acc \<longrightarrow>
         (length acc < RBF_NODE_SIZE \<longrightarrow> (\<exists>b. mem_read (off + length acc) 1 (buffer (cview s)) = Inr b))
         \<and> (\<exists>rb'. rbf_release_data (cview s) = Inr rb'))"
proof -
  have "store_reach Barrier rb s" using assms(1,2) store_reach_Barrier by (metis machine.exhaust)
  then obtain R W where inv: "store_inv (ring_r rb) R W s" using store_reach_inv assms(3,4) by blast
  then have ix: "index_inv (ring_r rb) R W s" by (simp add: store_inv_def)
  obtain j where j: "rbf_next (hdr_w (hdr (pview s))) (hdr_count (hdr (pview s))) = Inr j" by (rule next_p [OF ix])
  obtain i where i: "rbf_next (hdr_r (hdr (cview s))) (hdr_count (hdr (cview s))) = Inr i" by (rule next_c [OF ix])
  have "length (b_sent s) - length (b_seen s) \<le> rbf_capacity (b_mem s)"
    using ix by (auto simp: index_inv_def released_def published_def rbf_capacity_def)
  moreover have "off + k < length (buffer (b_mem s))" if "b_prod s = P_fill off msg k" "k < length msg" for off msg k
    using inv that slot_in [OF ix, of "published (ring_r rb) s"] by (simp add: store_inv_def fill_inv_def)
  moreover have "\<exists>b. mem_read (off + length acc) 1 (buffer (cview s)) = Inr b"
    if "b_cons s = C_look off acc" "length acc < RBF_NODE_SIZE" for off acc
    using inv that slot_in [OF ix, of "released (ring_r rb) s"] index_invD(9) [OF ix]
    by (simp add: store_inv_def look_ok_def mem_read_def)
  ultimately show ?thesis
    using inv index_invD(2) [OF ix] i j
    by (auto simp: store_inv_def rbf_get_buff_def rbf_release_buff_def rbf_release_data_def)
qed

lemma stores_ordered_fifo_witness:
  "\<exists>s. store_reach In_order ring2 s \<and> b_seen s = [[7]] \<and> list_all2 agrees (b_seen s) (take (length (b_seen s)) (b_sent s))"
  using unbuffered_reach [OF ring2_run, of In_order] stores_ordered_fifo [OF unbuffered_reach [OF ring2_run] _ ring2_ok(1,2), of In_order]
  by (intro exI [of _ "unbuffered \<lparr>ring = ring2_done, prod = P_idle, cons = C_idle, sent = [[7]], seen = [[7]]\<rparr>"])
    (simp add: unbuffered_def)

text \<open>
  C17.  On a machine that commits stores to different places in any order the ring as it is
  written delivers bytes that were never sent: the index is committed before the byte it
  publishes, and the consumer looks at what the node held before.
\<close>

theorem stores_reordered_tear:
  "\<exists>s. store_reach Unordered ring2 s \<and> b_sent s = [[7]] \<and> b_seen s = [[0]]"
proof -
  let ?s = "store_start ring2" and ?m = "ring2\<lparr>hdr := (hdr ring2)\<lparr>hdr_w := 0\<rparr>\<rparr>"
  note reach = store_reach.step and defs = store_start_def ring2_def pview_def cview_def
  have 1: "store_reach Unordered ring2 (?s\<lparr>b_prod := P_fill 2048 [7] 0\<rparr>)"
    by (rule reach [OF store_reach.start], rule store_step.reserve)
      (simp_all add: defs rbf_get_buff_def rbf_next_def)
  have 2: "store_reach Unordered ring2 (?s\<lparr>b_pbuf := [Byte 2048 7], b_prod := P_fill 2048 [7] 1\<rparr>)"
    using reach [OF 1, OF store_step.copy [where k = 0]] by (simp add: defs)
  have 3: "store_reach Unordered ring2 (?s\<lparr>b_pbuf := [Byte 2048 7, Set_w 0], b_sent := [[7]]\<rparr>)"
    using reach [OF 2, OF store_step.publish [where rb' = "ring2\<lparr>hdr := (hdr ring2)\<lparr>hdr_w := 0\<rparr>, buffer := (buffer ring2)[2048 := 7]\<rparr>"]]
    by (simp add: defs rbf_release_buff_def rbf_next_def)
  have 4: "store_reach Unordered ring2 (?s\<lparr>b_mem := ?m, b_pbuf := [Byte 2048 7], b_sent := [[7]]\<rparr>)"
    using reach [OF 3, OF store_step.commit_p [where pre = "[Byte 2048 7]" and x = "Set_w 0" and post = "[]"]] by (simp add: defs)
  have 5: "store_reach Unordered ring2 (?s\<lparr>b_mem := ?m, b_pbuf := [Byte 2048 7], b_sent := [[7]], b_cons := C_look 2048 []\<rparr>)"
    using reach [OF 4, OF store_step.peek [where off = 2048]] by (simp add: defs rbf_get_data_def)
  have 6: "store_reach Unordered ring2 (?s\<lparr>b_mem := ?m, b_pbuf := [Byte 2048 7], b_sent := [[7]], b_cons := C_look 2048 [0]\<rparr>)"
    using reach [OF 5, OF store_step.look [where bs = "[0]"]] by (simp add: defs mem_read_def window_def)
  have "store_step Unordered (?s\<lparr>b_mem := ?m, b_pbuf := [Byte 2048 7], b_sent := [[7]], b_cons := C_look 2048 [0]\<rparr>)
      (?s\<lparr>b_mem := ?m, b_pbuf := [Byte 2048 7], b_sent := [[7]], b_cbuf := [Set_r 0], b_seen := [[0]]\<rparr>)"
    using store_step.release [where off = 2048 and acc = "[0]" and m = Unordered
        and rb' = "?m\<lparr>hdr := (hdr ?m)\<lparr>hdr_r := 0\<rparr>\<rparr>"
        and s = "?s\<lparr>b_mem := ?m, b_pbuf := [Byte 2048 7], b_sent := [[7]], b_cons := C_look 2048 [0]\<rparr>"]
    by (simp add: defs rbf_release_data_def rbf_next_def)
  from reach [OF 6 this] show ?thesis by (intro exI conjI) (assumption, simp_all add: defs)
qed

end
