(* ===== verification/NxJson.thy ===== *)
theory NxJson
  imports Prelude
begin

text \<open>
  The JSON reader of \<open>drivers/nos_track/src/nxjson.c\<close> and \<open>nxjson.h\<close>, as the kernel module
  is built (\<open>__KERNEL__\<close>: no doubles, \<open>strtol\<close> is \<open>simple_strtol\<close>).  The text is a mutable
  buffer that the parser decodes in place: a key or a string value is a pointer into it, and
  pointers are indices.  Nodes live in a heap of addresses with the source's \<open>child\<close>,
  \<open>next\<close> and \<open>last_child\<close> links.  Reading or writing outside the buffer and touching a freed
  node are faults.

  \<open>strtol\<close> is a parameter: from the characters up to the terminator it gives the value and
  the number of characters consumed.  \<open>kzalloc\<close> succeeds as long as the budget \<open>mem_left\<close>
  lasts.  Recursion is bounded by fuel; \<open>nx_json_parse\<close> starts with twice the length of the
  text, and the theory \<open>NxJsonParse\<close> proves that this is always enough.
\<close>

subsection \<open>Characters and C strings\<close>

abbreviation NUL :: char where "NUL \<equiv> CHR 0x00"

text \<open>The C string that starts a character list.\<close>

definition cstr :: "string \<Rightarrow> string" where
  "cstr s = takeWhile (\<lambda>c. c \<noteq> NUL) s"

definition rd :: "string \<Rightarrow> nat \<Rightarrow> char result" where
  "rd b i = (if i < length b then Inr (b ! i) else Inl Out_of_bounds)"

definition wr :: "string \<Rightarrow> nat \<Rightarrow> string \<Rightarrow> string result" where
  "wr b i cs = mem_write i cs b"

definition IS_WHITESPACE :: "char \<Rightarrow> bool" where
  "IS_WHITESPACE c \<longleftrightarrow> (of_char c :: nat) \<le> 32"

text \<open>\<open>strchr (b + i, c)\<close> with \<open>c\<close> not the terminator.\<close>

function strchr :: "string \<Rightarrow> nat \<Rightarrow> char \<Rightarrow> nat option result" where
  "strchr b i c =
     (if i < length b then
        if b ! i = c then Inr (Some i)
        else if b ! i = NUL then Inr None
        else strchr b (Suc i) c
      else Inl Out_of_bounds)"
  by pat_completeness auto
termination by (relation "measure (\<lambda>(b, i, c). length b - i)") auto

declare strchr.simps [simp del]

text \<open>\<open>strncmp (b + i, lit, length lit) == 0\<close>: the comparison stops at the first difference.\<close>

fun match_at :: "string \<Rightarrow> nat \<Rightarrow> string \<Rightarrow> bool result" where
  "match_at b i [] = Inr True"
| "match_at b i (x # xs) = bindR (rd b i) (\<lambda>c. if c = x then match_at b (Suc i) xs else Inr False)"

subsection \<open>Nodes\<close>

datatype nx_json_type = NX_JSON_NULL | NX_JSON_OBJECT | NX_JSON_ARRAY | NX_JSON_STRING
  | NX_JSON_INTEGER | NX_JSON_DOUBLE | NX_JSON_BOOL

record nx_json =
  js_type :: nx_json_type
  js_key :: "nat option"
  js_text_value :: "nat option"
  js_int_value :: int
  js_length :: int
  js_child :: "nat option"
  js_next :: "nat option"
  js_last_child :: "nat option"

definition zero_json :: nx_json where
  "zero_json = \<lparr>js_type = NX_JSON_NULL, js_key = None, js_text_value = None, js_int_value = 0,
     js_length = 0, js_child = None, js_next = None, js_last_child = None\<rparr>"

type_synonym jheap = "nat \<Rightarrow> nx_json option"

definition load :: "jheap \<Rightarrow> nat \<Rightarrow> nx_json result" where
  "load h a = (case h a of None \<Rightarrow> Inl Use_after_free | Some nd \<Rightarrow> Inr nd)"

record jstate =
  buf :: string
  heap :: jheap
  brk :: nat
  mem_left :: nat

definition upd_node :: "nat \<Rightarrow> (nx_json \<Rightarrow> nx_json) \<Rightarrow> jstate \<Rightarrow> jstate result" where
  "upd_node a f st = bindR (load (heap st) a) (\<lambda>nd. Inr (st\<lparr>heap := (heap st)(a := Some (f nd))\<rparr>))"

definition create_json ::
  "nx_json_type \<Rightarrow> nat option \<Rightarrow> nat \<Rightarrow> jstate \<Rightarrow> (nat option \<times> jstate) result" where
  "create_json type' key parent st =
     (if mem_left st = 0 then Inr (None, st)
      else
        let js = brk st;
            st1 = st\<lparr>heap := (heap st)(js \<mapsto> zero_json\<lparr>js_type := type', js_key := key\<rparr>),
                     brk := Suc js, mem_left := mem_left st - 1\<rparr>
        in bindR (load (heap st1) parent) (\<lambda>pn.
           bindR (case js_last_child pn of
               None \<Rightarrow> upd_node parent (\<lambda>n. n\<lparr>js_child := Some js, js_last_child := Some js\<rparr>) st1
             | Some l \<Rightarrow> bindR (upd_node l (\<lambda>n. n\<lparr>js_next := Some js\<rparr>) st1)
                 (upd_node parent (\<lambda>n. n\<lparr>js_last_child := Some js\<rparr>))) (\<lambda>st2.
           bindR (upd_node parent (\<lambda>n. n\<lparr>js_length := js_length n + 1\<rparr>) st2) (\<lambda>st3.
             Inr (Some js, st3)))))"

text \<open>
  \<open>nx_json_free\<close>: every child is freed after its \<open>next\<close> link is read, then the node.  The
  fuel bounds the recursion on a heap that may be cyclic.
\<close>

definition kfree :: "nat \<Rightarrow> jheap \<Rightarrow> jheap result" where
  "kfree a h = bindR (load h a) (\<lambda>_. Inr (h(a := None)))"

fun nx_json_free :: "nat \<Rightarrow> nat \<Rightarrow> jheap \<Rightarrow> jheap result"
  and free_children :: "nat \<Rightarrow> nat option \<Rightarrow> jheap \<Rightarrow> jheap result" where
  "nx_json_free 0 js h = Inl No_fuel"
| "nx_json_free (Suc fuel) js h =
     bindR (load h js) (\<lambda>n. bindR (free_children fuel (js_child n) h) (kfree js))"
| "free_children 0 p h = (case p of None \<Rightarrow> Inr h | Some a \<Rightarrow> Inl No_fuel)"
| "free_children (Suc fuel) p h =
     (case p of None \<Rightarrow> Inr h
      | Some a \<Rightarrow> bindR (load h a) (\<lambda>n.
          bindR (nx_json_free fuel a h) (free_children fuel (js_next n))))"

subsection \<open>Unicode\<close>

type_synonym encoder = "u32 \<Rightarrow> string option"

text \<open>An encoder gives the bytes it stores at the destination, or \<open>None\<close> when it returns 0.\<close>

definition to_byte :: "u32 \<Rightarrow> char" where
  "to_byte x = char_of (unat x)"

definition unicode_to_utf8 :: encoder where
  "unicode_to_utf8 codepoint =
     (if codepoint < 0x80 then Some [to_byte codepoint]
      else if codepoint < 0x800 then
        Some [to_byte (192 + codepoint div 64), to_byte (128 + codepoint mod 64)]
      else if codepoint - 0xd800 < 0x800 then None
      else if codepoint < 0x10000 then
        Some [to_byte (224 + codepoint div 4096), to_byte (128 + codepoint div 64 mod 64),
              to_byte (128 + codepoint mod 64)]
      else if codepoint < 0x110000 then
        Some [to_byte (240 + codepoint div 262144), to_byte (128 + codepoint div 4096 mod 64),
              to_byte (128 + codepoint div 64 mod 64), to_byte (128 + codepoint mod 64)]
      else None)"

definition hex_val :: "char \<Rightarrow> int" where
  "hex_val c = (let n = of_char c :: int in
     if 48 \<le> n \<and> n \<le> 57 then n - 48
     else if 97 \<le> n \<and> n \<le> 102 then n - 97 + 10
     else if 65 \<le> n \<and> n \<le> 70 then n - 65 + 10
     else - 1)"

text \<open>
  Four hexadecimal digits from index \<open>i\<close> on, read from left to right until one is invalid:
  the conditions joined by \<open>||\<close> and the value \<open>h1<<12|h2<<8|h3<<4|h4\<close>.
\<close>

definition hex4 :: "string \<Rightarrow> nat \<Rightarrow> u32 option result" where
  "hex4 b i =
     bindR (rd b i) (\<lambda>c1. if hex_val c1 < 0 then Inr None else
     bindR (rd b (i + 1)) (\<lambda>c2. if hex_val c2 < 0 then Inr None else
     bindR (rd b (i + 2)) (\<lambda>c3. if hex_val c3 < 0 then Inr None else
     bindR (rd b (i + 3)) (\<lambda>c4. if hex_val c4 < 0 then Inr None else
       Inr (Some (push_bit 12 (of_int (hex_val c1)) OR push_bit 8 (of_int (hex_val c2))
         OR push_bit 4 (of_int (hex_val c3)) OR of_int (hex_val c4)))))))"

text \<open>
  The escape behind \<open>\u\<close>, with \<open>p\<close> at the \<open>u\<close>: the code point and the position from which
  the source adds 5, or \<open>None\<close> on an invalid escape or surrogate.
\<close>

definition unicode_escape :: "string \<Rightarrow> nat \<Rightarrow> (u32 \<times> nat) option result" where
  "unicode_escape b p =
     bindR (hex4 b (p + 1)) (\<lambda>r. case r of
         None \<Rightarrow> Inr None
       | Some codepoint \<Rightarrow>
           if codepoint AND 0xfc00 = 0xd800 then
             bindR (rd b (p + 5)) (\<lambda>x. if x \<noteq> CHR 0x5C then Inr None else
             bindR (rd b (p + 6)) (\<lambda>y. if y \<noteq> CHR ''u'' then Inr None else
             bindR (hex4 b (p + 7)) (\<lambda>r2. case r2 of
                 None \<Rightarrow> Inr None
               | Some codepoint2 \<Rightarrow>
                   if codepoint2 AND 0xfc00 \<noteq> 0xdc00 then Inr None
                   else Inr (Some (0x10000 + push_bit 10 (codepoint - 0xd800) + (codepoint2 - 0xdc00),
                          p + 6)))))
           else Inr (Some (codepoint, p)))"

subsection \<open>Strings, comments and keys\<close>

definition simple_escape :: "char \<Rightarrow> char option" where
  "simple_escape e =
     (if e = CHR 0x5C \<or> e = CHR ''/'' \<or> e = CHR 0x22 then Some e
      else if e = CHR ''b'' then Some (CHR 0x08)
      else if e = CHR ''f'' then Some (CHR 0x0C)
      else if e = CHR ''n'' then Some (CHR 0x0A)
      else if e = CHR ''r'' then Some (CHR 0x0D)
      else if e = CHR ''t'' then Some (CHR 0x09)
      else None)"

lemma wr_length: "wr b i cs = Inr b' \<Longrightarrow> length b' = length b"
  by (auto simp: wr_def mem_write_def split: if_splits)

lemma unicode_escape_ge: "unicode_escape b p = Inr (Some (cp, q)) \<Longrightarrow> p \<le> q"
  by (auto simp: unicode_escape_def bindR_def split: sum.splits option.splits if_splits)

text \<open>
  The loop of \<open>unescape_string\<close>: \<open>p\<close> reads, \<open>d\<close> writes.  The result is the position behind
  the closing quote (the source's \<open>*end\<close>) or \<open>None\<close> on an error, and the buffer.
\<close>

function unescape_loop :: "encoder option \<Rightarrow> string \<Rightarrow> nat \<Rightarrow> nat \<Rightarrow> (nat option \<times> string) result" where
  "unescape_loop encoder b p d =
     (if length b \<le> p then Inl Out_of_bounds
      else let c = b ! p in
        if c = NUL then Inr (None, b)
        else if c = CHR 0x22 then
          (case wr b d [NUL] of Inl f \<Rightarrow> Inl f | Inr b' \<Rightarrow> Inr (Some (p + 1), b'))
        else if c = CHR 0x5C then
          (case rd b (p + 1) of
             Inl f \<Rightarrow> Inl f
           | Inr e \<Rightarrow>
              (case simple_escape e of
                 Some x \<Rightarrow>
                   (case wr b d [x] of Inl f \<Rightarrow> Inl f
                    | Inr b' \<Rightarrow> unescape_loop encoder b' (p + 2) (d + 1))
               | None \<Rightarrow>
                  if e = CHR ''u'' then
                    (case encoder of
                       None \<Rightarrow>
                         (case wr b d [c] of Inl f \<Rightarrow> Inl f
                          | Inr b' \<Rightarrow> unescape_loop encoder b' (p + 1) (d + 1))
                     | Some encode \<Rightarrow>
                         (case unicode_escape b (p + 1) of
                            Inl f \<Rightarrow> Inl f
                          | Inr None \<Rightarrow> Inr (None, b)
                          | Inr (Some (codepoint, q)) \<Rightarrow>
                             (case encode codepoint of
                                None \<Rightarrow> Inr (None, b)
                              | Some bs \<Rightarrow>
                                 (case wr b d bs of Inl f \<Rightarrow> Inl f
                                  | Inr b' \<Rightarrow> unescape_loop encoder b' (q + 5) (d + length bs)))))
                  else
                    (case wr b d [c] of Inl f \<Rightarrow> Inl f
                     | Inr b' \<Rightarrow> unescape_loop encoder b' (p + 1) (d + 1))))
        else
          (case wr b d [c] of Inl f \<Rightarrow> Inl f
           | Inr b' \<Rightarrow> unescape_loop encoder b' (p + 1) (d + 1)))"
  by pat_completeness auto
termination
  by (relation "measure (\<lambda>(encoder, b, p, d). length b - p)")
    (auto dest!: wr_length unicode_escape_ge)

declare unescape_loop.simps [simp del]

text \<open>\<open>unescape_string\<close> returns \<open>s\<close> itself on success.\<close>

definition unescape_string ::
  "encoder option \<Rightarrow> string \<Rightarrow> nat \<Rightarrow> ((nat \<times> nat) option \<times> string) result" where
  "unescape_string encoder b s =
     bindR (unescape_loop encoder b s s) (\<lambda>(e, b'). Inr (map_option (\<lambda>p. (s, p)) e, b'))"

lemma strchr_ge: "strchr b i c = Inr (Some j) \<Longrightarrow> i \<le> j \<and> j < length b \<and> b ! j = c"
proof (induction b i c rule: strchr.induct)
  case (1 b i c)
  then show ?case by (subst (asm) (2) strchr.simps) (auto split: if_splits)
qed

text \<open>The \<open>REPEAT\<close> loop of \<open>skip_block_comment\<close>.\<close>

function skip_repeat :: "string \<Rightarrow> nat \<Rightarrow> nat option result" where
  "skip_repeat b p =
     (case strchr b (p + 1) (CHR ''/'') of
        Inl f \<Rightarrow> Inl f
      | Inr None \<Rightarrow> Inr None
      | Inr (Some q) \<Rightarrow> if b ! (q - 1) \<noteq> CHR ''*'' then skip_repeat b q else Inr (Some (q + 1)))"
  by pat_completeness auto
termination by (relation "measure (\<lambda>(b, p). length b - p)") (auto dest!: strchr_ge)

declare skip_repeat.simps [simp del]

definition skip_block_comment :: "string \<Rightarrow> nat \<Rightarrow> nat option result" where
  "skip_block_comment b p =
     bindR (rd b p) (\<lambda>c. if c = NUL then Inr None else skip_repeat b p)"

text \<open>A line comment whose text starts at \<open>p\<close>: the position behind the line feed.\<close>

definition skip_line_comment :: "string \<Rightarrow> nat \<Rightarrow> nat option result" where
  "skip_line_comment b p = bindR (strchr b p (CHR 0x0A)) (\<lambda>r. Inr (map_option Suc r))"

text \<open>\<open>while (*p && IS_WHITESPACE (*p)) p++\<close>\<close>

function skip_ws :: "string \<Rightarrow> nat \<Rightarrow> nat result" where
  "skip_ws b p =
     (if p < length b then
        if b ! p \<noteq> NUL \<and> IS_WHITESPACE (b ! p) then skip_ws b (Suc p) else Inr p
      else Inl Out_of_bounds)"
  by pat_completeness auto
termination by (relation "measure (\<lambda>(b, p). length b - p)") auto

declare skip_ws.simps [simp del]

lemma skip_repeat_gt: "skip_repeat b p = Inr (Some q) \<Longrightarrow> p < q"
proof (induction b p rule: skip_repeat.induct)
  case (1 b p)
  from "1.prems" obtain r where r: "strchr b (p + 1) (CHR ''/'') = Inr (Some r)"
    "b ! (r - 1) \<noteq> CHR ''*'' \<and> skip_repeat b r = Inr (Some q) \<or> q = r + 1"
    by (subst (asm) skip_repeat.simps) (auto split: sum.splits option.splits if_splits)
  from strchr_ge [OF r(1)] r "1.IH" show ?case by fastforce
qed

lemma skip_block_comment_gt: "skip_block_comment b p = Inr (Some q) \<Longrightarrow> p < q"
  by (auto simp: skip_block_comment_def bindR_eq_Inr split: if_splits dest: skip_repeat_gt)

lemma skip_line_comment_gt: "skip_line_comment b p = Inr (Some q) \<Longrightarrow> p < q"
  by (auto simp: skip_line_comment_def bindR_eq_Inr dest: strchr_ge)

text \<open>
  \<open>parse_key\<close>: the position to go on from (that of a closing brace, or the one behind the
  colon) or \<open>None\<close> on an error; the key when one was read; and the buffer.
\<close>

function parse_key ::
  "encoder option \<Rightarrow> string \<Rightarrow> nat \<Rightarrow> (nat option \<times> nat option \<times> string) result" where
  "parse_key encoder b p =
     (if length b \<le> p then Inl Out_of_bounds
      else let c = b ! p in
        if c = NUL then Inr (None, None, b)
        else if c = CHR 0x22 then
          bindR (unescape_string encoder b (p + 1)) (\<lambda>(r, b').
            case r of None \<Rightarrow> Inr (None, None, b')
            | Some (key, e) \<Rightarrow> bindR (skip_ws b' e) (\<lambda>q.
                if b' ! q = CHR '':'' then Inr (Some (q + 1), Some key, b')
                else Inr (None, Some key, b')))
        else if IS_WHITESPACE c \<or> c = CHR '','' then parse_key encoder b (p + 1)
        else if c = CHR ''}'' then Inr (Some p, None, b)
        else if c = CHR ''/'' then
          (case rd b (p + 1) of
             Inl f \<Rightarrow> Inl f
           | Inr c2 \<Rightarrow>
               if c2 = CHR ''/'' then
                 (case skip_line_comment b (p + 2) of
                    Inl f \<Rightarrow> Inl f | Inr None \<Rightarrow> Inr (None, None, b)
                  | Inr (Some q) \<Rightarrow> parse_key encoder b q)
               else if c2 = CHR ''*'' then
                 (case skip_block_comment b (p + 2) of
                    Inl f \<Rightarrow> Inl f | Inr None \<Rightarrow> Inr (None, None, b)
                  | Inr (Some q) \<Rightarrow> parse_key encoder b q)
               else Inr (None, None, b))
        else Inr (None, None, b))"
  by pat_completeness auto
termination
  by (relation "measure (\<lambda>(encoder, b, p). length b - p)")
    (auto dest!: skip_line_comment_gt skip_block_comment_gt)

declare parse_key.simps [simp del]

subsection \<open>Values\<close>

type_synonym strtol_fn = "string \<Rightarrow> int \<times> nat"

text \<open>A leaf: \<open>create_json\<close>, then the fields the branch sets, then the position to go on from.\<close>

definition leaf_json ::
  "nx_json_type \<Rightarrow> nat option \<Rightarrow> nat \<Rightarrow> (nx_json \<Rightarrow> nx_json) \<Rightarrow> nat \<Rightarrow> jstate
   \<Rightarrow> (nat option \<times> jstate) result" where
  "leaf_json type' key parent f p st =
     bindR (create_json type' key parent st) (\<lambda>(js, st1). case js of
        None \<Rightarrow> Inr (None, st1)
      | Some a \<Rightarrow> bindR (upd_node a f st1) (\<lambda>st2. Inr (Some p, st2)))"

text \<open>The string branch: the node is linked before its text is decoded.\<close>

definition string_json ::
  "encoder option \<Rightarrow> nat option \<Rightarrow> nat \<Rightarrow> nat \<Rightarrow> jstate \<Rightarrow> (nat option \<times> jstate) result" where
  "string_json encoder key parent p st =
     bindR (create_json NX_JSON_STRING key parent st) (\<lambda>(js, st1). case js of
        None \<Rightarrow> Inr (None, st1)
      | Some a \<Rightarrow> bindR (unescape_string encoder (buf st1) p) (\<lambda>(r, b').
          let st2 = st1\<lparr>buf := b'\<rparr> in
          case r of
            None \<Rightarrow> Inr (None, st2)
          | Some (s, e) \<Rightarrow> bindR (upd_node a (\<lambda>n. n\<lparr>js_text_value := Some s\<rparr>) st2)
              (\<lambda>st3. Inr (Some e, st3))))"

text \<open>The number branch: \<open>int_value\<close> is stored before the check that something was consumed.\<close>

definition number_json ::
  "strtol_fn \<Rightarrow> nat option \<Rightarrow> nat \<Rightarrow> nat \<Rightarrow> jstate \<Rightarrow> (nat option \<times> jstate) result" where
  "number_json strtol key parent p st =
     bindR (create_json NX_JSON_INTEGER key parent st) (\<lambda>(js, st1). case js of
        None \<Rightarrow> Inr (None, st1)
      | Some a \<Rightarrow>
          let (v, n) = strtol (cstr (drop p (buf st1))) in
          bindR (upd_node a (\<lambda>nd. nd\<lparr>js_int_value := v\<rparr>) st1) (\<lambda>st2.
            if n = 0 then Inr (None, st2) else Inr (Some (p + n), st2)))"

text \<open>
  \<open>parse_value\<close>: one round of its \<open>while (1) switch (*p)\<close> per unit of fuel; \<open>object_loop\<close>
  and \<open>array_loop\<close> are the two inner loops, with \<open>js\<close> the node that was just created.
\<close>

function (sequential) parse_value ::
    "encoder option \<Rightarrow> strtol_fn \<Rightarrow> nat \<Rightarrow> nat \<Rightarrow> nat option \<Rightarrow> nat \<Rightarrow> jstate
     \<Rightarrow> (nat option \<times> jstate) result"
  and object_loop ::
    "encoder option \<Rightarrow> strtol_fn \<Rightarrow> nat \<Rightarrow> nat \<Rightarrow> nat \<Rightarrow> jstate \<Rightarrow> (nat option \<times> jstate) result"
  and array_loop ::
    "encoder option \<Rightarrow> strtol_fn \<Rightarrow> nat \<Rightarrow> nat \<Rightarrow> nat \<Rightarrow> jstate \<Rightarrow> (nat option \<times> jstate) result"
where
  "parse_value encoder strtol 0 parent key p st = Inl No_fuel"
| "parse_value encoder strtol (Suc fuel) parent key p st =
     bindR (rd (buf st) p) (\<lambda>c.
       if c = NUL then Inr (None, st)
       else if c = CHR '' '' \<or> c = CHR 0x09 \<or> c = CHR 0x0A \<or> c = CHR 0x0D \<or> c = CHR '','' then
         parse_value encoder strtol fuel parent key (p + 1) st
       else if c = CHR ''{'' then
         bindR (create_json NX_JSON_OBJECT key parent st) (\<lambda>(js, st1). case js of
            None \<Rightarrow> Inr (None, st1)
          | Some a \<Rightarrow> object_loop encoder strtol fuel a (p + 1) st1)
       else if c = CHR ''['' then
         bindR (create_json NX_JSON_ARRAY key parent st) (\<lambda>(js, st1). case js of
            None \<Rightarrow> Inr (None, st1)
          | Some a \<Rightarrow> array_loop encoder strtol fuel a (p + 1) st1)
       else if c = CHR '']'' then Inr (Some p, st)
       else if c = CHR 0x22 then string_json encoder key parent (p + 1) st
       else if c = CHR ''-'' \<or> (48 \<le> (of_char c :: nat) \<and> (of_char c :: nat) \<le> 57) then
         number_json strtol key parent p st
       else if c = CHR ''t'' then
         bindR (match_at (buf st) p ''true'') (\<lambda>m.
           if m then leaf_json NX_JSON_BOOL key parent (\<lambda>n. n\<lparr>js_int_value := 1\<rparr>) (p + 4) st
           else Inr (None, st))
       else if c = CHR ''f'' then
         bindR (match_at (buf st) p ''false'') (\<lambda>m.
           if m then leaf_json NX_JSON_BOOL key parent (\<lambda>n. n\<lparr>js_int_value := 0\<rparr>) (p + 5) st
           else Inr (None, st))
       else if c = CHR ''n'' then
         bindR (match_at (buf st) p ''null'') (\<lambda>m.
           if m then leaf_json NX_JSON_NULL key parent (\<lambda>n. n) (p + 4) st
           else Inr (None, st))
       else if c = CHR ''/'' then
         bindR (rd (buf st) (p + 1)) (\<lambda>c2.
           if c2 = CHR ''/'' then
             bindR (skip_line_comment (buf st) (p + 2)) (\<lambda>r. case r of
                None \<Rightarrow> Inr (None, st)
              | Some q \<Rightarrow> parse_value encoder strtol fuel parent key q st)
           else if c2 = CHR ''*'' then
             bindR (skip_block_comment (buf st) (p + 2)) (\<lambda>r. case r of
                None \<Rightarrow> Inr (None, st)
              | Some q \<Rightarrow> parse_value encoder strtol fuel parent key q st)
           else Inr (None, st))
       else Inr (None, st))"
| "object_loop encoder strtol 0 js p st = Inl No_fuel"
| "object_loop encoder strtol (Suc fuel) js p st =
     bindR (parse_key encoder (buf st) p) (\<lambda>(r, new_key, b').
       let st1 = st\<lparr>buf := b'\<rparr> in
       case r of
         None \<Rightarrow> Inr (None, st1)
       | Some q \<Rightarrow> bindR (rd b' q) (\<lambda>c.
           if c = CHR ''}'' then Inr (Some (q + 1), st1)
           else bindR (parse_value encoder strtol fuel js new_key q st1) (\<lambda>(r2, st2). case r2 of
              None \<Rightarrow> Inr (None, st2)
            | Some q2 \<Rightarrow> object_loop encoder strtol fuel js q2 st2)))"
| "array_loop encoder strtol 0 js p st = Inl No_fuel"
| "array_loop encoder strtol (Suc fuel) js p st =
     bindR (parse_value encoder strtol fuel js None p st) (\<lambda>(r, st1). case r of
        None \<Rightarrow> Inr (None, st1)
      | Some q \<Rightarrow> bindR (rd (buf st1) q) (\<lambda>c.
          if c = CHR '']'' then Inr (Some (q + 1), st1)
          else array_loop encoder strtol fuel js q st1))"
  by pat_completeness auto
termination
  by (relation "measure (\<lambda>x. case x of
        Inl (encoder, strtol, fuel, parent, key, p, st) \<Rightarrow> fuel
      | Inr (Inl (encoder, strtol, fuel, js, p, st)) \<Rightarrow> fuel
      | Inr (Inr (encoder, strtol, fuel, js, p, st)) \<Rightarrow> fuel)") auto

text \<open>
  \<open>nx_json_parse\<close>: the root \<open>js\<close> is a local variable, at address 0 here; it is gone when the
  function returns.  The result is the root's first child, null when there is none.
\<close>

definition nx_json_parse ::
  "encoder option \<Rightarrow> strtol_fn \<Rightarrow> nat \<Rightarrow> string \<Rightarrow> (nat option \<times> jstate) result" where
  "nx_json_parse encoder strtol mem text' =
     bindR (parse_value encoder strtol (2 * length text' + 2) 0 None 0
         \<lparr>buf = text', heap = [0 \<mapsto> zero_json], brk = 1, mem_left = mem\<rparr>) (\<lambda>(r, st).
     bindR (load (heap st) 0) (\<lambda>root.
       case r of
         None \<Rightarrow>
           (case js_child root of
              None \<Rightarrow> Inr (None, st\<lparr>heap := (heap st)(0 := None)\<rparr>)
            | Some a \<Rightarrow> bindR (nx_json_free (2 * brk st) a (heap st)) (\<lambda>h.
                Inr (None, st\<lparr>heap := h(0 := None)\<rparr>)))
       | Some _ \<Rightarrow> Inr (js_child root, st\<lparr>heap := (heap st)(0 := None)\<rparr>)))"

definition nx_json_parse_utf8 :: "strtol_fn \<Rightarrow> nat \<Rightarrow> string \<Rightarrow> (nat option \<times> jstate) result" where
  "nx_json_parse_utf8 = nx_json_parse (Some unicode_to_utf8)"

subsection \<open>Access\<close>

text \<open>A node pointer: null, the static \<open>dummy\<close>, or a heap node.\<close>

datatype jptr = J_null | J_dummy | J_at nat

definition deref :: "jheap \<Rightarrow> jptr \<Rightarrow> nx_json result" where
  "deref h p = (case p of J_null \<Rightarrow> Inl Null_deref | J_dummy \<Rightarrow> Inr zero_json | J_at a \<Rightarrow> load h a)"

definition str_at :: "string \<Rightarrow> nat \<Rightarrow> string result" where
  "str_at b k = (if NUL \<in> set (drop k b) then Inr (cstr (drop k b)) else Inl Out_of_bounds)"

fun get_loop :: "nat \<Rightarrow> string \<Rightarrow> jheap \<Rightarrow> nat option \<Rightarrow> string \<Rightarrow> jptr result" where
  "get_loop 0 b h p key = Inl No_fuel"
| "get_loop (Suc fuel) b h p key =
     (case p of
        None \<Rightarrow> Inr J_dummy
      | Some js \<Rightarrow> bindR (load h js) (\<lambda>n.
          bindR (case js_key n of None \<Rightarrow> Inr False | Some k \<Rightarrow> bindR (str_at b k) (\<lambda>s. Inr (s = key)))
            (\<lambda>m. if m then Inr (J_at js) else get_loop fuel b h (js_next n) key)))"

definition nx_json_get :: "jstate \<Rightarrow> jptr \<Rightarrow> string option \<Rightarrow> jptr result" where
  "nx_json_get st json key =
     (if json = J_null then Inr J_dummy
      else case key of
          None \<Rightarrow> Inr J_dummy
        | Some k \<Rightarrow> bindR (deref (heap st) json) (\<lambda>n.
            get_loop (Suc (brk st)) (buf st) (heap st) (js_child n) k))"

fun item_loop :: "nat \<Rightarrow> jheap \<Rightarrow> nat option \<Rightarrow> int \<Rightarrow> jptr result" where
  "item_loop 0 h p idx = Inl No_fuel"
| "item_loop (Suc fuel) h p idx =
     (case p of
        None \<Rightarrow> Inr J_dummy
      | Some js \<Rightarrow> bindR (load h js) (\<lambda>n.
          if idx = 0 then Inr (J_at js) else item_loop fuel h (js_next n) (idx - 1)))"

definition nx_json_item :: "jstate \<Rightarrow> jptr \<Rightarrow> int \<Rightarrow> jptr result" where
  "nx_json_item st json idx =
     (if json = J_null then Inr J_dummy
      else bindR (deref (heap st) json) (\<lambda>n.
        item_loop (Suc (brk st)) (heap st) (js_child n) idx))"

end
