(* ===== verification/NxJsonString.thy ===== *)
theory NxJsonString
  imports NxJson
begin

text \<open>
  The string decoder of \<open>nxjson.c\<close> against a reference.  \<open>unescape\<close> is the decoder as a
  function on strings, without a buffer; \<open>unescape_loop\<close>, which decodes in place, is shown
  to compute the same and never to write at or behind the position it reads from.  The
  UTF-8 encoder is shown to be inverted by a decoder and to refuse exactly the surrogates
  and the values beyond \<open>0x10ffff\<close>.
\<close>

subsection \<open>Terminated text in a buffer\<close>

text \<open>\<open>text_at b p xs\<close>: from index \<open>p\<close> on the buffer holds the C string \<open>xs\<close> and its terminator.\<close>

fun text_at :: "string \<Rightarrow> nat \<Rightarrow> string \<Rightarrow> bool" where
  "text_at b p [] \<longleftrightarrow> p < length b \<and> b ! p = NUL"
| "text_at b p (x # xs) \<longleftrightarrow> p < length b \<and> b ! p = x \<and> x \<noteq> NUL \<and> text_at b (Suc p) xs"

lemma text_at_bound: "text_at b p xs \<Longrightarrow> p + length xs < length b"
  by (induction xs arbitrary: p) fastforce+

lemma text_at_rd: "text_at b p xs \<Longrightarrow> rd b p = Inr (case xs of [] \<Rightarrow> NUL | x # _ \<Rightarrow> x)"
  by (cases xs) (simp_all add: rd_def)

lemma text_at_append: "text_at b p (xs @ ys) \<Longrightarrow> text_at b (p + length xs) ys"
  by (induction xs arbitrary: p) fastforce+

lemma text_at_cong:
  assumes "length b' = length b" "drop p b' = drop p b"
  shows "text_at b' p xs = text_at b p xs"
proof -
  have eq: "b' ! i = b ! i" if "p \<le> i" "i < length b" for i
  proof -
    have "drop p b' ! (i - p) = drop p b ! (i - p)" by (simp only: assms(2))
    then show ?thesis using that assms(1) by simp
  qed
  have "text_at b' q xs = text_at b q xs" if "p \<le> q" for q
    using that by (induction xs arbitrary: q) (auto simp: assms(1) eq)
  then show ?thesis by simp
qed

lemma text_at_cstr: "text_at b p xs \<Longrightarrow> cstr (drop p b) = xs"
proof (induction xs arbitrary: p)
  case Nil
  then show ?case by (simp add: cstr_def Cons_nth_drop_Suc [symmetric])
next
  case (Cons x xs)
  then show ?case by (simp add: cstr_def Cons_nth_drop_Suc [symmetric])
qed

lemma text_at_no_NUL: "text_at b p xs \<Longrightarrow> NUL \<notin> set xs"
  by (induction xs arbitrary: p) auto

lemma text_at_exists: "NUL \<in> set (drop p b) \<Longrightarrow> \<exists>xs. text_at b p xs"
proof (induction "length b - p" arbitrary: p)
  case 0
  then show ?case by simp
next
  case (Suc n)
  then have p: "p < length b" by simp
  show ?case
  proof (cases "b ! p = NUL")
    case True
    with p have "text_at b p []" by simp
    then show ?thesis ..
  next
    case False
    with Suc.prems p have "NUL \<in> set (drop (Suc p) b)" by (simp add: Cons_nth_drop_Suc [symmetric])
    with Suc obtain xs where "text_at b (Suc p) xs" by fastforce
    with p False have "text_at b p (b ! p # xs)" by simp
    then show ?thesis ..
  qed
qed

subsection \<open>The reference decoder\<close>

fun hex4s :: "string \<Rightarrow> (u32 \<times> string) option" where
  "hex4s (c1 # c2 # c3 # c4 # r) =
     (if hex_val c1 < 0 \<or> hex_val c2 < 0 \<or> hex_val c3 < 0 \<or> hex_val c4 < 0 then None
      else Some (push_bit 12 (of_int (hex_val c1)) OR push_bit 8 (of_int (hex_val c2))
         OR push_bit 4 (of_int (hex_val c3)) OR of_int (hex_val c4), r))"
| "hex4s _ = None"

text \<open>The text behind \<open>\u\<close>: the code point and what follows the escape.\<close>

definition unescape_u :: "string \<Rightarrow> (u32 \<times> string) option" where
  "unescape_u xs = (case hex4s xs of
      None \<Rightarrow> None
    | Some (cp, r) \<Rightarrow>
        if cp AND 0xfc00 = 0xd800 then
          (case r of
             x # y # r2 \<Rightarrow>
               if x = CHR 0x5C \<and> y = CHR ''u'' then
                 (case hex4s r2 of
                    None \<Rightarrow> None
                  | Some (cp2, r3) \<Rightarrow>
                      if cp2 AND 0xfc00 = 0xdc00
                      then Some (0x10000 + push_bit 10 (cp - 0xd800) + (cp2 - 0xdc00), r3) else None)
               else None
           | _ \<Rightarrow> None)
        else Some (cp, r))"

lemma hex4s_length: "hex4s xs = Some (v, r) \<Longrightarrow> length xs = length r + 4"
  by (induction xs rule: hex4s.induct) (auto split: if_splits)

lemma unescape_u_length: "unescape_u xs = Some (cp, r) \<Longrightarrow> length r + 4 \<le> length xs"
  by (auto simp: unescape_u_def split: option.splits list.splits if_splits dest!: hex4s_length)

definition emit :: "string \<Rightarrow> (string \<times> string) option \<Rightarrow> (string \<times> string) option" where
  "emit cs r = map_option (\<lambda>(s, rest). (cs @ s, rest)) r"

function unescape :: "encoder option \<Rightarrow> string \<Rightarrow> (string \<times> string) option" where
  "unescape enc [] = None"
| "unescape enc (c # cs) =
     (if c = CHR 0x22 then Some ([], cs)
      else if c = CHR 0x5C then
        (case cs of
           [] \<Rightarrow> None
         | e # es \<Rightarrow>
            (case simple_escape e of
               Some x \<Rightarrow> emit [x] (unescape enc es)
             | None \<Rightarrow>
                if e = CHR ''u'' then
                  (case enc of
                     None \<Rightarrow> emit [c] (unescape enc cs)
                   | Some encode \<Rightarrow>
                      (case unescape_u es of
                         None \<Rightarrow> None
                       | Some (cp, r) \<Rightarrow>
                          (case encode cp of
                             None \<Rightarrow> None
                           | Some bs \<Rightarrow> emit bs (unescape enc r))))
                else emit [c] (unescape enc cs)))
      else emit [c] (unescape enc cs))"
  by pat_completeness auto
termination
  by (relation "measure (\<lambda>(enc, xs). length xs)") (auto dest!: unescape_u_length)

lemma hex_val_NUL [simp]: "hex_val NUL = - 1"
  by (simp add: hex_val_def)

lemma hex4_text:
  assumes "text_at b i xs"
  shows "hex4 b i = Inr (map_option fst (hex4s xs))"
proof -
  consider "length xs = 0" | "length xs = 1" | "length xs = 2" | "length xs = 3" | "4 \<le> length xs"
    by linarith
  then show ?thesis
    using assms
    by cases (auto simp: hex4_def rd_def length_Suc_conv numeral_eq_Suc Suc_le_length_iff)
qed

lemma hex4s_rest: "hex4s xs = Some (v, r) \<Longrightarrow> text_at b i xs \<Longrightarrow> text_at b (i + 4) r"
  by (induction xs rule: hex4s.induct) (auto simp: eval_nat_numeral split: if_splits)

lemma unicode_escape_text:
  assumes "text_at b (Suc p) xs"
  shows "unicode_escape b p = (case unescape_u xs of
      None \<Rightarrow> Inr None
    | Some (cp, r) \<Rightarrow> Inr (Some (cp, p + length xs - length r - 4)))"
proof (cases "hex4s xs")
  case None
  then show ?thesis by (simp add: unicode_escape_def unescape_u_def hex4_text [OF assms])
next
  case (Some a)
  obtain cp r where a: "hex4s xs = Some (cp, r)" using Some by (cases a) auto
  have len: "length xs = length r + 4" by (rule hex4s_length [OF a])
  have r: "text_at b (p + 5) r" using hex4s_rest [OF a assms] by (simp add: add.commute)
  show ?thesis
  proof (cases "cp AND 0xfc00 = 0xd800")
    case False
    then show ?thesis by (simp add: unicode_escape_def unescape_u_def hex4_text [OF assms] a len)
  next
    case sur: True
    show ?thesis
    proof (cases "\<exists>r2. r = CHR 0x5C # CHR ''u'' # r2")
      case False
      then show ?thesis
        using r sur
        by (auto simp: unicode_escape_def unescape_u_def hex4_text [OF assms] a rd_def add.commute
            split: list.splits)
    next
      case True
      then obtain r2 where r2: "r = CHR 0x5C # CHR ''u'' # r2" by blast
      have t2: "text_at b (p + 7) r2" using r by (simp add: r2 eval_nat_numeral)
      have "rd b (p + 5) = Inr (CHR 0x5C)" "rd b (p + 6) = Inr (CHR ''u'')"
        using r by (simp_all add: r2 rd_def eval_nat_numeral)
      then show ?thesis
        using sur len
        by (auto simp: unicode_escape_def unescape_u_def hex4_text [OF assms] hex4_text [OF t2] a r2
            split: option.splits dest!: hex4s_length)
    qed
  qed
qed

lemma unescape_u_rest:
  assumes "unescape_u xs = Some (cp, r)" "text_at b i xs"
  shows "text_at b (i + length xs - length r) r"
proof -
  obtain v r1 where h: "hex4s xs = Some (v, r1)" using assms(1) by (auto simp: unescape_u_def split: option.splits)
  have l: "length xs = length r1 + 4" and t: "text_at b (i + 4) r1"
    using hex4s_length [OF h] hex4s_rest [OF h assms(2)] .
  consider "r = r1" | r2 v2 where "r1 = CHR 0x5C # CHR ''u'' # r2" "hex4s r2 = Some (v2, r)"
    using assms(1) h by (auto simp: unescape_u_def split: option.splits list.splits if_splits)
  then show ?thesis
  proof cases
    case 1
    then show ?thesis using l t by simp
  next
    case 2
    have "text_at b (i + 4 + 2) r2" using t 2(1) by (simp add: eval_nat_numeral)
    then have "text_at b (i + 4 + 2 + 4) r" by (rule hex4s_rest [OF 2(2)])
    moreover have "i + length xs - length r = i + 4 + 2 + 4"
      using hex4s_length [OF 2(2)] l 2(1) by simp
    ultimately show ?thesis by metis
  qed
qed

subsection \<open>In-place decoding\<close>

text \<open>An encoder that never produces more bytes than the shortest escape has characters.\<close>

definition encoder_fits :: "encoder option \<Rightarrow> bool" where
  "encoder_fits enc \<longleftrightarrow> (\<forall>encode cp bs. enc = Some encode \<longrightarrow> encode cp = Some bs \<longrightarrow> length bs \<le> 6)"

text \<open>
  What the loop has to deliver from a state with \<open>xs\<close> unread at \<open>p\<close>: the reference's answer;
  nothing below \<open>d\<close> and nothing from the final read position on is changed; the decoded
  string stands at \<open>d\<close> with its terminator, in front of the read position.
\<close>

definition decodes :: "encoder option \<Rightarrow> string \<Rightarrow> nat \<Rightarrow> nat \<Rightarrow> string \<Rightarrow> bool" where
  "decodes enc b p d xs \<longleftrightarrow> (case unescape enc xs of
      None \<Rightarrow> (\<exists>b'. unescape_loop enc b p d = Inr (None, b') \<and> length b' = length b \<and> take d b' = take d b)
    | Some (s, rest) \<Rightarrow> (\<exists>b'. unescape_loop enc b p d = Inr (Some (p + length xs - length rest), b')
        \<and> length b' = length b \<and> take d b' = take d b
        \<and> window d (length s + 1) b' = s @ [NUL]
        \<and> length rest < length xs \<and> d + length s < p + length xs - length rest
        \<and> drop (p + length xs - length rest) b' = drop (p + length xs - length rest) b))"

lemma overlay_take_drop:
  assumes "d + length cs \<le> length b"
  shows "take d (overlay d cs b) = take d b" "d + length cs \<le> q \<Longrightarrow> drop q (overlay d cs b) = drop q b"
    "take (d + length cs) (overlay d cs b) = take d b @ cs"
  using assms by (auto simp: overlay_def)

lemma decodes_emit:
  assumes "decodes enc (overlay d cs b) q (d + length cs) ys"
    and "unescape_loop enc b p d = unescape_loop enc (overlay d cs b) q (d + length cs)"
    and "unescape enc xs = emit cs (unescape enc ys)"
    and "d + length cs \<le> q" "q + length ys = p + length xs" "p \<le> q" "q \<le> length b"
  shows "decodes enc b p d xs"
proof -
  let ?b1 = "overlay d cs b"
  have le: "d + length cs \<le> length b" using assms(4,7) by simp
  note od = overlay_take_drop [OF le]
  have keep: "take d b' = take d b" if "take (d + length cs) b' = take (d + length cs) ?b1" for b'
  proof -
    have "take d b' = take d (take (d + length cs) b')" by simp
    also have "\<dots> = take d (take d b @ cs)" using that od(3) by simp
    also have "\<dots> = take d b" using le by simp
    finally show ?thesis .
  qed
  show ?thesis
  proof (cases "unescape enc ys")
    case None
    then show ?thesis using assms(1-3) keep le by (auto simp: decodes_def emit_def)
  next
    case (Some r)
    obtain s rest where r: "unescape enc ys = Some (s, rest)" using Some by (cases r) auto
    then obtain b' where b': "unescape_loop enc ?b1 q (d + length cs) = Inr (Some (q + length ys - length rest), b')"
      "length b' = length ?b1" "take (d + length cs) b' = take (d + length cs) ?b1"
      "window (d + length cs) (length s + 1) b' = s @ [NUL]" "length rest < length ys"
      "d + length cs + length s < q + length ys - length rest"
      "drop (q + length ys - length rest) b' = drop (q + length ys - length rest) ?b1"
      using assms(1) by (auto simp: decodes_def)
    have "window d (length cs) b' = cs"
    proof -
      have "window d (length cs) b' = drop d (take (d + length cs) b')" by (simp add: window_def drop_take)
      also have "\<dots> = cs" using b'(3) od(3) le by simp
      finally show ?thesis .
    qed
    moreover have "window d (length (cs @ s) + 1) b' = window d (length cs) b' @ window (d + length cs) (length s + 1) b'"
      using window_append [of d "length cs" "length s + 1" b'] by (simp add: add.assoc)
    ultimately have "window d (length (cs @ s) + 1) b' = (cs @ s) @ [NUL]" using b'(4) by simp
    then show ?thesis
      using assms(2-7) r b' keep [OF b'(3)] od(2) le by (simp add: decodes_def emit_def)
  qed
qed

text \<open>One round of the loop that stores \<open>cs\<close> and goes on at \<open>q\<close> with \<open>ys\<close> unread.\<close>

lemma wr_ok: "d + length cs \<le> length b \<Longrightarrow> wr b d cs = Inr (overlay d cs b)"
  by (simp add: wr_def mem_write_def)

lemma text_at_overlay:
  "d + length cs \<le> p \<Longrightarrow> p \<le> length b \<Longrightarrow> text_at (overlay d cs b) p xs = text_at b p xs"
  by (intro text_at_cong) (simp_all add: overlay_take_drop)

lemma simple_escape_NUL: "simple_escape NUL = None"
  by (simp add: simple_escape_def)

lemma text_at_NUL_overlay:
  "d \<le> p \<Longrightarrow> Suc p < length b \<Longrightarrow> overlay d [c] b ! Suc p = b ! Suc p"
  by (simp add: overlay_single)

lemma decodes_plain:
  assumes "text_at b p (c # cs)" "d \<le> p" "unescape enc (c # cs) = emit [c] (unescape enc cs)"
    and "unescape_loop enc b p d = (case wr b d [c] of Inl f \<Rightarrow> Inl f
       | Inr b' \<Rightarrow> unescape_loop enc b' (p + 1) (d + 1))"
    and "\<forall>b p d. text_at b p cs \<longrightarrow> d \<le> p \<longrightarrow> decodes enc b p d cs"
  shows "decodes enc b p d (c # cs)"
  by (rule decodes_emit [where cs = "[c]" and ys = cs and q = "Suc p"])
    (use assms text_at_bound [OF assms(1)] in \<open>simp_all add: wr_ok text_at_overlay\<close>)

lemma decodes_quote:
  assumes "text_at b p (CHR 0x22 # cs)" "d \<le> p"
  shows "decodes enc b p d (CHR 0x22 # cs)"
proof -
  note p = text_at_bound [OF assms(1)]
  have "window d 1 (overlay d [NUL] b) = [NUL]" using p assms(2) by (simp add: window_overlay_within)
  moreover have "drop (Suc p) (overlay d [NUL] b) = drop (Suc p) b" using p assms(2) by (simp add: overlay_take_drop)
  ultimately show ?thesis
    using assms p by (simp add: decodes_def unescape_loop.simps [of enc b p d] wr_ok overlay_take_drop)
qed

lemma decodes_unicode:
  assumes at: "text_at b p (CHR 0x5C # CHR ''u'' # es)" "d \<le> p" and fits: "encoder_fits (Some encode)"
    and ih: "\<forall>ys b p d. length ys < length es \<longrightarrow> text_at b p ys \<longrightarrow> d \<le> p \<longrightarrow> decodes (Some encode) b p d ys"
  shows "decodes (Some encode) b p d (CHR 0x5C # CHR ''u'' # es)"
proof -
  let ?enc = "Some encode" and ?xs = "CHR 0x5C # CHR ''u'' # es"
  have e: "b ! p = CHR 0x5C" "rd b (p + 1) = Inr CHR ''u''" "text_at b (p + 2) es" "\<not> length b \<le> p"
    using at(1) text_at_bound [OF at(1)] by (simp_all add: rd_def)
  have u: "unicode_escape b (Suc p) = (case unescape_u es of None \<Rightarrow> Inr None
      | Some (cp, r) \<Rightarrow> Inr (Some (cp, Suc p + length es - length r - 4)))"
    using unicode_escape_text [of b "Suc p" es] e(3) by simp
  have simple: "simple_escape CHR ''u'' = None" by (simp add: simple_escape_def)
  note loop = unescape_loop.simps [of ?enc b p d]
  show ?thesis
  proof (cases "\<exists>cp r bs. unescape_u es = Some (cp, r) \<and> encode cp = Some bs")
    case False
    then have "unescape_loop ?enc b p d = Inr (None, b)"
      unfolding loop using e simple by (auto simp: u split: option.splits)
    moreover have "unescape ?enc ?xs = None" using False simple by (auto split: option.splits)
    ultimately show ?thesis by (simp add: decodes_def)
  next
    case True
    then obtain cp r bs where r: "unescape_u es = Some (cp, r)" "encode cp = Some bs" by blast
    let ?q = "p + 2 + length es - length r"
    have n: "length r + 4 \<le> length es" by (rule unescape_u_length [OF r(1)])
    have q: "text_at b ?q r" using unescape_u_rest [OF r(1) e(3)] .
    have "length bs \<le> 6" using fits r(2) by (auto simp: encoder_fits_def)
    then have le: "?q \<le> length b" "d + length bs \<le> ?q" using text_at_bound [OF q] n at(2) by simp_all
    show ?thesis
    proof (rule decodes_emit [where cs = bs and ys = r and q = ?q])
      show "decodes ?enc (overlay d bs b) ?q (d + length bs) r"
        using le q n ih by (simp add: text_at_overlay)
      have "Suc p + length es - length r - 4 + 5 = ?q" using n by simp
      then show "unescape_loop ?enc b p d = unescape_loop ?enc (overlay d bs b) ?q (d + length bs)"
        by (subst loop) (use e simple r le in \<open>simp add: u wr_ok\<close>)
      show "unescape ?enc ?xs = emit bs (unescape ?enc r)" using r simple by simp
    qed (use le n in simp_all)
  qed
qed

lemma decodes_escape:
  assumes at: "text_at b p (CHR 0x5C # cs)" "d \<le> p" and fits: "encoder_fits enc"
    and ih: "\<forall>ys b p d. length ys \<le> length cs \<longrightarrow> text_at b p ys \<longrightarrow> d \<le> p \<longrightarrow> decodes enc b p d ys"
  shows "decodes enc b p d (CHR 0x5C # cs)"
proof (cases cs)
  case Nil
  have "p + 1 < length b" "b ! (p + 1) = NUL" using at(1) Nil by simp_all
  then show ?thesis
    using at Nil
    by (auto simp: decodes_def unescape_loop.simps [of enc b p d] rd_def wr_ok simple_escape_NUL
        unescape_loop.simps [of enc "overlay d [CHR 0x5C] b" "Suc p" "Suc d"] text_at_NUL_overlay
        overlay_take_drop)
next
  case (Cons e es)
  have e: "b ! p = CHR 0x5C" "\<not> length b \<le> p" "rd b (p + 1) = Inr e" "text_at b (p + 2) es" "p + 2 \<le> length b"
    using at(1) text_at_bound [OF at(1)] Cons by (simp_all add: rd_def)
  note loop = unescape_loop.simps [of enc b p d]
  consider (simple) x where "simple_escape e = Some x"
    | (left) "simple_escape e = None" "e \<noteq> CHR ''u'' \<or> enc = None"
    | (uni) encode where "e = CHR ''u''" "enc = Some encode"
    by (cases "simple_escape e"; cases "e = CHR ''u''"; cases enc) auto
  then show ?thesis
  proof cases
    case simple
    show ?thesis
      by (rule decodes_emit [where cs = "[x]" and ys = es and q = "p + 2"])
        (use simple e Cons at(2) ih in \<open>simp_all add: loop wr_ok text_at_overlay\<close>)
  next
    case left
    show ?thesis
      by (rule decodes_plain [OF at]) (use left e Cons ih in \<open>auto simp: loop Let_def\<close>)
  next
    case uni
    then show ?thesis using decodes_unicode [of b p es d encode] at fits ih Cons by simp
  qed
qed

lemma unescape_loop_decodes:
  assumes "text_at b p xs" "d \<le> p" "encoder_fits enc"
  shows "decodes enc b p d xs"
  using assms(1,2)
proof (induction "length xs" arbitrary: xs b p d rule: less_induct)
  case less
  show ?case
  proof (cases xs)
    case Nil
    then show ?thesis using less.prems by (simp add: decodes_def unescape_loop.simps [of enc b p d])
  next
    case (Cons c cs)
    have ih: "\<forall>ys b p d. length ys \<le> length cs \<longrightarrow> text_at b p ys \<longrightarrow> d \<le> p \<longrightarrow> decodes enc b p d ys"
      using less.hyps Cons by simp
    have at: "b ! p = c" "c \<noteq> NUL" "\<not> length b \<le> p" using less.prems Cons by auto
    consider "c = CHR 0x22" | "c = CHR 0x5C" | (other) "c \<noteq> CHR 0x22" "c \<noteq> CHR 0x5C" by blast
    then show ?thesis
    proof cases
      case 1
      then show ?thesis using decodes_quote less.prems Cons by simp
    next
      case 2
      then show ?thesis using decodes_escape [OF _ _ assms(3) ih] less.prems Cons by simp
    next
      case other
      show ?thesis unfolding Cons
        by (rule decodes_plain) (use other at ih less.prems Cons in \<open>auto simp: unescape_loop.simps [of enc b p d]\<close>)
    qed
  qed
qed

text \<open>A string written as a JSON literal: quotes and backslashes escaped, the rest as it is.\<close>

fun escape :: "string \<Rightarrow> string" where
  "escape [] = []"
| "escape (c # cs) = (if c = CHR 0x22 \<or> c = CHR 0x5C then [CHR 0x5C, c] else [c]) @ escape cs"

lemma unescape_escape: "unescape enc (escape s @ CHR 0x22 # rest) = Some (s, rest)"
  by (induction s) (auto simp: emit_def simple_escape_def)

subsection \<open>UTF-8\<close>

text \<open>The reference decoder of one UTF-8 sequence.\<close>

fun utf8_decode :: "string \<Rightarrow> nat option" where
  "utf8_decode [a] = (if of_char a < (0x80 :: nat) then Some (of_char a) else None)"
| "utf8_decode [a, b] = (if of_char a div 32 = (6 :: nat) \<and> of_char b div 64 = (2 :: nat)
     then Some (of_char a mod 32 * 64 + of_char b mod 64) else None)"
| "utf8_decode [a, b, c] = (if of_char a div 16 = (14 :: nat) \<and> of_char b div 64 = (2 :: nat)
       \<and> of_char c div 64 = (2 :: nat)
     then Some (of_char a mod 16 * 4096 + of_char b mod 64 * 64 + of_char c mod 64) else None)"
| "utf8_decode [a, b, c, d] = (if of_char a div 8 = (30 :: nat) \<and> of_char b div 64 = (2 :: nat)
       \<and> of_char c div 64 = (2 :: nat) \<and> of_char d div 64 = (2 :: nat)
     then Some (of_char a mod 8 * 262144 + of_char b mod 64 * 4096 + of_char c mod 64 * 64 + of_char d mod 64)
     else None)"
| "utf8_decode _ = None"

lemma of_char_to_byte: "unat x < 256 \<Longrightarrow> (of_char (to_byte x) :: nat) = unat x"
  by (simp add: to_byte_def)

lemma surrogate_nat: "c - 0xd800 < 0x800 \<longleftrightarrow> 0xd800 \<le> unat c \<and> unat c < 0xe000" for c :: u32
  using unat_less_size(3) [of c] by (auto simp: word_less_nat_alt unat_sub_if')

lemma utf8_unat:
  fixes c :: u32
  assumes "unat c < 0x110000"
  shows "unat (c div 64) = unat c div 64" "unat (c mod 64) = unat c mod 64"
    "unat (c div 4096) = unat c div 4096" "unat (c div 4096 mod 64) = unat c div 4096 mod 64"
    "unat (c div 64 mod 64) = unat c div 64 mod 64" "unat (c div 262144) = unat c div 262144"
  by (simp_all add: unat_div_distrib unat_mod_distrib)

lemma unat_plus_small: "unat a + unat b < 4294967296 \<Longrightarrow> unat (a + b) = unat a + unat b" for a b :: u32
  by (simp add: unat_plus_if')

lemma of_char_tagged:
  fixes x t :: u32
  assumes "unat t + unat x < 256"
  shows "(of_char (to_byte (t + x)) :: nat) = unat t + unat x"
  using assms by (simp add: of_char_to_byte unat_plus_small)

lemma tagged_div_mod:
  fixes x :: nat
  shows "x < 64 \<Longrightarrow> (128 + x) div 64 = 2 \<and> (128 + x) mod 64 = x"
    and "x < 32 \<Longrightarrow> (192 + x) div 32 = 6 \<and> (192 + x) mod 32 = x"
    and "x < 16 \<Longrightarrow> (224 + x) div 16 = 14 \<and> (224 + x) mod 16 = x"
    and "x < 8 \<Longrightarrow> (240 + x) div 8 = 30 \<and> (240 + x) mod 8 = x"
proof -
  have t: "(k * a + x) div k = a \<and> (k * a + x) mod k = x" if "x < k" for k a :: nat using that by simp
  show "x < 64 \<Longrightarrow> (128 + x) div 64 = 2 \<and> (128 + x) mod 64 = x" using t [of 64 2] by simp
  show "x < 32 \<Longrightarrow> (192 + x) div 32 = 6 \<and> (192 + x) mod 32 = x" using t [of 32 6] by simp
  show "x < 16 \<Longrightarrow> (224 + x) div 16 = 14 \<and> (224 + x) mod 16 = x" using t [of 16 14] by simp
  show "x < 8 \<Longrightarrow> (240 + x) div 8 = 30 \<and> (240 + x) mod 8 = x" using t [of 8 30] by simp
qed

lemma utf8_cont:
  fixes x :: u32
  assumes "unat x < 64"
  shows "of_char (to_byte (128 + x)) div 64 = (2 :: nat)" "of_char (to_byte (128 + x)) mod 64 = unat x"
proof -
  have "(of_char (to_byte (128 + x)) :: nat) = 128 + unat x" using assms by (subst of_char_tagged) simp_all
  then show "of_char (to_byte (128 + x)) div 64 = (2 :: nat)" "of_char (to_byte (128 + x)) mod 64 = unat x"
    using tagged_div_mod(1) [OF assms] by simp_all
qed

lemma utf8_split: "n div 64 * 64 + n mod 64 = (n :: nat)"
    "n div 4096 * 4096 + n div 64 mod 64 * 64 + n mod 64 = n"
    "n div 262144 * 262144 + n div 4096 mod 64 * 4096 + n div 64 mod 64 * 64 + n mod 64 = n"
proof -
  show 1: "m div 64 * 64 + m mod 64 = m" for m :: nat by simp
  have 2: "m div 4096 = m div 64 div 64" "m div 262144 = m div 4096 div 64" for m :: nat
    by (simp_all add: div_mult2_eq [symmetric])
  show 3: "m div 4096 * 4096 + m div 64 mod 64 * 64 + m mod 64 = m" for m :: nat
    using 1 [of m] 1 [of "m div 64"] unfolding 2(1) by linarith
  show "n div 262144 * 262144 + n div 4096 mod 64 * 4096 + n div 64 mod 64 * 64 + n mod 64 = n"
    using 3 [of n] 1 [of "n div 4096"] unfolding 2(2) by linarith
qed

lemma utf8_decode_encoded:
  assumes "unicode_to_utf8 c = Some bs"
  shows "utf8_decode bs = Some (unat c)"
proof -
  let ?n = "unat c"
  consider (one) "?n < 0x80" | (two) "0x80 \<le> ?n" "?n < 0x800"
    | (three) "0x800 \<le> ?n" "?n < 0x10000" | (four) "0x10000 \<le> ?n" "?n < 0x110000"
    using assms by (auto simp: unicode_to_utf8_def word_less_nat_alt split: if_splits)
  then show ?thesis
  proof cases
    case one
    then show ?thesis using assms by (auto simp: unicode_to_utf8_def word_less_nat_alt of_char_to_byte)
  next
    case two
    then have d: "?n div 64 < 32" by simp
    then have "(of_char (to_byte (192 + c div 64)) :: nat) = 192 + ?n div 64"
      using two by (subst of_char_tagged) (simp_all add: utf8_unat)
    then show ?thesis
      using assms two tagged_div_mod(2) [OF d] by (auto simp: unicode_to_utf8_def word_less_nat_alt utf8_cont utf8_unat)
  next
    case three
    then have d: "?n div 4096 < 16" by simp
    then have "(of_char (to_byte (224 + c div 4096)) :: nat) = 224 + ?n div 4096"
      using three by (subst of_char_tagged) (simp_all add: utf8_unat)
    then show ?thesis
      using assms three tagged_div_mod(3) [OF d] utf8_split(2) [of ?n]
      by (auto simp: unicode_to_utf8_def word_less_nat_alt utf8_cont utf8_unat split: if_splits)
  next
    case four
    then have d: "?n div 262144 < 8" by simp
    then have "(of_char (to_byte (240 + c div 262144)) :: nat) = 240 + ?n div 262144"
      using four by (subst of_char_tagged) (simp_all add: utf8_unat)
    then show ?thesis
      using assms four tagged_div_mod(4) [OF d] utf8_split(3) [of ?n]
      by (auto simp: unicode_to_utf8_def word_less_nat_alt utf8_cont utf8_unat split: if_splits)
  qed
qed

lemma unicode_to_utf8_refuses:
  "unicode_to_utf8 c = None \<longleftrightarrow> 0xd800 \<le> unat c \<and> unat c < 0xe000 \<or> 0x110000 \<le> unat c"
  using surrogate_nat [of c] by (auto simp: unicode_to_utf8_def word_less_nat_alt)

lemma unicode_to_utf8_fits: "encoder_fits (Some unicode_to_utf8)"
  by (auto simp: encoder_fits_def unicode_to_utf8_def split: if_splits)


text \<open>
  The UTF-8 encoder gives, for every code point, the sequence that decodes to it, and
  refuses exactly the surrogates and the values beyond \<open>0x10ffff\<close>.
\<close>

theorem unicode_to_utf8_correct:
  "(case unicode_to_utf8 c of
      None \<Rightarrow> 0xd800 \<le> unat c \<and> unat c < 0xe000 \<or> 0x110000 \<le> unat c
    | Some bs \<Rightarrow> utf8_decode bs = Some (unat c) \<and> length bs \<le> 4
        \<and> \<not> (0xd800 \<le> unat c \<and> unat c < 0xe000) \<and> unat c < 0x110000)"
proof (cases "unicode_to_utf8 c")
  case None
  then show ?thesis using unicode_to_utf8_refuses [of c] by simp
next
  case (Some bs)
  then have "length bs \<le> 4" by (auto simp: unicode_to_utf8_def split: if_splits)
  then show ?thesis using Some unicode_to_utf8_refuses [of c] utf8_decode_encoded by auto
qed

text \<open>
  C23.  \<open>unescape_string\<close> decodes in place what the reference decoder reads from the text,
  whatever the escapes: on success the string and its terminator stand at \<open>s\<close>, the end
  position is the one behind the closing quote, and nothing in front of \<open>s\<close> or from the end
  position on has changed; when the reference refuses the text, so does the code, without a
  read or write outside the buffer.
\<close>

theorem unescape_string_correct:
  assumes "text_at b s xs" "encoder_fits enc"
  shows "\<exists>b'. length b' = length b \<and> take s b' = take s b \<and> (case unescape enc xs of
      None \<Rightarrow> unescape_string enc b s = Inr (None, b')
    | Some (t, rest) \<Rightarrow>
        unescape_string enc b s = Inr (Some (s, s + length xs - length rest), b')
        \<and> window s (length t + 1) b' = t @ [NUL] \<and> s + length t < s + length xs - length rest
        \<and> drop (s + length xs - length rest) b' = drop (s + length xs - length rest) b)"
  using unescape_loop_decodes [OF assms(1) order_refl assms(2)]
  by (auto simp: decodes_def unescape_string_def split: option.splits)

theorem unescape_string_correct_witness:
  "\<exists>b'. unescape_string (Some unicode_to_utf8)
       (CHR ''a'' # CHR 0x5C # ''u00e9'' @ [CHR 0x5C, CHR ''n'', CHR 0x22, CHR '']'', NUL]) 0
     = Inr (Some (0, 10), b') \<and> window 0 5 b' = [CHR ''a'', CHR 0xC3, CHR 0xA9, CHR 0x0A, NUL]"
proof -
  let ?x = "CHR ''a'' # CHR 0x5C # ''u00e9'' @ [CHR 0x5C, CHR ''n'', CHR 0x22, CHR '']'']"
  have u: "unescape (Some unicode_to_utf8) ?x
      = Some ([CHR ''a'', CHR 0xC3, CHR 0xA9, CHR 0x0A], [CHR '']''])"
    by code_simp
  have "text_at (?x @ [NUL]) 0 ?x" by simp
  from unescape_string_correct [OF this unicode_to_utf8_fits] u show ?thesis
    by (auto simp: numeral_eq_Suc)
qed

lemma text_at_literal: "NUL \<notin> set xs \<Longrightarrow> text_at (pre @ xs @ NUL # post) (length pre) xs"
proof (induction xs arbitrary: pre)
  case Nil
  then show ?case by simp
next
  case (Cons x xs)
  then show ?case using Cons.IH [of "pre @ [x]"] by auto
qed

lemma NUL_escape: "NUL \<in> set (escape t) \<longleftrightarrow> NUL \<in> set t"
  by (induction t) auto

lemma cstr_window: "window d (length t + 1) b = t @ [NUL] \<Longrightarrow> NUL \<notin> set t \<Longrightarrow> cstr (drop d b) = t"
proof -
  assume w: "window d (length t + 1) b = t @ [NUL]" and n: "NUL \<notin> set t"
  have "drop d b = (t @ [NUL]) @ drop (length t + 1) (drop d b)"
    using w by (metis append_take_drop_id window_def)
  then show ?thesis using n by (simp add: cstr_def takeWhile_append takeWhile_eq_all_conv)
qed

text \<open>
  Round trip: a string written with its quotes and backslashes escaped is read back as
  it was, whatever surrounds it, and the text behind the literal is left as it is.
\<close>

theorem unescape_string_roundtrip:
  assumes "NUL \<notin> set t" "NUL \<notin> set rest" "encoder_fits enc"
  shows "\<exists>b'. unescape_string enc (pre @ escape t @ CHR 0x22 # rest @ [NUL]) (length pre)
       = Inr (Some (length pre, length pre + length (escape t) + 1), b')
     \<and> cstr (drop (length pre) b') = t \<and> take (length pre) b' = pre
     \<and> drop (length pre + length (escape t) + 1) b' = rest @ [NUL]"
proof -
  let ?xs = "escape t @ CHR 0x22 # rest"
  have "text_at (pre @ ?xs @ NUL # []) (length pre) ?xs"
    using assms by (intro text_at_literal) (simp add: NUL_escape)
  from unescape_loop_decodes [OF this order_refl assms(3)] obtain b' where
    b': "take (length pre) b' = pre"
      "unescape_string enc (pre @ ?xs @ NUL # []) (length pre)
        = Inr (Some (length pre, length pre + length (escape t) + 1), b')"
      "window (length pre) (length t + 1) b' = t @ [NUL]"
      "drop (length pre + length (escape t) + 1) b' = rest @ [NUL]"
    by (auto simp: decodes_def unescape_string_def unescape_escape)
  then show ?thesis using cstr_window assms(1) by (intro exI [of _ b']) simp
qed

theorem unescape_string_roundtrip_witness:
  "\<exists>b'. unescape_string None ([CHR 0x22] @ escape [CHR 0x5C, CHR ''x'', CHR 0x22] @ CHR 0x22 # ''}'' @ [NUL])
        (length [CHR 0x22]) = Inr (Some (1, 7), b') \<and> cstr (drop 1 b') = [CHR 0x5C, CHR ''x'', CHR 0x22]"
  using unescape_string_roundtrip [of "[CHR 0x5C, CHR ''x'', CHR 0x22]" "''}''" None "[CHR 0x22]"]
  by (auto simp: encoder_fits_def)

end
