(* ===== verification/NxJsonHeap.thy ===== *)
theory NxJsonHeap
  imports NxJsonString
begin

text \<open>
  The node heap of \<open>nxjson.c\<close>.  Nodes are allocated in the order in which values start in
  the text, so a finished tree is laid out in preorder: \<open>laid h a t nx\<close> says that the tree
  \<open>t\<close> stands at address \<open>a\<close>, its children behind it, every \<open>child\<close>, \<open>next\<close>,
  \<open>last_child\<close> and \<open>length\<close> field as it has to be, and \<open>nx\<close> the node's own \<open>next\<close> link.
  \<open>create_json\<close> extends such a tree, \<open>nx_json_free\<close> frees exactly it, and \<open>nx_json_get\<close>
  and \<open>nx_json_item\<close> find its children.
\<close>

subsection \<open>Trees and their layout\<close>

datatype jt = Jt (jt_type: nx_json_type) (jt_key: "nat option") (jt_text: "nat option")
  (jt_int: int) (kids: "jt list")

fun tsize :: "jt \<Rightarrow> nat" and fsize :: "jt list \<Rightarrow> nat" where
  "tsize (Jt ty k tx i ts) = Suc (fsize ts)"
| "fsize [] = 0"
| "fsize (t # ts) = tsize t + fsize ts"

lemma tsize_pos [simp]: "0 < tsize t"
  by (cases t) simp

lemma tsize_kids: "tsize t = Suc (fsize (kids t))"
  by (cases t) simp

lemma fsize_append [simp]: "fsize (ts @ us) = fsize ts + fsize us"
  by (induction ts) simp_all

fun last_addr :: "nat \<Rightarrow> jt list \<Rightarrow> nat option" where
  "last_addr a [] = None"
| "last_addr a (t # ts) = (if ts = [] then Some a else last_addr (a + tsize t) ts)"

lemma last_addr_snoc [simp]: "last_addr a (ts @ [t]) = Some (a + fsize ts)"
  by (induction ts arbitrary: a) (simp_all add: add.assoc)

definition node_of :: "nat \<Rightarrow> jt \<Rightarrow> nat option \<Rightarrow> nx_json" where
  "node_of a t nx = \<lparr>js_type = jt_type t, js_key = jt_key t, js_text_value = jt_text t,
     js_int_value = jt_int t, js_length = int (length (kids t)),
     js_child = (if kids t = [] then None else Some (Suc a)), js_next = nx,
     js_last_child = last_addr (Suc a) (kids t)\<rparr>"

fun laid :: "jheap \<Rightarrow> nat \<Rightarrow> jt \<Rightarrow> nat option \<Rightarrow> bool"
  and laid_forest :: "jheap \<Rightarrow> nat \<Rightarrow> jt list \<Rightarrow> nat option \<Rightarrow> bool" where
  "laid h a (Jt ty k tx i ts) nx \<longleftrightarrow>
     h a = Some (node_of a (Jt ty k tx i ts) nx) \<and> laid_forest h (Suc a) ts None"
| "laid_forest h a [] nx \<longleftrightarrow> True"
| "laid_forest h a (t # ts) nx \<longleftrightarrow>
     laid h a t (if ts = [] then nx else Some (a + tsize t)) \<and> laid_forest h (a + tsize t) ts nx"

lemma laid_kids: "laid h a t nx \<longleftrightarrow> h a = Some (node_of a t nx) \<and> laid_forest h (Suc a) (kids t) None"
  by (cases t) simp

lemma laid_forest_append:
  "laid_forest h a (ts @ us) nx \<longleftrightarrow>
     laid_forest h a ts (if us = [] then nx else Some (a + fsize ts)) \<and> laid_forest h (a + fsize ts) us nx"
  by (induction ts arbitrary: a) (auto simp: add.assoc)

lemma laid_cong:
  "(\<And>x. a \<le> x \<Longrightarrow> x < a + tsize t \<Longrightarrow> h' x = h x) \<Longrightarrow> laid h' a t nx = laid h a t nx"
  "(\<And>x. a \<le> x \<Longrightarrow> x < a + fsize ts \<Longrightarrow> h' x = h x) \<Longrightarrow> laid_forest h' a ts nx = laid_forest h a ts nx"
proof (induction h a t nx and h a ts nx rule: laid_laid_forest.induct)
  case (1 h a ty k tx i ts nx)
  have "laid_forest h' (Suc a) ts None = laid_forest h (Suc a) ts None"
    by (rule "1.IH") (simp add: "1.prems")
  then show ?case using "1.prems" [of a] by simp
next
  case (3 h a t ts nx)
  have "laid h' a t (if ts = [] then nx else Some (a + tsize t)) = laid h a t (if ts = [] then nx else Some (a + tsize t))"
    by (rule "3.IH") (simp add: "3.prems")
  moreover have "laid_forest h' (a + tsize t) ts nx = laid_forest h (a + tsize t) ts nx"
    by (rule "3.IH") (simp add: "3.prems")
  ultimately show ?case by simp
qed simp_all

text \<open>Setting the \<open>next\<close> link of the last tree of a forest.\<close>

lemma node_of_next: "(node_of a t nx)\<lparr>js_next := nx'\<rparr> = node_of a t nx'"
  by (simp add: node_of_def)

lemma laid_relink: "laid h a t nx \<Longrightarrow> laid (h(a := Some (node_of a t nx'))) a t nx'"
  using laid_cong(2) [of "Suc a" "kids t" "h(a := Some (node_of a t nx'))" h None] by (simp add: laid_kids)

lemma forest_relink:
  assumes "laid_forest h a (ts @ [t]) nx"
  shows "laid_forest (h(a + fsize ts := Some (node_of (a + fsize ts) t nx'))) a (ts @ [t]) nx'"
    "h (a + fsize ts) = Some (node_of (a + fsize ts) t nx)"
proof -
  let ?l = "a + fsize ts"
  have "laid_forest h a ts (Some ?l)" and l: "laid h ?l t nx"
    using assms by (simp_all add: laid_forest_append)
  then have "laid_forest (h(?l := Some (node_of ?l t nx'))) a ts (Some ?l)"
    using laid_cong(2) [of a ts "h(?l := Some (node_of ?l t nx'))" h] by simp
  then show "laid_forest (h(?l := Some (node_of ?l t nx'))) a (ts @ [t]) nx'"
    using laid_relink [OF l, of nx'] by (simp add: laid_forest_append)
  show "h ?l = Some (node_of ?l t nx)" using l by (simp add: laid_kids)
qed

definition add_kids :: "jt \<Rightarrow> jt list \<Rightarrow> jt" where
  "add_kids t ts = Jt (jt_type t) (jt_key t) (jt_text t) (jt_int t) (kids t @ ts)"

lemma add_kids_simps [simp]:
  "jt_type (add_kids t ts) = jt_type t" "jt_key (add_kids t ts) = jt_key t"
  "jt_text (add_kids t ts) = jt_text t" "jt_int (add_kids t ts) = jt_int t"
  "kids (add_kids t ts) = kids t @ ts" "tsize (add_kids t ts) = tsize t + fsize ts"
  "add_kids (add_kids t ts) us = add_kids t (ts @ us)" "add_kids t [] = t"
  by (cases t; simp add: add_kids_def)+

text \<open>
  The heap while the node at \<open>pa\<close> is open: its tree so far is the last one laid out, and
  nothing is allocated behind it.
\<close>

definition jok :: "jstate \<Rightarrow> nat \<Rightarrow> jt \<Rightarrow> bool" where
  "jok st pa t \<longleftrightarrow> laid (heap st) pa t None \<and> brk st = pa + tsize t \<and> (\<forall>x \<ge> brk st. heap st x = None)"

subsection \<open>Allocation\<close>

abbreviation leaf :: "nx_json_type \<Rightarrow> nat option \<Rightarrow> jt" where
  "leaf ty k \<equiv> Jt ty k None 0 []"

lemma jok_close:
  assumes "jok st pa (add_kids t [c])" "jok st' (pa + tsize t) c'"
    and "\<And>x. x < pa + tsize t \<Longrightarrow> heap st' x = heap st x"
  shows "jok st' pa (add_kids t [c'])"
proof -
  let ?js = "pa + tsize t"
  have s: "Suc pa + fsize (kids t) = ?js" by (simp add: tsize_kids)
  have "laid_forest (heap st) (Suc pa) (kids t) (Some ?js)"
    using assms(1) by (simp add: jok_def laid_kids laid_forest_append tsize_kids)
  then have "laid_forest (heap st') (Suc pa) (kids t) (Some ?js)"
    using assms(3) s by (subst laid_cong(2) [where h = "heap st"]) simp_all
  then have "laid_forest (heap st') (Suc pa) (kids t @ [c']) None"
    using assms(2) by (simp add: jok_def laid_forest_append tsize_kids [of t])
  moreover have "heap st' pa = Some (node_of pa (add_kids t [c']) None)"
    using assms(1) assms(3) [of pa] by (simp add: jok_def laid_kids node_of_def)
  ultimately show ?thesis using assms(2) by (simp add: jok_def laid_kids)
qed

lemma node_of_leaf: "zero_json\<lparr>js_type := ty, js_key := k\<rparr> = node_of a (leaf ty k) None"
  by (simp add: zero_json_def node_of_def)

text \<open>
  \<open>create_json\<close> appends a leaf to the open node, which itself becomes the open node.
\<close>

lemma create_json_ok:
  assumes "jok st pa t"
  shows "mem_left st = 0 \<and> create_json ty key pa st = Inr (None, st) \<or> (\<exists>st'. create_json ty key pa st = Inr (Some (brk st), st')
    \<and> jok st' pa (add_kids t [leaf ty key]) \<and> jok st' (brk st) (leaf ty key)
    \<and> (\<forall>x < pa. heap st' x = heap st x) \<and> buf st' = buf st
    \<and> brk st' = Suc (brk st) \<and> mem_left st = Suc (mem_left st'))"
proof (cases "mem_left st = 0")
  case True
  then show ?thesis by (simp add: create_json_def)
next
  case False
  let ?js = "brk st" and ?new = "node_of (brk st) (leaf ty key) None"
  let ?P = "node_of pa (add_kids t [leaf ty key]) None"
  have js: "?js = Suc pa + fsize (kids t)" using assms by (simp add: jok_def tsize_kids)
  have pa: "heap st pa = Some (node_of pa t None)" and f: "laid_forest (heap st) (Suc pa) (kids t) None"
    and free: "\<And>x. ?js \<le> x \<Longrightarrow> heap st x = None"
    using assms by (auto simp: jok_def laid_kids)
  obtain h where h: "laid_forest h (Suc pa) (kids t) (Some ?js)" "\<And>x. x \<le> pa \<Longrightarrow> h x = heap st x"
    "\<And>x. ?js \<le> x \<Longrightarrow> h x = None"
    "create_json ty key pa st
      = Inr (Some ?js, st\<lparr>heap := h(?js \<mapsto> ?new, pa \<mapsto> ?P), brk := Suc ?js, mem_left := mem_left st - 1\<rparr>)"
  proof (cases "kids t" rule: rev_cases)
    case Nil
    have "create_json ty key pa st = Inr (Some ?js, st\<lparr>heap := (heap st)(?js \<mapsto> ?new, pa \<mapsto> ?P),
        brk := Suc ?js, mem_left := mem_left st - 1\<rparr>)"
      using False pa js Nil
      by (simp add: create_json_def node_of_leaf [of _ _ ?js] load_def upd_node_def node_of_def Let_def)
    then show thesis using that [of "heap st"] Nil free by simp
  next
    case (snoc us u)
    let ?l = "Suc pa + fsize us"
    let ?h = "(heap st)(?l \<mapsto> node_of ?l u (Some ?js))"
    have l: "heap st ?l = Some (node_of ?l u None)" "laid_forest ?h (Suc pa) (kids t) (Some ?js)"
      using forest_relink(2) [of "heap st" "Suc pa" us u None]
        forest_relink(1) [of "heap st" "Suc pa" us u None "Some ?js"] f snoc by simp_all
    have ne: "?l \<noteq> pa" "?l < ?js" "pa < ?js" using js snoc tsize_pos [of u] by simp_all
    have P: "js_last_child (node_of pa t None) = Some ?l"
      "(node_of pa t None)\<lparr>js_last_child := Some ?js, js_length := js_length (node_of pa t None) + 1\<rparr> = ?P"
      using snoc js last_addr_snoc [of "Suc pa" "us @ [u]" "leaf ty key"] by (simp_all add: node_of_def)
    have "create_json ty key pa st = Inr (Some ?js, st\<lparr>heap := ?h(?js \<mapsto> ?new, pa \<mapsto> ?P),
        brk := Suc ?js, mem_left := mem_left st - 1\<rparr>)"
      using False pa l(1) ne P
      by (simp add: create_json_def node_of_leaf [of _ _ ?js] load_def upd_node_def Let_def node_of_next
          fun_upd_twist)
    then show thesis using that [of ?h] l(2) ne free by simp
  qed
  let ?h = "h(?js \<mapsto> ?new, pa \<mapsto> ?P)"
  have "laid_forest ?h (Suc pa) (kids t) (Some ?js)"
    using h(1) js by (subst laid_cong(2) [where h = h]) simp_all
  moreover have "laid ?h ?js (leaf ty key) None" using js by simp
  ultimately have "laid ?h pa (add_kids t [leaf ty key]) None"
    using js by (simp add: laid_kids [of _ pa] laid_forest_append)
  then show ?thesis
    using h False js by (auto simp: jok_def tsize_kids [of t])
qed

subsection \<open>Release\<close>

text \<open>Enough fuel frees the nodes of the tree, all of them and no other.\<close>

definition cleared :: "jheap \<Rightarrow> nat \<Rightarrow> nat \<Rightarrow> jheap" where
  "cleared h a b = (\<lambda>x. if a \<le> x \<and> x < b then None else h x)"

lemma laid_cleared:
  "b \<le> a \<Longrightarrow> laid (cleared h c b) a t nx = laid h a t nx"
  "b \<le> a \<Longrightarrow> laid_forest (cleared h c b) a ts nx = laid_forest h a ts nx"
  by (rule laid_cong; simp add: cleared_def)+

lemma free_laid:
  "laid h a t nx \<Longrightarrow> 2 * tsize t \<le> fuel + 1 \<Longrightarrow> nx_json_free fuel a h = Inr (cleared h a (a + tsize t))"
  "laid_forest h a ts None \<Longrightarrow> 2 * fsize ts \<le> fuel
    \<Longrightarrow> free_children fuel (if ts = [] then None else Some a) h = Inr (cleared h a (a + fsize ts))"
proof (induction t and ts arbitrary: h a nx fuel and h a fuel rule: tsize_fsize.induct)
  case (1 ty k tx i ts)
  obtain f where f: "fuel = Suc f" "2 * fsize ts \<le> f" using "1.prems"(2) by (cases fuel) auto
  have "free_children f (if ts = [] then None else Some (Suc a)) h = Inr (cleared h (Suc a) (Suc a + fsize ts))"
    using "1.prems"(1) f(2) by (intro "1.IH") simp_all
  moreover have "(cleared h (Suc a) (Suc a + fsize ts))(a := None) = cleared h a (a + Suc (fsize ts))"
    by (auto simp: cleared_def)
  moreover have "h a = Some (node_of a (Jt ty k tx i ts) nx)" using "1.prems"(1) by simp
  ultimately show ?case by (simp add: f(1) load_def kfree_def node_of_def cleared_def)
next
  case 2
  then show ?case by (cases fuel) (auto simp: cleared_def fun_eq_iff)
next
  case (3 t ts)
  obtain f where f: "fuel = Suc f" "2 * tsize t \<le> f + 1" "2 * fsize ts \<le> f"
    using "3.prems"(2) tsize_kids [of t] by (cases fuel) auto
  let ?h = "cleared h a (a + tsize t)" and ?nx = "if ts = [] then None else Some (a + tsize t)"
  have t: "laid h a t ?nx" using "3.prems"(1) by simp
  then have n: "h a = Some (node_of a t ?nx)" by (simp add: laid_kids)
  have "free_children f ?nx ?h = Inr (cleared ?h (a + tsize t) (a + tsize t + fsize ts))"
    using "3.prems"(1) f(3) by (intro "3.IH"(2)) (simp_all add: laid_cleared)
  moreover have "cleared ?h (a + tsize t) (a + tsize t + fsize ts) = cleared h a (a + fsize (t # ts))"
    by (auto simp: cleared_def)
  moreover have "js_next (node_of a t ?nx) = ?nx" by (simp add: node_of_def)
  ultimately show ?case using n "3.IH"(1) [OF t f(2)] by (simp add: f(1) load_def)
qed

subsection \<open>Access\<close>

text \<open>The address of the \<open>i\<close>-th tree of a forest at \<open>a\<close>.\<close>

definition kid_addr :: "nat \<Rightarrow> jt list \<Rightarrow> nat \<Rightarrow> nat" where
  "kid_addr a ts i = a + fsize (take i ts)"

lemma kid_addr_simps [simp]:
  "kid_addr a ts 0 = a" "kid_addr a (t # ts) (Suc i) = kid_addr (a + tsize t) ts i"
  by (simp_all add: kid_addr_def)

lemma item_loop_laid:
  assumes "laid_forest h a ts None" "length ts < fuel"
  shows "item_loop fuel h (if ts = [] then None else Some a) idx =
    Inr (if 0 \<le> idx \<and> nat idx < length ts then J_at (kid_addr a ts (nat idx)) else J_dummy)"
  using assms
proof (induction ts arbitrary: a fuel idx)
  case Nil
  then show ?case by (cases fuel) simp_all
next
  case (Cons t ts)
  let ?nx = "if ts = [] then None else Some (a + tsize t)"
  obtain f where f: "fuel = Suc f" "length ts < f" using Cons.prems(2) by (cases fuel) auto
  have n: "h a = Some (node_of a t ?nx)" "js_next (node_of a t ?nx) = ?nx"
    using Cons.prems(1) by (simp_all add: laid_kids node_of_def)
  have ih: "item_loop f h ?nx (idx - 1) = Inr (if 0 \<le> idx - 1 \<and> nat (idx - 1) < length ts
      then J_at (kid_addr (a + tsize t) ts (nat (idx - 1))) else J_dummy)"
    using Cons.prems(1) f(2) by (intro Cons.IH) simp_all
  show ?case
  proof (cases "0 < idx")
    case True
    then have "nat idx = Suc (nat (idx - 1))" by simp
    then show ?thesis using True n ih by (simp add: f(1) load_def)
  next
    case False
    then show ?thesis using n ih by (simp add: f(1) load_def)
  qed
qed

text \<open>The key of a node as the C string it points to.\<close>

definition has_key :: "string \<Rightarrow> string \<Rightarrow> jt \<Rightarrow> bool" where
  "has_key b key t \<longleftrightarrow> (\<exists>k. jt_key t = Some k \<and> cstr (drop k b) = key)"

definition keys_ok :: "string \<Rightarrow> jt list \<Rightarrow> bool" where
  "keys_ok b ts \<longleftrightarrow> (\<forall>t \<in> set ts. \<forall>k. jt_key t = Some k \<longrightarrow> NUL \<in> set (drop k b))"

fun find_kid :: "string \<Rightarrow> string \<Rightarrow> nat \<Rightarrow> jt list \<Rightarrow> nat option" where
  "find_kid b key a [] = None"
| "find_kid b key a (t # ts) = (if has_key b key t then Some a else find_kid b key (a + tsize t) ts)"

lemma get_loop_laid:
  assumes "laid_forest h a ts None" "length ts < fuel" "keys_ok b ts"
  shows "get_loop fuel b h (if ts = [] then None else Some a) key =
    Inr (case find_kid b key a ts of None \<Rightarrow> J_dummy | Some x \<Rightarrow> J_at x)"
  using assms
proof (induction ts arbitrary: a fuel)
  case Nil
  then show ?case by (cases fuel) simp_all
next
  case (Cons t ts)
  let ?nx = "if ts = [] then None else Some (a + tsize t)"
  obtain f where f: "fuel = Suc f" "length ts < f" using Cons.prems(2) by (cases fuel) auto
  have n: "h a = Some (node_of a t ?nx)" "js_next (node_of a t ?nx) = ?nx" "js_key (node_of a t ?nx) = jt_key t"
    using Cons.prems(1) by (simp_all add: laid_kids node_of_def)
  have ih: "get_loop f b h ?nx key = Inr (case find_kid b key (a + tsize t) ts of None \<Rightarrow> J_dummy | Some x \<Rightarrow> J_at x)"
    using Cons.prems f(2) by (intro Cons.IH) (simp_all add: keys_ok_def)
  have "(case jt_key t of None \<Rightarrow> Inr False | Some k \<Rightarrow> bindR (str_at b k) (\<lambda>s. Inr (s = key))) = Inr (has_key b key t)"
    using Cons.prems(3) by (cases "jt_key t") (auto simp: keys_ok_def has_key_def str_at_def)
  then show ?case using n ih by (simp add: f(1) load_def)
qed

lemma find_kid_first:
  "find_kid b key a ts = Some x \<longleftrightarrow>
     (\<exists>i < length ts. x = kid_addr a ts i \<and> has_key b key (ts ! i) \<and> (\<forall>j < i. \<not> has_key b key (ts ! j)))"
proof (induction ts arbitrary: a)
  case Nil
  then show ?case by simp
next
  case (Cons t ts)
  show ?case
    by (cases "has_key b key t") (auto simp: Cons.IH Ex_less_Suc2 All_less_Suc2)
qed

lemma find_kid_None: "find_kid b key a ts = None \<longleftrightarrow> (\<forall>t \<in> set ts. \<not> has_key b key t)"
  by (induction ts arbitrary: a) auto


lemma length_le_fsize: "length ts \<le> fsize ts"
proof (induction ts)
  case (Cons t ts)
  then show ?case using tsize_kids [of t] by simp
qed simp

text \<open>
  \<open>nx_json_free\<close> on the root of a tree frees every node of it exactly once and touches
  no other: no double free, no use after free, no leak.
\<close>

theorem nx_json_free_exact:
  assumes "laid h a t nx" "2 * tsize t \<le> fuel"
  shows "nx_json_free fuel a h = Inr (\<lambda>x. if a \<le> x \<and> x < a + tsize t then None else h x)"
  using free_laid(1) [OF assms(1), of fuel] assms(2) by (simp add: cleared_def)

theorem nx_json_free_exact_witness:
  "nx_json_free 4 1 [1 \<mapsto> node_of 1 (Jt NX_JSON_ARRAY None None 0 [leaf NX_JSON_NULL None]) None,
       2 \<mapsto> node_of 2 (leaf NX_JSON_NULL None) None, 3 \<mapsto> zero_json]
     = Inr (\<lambda>x. if 1 \<le> x \<and> x < 3 then None else
         [1 \<mapsto> node_of 1 (Jt NX_JSON_ARRAY None None 0 [leaf NX_JSON_NULL None]) None,
          2 \<mapsto> node_of 2 (leaf NX_JSON_NULL None) None, 3 \<mapsto> zero_json] x)"
  (is "nx_json_free 4 1 ?h = _")
proof -
  have "laid ?h 1 (Jt NX_JSON_ARRAY None None 0 [leaf NX_JSON_NULL None]) None"
    by (simp add: node_of_def)
  moreover have "1 + tsize (Jt NX_JSON_ARRAY None None 0 [leaf NX_JSON_NULL None]) = 3" by simp
  ultimately show ?thesis using nx_json_free_exact [of ?h 1 _ None 4] by fastforce
qed

text \<open>
  \<open>nx_json_get\<close> returns the first child whose key is the one asked for, and the dummy
  node when there is none; it never returns null and never reads a freed node.
\<close>

theorem nx_json_get_first:
  assumes "laid (heap st) a t nx" "a + tsize t \<le> brk st" "keys_ok (buf st) (kids t)"
  shows "\<exists>p. nx_json_get st (J_at a) (Some key) = Inr p \<and>
    (case p of
       J_null \<Rightarrow> False
     | J_dummy \<Rightarrow> \<forall>c \<in> set (kids t). \<not> has_key (buf st) key c
     | J_at x \<Rightarrow> \<exists>i < length (kids t). x = kid_addr (Suc a) (kids t) i \<and> has_key (buf st) key (kids t ! i)
         \<and> (\<forall>j < i. \<not> has_key (buf st) key (kids t ! j)))"
proof -
  have n: "heap st a = Some (node_of a t nx)" "js_child (node_of a t nx) = (if kids t = [] then None else Some (Suc a))"
    and f: "laid_forest (heap st) (Suc a) (kids t) None"
    using assms(1) by (simp_all add: laid_kids node_of_def)
  have "length (kids t) < Suc (brk st)"
    using assms(2) length_le_fsize [of "kids t"] by (simp add: tsize_kids)
  from get_loop_laid [OF f this assms(3), of key] n
  have "nx_json_get st (J_at a) (Some key)
      = Inr (case find_kid (buf st) key (Suc a) (kids t) of None \<Rightarrow> J_dummy | Some x \<Rightarrow> J_at x)"
    by (simp add: nx_json_get_def deref_def load_def)
  then show ?thesis
    by (cases "find_kid (buf st) key (Suc a) (kids t)") (auto simp: find_kid_None find_kid_first)
qed

theorem nx_json_get_first_witness:
  "nx_json_get \<lparr>buf = ''k'' @ [NUL], heap = [1 \<mapsto> node_of 1 (Jt NX_JSON_OBJECT None None 0
         [leaf NX_JSON_NULL (Some 0)]) None, 2 \<mapsto> node_of 2 (leaf NX_JSON_NULL (Some 0)) None],
       brk = 3, mem_left = 0\<rparr> (J_at 1) (Some ''k'') = Inr (J_at 2)"
  (is "nx_json_get ?st _ _ = _")
proof -
  let ?t = "Jt NX_JSON_OBJECT None None 0 [leaf NX_JSON_NULL (Some 0)]"
  have "laid (heap ?st) 1 ?t None" "1 + tsize ?t \<le> brk ?st" "keys_ok (buf ?st) (kids ?t)"
    by (simp_all add: keys_ok_def node_of_def)
  from nx_json_get_first [OF this, of "''k''"] obtain p where "nx_json_get ?st (J_at 1) (Some ''k'') = Inr p"
    "case p of J_null \<Rightarrow> False | J_dummy \<Rightarrow> \<forall>c \<in> set (kids ?t). \<not> has_key (buf ?st) ''k'' c
      | J_at x \<Rightarrow> \<exists>i < length (kids ?t). x = kid_addr (Suc 1) (kids ?t) i \<and> has_key (buf ?st) ''k'' (kids ?t ! i)
         \<and> (\<forall>j < i. \<not> has_key (buf ?st) ''k'' (kids ?t ! j))"
    by blast
  then show ?thesis by (cases p) (simp_all add: has_key_def cstr_def numeral_2_eq_2)
qed

text \<open>
  \<open>nx_json_item\<close> returns the child of the given index, and the dummy node for an index
  beyond the last one or below zero.
\<close>

theorem nx_json_item_nth:
  assumes "laid (heap st) a t nx" "a + tsize t \<le> brk st"
  shows "nx_json_item st (J_at a) idx =
    Inr (if 0 \<le> idx \<and> nat idx < length (kids t) then J_at (kid_addr (Suc a) (kids t) (nat idx)) else J_dummy)"
proof -
  have n: "heap st a = Some (node_of a t nx)" "js_child (node_of a t nx) = (if kids t = [] then None else Some (Suc a))"
    and f: "laid_forest (heap st) (Suc a) (kids t) None"
    using assms(1) by (simp_all add: laid_kids node_of_def)
  have "length (kids t) < Suc (brk st)"
    using assms(2) length_le_fsize [of "kids t"] by (simp add: tsize_kids)
  from item_loop_laid [OF f this, of idx] n show ?thesis
    by (simp add: nx_json_item_def deref_def load_def)
qed

theorem nx_json_item_nth_witness:
  "nx_json_item \<lparr>buf = [NUL], heap = [1 \<mapsto> node_of 1 (Jt NX_JSON_ARRAY None None 0
         [leaf NX_JSON_NULL None]) None, 2 \<mapsto> node_of 2 (leaf NX_JSON_NULL None) None],
       brk = 3, mem_left = 0\<rparr> (J_at 1) 0 = Inr (J_at 2)"
  (is "nx_json_item ?st _ _ = _")
proof -
  have "laid (heap ?st) 1 (Jt NX_JSON_ARRAY None None 0 [leaf NX_JSON_NULL None]) None"
    by (simp add: node_of_def)
  from nx_json_item_nth [OF this, of 0] show ?thesis by (simp add: numeral_2_eq_2)
qed

end
