(* ===== verification/NxJsonParse.thy ===== *)
theory NxJsonParse
  imports NxJsonHeap
begin

text \<open>
  The parser of \<open>nxjson.c\<close> on arbitrary text.  On every terminated text, with any encoder
  that does not overtake its escapes and any \<open>strtol\<close> that stays in the text, \<open>nx_json_parse\<close>
  ends without a fault within its fuel; what it returns is a well-formed tree whose keys
  and texts are terminated strings of the buffer, and what it refuses leaves no node behind.
\<close>

subsection \<open>Positions in a terminated text\<close>

text \<open>\<open>live b e p\<close>: \<open>e\<close> is the index of the first terminator from \<open>p\<close> on.\<close>

definition live :: "string \<Rightarrow> nat \<Rightarrow> nat \<Rightarrow> bool" where
  "live b e p \<longleftrightarrow> p \<le> e \<and> e < length b \<and> b ! e = NUL \<and> (\<forall>i. p \<le> i \<longrightarrow> i < e \<longrightarrow> b ! i \<noteq> NUL)"

lemma live_later: "live b e p \<Longrightarrow> p \<le> q \<Longrightarrow> q \<le> e \<Longrightarrow> live b e q"
  by (simp add: live_def)

lemma live_here: "live b e p \<Longrightarrow> rd b p = Inr (b ! p)" "live b e p \<Longrightarrow> b ! p \<noteq> NUL \<Longrightarrow> p < e"
  "live b e p \<Longrightarrow> p < length b" "live b e p \<Longrightarrow> p \<le> e"
  by (auto simp: live_def rd_def order_le_less)

lemma live_Suc: "live b e p \<Longrightarrow> b ! p \<noteq> NUL \<Longrightarrow> live b e (Suc p)"
  using live_here(2) [of b e p] by (simp add: live_later)

lemma nth_of_drop: "drop q b' = drop q b \<Longrightarrow> length b' = length b \<Longrightarrow> q \<le> i \<Longrightarrow> i < length b \<Longrightarrow> b' ! i = b ! i"
proof -
  assume a: "drop q b' = drop q b" "length b' = length b" "q \<le> i" "i < length b"
  have "drop q b' ! (i - q) = drop q b ! (i - q)" by (simp only: a(1))
  then show ?thesis using a(2-4) by simp
qed

lemma live_cong: "drop q b' = drop q b \<Longrightarrow> length b' = length b \<Longrightarrow> live b e q \<Longrightarrow> live b' e q"
proof -
  assume a: "drop q b' = drop q b" "length b' = length b" and l: "live b e q"
  have "b' ! i = b ! i" if "q \<le> i" "i < length b" for i using nth_of_drop [OF a that] .
  then show ?thesis using l a(2) by (simp add: live_def)
qed

lemma live_text: "live b e p \<Longrightarrow> text_at b p (window p (e - p) b)"
proof (induction "e - p" arbitrary: p)
  case 0
  then show ?case by (auto simp: live_def window_def)
next
  case (Suc n)
  then have p: "p < e" "live b e (Suc p)" "e - p = Suc (e - Suc p)" by (auto simp: live_def)
  then have "text_at b (Suc p) (window (Suc p) (e - Suc p) b)" using Suc by simp
  moreover have "window p (e - p) b = b ! p # window (Suc p) (e - Suc p) b"
    using p live_here(3) [OF Suc.prems] by (simp add: window_def Cons_nth_drop_Suc [symmetric])
  ultimately show ?case using Suc.prems p(1) by (simp add: live_def)
qed

lemma length_live: "live b e p \<Longrightarrow> length (window p (e - p) b) = e - p"
  by (simp add: live_def)

lemma live_exists: "NUL \<in> set b \<Longrightarrow> \<exists>e. live b e 0"
proof -
  assume "NUL \<in> set b"
  then have "\<exists>e. e < length b \<and> b ! e = NUL" by (auto simp: in_set_conv_nth)
  then obtain e where "e < length b \<and> b ! e = NUL" "\<forall>i < e. \<not> (i < length b \<and> b ! i = NUL)"
    unfolding exists_least_iff [of "\<lambda>e. e < length b \<and> b ! e = NUL"] by blast
  then have "live b e 0" by (simp add: live_def)
  then show ?thesis ..
qed

subsection \<open>The scanning helpers\<close>

lemma strchr_live:
  assumes "live b e i" "c \<noteq> NUL"
  shows "strchr b i c = Inr None \<or> (\<exists>j. strchr b i c = Inr (Some j) \<and> i \<le> j \<and> j < e)"
  using assms
proof (induction b i c rule: strchr.induct)
  case (1 b i c)
  show ?case
  proof (cases "b ! i = c \<or> b ! i = NUL")
    case True
    then show ?thesis
      using "1.prems" live_here [OF "1.prems"(1)] by (auto simp: strchr.simps [of b i c])
  next
    case False
    then have "strchr b i c = strchr b (Suc i) c"
      using live_here(3) [OF "1.prems"(1)] by (simp add: strchr.simps [of b i c])
    moreover have "strchr b (Suc i) c = Inr None \<or> (\<exists>j. strchr b (Suc i) c = Inr (Some j) \<and> Suc i \<le> j \<and> j < e)"
      using False "1.prems" live_here(3) [OF "1.prems"(1)] by (intro "1.IH") (auto intro: live_Suc)
    ultimately show ?thesis by auto
  qed
qed

lemma skip_repeat_live:
  assumes "live b e p" "b ! p \<noteq> NUL"
  shows "skip_repeat b p = Inr None \<or> (\<exists>q. skip_repeat b p = Inr (Some q) \<and> p < q \<and> q \<le> e)"
  using assms
proof (induction b p rule: skip_repeat.induct)
  case (1 b p)
  from strchr_live [OF live_Suc [OF "1.prems"], of "CHR ''/''"]
  consider "strchr b (Suc p) (CHR ''/'') = Inr None"
    | j where "strchr b (Suc p) (CHR ''/'') = Inr (Some j)" "Suc p \<le> j" "j < e" by auto
  then show ?case
  proof cases
    case 1
    then show ?thesis by (simp add: skip_repeat.simps [of b p])
  next
    case (2 j)
    have "live b e j" using "1.prems"(1) 2 by (simp add: live_later)
    moreover have "b ! j \<noteq> NUL" using "1.prems"(1) 2 by (simp add: live_def)
    ultimately have "b ! (j - 1) \<noteq> CHR ''*'' \<Longrightarrow>
        skip_repeat b j = Inr None \<or> (\<exists>q. skip_repeat b j = Inr (Some q) \<and> j < q \<and> q \<le> e)"
      using "1.IH" [of "Some j" j] 2 by simp
    moreover have "skip_repeat b p = (if b ! (j - 1) \<noteq> CHR ''*'' then skip_repeat b j else Inr (Some (j + 1)))"
      using 2(1) by (simp add: skip_repeat.simps [of b p])
    ultimately show ?thesis using 2(2,3) by (cases "b ! (j - 1) = CHR ''*''") (auto intro: order.strict_trans)
  qed
qed

lemma skip_block_comment_live:
  assumes "live b e p"
  shows "skip_block_comment b p = Inr None \<or> (\<exists>q. skip_block_comment b p = Inr (Some q) \<and> p < q \<and> q \<le> e)"
  using skip_repeat_live [OF assms] live_here(1) [OF assms] by (auto simp: skip_block_comment_def)

lemma skip_line_comment_live:
  assumes "live b e p"
  shows "skip_line_comment b p = Inr None \<or> (\<exists>q. skip_line_comment b p = Inr (Some q) \<and> p < q \<and> q \<le> e)"
  using strchr_live [OF assms, of "CHR 0x0A"] by (auto simp: skip_line_comment_def)

lemma skip_ws_live:
  assumes "live b e p"
  shows "\<exists>q. skip_ws b p = Inr q \<and> p \<le> q \<and> q \<le> e"
  using assms
proof (induction b p rule: skip_ws.induct)
  case (1 b p)
  note p = live_here [OF "1.prems"]
  show ?case
  proof (cases "b ! p \<noteq> NUL \<and> IS_WHITESPACE (b ! p)")
    case True
    then obtain q where "skip_ws b (Suc p) = Inr q" "Suc p \<le> q" "q \<le> e"
      using "1.IH" p(3) live_Suc [OF "1.prems"] by auto
    then show ?thesis using True p by (auto simp: skip_ws.simps [of b p])
  next
    case False
    then show ?thesis using p by (auto simp: skip_ws.simps [of b p])
  qed
qed

lemma match_at_live:
  assumes "live b e p" "NUL \<notin> set lit"
  shows "match_at b p lit = Inr False \<or> match_at b p lit = Inr True \<and> p + length lit \<le> e"
  using assms
proof (induction lit arbitrary: p)
  case Nil
  then show ?case by (simp add: live_def)
next
  case (Cons x lit)
  note p = live_here [OF Cons.prems(1)]
  show ?case
  proof (cases "b ! p = x")
    case True
    then have "live b e (Suc p)" using Cons.prems by (intro live_Suc) auto
    then show ?thesis using Cons.IH [of "Suc p"] Cons.prems(2) p(1) True by auto
  next
    case False
    then show ?thesis using p(1) by simp
  qed
qed

lemma unescape_string_live:
  assumes "live b e s" "encoder_fits enc"
  shows "\<exists>r b'. unescape_string enc b s = Inr (r, b') \<and> length b' = length b \<and> take s b' = take s b
    \<and> (\<forall>s' q. r = Some (s', q) \<longrightarrow> s' = s \<and> s < q \<and> q \<le> e \<and> drop q b' = drop q b)"
proof -
  let ?xs = "window s (e - s) b"
  have e: "s + length ?xs = e" using length_live [OF assms(1)] live_here(4) [OF assms(1)] by simp
  from unescape_loop_decodes [OF live_text [OF assms(1)] order_refl assms(2)] show ?thesis
    unfolding decodes_def e by (auto simp: unescape_string_def split: option.splits)
qed

lemma take_earlier: "take q b' = take q b \<Longrightarrow> p \<le> q \<Longrightarrow> take p b' = take p b"
  by (metis min.absorb1 take_take)

lemma drop_later: "drop p b' = drop p b \<Longrightarrow> p \<le> q \<Longrightarrow> drop q b' = drop q b"
  by (metis drop_drop le_add_diff_inverse2)

definition key_post :: "string \<Rightarrow> nat \<Rightarrow> nat \<Rightarrow> nat option \<times> nat option \<times> string \<Rightarrow> bool" where
  "key_post b e p = (\<lambda>(r, key, b'). length b' = length b \<and> take p b' = take p b
     \<and> (\<forall>k. key = Some k \<longrightarrow> k \<le> e)
     \<and> (\<forall>q. r = Some q \<longrightarrow> p \<le> q \<and> q \<le> e \<and> drop q b' = drop q b \<and> (p < q \<or> b' ! q = CHR ''}'')))"

lemma key_post_later: "key_post b e q x \<Longrightarrow> p < q \<Longrightarrow> key_post b e p x"
  by (auto simp: key_post_def intro: take_earlier)

text \<open>A key in quotes: decoded in place, then blanks and a colon.\<close>

lemma parse_key_quote:
  assumes "live b e p" "encoder_fits enc" "b ! p = CHR 0x22"
  shows "\<exists>x. parse_key enc b p = Inr x \<and> key_post b e p x"
proof -
  note p = live_here [OF assms(1)] and rec = parse_key.simps [of enc b p]
  have l: "live b e (Suc p)" using assms(1,3) by (intro live_Suc) simp_all
  obtain r b' where u: "unescape_string enc b (Suc p) = Inr (r, b')" "length b' = length b"
    "take (Suc p) b' = take (Suc p) b"
    "\<And>s' q. r = Some (s', q) \<Longrightarrow> s' = Suc p \<and> Suc p < q \<and> q \<le> e \<and> drop q b' = drop q b"
    using unescape_string_live [OF l assms(2)] by blast
  have t: "take p b' = take p b" using u(3) by (rule take_earlier) simp
  show ?thesis
  proof (cases r)
    case None
    then show ?thesis using assms(3) u t p(3) by (simp add: rec key_post_def)
  next
    case (Some a)
    then obtain q where q: "r = Some (Suc p, q)" "Suc p < q" "q \<le> e" "drop q b' = drop q b"
      using u(4) by (cases a) auto
    have "live b' e q" using q u(2) assms(1) by (intro live_cong [of q b' b]) (auto intro: live_later)
    then obtain q2 where q2: "skip_ws b' q = Inr q2" "q \<le> q2" "q2 \<le> e" "live b' e q2"
      using skip_ws_live live_later by blast
    have "drop (Suc q2) b' = drop (Suc q2) b" using q(4) q2(2) by (auto intro: drop_later)
    moreover have "b' ! q2 = CHR '':'' \<Longrightarrow> Suc q2 \<le> e" using live_here(2) [OF q2(4)] by simp
    moreover have "parse_key enc b p = (if b' ! q2 = CHR '':'' then Inr (Some (Suc q2), Some (Suc p), b')
        else Inr (None, Some (Suc p), b'))"
      using assms(3) u(1) q(1) q2(1) p(3) by (simp add: rec)
    ultimately show ?thesis using u(2) q(2,3) q2(2) t by (simp add: key_post_def)
  qed
qed

text \<open>A comment in front of a key ends the parsing or leads to a later position.\<close>

lemma parse_key_comment:
  assumes "live b e p" "b ! p = CHR ''/''"
  shows "parse_key enc b p = Inr (None, None, b) \<or> (\<exists>q > p. q \<le> e \<and> parse_key enc b p = parse_key enc b q)"
proof -
  have l: "live b e (Suc p)" using assms by (intro live_Suc) simp_all
  note p = live_here [OF assms(1)] and p1 = live_here [OF l] and l2 = live_Suc [OF l]
  note eqs = parse_key.simps [of enc b p] assms(2) p(3) [unfolded not_le [symmetric]] p1(1) IS_WHITESPACE_def
  consider (line) "b ! Suc p = CHR ''/''" | (block) "b ! Suc p = CHR ''*''"
    | (none) "b ! Suc p \<noteq> CHR ''/''" "b ! Suc p \<noteq> CHR ''*''" by blast
  then show ?thesis
  proof cases
    case line
    then obtain r where r: "skip_line_comment b (Suc (Suc p)) = Inr r" "\<forall>q. r = Some q \<longrightarrow> p < q \<and> q \<le> e"
      using skip_line_comment_live [OF l2] by fastforce
    have "parse_key enc b p = (case r of None \<Rightarrow> Inr (None, None, b) | Some q \<Rightarrow> parse_key enc b q)"
      using line r(1) by (simp add: eqs split: option.split)
    then show ?thesis using r(2) by (cases r) (simp_all, blast)
  next
    case block
    then obtain r where r: "skip_block_comment b (Suc (Suc p)) = Inr r" "\<forall>q. r = Some q \<longrightarrow> p < q \<and> q \<le> e"
      using skip_block_comment_live [OF l2] by fastforce
    have "parse_key enc b p = (case r of None \<Rightarrow> Inr (None, None, b) | Some q \<Rightarrow> parse_key enc b q)"
      using block r(1) by (simp add: eqs split: option.split)
    then show ?thesis using r(2) by (cases r) (simp_all, blast)
  next
    case none
    then show ?thesis by (simp add: eqs)
  qed
qed

lemma parse_key_live:
  assumes "live b e p" "encoder_fits enc"
  shows "\<exists>x. parse_key enc b p = Inr x \<and> key_post b e p x"
  using assms(1)
proof (induction "e - p" arbitrary: p rule: less_induct)
  case less
  note p = live_here [OF less.prems] and rec = parse_key.simps [of enc b p]
  have stop: ?case if "parse_key enc b p = Inr (None, None, b)"
    using that by (simp add: key_post_def)
  have later: ?case if q: "parse_key enc b p = parse_key enc b q" "p < q" "q \<le> e" for q
  proof -
    have "e - q < e - p" "live b e q" using q(2,3) less.prems live_later [OF less.prems, of q] by auto
    from less.hyps [OF this] show ?thesis using q(1,2) key_post_later by auto
  qed
  consider (nul) "b ! p = NUL" | (quote) "b ! p = CHR 0x22"
    | (skip) "b ! p \<notin> {NUL, CHR 0x22}" "IS_WHITESPACE (b ! p) \<or> b ! p = CHR '',''"
    | (brace) "b ! p = CHR ''}''" | (comment) "b ! p = CHR ''/''"
    | (other) "b ! p \<notin> {NUL, CHR 0x22, CHR ''}'', CHR ''/''}" "\<not> (IS_WHITESPACE (b ! p) \<or> b ! p = CHR '','')"
    by blast
  then show ?case
  proof cases
    case nul
    then show ?thesis using p by (intro stop) (simp add: rec)
  next
    case quote
    then show ?thesis by (rule parse_key_quote [OF less.prems assms(2)])
  next
    case skip
    then show ?thesis using p by (intro later [of "Suc p"]) (auto simp: rec)
  next
    case brace
    then show ?thesis using p by (auto simp: rec key_post_def IS_WHITESPACE_def)
  next
    case comment
    then show ?thesis using parse_key_comment [OF less.prems, of enc] stop later by blast
  next
    case other
    then show ?thesis using p(3) by (intro stop) (simp add: rec)
  qed
qed

subsection \<open>What a step of the parser may change\<close>

fun bounded :: "nat \<Rightarrow> jt \<Rightarrow> bool" where
  "bounded e (Jt ty k tx i ts) \<longleftrightarrow>
     (\<forall>x. k = Some x \<longrightarrow> x \<le> e) \<and> (\<forall>x. tx = Some x \<longrightarrow> x \<le> e) \<and> (\<forall>t \<in> set ts. bounded e t)"

text \<open>Every string node has its text.\<close>

fun filled :: "jt \<Rightarrow> bool" where
  "filled (Jt ty k tx i ts) \<longleftrightarrow> (ty = NX_JSON_STRING \<longrightarrow> tx \<noteq> None) \<and> (\<forall>t \<in> set ts. filled t)"

text \<open>
  \<open>grown e pa t ts p st (r, st')\<close>: from a state in which \<open>t\<close> is the tree of the open node
  \<open>pa\<close> the step has appended the children \<open>ts\<close> to it; older nodes and the text in front of
  \<open>p\<close> are as they were, and so is the text from the returned position on.
\<close>

definition grown :: "nat \<Rightarrow> nat \<Rightarrow> jt \<Rightarrow> jt list \<Rightarrow> nat \<Rightarrow> jstate \<Rightarrow> nat option \<times> jstate \<Rightarrow> bool" where
  "grown e pa t ts p st = (\<lambda>(r, st').
     jok st' pa (add_kids t ts) \<and> (\<forall>u \<in> set ts. bounded e u)
     \<and> (\<forall>x < pa. heap st' x = heap st x) \<and> mem_left st' + brk st' = mem_left st + brk st
     \<and> length (buf st') = length (buf st) \<and> take p (buf st') = take p (buf st)
     \<and> (\<forall>q. r = Some q \<longrightarrow> p \<le> q \<and> q \<le> e \<and> drop q (buf st') = drop q (buf st)
         \<and> (\<forall>u \<in> set ts. filled u)))"

lemma grown_stop: "jok st pa t \<Longrightarrow> grown e pa t [] p st (None, st)"
  by (simp add: grown_def)

lemma grown_here: "jok st pa t \<Longrightarrow> p \<le> e \<Longrightarrow> grown e pa t [] p st (Some p, st)"
  by (simp add: grown_def)

lemma grown_later: "grown e pa t ts q st x \<Longrightarrow> p \<le> q \<Longrightarrow> grown e pa t ts p st x"
  by (auto simp: grown_def intro: take_earlier)

lemma grown_trans:
  assumes "grown e pa t ts p st (Some q, st1)" "grown e pa (add_kids t ts) us q st1 (r, st2)"
  shows "grown e pa t (ts @ us) p st (r, st2)"
proof -
  have "take p (buf st2) = take p (buf st)"
    using assms take_earlier [of q "buf st2" "buf st1" p] by (simp add: grown_def)
  moreover have "drop q2 (buf st2) = drop q2 (buf st)" if "r = Some q2" for q2
    using assms that drop_later [of q "buf st1" "buf st" q2] by (simp add: grown_def)
  ultimately show ?thesis using assms by (auto simp: grown_def)
qed

lemma grown_live: "grown e pa t ts p st (Some q, st') \<Longrightarrow> live (buf st) e p \<Longrightarrow> live (buf st') e q"
  by (rule live_cong [of _ _ "buf st"]) (auto simp: grown_def intro: live_later)

lemma grown_key:
  "jok st pa t \<Longrightarrow> key_post (buf st) e p (r, k, b') \<Longrightarrow> grown e pa t [] p st (r, st\<lparr>buf := b'\<rparr>)"
  by (auto simp: grown_def key_post_def jok_def)

definition created :: "jstate \<Rightarrow> nat \<Rightarrow> jt \<Rightarrow> nx_json_type \<Rightarrow> nat option \<Rightarrow> jstate \<Rightarrow> bool" where
  "created st pa t ty key st1 \<longleftrightarrow> jok st1 pa (add_kids t [leaf ty key]) \<and> jok st1 (pa + tsize t) (leaf ty key)
     \<and> (\<forall>x < pa. heap st1 x = heap st x) \<and> buf st1 = buf st \<and> mem_left st1 + brk st1 = mem_left st + brk st"

lemma create_json_cases:
  assumes "jok st pa t"
  obtains "mem_left st = 0" "create_json ty key pa st = Inr (None, st)"
  | st1 where "create_json ty key pa st = Inr (Some (pa + tsize t), st1)" "created st pa t ty key st1"
proof -
  have "brk st = pa + tsize t" using assms by (simp add: jok_def)
  then show thesis using create_json_ok [OF assms, of ty key] that by (auto simp: created_def)
qed

lemma grown_child:
  assumes "created st pa t ty key st1" "jok st2 (pa + tsize t) c" "bounded e c"
    and "\<And>x. x < pa + tsize t \<Longrightarrow> heap st2 x = heap st1 x"
    and "mem_left st2 + brk st2 = mem_left st1 + brk st1"
    and "length (buf st2) = length (buf st1)" "take p (buf st2) = take p (buf st1)"
    and "\<And>q. r = Some q \<Longrightarrow> p \<le> q \<and> q \<le> e \<and> drop q (buf st2) = drop q (buf st1) \<and> filled c"
  shows "grown e pa t [c] p st (r, st2)"
  using assms jok_close [of st1 pa t "leaf ty key" st2 c] by (auto simp: grown_def created_def)

lemma grown_nested:
  assumes "created st pa t ty key st1" "grown e (pa + tsize t) (leaf ty key) us q st1 (r, st2)"
    and "\<And>k. key = Some k \<Longrightarrow> k \<le> e" "p \<le> q" "ty \<noteq> NX_JSON_STRING"
  shows "grown e pa t [Jt ty key None 0 us] p st (r, st2)"
proof (rule grown_child [OF assms(1)])
  show "jok st2 (pa + tsize t) (Jt ty key None 0 us)"
    using assms(2) by (simp add: grown_def add_kids_def)
  show "take p (buf st2) = take p (buf st1)"
    using assms(2,4) take_earlier by (auto simp: grown_def)
qed (use assms(2-5) in \<open>auto simp: grown_def\<close>)

text \<open>Setting fields of the leaf that was just created.\<close>

lemma upd_leaf:
  assumes "jok st a (leaf ty key)"
    and "f (node_of a (leaf ty key) None) = node_of a (Jt ty key tx i []) None"
  shows "\<exists>st'. upd_node a f st = Inr st' \<and> jok st' a (Jt ty key tx i []) \<and> buf st' = buf st
    \<and> mem_left st' = mem_left st \<and> brk st' = brk st \<and> (\<forall>x < a. heap st' x = heap st x)"
proof -
  have "heap st a = Some (node_of a (leaf ty key) None)" using assms(1) by (simp add: jok_def)
  then show ?thesis using assms by (simp add: upd_node_def load_def jok_def)
qed

definition value_post :: "nat \<Rightarrow> nat \<Rightarrow> jt \<Rightarrow> nat \<Rightarrow> jstate \<Rightarrow> nat option \<times> jstate \<Rightarrow> bool" where
  "value_post e pa t p st x \<longleftrightarrow> (\<exists>ts. grown e pa t ts p st x \<and> length ts \<le> 1
     \<and> (\<forall>q. fst x = Some q \<longrightarrow> ts \<noteq> [] \<and> p < q \<or> ts = [] \<and> buf (snd x) ! q = CHR '']''))"

definition loop_post :: "nat \<Rightarrow> nat \<Rightarrow> jt \<Rightarrow> nat \<Rightarrow> jstate \<Rightarrow> nat option \<times> jstate \<Rightarrow> bool" where
  "loop_post e pa t p st x \<longleftrightarrow> (\<exists>ts. grown e pa t ts p st x \<and> (\<forall>q. fst x = Some q \<longrightarrow> p < q))"

lemma value_post_stop: "jok st pa t \<Longrightarrow> value_post e pa t p st (None, st)"
  using grown_stop [of st pa t e p] by (auto simp: value_post_def)

lemma value_post_later: "value_post e pa t q st x \<Longrightarrow> p \<le> q \<Longrightarrow> value_post e pa t p st x"
  unfolding value_post_def using grown_later [of e pa t _ q st x p] order_le_less_trans [of p q] by blast

lemma value_post_one:
  "grown e pa t [c] p st (r, st') \<Longrightarrow> (\<And>q. r = Some q \<Longrightarrow> p < q) \<Longrightarrow> value_post e pa t p st (r, st')"
  by (auto simp: value_post_def)

text \<open>The leaves.\<close>

lemma leaf_json_step:
  assumes "jok st pa t" "p < q" "q \<le> e" "\<forall>k. key = Some k \<longrightarrow> k \<le> e" "ty \<noteq> NX_JSON_STRING"
    and "\<forall>a. f (node_of a (leaf ty key) None) = node_of a (Jt ty key None i []) None"
  obtains "mem_left st = 0" "leaf_json ty key pa f q st = Inr (None, st)"
  | st2 where "leaf_json ty key pa f q st = Inr (Some q, st2)" "buf st2 = buf st"
      "grown e pa t [Jt ty key None i []] p st (Some q, st2)"
proof (cases rule: create_json_cases [OF assms(1), of ty key])
  case 1
  then show thesis using that(1) by (simp add: leaf_json_def)
next
  case (2 st1)
  then have 3: "jok st1 (pa + tsize t) (leaf ty key)" "buf st1 = buf st" by (simp_all add: created_def)
  from upd_leaf [where f = f, OF 3(1) assms(6) [rule_format]] obtain st2 where st2: "upd_node (pa + tsize t) f st1 = Inr st2"
    "jok st2 (pa + tsize t) (Jt ty key None i [])" "buf st2 = buf st1" "mem_left st2 = mem_left st1"
    "brk st2 = brk st1" "\<forall>x < pa + tsize t. heap st2 x = heap st1 x"
    by blast
  have "grown e pa t [Jt ty key None i []] p st (Some q, st2)"
    by (rule grown_child [OF 2(2) st2(2)]) (use assms(2-5) st2 in auto)
  then show thesis using that(2) [of st2] 2 3(2) st2 by (simp add: leaf_json_def)
qed

lemma leaf_json_live:
  assumes "jok st pa t" "p < q" "q \<le> e" "\<And>k. key = Some k \<Longrightarrow> k \<le> e" "ty \<noteq> NX_JSON_STRING"
    and "\<And>a. f (node_of a (leaf ty key) None) = node_of a (Jt ty key None i []) None"
  shows "\<exists>x. leaf_json ty key pa f q st = Inr x \<and> value_post e pa t p st x"
proof -
  have k: "\<forall>k. key = Some k \<longrightarrow> k \<le> e"
    "\<forall>a. f (node_of a (leaf ty key) None) = node_of a (Jt ty key None i []) None" using assms(4,6) by blast+
  show ?thesis
  proof (cases rule: leaf_json_step [OF assms(1-3) k(1) assms(5) k(2)])
    case 1
    then show ?thesis using value_post_stop [OF assms(1)] by simp
  next
    case (2 st2)
    then have "value_post e pa t p st (Some q, st2)" using assms(2) by (intro value_post_one) simp_all
    then show ?thesis using 2 by simp
  qed
qed

text \<open>A \<open>strtol\<close> that does not consume more than the string it is given.\<close>

definition strtol_ok :: "strtol_fn \<Rightarrow> bool" where
  "strtol_ok strtol \<longleftrightarrow> (\<forall>s. snd (strtol s) \<le> length s)"

lemma number_json_step:
  assumes "jok st pa t" "live (buf st) e p" "\<forall>k. key = Some k \<longrightarrow> k \<le> e" "strtol_ok strtol"
    and vn: "strtol (cstr (drop p (buf st))) = (v, n)"
  obtains "mem_left st = 0" "number_json strtol key pa p st = Inr (None, st)"
  | st2 r where "number_json strtol key pa p st = Inr (r, st2)" "r = (if n = 0 then None else Some (p + n))"
      "buf st2 = buf st" "grown e pa t [Jt NX_JSON_INTEGER key None v []] p st (r, st2)"
proof (cases rule: create_json_cases [OF assms(1), of NX_JSON_INTEGER key])
  case 1
  then show thesis using that(1) by (simp add: number_json_def)
next
  case (2 st1)
  have "n \<le> e - p"
    using assms(4) [unfolded strtol_ok_def, rule_format, of "cstr (drop p (buf st))"]
      text_at_cstr [OF live_text [OF assms(2)]] length_live [OF assms(2)] vn by simp
  then have n: "p + n \<le> e" using live_here(4) [OF assms(2)] by simp
  have 3: "jok st1 (pa + tsize t) (leaf NX_JSON_INTEGER key)" "buf st1 = buf st" using 2 by (simp_all add: created_def)
  have "(\<lambda>nd. nd\<lparr>js_int_value := v\<rparr>) (node_of (pa + tsize t) (leaf NX_JSON_INTEGER key) None)
      = node_of (pa + tsize t) (Jt NX_JSON_INTEGER key None v []) None" by (simp add: node_of_def)
  from upd_leaf [where f = "\<lambda>nd. nd\<lparr>js_int_value := v\<rparr>", OF 3(1) this] obtain st2 where
    st2: "upd_node (pa + tsize t) (\<lambda>nd. nd\<lparr>js_int_value := v\<rparr>) st1 = Inr st2"
    "jok st2 (pa + tsize t) (Jt NX_JSON_INTEGER key None v [])" "buf st2 = buf st1" "mem_left st2 = mem_left st1"
    "brk st2 = brk st1" "\<forall>x < pa + tsize t. heap st2 x = heap st1 x"
    by blast
  let ?r = "if n = 0 then None else Some (p + n)"
  have "grown e pa t [Jt NX_JSON_INTEGER key None v []] p st (?r, st2)"
    by (rule grown_child [OF 2(2) st2(2)]) (use assms(3) n st2 in \<open>auto split: if_splits\<close>)
  then show thesis using that(2) [of ?r st2] 2 3(2) st2(1,3) vn by (auto simp: number_json_def split: if_splits)
qed

lemma number_json_live:
  assumes "jok st pa t" "live (buf st) e p" "\<And>k. key = Some k \<Longrightarrow> k \<le> e" "strtol_ok strtol"
  shows "\<exists>x. number_json strtol key pa p st = Inr x \<and> value_post e pa t p st x"
proof -
  have k: "\<forall>k. key = Some k \<longrightarrow> k \<le> e" using assms(3) by blast
  obtain v n where vn: "strtol (cstr (drop p (buf st))) = (v, n)" by fastforce
  show ?thesis
  proof (cases rule: number_json_step [OF assms(1,2) k assms(4) vn])
    case 1
    then show ?thesis using value_post_stop [OF assms(1)] by simp
  next
    case (2 st2 r)
    then have "value_post e pa t p st (r, st2)" by (intro value_post_one) (auto split: if_splits)
    then show ?thesis using 2(1) by simp
  qed
qed

text \<open>The string branch, with the outcome of decoding its text.\<close>

lemma string_json_step:
  assumes "jok st pa t" "\<forall>k. key = Some k \<longrightarrow> k \<le> e" "encoder_fits enc"
    and u: "unescape_string enc (buf st) (Suc p) = Inr (r, b')" "length b' = length (buf st)"
      "take (Suc p) b' = take (Suc p) (buf st)"
      "\<forall>s' q. r = Some (s', q) \<longrightarrow> s' = Suc p \<and> Suc p < q \<and> q \<le> e \<and> drop q b' = drop q (buf st)"
  obtains "mem_left st = 0" "string_json enc key pa (Suc p) st = Inr (None, st)"
  | st3 where "string_json enc key pa (Suc p) st = Inr (map_option snd r, st3)" "buf st3 = b'"
      "grown e pa t [Jt NX_JSON_STRING key (map_option fst r) 0 []] p st (map_option snd r, st3)"
proof (cases rule: create_json_cases [OF assms(1), of NX_JSON_STRING key])
  case 1
  then show thesis using that(1) by (simp add: string_json_def)
next
  case (2 st1)
  have 3: "jok st1 (pa + tsize t) (leaf NX_JSON_STRING key)" "buf st1 = buf st" using 2 by (simp_all add: created_def)
  have t: "take p b' = take p (buf st)" using u(3) by (rule take_earlier) simp
  let ?st2 = "st1\<lparr>buf := b'\<rparr>"
  have j2: "jok ?st2 (pa + tsize t) (leaf NX_JSON_STRING key)" using 3(1) by (simp add: jok_def)
  show thesis
  proof (cases r)
    case None
    have "grown e pa t [leaf NX_JSON_STRING key] p st (None, ?st2)"
      by (rule grown_child [OF 2(2) j2]) (use assms(2) u(2) t 3(2) in auto)
    then show thesis using that(2) [of ?st2] 2 3(2) u(1) None by (simp add: string_json_def)
  next
    case (Some a)
    then obtain q where q: "r = Some (Suc p, q)" "Suc p < q" "q \<le> e" "drop q b' = drop q (buf st)"
      using u(4) by (cases a) auto
    have "(\<lambda>n. n\<lparr>js_text_value := Some (Suc p)\<rparr>) (node_of (pa + tsize t) (leaf NX_JSON_STRING key) None)
        = node_of (pa + tsize t) (Jt NX_JSON_STRING key (Some (Suc p)) 0 []) None" by (simp add: node_of_def)
    from upd_leaf [where f = "\<lambda>n. n\<lparr>js_text_value := Some (Suc p)\<rparr>", OF j2 this] obtain st3 where
      st3: "upd_node (pa + tsize t) (\<lambda>n. n\<lparr>js_text_value := Some (Suc p)\<rparr>) ?st2 = Inr st3"
      "jok st3 (pa + tsize t) (Jt NX_JSON_STRING key (Some (Suc p)) 0 [])" "buf st3 = b'"
      "mem_left st3 = mem_left st1" "brk st3 = brk st1" "\<forall>x < pa + tsize t. heap st3 x = heap st1 x"
      by auto
    have "grown e pa t [Jt NX_JSON_STRING key (Some (Suc p)) 0 []] p st (Some q, st3)"
      by (rule grown_child [OF 2(2) st3(2)]) (use assms(2) u(2) t 3(2) q st3 in auto)
    then show thesis using that(2) [of st3] 2 3(2) u(1) q(1) st3(1,3) by (simp add: string_json_def)
  qed
qed

lemma string_json_live:
  assumes "jok st pa t" "live (buf st) e (Suc p)" "\<And>k. key = Some k \<Longrightarrow> k \<le> e" "encoder_fits enc"
  shows "\<exists>x. string_json enc key pa (Suc p) st = Inr x \<and> value_post e pa t p st x"
proof -
  have k: "\<forall>k. key = Some k \<longrightarrow> k \<le> e" using assms(3) by blast
  obtain r b' where u: "unescape_string enc (buf st) (Suc p) = Inr (r, b')" "length b' = length (buf st)"
    "take (Suc p) b' = take (Suc p) (buf st)"
    "\<forall>s' q. r = Some (s', q) \<longrightarrow> s' = Suc p \<and> Suc p < q \<and> q \<le> e \<and> drop q b' = drop q (buf st)"
    using unescape_string_live [OF assms(2,4)] by blast
  show ?thesis
  proof (cases rule: string_json_step [OF assms(1) k assms(4) u])
    case 1
    then show ?thesis using value_post_stop [OF assms(1)] by simp
  next
    case (2 st3)
    then have "value_post e pa t p st (map_option snd r, st3)" using u(4) by (intro value_post_one) auto
    then show ?thesis using 2(1) by simp
  qed
qed

subsection \<open>The recursion\<close>

text \<open>
  What each of the three mutually recursive functions promises with a given fuel: two units
  for every character that is left, and one or two to notice the end.
\<close>

definition value_live :: "encoder option \<Rightarrow> strtol_fn \<Rightarrow> nat \<Rightarrow> bool" where
  "value_live enc strtol fuel \<longleftrightarrow> (\<forall>st pa t e p key. jok st pa t \<longrightarrow> live (buf st) e p
     \<longrightarrow> 2 * (e - p) + 1 \<le> fuel \<longrightarrow> (\<forall>k. key = Some k \<longrightarrow> k \<le> e)
     \<longrightarrow> (\<exists>x. parse_value enc strtol fuel pa key p st = Inr x \<and> value_post e pa t p st x))"

definition object_live :: "encoder option \<Rightarrow> strtol_fn \<Rightarrow> nat \<Rightarrow> bool" where
  "object_live enc strtol fuel \<longleftrightarrow> (\<forall>st pa t e p. jok st pa t \<longrightarrow> live (buf st) e p
     \<longrightarrow> 2 * (e - p) + 2 \<le> fuel
     \<longrightarrow> (\<exists>x. object_loop enc strtol fuel pa p st = Inr x \<and> loop_post e pa t p st x))"

definition array_live :: "encoder option \<Rightarrow> strtol_fn \<Rightarrow> nat \<Rightarrow> bool" where
  "array_live enc strtol fuel \<longleftrightarrow> (\<forall>st pa t e p. jok st pa t \<longrightarrow> live (buf st) e p
     \<longrightarrow> 2 * (e - p) + 2 \<le> fuel
     \<longrightarrow> (\<exists>x. array_loop enc strtol fuel pa p st = Inr x \<and> loop_post e pa t p st x))"

lemma loop_post_cont:
  assumes "grown e pa t ts p st (Some q, st1)" "loop_post e pa (add_kids t ts) q st1 x"
  shows "loop_post e pa t p st x"
proof -
  obtain r st2 where x: "x = (r, st2)" by (cases x)
  obtain us where us: "grown e pa (add_kids t ts) us q st1 (r, st2)" "\<forall>q2. r = Some q2 \<longrightarrow> q < q2"
    using assms(2) x by (auto simp: loop_post_def)
  have "p \<le> q" using assms(1) by (simp add: grown_def)
  then show ?thesis using grown_trans [OF assms(1) us(1)] us(2) x by (auto simp: loop_post_def)
qed

lemma array_live_Suc:
  assumes "value_live enc strtol fuel" "array_live enc strtol fuel"
  shows "array_live enc strtol (Suc fuel)"
  unfolding array_live_def
proof (intro allI impI)
  fix st pa t e p
  assume j: "jok st pa t" and l: "live (buf st) e p" and f: "2 * (e - p) + 2 \<le> Suc fuel"
  obtain r st1 ts where v: "parse_value enc strtol fuel pa None p st = Inr (r, st1)"
    "grown e pa t ts p st (r, st1)"
    "\<forall>q. r = Some q \<longrightarrow> ts \<noteq> [] \<and> p < q \<or> ts = [] \<and> buf st1 ! q = CHR '']''"
    using assms(1) [unfolded value_live_def, rule_format, OF j l, of None] f by (force simp: value_post_def)
  show "\<exists>x. array_loop enc strtol (Suc fuel) pa p st = Inr x \<and> loop_post e pa t p st x"
  proof (cases r)
    case None
    then show ?thesis using v by (auto simp: loop_post_def)
  next
    case (Some q)
    have l1: "live (buf st1) e q" using v(2) Some l grown_live by blast
    note q = live_here [OF l1]
    have pq: "p \<le> q" using v(2) Some by (simp add: grown_def)
    show ?thesis
    proof (cases "buf st1 ! q = CHR '']''")
      case True
      then have "Suc q \<le> e" using q(2) by simp
      moreover have "drop (Suc q) (buf st1) = drop (Suc q) (buf st)"
        using v(2) Some by (auto simp: grown_def intro: drop_later)
      ultimately have "grown e pa t ts p st (Some (Suc q), st1)" using v(2) Some by (simp add: grown_def)
      then show ?thesis using v(1) Some q(1) True pq by (auto simp: loop_post_def)
    next
      case False
      then have "p < q" using v(3) Some by auto
      then have "2 * (e - q) + 2 \<le> fuel" using f q(4) by simp
      moreover have "jok st1 pa (add_kids t ts)" using v(2) by (simp add: grown_def)
      ultimately obtain x where "array_loop enc strtol fuel pa q st1 = Inr x" "loop_post e pa (add_kids t ts) q st1 x"
        using assms(2) [unfolded array_live_def, rule_format] l1 by blast
      then show ?thesis using v(1,2) Some q(1) False loop_post_cont by auto
    qed
  qed
qed

lemma object_live_Suc:
  assumes "value_live enc strtol fuel" "object_live enc strtol fuel" "encoder_fits enc"
  shows "object_live enc strtol (Suc fuel)"
  unfolding object_live_def
proof (intro allI impI)
  fix st pa t e p
  assume j: "jok st pa t" and l: "live (buf st) e p" and f: "2 * (e - p) + 2 \<le> Suc fuel"
  obtain r key b' where k: "parse_key enc (buf st) p = Inr (r, key, b')" "key_post (buf st) e p (r, key, b')"
    using parse_key_live [OF l assms(3)] by auto
  let ?st1 = "st\<lparr>buf := b'\<rparr>"
  have g: "grown e pa t [] p st (r, ?st1)" by (rule grown_key [OF j k(2)])
  show "\<exists>x. object_loop enc strtol (Suc fuel) pa p st = Inr x \<and> loop_post e pa t p st x"
  proof (cases r)
    case None
    then show ?thesis using k(1) g by (auto simp: loop_post_def)
  next
    case (Some q)
    have l1: "live b' e q" using g Some l grown_live by fastforce
    note q = live_here [OF l1]
    have pq: "p \<le> q" using g Some by (simp add: grown_def)
    show ?thesis
    proof (cases "b' ! q = CHR ''}''")
      case True
      then have "Suc q \<le> e" using q(2) by simp
      moreover have "drop (Suc q) b' = drop (Suc q) (buf st)"
        using g Some by (auto simp: grown_def intro: drop_later)
      ultimately have "grown e pa t [] p st (Some (Suc q), ?st1)" using g Some by (simp add: grown_def)
      then show ?thesis using k(1) Some q(1) True pq by (auto simp: loop_post_def)
    next
      case False
      then have pq: "p < q" using k(2) Some by (simp add: key_post_def)
      have j1: "jok ?st1 pa t" using j by (simp add: jok_def)
      have "2 * (e - q) + 1 \<le> fuel" "\<forall>k. key = Some k \<longrightarrow> k \<le> e"
        using f pq q(4) k(2) by (simp_all add: key_post_def)
      then obtain r2 st2 ts where v: "parse_value enc strtol fuel pa key q ?st1 = Inr (r2, st2)"
        "grown e pa t ts q ?st1 (r2, st2)"
        using assms(1) [unfolded value_live_def, rule_format, OF j1, of e q key] l1 by (force simp: value_post_def)
      have g2: "grown e pa t ts p st (r2, st2)" using grown_trans [of e pa t "[]" p st q ?st1 ts r2 st2] g v(2) Some by simp
      show ?thesis
      proof (cases r2)
        case None
        then show ?thesis using k(1) Some q(1) False v(1) g2 by (auto simp: loop_post_def)
      next
        case (Some q2)
        have l2: "live (buf st2) e q2" using g2 Some l grown_live by blast
        have "q \<le> q2" "jok st2 pa (add_kids t ts)" using v(2) Some by (simp_all add: grown_def)
        moreover from this have "2 * (e - q2) + 2 \<le> fuel" using f pq live_here(4) [OF l2] by simp
        ultimately obtain x where "object_loop enc strtol fuel pa q2 st2 = Inr x" "loop_post e pa (add_kids t ts) q2 st2 x"
          using assms(2) [unfolded object_live_def, rule_format] l2 by blast
        then show ?thesis using k(1) \<open>r = Some q\<close> q(1) False v(1) g2 Some loop_post_cont by auto
      qed
    qed
  qed
qed

text \<open>An object or an array: the node is created and its loop runs inside it.\<close>

lemma nested_live:
  assumes "jok st pa t" "live (buf st) e (Suc p)" "\<And>k. key = Some k \<Longrightarrow> k \<le> e" "ty \<noteq> NX_JSON_STRING"
    and loop: "\<And>st1 a. jok st1 a (leaf ty key) \<Longrightarrow> buf st1 = buf st
      \<Longrightarrow> \<exists>x. loop a (Suc p) st1 = Inr x \<and> loop_post e a (leaf ty key) (Suc p) st1 x"
  shows "\<exists>x. bindR (create_json ty key pa st) (\<lambda>(js, st1). case js of
        None \<Rightarrow> Inr (None, st1) | Some a \<Rightarrow> loop a (p + 1) st1) = Inr x \<and> value_post e pa t p st x"
proof (cases rule: create_json_cases [OF assms(1), of ty key])
  case 1
  then show ?thesis using value_post_stop [OF assms(1)] by simp
next
  case (2 st1)
  then have "jok st1 (pa + tsize t) (leaf ty key)" "buf st1 = buf st" by (simp_all add: created_def)
  from loop [OF this] obtain r st2 us where x: "loop (pa + tsize t) (Suc p) st1 = Inr (r, st2)"
    "grown e (pa + tsize t) (leaf ty key) us (Suc p) st1 (r, st2)" "\<forall>q. r = Some q \<longrightarrow> Suc p < q"
    by (auto simp: loop_post_def)
  have "grown e pa t [Jt ty key None 0 us] p st (r, st2)"
    using assms(3,4) by (intro grown_nested [OF 2(2) x(2)]) simp_all
  then have "value_post e pa t p st (r, st2)" using x(3) by (intro value_post_one) auto
  then show ?thesis using 2(1) x(1) by auto
qed

lemma nested_loops_live:
  assumes "object_live enc strtol fuel" "array_live enc strtol fuel" "jok st pa t" "live (buf st) e (Suc p)"
    and "2 * (e - Suc p) + 2 \<le> fuel" "\<forall>k. key = Some k \<longrightarrow> k \<le> e"
  shows "\<exists>x. bindR (create_json NX_JSON_OBJECT key pa st) (\<lambda>(js, st1). case js of
        None \<Rightarrow> Inr (None, st1) | Some a \<Rightarrow> object_loop enc strtol fuel a (p + 1) st1) = Inr x \<and> value_post e pa t p st x"
    and "\<exists>x. bindR (create_json NX_JSON_ARRAY key pa st) (\<lambda>(js, st1). case js of
        None \<Rightarrow> Inr (None, st1) | Some a \<Rightarrow> array_loop enc strtol fuel a (p + 1) st1) = Inr x \<and> value_post e pa t p st x"
proof -
  have loops: "\<exists>x. object_loop enc strtol fuel a (Suc p) st1 = Inr x \<and> loop_post e a (leaf ty key) (Suc p) st1 x"
    "\<exists>x. array_loop enc strtol fuel a (Suc p) st1 = Inr x \<and> loop_post e a (leaf ty key) (Suc p) st1 x"
    if "jok st1 a (leaf ty key)" "buf st1 = buf st" for st1 a ty
    using assms(1) [unfolded object_live_def, rule_format, OF that(1)]
      assms(2) [unfolded array_live_def, rule_format, OF that(1)] assms(4,5) that(2) by simp_all
  show "\<exists>x. bindR (create_json NX_JSON_OBJECT key pa st) (\<lambda>(js, st1). case js of
        None \<Rightarrow> Inr (None, st1) | Some a \<Rightarrow> object_loop enc strtol fuel a (p + 1) st1) = Inr x \<and> value_post e pa t p st x"
    by (rule nested_live [OF assms(3,4), where loop = "object_loop enc strtol fuel"]) (use assms(6) loops in simp_all)
  show "\<exists>x. bindR (create_json NX_JSON_ARRAY key pa st) (\<lambda>(js, st1). case js of
        None \<Rightarrow> Inr (None, st1) | Some a \<Rightarrow> array_loop enc strtol fuel a (p + 1) st1) = Inr x \<and> value_post e pa t p st x"
    by (rule nested_live [OF assms(3,4), where loop = "array_loop enc strtol fuel"]) (use assms(6) loops in simp_all)
qed

text \<open>The three words, and a comment in front of a value.\<close>

lemma word_live:
  assumes "jok st pa t" "live (buf st) e p" "\<forall>k. key = Some k \<longrightarrow> k \<le> e" "NUL \<notin> set w" "length w = n" "0 < n" "ty \<noteq> NX_JSON_STRING"
    and "\<And>a. f (node_of a (leaf ty key) None) = node_of a (Jt ty key None i []) None"
  shows "\<exists>x. bindR (match_at (buf st) p w) (\<lambda>m. if m then leaf_json ty key pa f (p + n) st else Inr (None, st)) = Inr x
    \<and> value_post e pa t p st x"
proof -
  have "\<exists>x. leaf_json ty key pa f (p + n) st = Inr x \<and> value_post e pa t p st x" if "p + n \<le> e"
    using assms that by (intro leaf_json_live [OF assms(1), where i = i]) auto
  then show ?thesis using match_at_live [OF assms(2,4)] assms(5) value_post_stop [OF assms(1)] by auto
qed

lemmas word_cases_live =
  word_live [where w = "''true''" and n = 4 and ty = NX_JSON_BOOL and f = "\<lambda>n. n\<lparr>js_int_value := 1\<rparr>" and i = 1]
  word_live [where w = "''false''" and n = 5 and ty = NX_JSON_BOOL and f = "\<lambda>n. n\<lparr>js_int_value := 0\<rparr>" and i = 0]
  word_live [where w = "''null''" and n = 4 and ty = NX_JSON_NULL and f = "\<lambda>n. n" and i = 0]

lemma parse_value_comment:
  assumes "live (buf st) e p" "buf st ! p = CHR ''/''"
  shows "parse_value enc strtol (Suc fuel) pa key p st = Inr (None, st)
    \<or> (\<exists>q > p. q \<le> e \<and> parse_value enc strtol (Suc fuel) pa key p st = parse_value enc strtol fuel pa key q st)"
proof -
  have l1: "live (buf st) e (Suc p)" using assms by (intro live_Suc) simp_all
  note p = live_here [OF assms(1)] and c2 = live_here [OF l1] and l2 = live_Suc [OF l1]
  consider (line) "buf st ! Suc p = CHR ''/''" | (block) "buf st ! Suc p = CHR ''*''"
    | (none) "buf st ! Suc p \<noteq> CHR ''/''" "buf st ! Suc p \<noteq> CHR ''*''" by blast
  then show ?thesis
  proof cases
    case line
    then obtain r where r: "skip_line_comment (buf st) (Suc (Suc p)) = Inr r" "\<forall>q. r = Some q \<longrightarrow> p < q \<and> q \<le> e"
      using skip_line_comment_live [OF l2] by fastforce
    then show ?thesis using line assms(2) p(1) c2(1) by (cases r) auto
  next
    case block
    then obtain r where r: "skip_block_comment (buf st) (Suc (Suc p)) = Inr r" "\<forall>q. r = Some q \<longrightarrow> p < q \<and> q \<le> e"
      using skip_block_comment_live [OF l2] by fastforce
    then show ?thesis using block assms(2) p(1) c2(1) by (cases r) auto
  next
    case none
    then show ?thesis using assms(2) p(1) c2(1) by simp
  qed
qed

text \<open>The parser goes on behind what it has skipped.\<close>

lemma value_live_later:
  assumes "value_live enc strtol fuel" "jok st pa t" "live (buf st) e p" "2 * (e - p) + 1 \<le> Suc fuel"
    "\<forall>k. key = Some k \<longrightarrow> k \<le> e" "p < q" "q \<le> e"
  shows "\<exists>x. parse_value enc strtol fuel pa key q st = Inr x \<and> value_post e pa t p st x"
proof -
  have "live (buf st) e q" "2 * (e - q) + 1 \<le> fuel" using assms(3,4,6,7) live_later by auto
  from assms(1) [unfolded value_live_def, rule_format, OF assms(2) this, of key] assms(5)
  obtain x where "parse_value enc strtol fuel pa key q st = Inr x" "value_post e pa t q st x" by auto
  then show ?thesis using assms(6) value_post_later [of e pa t q st x p] by auto
qed

lemma value_live_Suc:
  assumes "value_live enc strtol fuel" "object_live enc strtol fuel" "array_live enc strtol fuel"
    and fit: "encoder_fits enc" "strtol_ok strtol"
  shows "value_live enc strtol (Suc fuel)"
  unfolding value_live_def
proof (intro allI impI)
  fix st pa t e p key
  assume j: "jok st pa t" and l: "live (buf st) e p" and f: "2 * (e - p) + 1 \<le> Suc fuel"
    and k: "\<forall>k. key = Some k \<longrightarrow> k \<le> e"
  let ?v = "parse_value enc strtol (Suc fuel) pa key p st" and ?c = "buf st ! p"
  let ?goal = "\<exists>x. ?v = Inr x \<and> value_post e pa t p st x"
  note p = live_here [OF l]
  have stop: ?goal if "?v = Inr (None, st)" using that value_post_stop [OF j] by simp
  have l1: "?c \<noteq> NUL \<Longrightarrow> live (buf st) e (Suc p)" using l by (rule live_Suc)
  have f1: "2 * (e - Suc p) + 2 \<le> fuel" if "?c \<noteq> NUL" using f p(2) that by simp
  note nested = nested_loops_live [OF assms(2,3) j l1 f1 k]
  have again: ?goal if "?v = parse_value enc strtol fuel pa key q st" "p < q" "q \<le> e" for q
    using value_live_later [OF assms(1) j l f k that(2,3)] that(1) by simp
  consider (none) "?c \<notin> {CHR '' '', CHR 0x09, CHR 0x0A, CHR 0x0D, CHR '','', CHR ''{'', CHR ''['', CHR '']'', CHR 0x22,
        CHR ''-'', CHR ''t'', CHR ''f'', CHR ''n'', CHR ''/''}" "\<not> (48 \<le> (of_char ?c :: nat) \<and> (of_char ?c :: nat) \<le> 57)"
    | (skip) "?c \<in> {CHR '' '', CHR 0x09, CHR 0x0A, CHR 0x0D, CHR '',''}"
    | (inside) "?c \<in> {CHR ''{'', CHR ''[''}" | (close) "?c = CHR '']''" | (str) "?c = CHR 0x22"
    | (num) "?c = CHR ''-'' \<or> (48 \<le> (of_char ?c :: nat) \<and> (of_char ?c :: nat) \<le> 57)"
    | (word) "?c \<in> {CHR ''t'', CHR ''f'', CHR ''n''}" | (comment) "?c = CHR ''/''"
    by blast
  then show ?goal
  proof cases
    case none
    then show ?thesis using p(1) by (intro stop) auto
  next
    case skip
    then have "Suc p \<le> e" using p(2) by auto
    then show ?thesis using skip p(1) by (intro again [of "Suc p"]) auto
  next
    case inside
    then show ?thesis using nested p(1) by auto
  next
    case close
    then have "value_post e pa t p st (Some p, st)" using grown_here [OF j p(4)] by (auto simp: value_post_def)
    then show ?thesis using close p(1) by simp
  next
    case str
    then have "\<exists>x. string_json enc key pa (Suc p) st = Inr x \<and> value_post e pa t p st x"
      using k l1 by (intro string_json_live [OF j _ _ fit(1)]) auto
    then show ?thesis using str p(1) by simp
  next
    case num
    have "\<exists>x. number_json strtol key pa p st = Inr x \<and> value_post e pa t p st x"
      using k by (intro number_json_live [OF j l _ fit(2)]) auto
    moreover have "?v = number_json strtol key pa p st" using num p(1) by auto
    ultimately show ?thesis by simp
  next
    case word
    then show ?thesis using word_cases_live [OF j l k] p(1) by (auto simp: node_of_def)
  next
    case comment
    then show ?thesis using parse_value_comment [OF l] stop again by blast
  qed
qed

lemma parser_live:
  assumes "encoder_fits enc" "strtol_ok strtol"
  shows "value_live enc strtol fuel \<and> object_live enc strtol fuel \<and> array_live enc strtol fuel"
proof (induction fuel)
  case 0
  then show ?case by (simp add: value_live_def object_live_def array_live_def)
next
  case (Suc fuel)
  then show ?case using value_live_Suc object_live_Suc array_live_Suc assms by blast
qed

subsection \<open>The whole parser\<close>

lemma root_jok:
  "jok \<lparr>buf = b, heap = [0 \<mapsto> zero_json], brk = 1, mem_left = mem\<rparr> 0 (leaf NX_JSON_NULL None)"
  by (simp add: jok_def zero_json_def node_of_def)

text \<open>
  What \<open>nx_json_parse\<close> leaves behind: no node at all when it returns null, and else one tree
  at the returned address, with its keys and texts terminated in the buffer.
\<close>

definition parsed :: "nat option \<Rightarrow> jstate \<Rightarrow> bool" where
  "parsed r st \<longleftrightarrow> (case r of
      None \<Rightarrow> \<forall>x. heap st x = None
    | Some a \<Rightarrow> \<exists>t e. laid (heap st) a t None \<and> brk st = a + tsize t
        \<and> (\<forall>x. x < a \<or> a + tsize t \<le> x \<longrightarrow> heap st x = None)
        \<and> e < length (buf st) \<and> buf st ! e = NUL \<and> bounded e t \<and> filled t)"

lemma parse_root:
  assumes "live b e 0" "encoder_fits enc" "strtol_ok strtol"
  obtains r st ts where "parse_value enc strtol (2 * length b + 2) 0 None 0
       \<lparr>buf = b, heap = [0 \<mapsto> zero_json], brk = 1, mem_left = mem\<rparr> = Inr (r, st)"
    "jok st 0 (Jt NX_JSON_NULL None None 0 ts)" "length ts \<le> 1" "\<forall>u \<in> set ts. bounded e u"
    "length (buf st) = length b" "mem_left st + brk st = Suc mem"
    "\<forall>q. r = Some q \<longrightarrow> live (buf st) e q \<and> (\<forall>u \<in> set ts. filled u)"
proof -
  let ?st = "\<lparr>buf = b, heap = [0 \<mapsto> zero_json], brk = 1, mem_left = mem\<rparr>"
  have "2 * (e - 0) + 1 \<le> 2 * length b + 2" using live_here(4) [OF assms(1)] assms(1) by (simp add: live_def)
  then have "\<exists>x. parse_value enc strtol (2 * length b + 2) 0 None 0 ?st = Inr x
      \<and> value_post e 0 (leaf NX_JSON_NULL None) 0 ?st x"
    by (intro parser_live [OF assms(2,3), THEN conjunct1, unfolded value_live_def, rule_format] root_jok)
      (simp_all add: assms(1))
  then obtain r st ts where x: "parse_value enc strtol (2 * length b + 2) 0 None 0 ?st = Inr (r, st)"
    "grown e 0 (leaf NX_JSON_NULL None) ts 0 ?st (r, st)" "length ts \<le> 1"
    unfolding value_post_def by (metis surj_pair)
  have "live (buf st) e q" if "r = Some q" for q using grown_live [of e 0 _ ts 0 ?st q st] x(2) that assms(1) by simp
  then show thesis using that [OF x(1)] x(2,3) by (auto simp: grown_def add_kids_def)
qed

lemma nx_json_parse_parsed:
  assumes "live b e 0" "encoder_fits enc" "strtol_ok strtol"
  shows "\<exists>r st. nx_json_parse enc strtol mem b = Inr (r, st) \<and> parsed r st
    \<and> length (buf st) = length b \<and> mem_left st + brk st = Suc mem"
proof -
  obtain r st ts where v: "parse_value enc strtol (2 * length b + 2) 0 None 0
       \<lparr>buf = b, heap = [0 \<mapsto> zero_json], brk = 1, mem_left = mem\<rparr> = Inr (r, st)"
    and j: "jok st 0 (Jt NX_JSON_NULL None None 0 ts)" and n: "length ts \<le> 1" and bd: "\<forall>u \<in> set ts. bounded e u"
    and b: "length (buf st) = length b" "mem_left st + brk st = Suc mem" and q: "\<forall>q. r = Some q \<longrightarrow> live (buf st) e q \<and> (\<forall>u \<in> set ts. filled u)"
    using parse_root [OF assms, of mem] by blast
  let ?root = "node_of 0 (Jt NX_JSON_NULL None None 0 ts) None"
  have h0: "heap st 0 = Some ?root" and f: "laid_forest (heap st) 1 ts None"
    and free: "\<And>x. Suc (fsize ts) \<le> x \<Longrightarrow> heap st x = None" and brk: "brk st = Suc (fsize ts)"
    using j by (auto simp: jok_def)
  show ?thesis
  proof (cases ts)
    case Nil
    let ?st = "st\<lparr>heap := (heap st)(0 := None)\<rparr>"
    have "nx_json_parse enc strtol mem b = Inr (None, ?st)"
      unfolding nx_json_parse_def v using h0 Nil by (simp add: load_def node_of_def split: option.split)
    moreover have "parsed None ?st" using free Nil by (simp add: parsed_def)
    ultimately show ?thesis using b by (intro exI [of _ None] exI [of _ ?st]) simp
  next
    case (Cons u us)
    then have ts: "ts = [u]" using n by simp
    have lu: "laid (heap st) 1 u None" using f ts by simp
    show ?thesis
    proof (cases r)
      case None
      let ?st = "st\<lparr>heap := (cleared (heap st) 1 (1 + tsize u))(0 := None)\<rparr>"
      have "nx_json_free (2 * brk st) 1 (heap st) = Inr (cleared (heap st) 1 (1 + tsize u))"
        using brk ts by (intro free_laid(1) [OF lu]) simp
      then have "nx_json_parse enc strtol mem b = Inr (None, ?st)"
        unfolding nx_json_parse_def v using h0 ts None by (simp add: load_def node_of_def)
      moreover have "parsed None ?st" using free ts by (auto simp: parsed_def cleared_def)
      ultimately show ?thesis using b by (intro exI [of _ None] exI [of _ ?st]) simp
    next
      case (Some p)
      let ?st = "st\<lparr>heap := (heap st)(0 := None)\<rparr>"
      have "laid (heap ?st) 1 u None" using lu laid_cong(1) [of 1 u "heap ?st" "heap st" None] by simp
      moreover have "live (buf st) e p" "filled u" using q Some ts by simp_all
      ultimately have "parsed (Some 1) ?st"
        using free brk ts bd by (auto simp: parsed_def live_def intro!: exI [of _ u] exI [of _ e])
      moreover have "nx_json_parse enc strtol mem b = Inr (Some 1, ?st)"
        unfolding nx_json_parse_def v using h0 ts Some by (simp add: load_def node_of_def)
      ultimately show ?thesis using b by (intro exI [of _ "Some 1"] exI [of _ ?st]) simp
    qed
  qed
qed

text \<open>
  C2.  \<open>nx_json_parse\<close> returns on every terminated text, whatever it says and however much
  memory there is: no read or write outside the text, no null or freed node dereferenced,
  and the recursion ends.  What it returns is a tree of freshly allocated nodes, correctly
  linked, whose keys and strings are terminated inside the text; when it refuses the text
  every node it had allocated has been freed.
\<close>

theorem nx_json_parse_safe:
  assumes "NUL \<in> set text'" "encoder_fits enc" "strtol_ok strtol"
  shows "\<exists>r st. nx_json_parse enc strtol mem text' = Inr (r, st) \<and> parsed r st
    \<and> length (buf st) = length text' \<and> brk st \<le> Suc mem"
proof -
  obtain e where "live text' e 0" using live_exists [OF assms(1)] ..
  from nx_json_parse_parsed [OF this assms(2,3), of mem] show ?thesis by force
qed

theorem nx_json_parse_safe_witness:
  "\<exists>r st. nx_json_parse (Some unicode_to_utf8) (\<lambda>s. (7, min 1 (length s))) 10
       (''[7, {'' @ [CHR 0x22, CHR ''a'', CHR 0x22] @ '': true}]'' @ [NUL]) = Inr (r, st) \<and> parsed r st"
  using nx_json_parse_safe [of "''[7, {'' @ [CHR 0x22, CHR ''a'', CHR 0x22] @ '': true}]'' @ [NUL]"
      "Some unicode_to_utf8" "\<lambda>s. (7, min 1 (length s))" 10] unicode_to_utf8_fits
  by (auto simp: strtol_ok_def)

text \<open>
  The parser is lenient: a key without a value, directly in front of the closing brace, is
  dropped, and the text is accepted.
\<close>

lemma nx_json_parse_missing_value:
  "case nx_json_parse_utf8 (\<lambda>s. (0, 0)) 9 (''{'' @ [CHR 0x22, CHR ''a'', CHR 0x22] @ '':}'' @ [NUL]) of
     Inr (Some a, st) \<Rightarrow> (case heap st a of
         Some n \<Rightarrow> js_type n = NX_JSON_OBJECT \<and> js_length n = 0 \<and> js_child n = None | None \<Rightarrow> False)
   | _ \<Rightarrow> False"
  by code_simp

end
