(* ===== verification/NxJsonView.thy ===== *)
theory NxJsonView
  imports NxJsonParse
begin

text \<open>
  A parsed document as its clients see it: a node pointer stands for a tree, looking up a
  key or an index gives a pointer that stands for the subtree, and every string node has a
  terminated text.  The locale \<open>json_view\<close> states this contract; the interpretation shows
  that \<open>nx_json_get\<close> and \<open>nx_json_item\<close> keep it on what \<open>nx_json_parse\<close> returns.
\<close>

subsection \<open>Documents\<close>

definition terminated :: "string \<Rightarrow> nat option \<Rightarrow> bool" where
  "terminated b k \<longleftrightarrow> (\<forall>x. k = Some x \<longrightarrow> NUL \<in> set (drop x b))"

fun doc_tree :: "string \<Rightarrow> jt \<Rightarrow> bool" where
  "doc_tree b (Jt ty k tx i ts) \<longleftrightarrow> terminated b k \<and> terminated b tx
     \<and> (ty = NX_JSON_STRING \<longrightarrow> tx \<noteq> None) \<and> (\<forall>t \<in> set ts. doc_tree b t)"

abbreviation null_tree :: jt where "null_tree \<equiv> leaf NX_JSON_NULL None"

definition kid_named :: "string \<Rightarrow> string \<Rightarrow> jt \<Rightarrow> jt" where
  "kid_named b key t = (case find (has_key b key) (kids t) of None \<Rightarrow> null_tree | Some c \<Rightarrow> c)"

definition kid_nth :: "jt \<Rightarrow> int \<Rightarrow> jt" where
  "kid_nth t i = (if 0 \<le> i \<and> nat i < length (kids t) then kids t ! nat i else null_tree)"

definition tree_at :: "jstate \<Rightarrow> jptr \<Rightarrow> jt \<Rightarrow> bool" where
  "tree_at st p t \<longleftrightarrow> doc_tree (buf st) t \<and> (case p of
      J_null \<Rightarrow> False
    | J_dummy \<Rightarrow> t = null_tree
    | J_at a \<Rightarrow> \<exists>nx. laid (heap st) a t nx \<and> a + tsize t \<le> brk st)"

text \<open>A node with the fields its clients read.\<close>

definition node_like :: "jt \<Rightarrow> nx_json \<Rightarrow> bool" where
  "node_like t n \<longleftrightarrow> js_type n = jt_type t \<and> js_text_value n = jt_text t \<and> js_int_value n = jt_int t"

subsection \<open>The contract\<close>

locale json_view =
  fixes rep :: "'st \<Rightarrow> 'p \<Rightarrow> jt \<Rightarrow> bool"
    and text_of :: "'st \<Rightarrow> string"
    and get :: "'st \<Rightarrow> 'p \<Rightarrow> string option \<Rightarrow> 'p result"
    and item :: "'st \<Rightarrow> 'p \<Rightarrow> int \<Rightarrow> 'p result"
    and node :: "'st \<Rightarrow> 'p \<Rightarrow> nx_json result"
  assumes rep_doc: "rep st p t \<Longrightarrow> doc_tree (text_of st) t"
    and node_law: "rep st p t \<Longrightarrow> \<exists>n. node st p = Inr n \<and> node_like t n"
    and get_law: "rep st p t \<Longrightarrow> \<exists>q. get st p (Some key) = Inr q \<and> rep st q (kid_named (text_of st) key t)"
    and item_law: "rep st p t \<Longrightarrow> \<exists>q. item st p i = Inr q \<and> rep st q (kid_nth t i)"
begin

text \<open>Reading a field of an element: the client's usual sequence of calls.\<close>

lemma get_node:
  assumes "rep st p t"
  shows "\<exists>q n. get st p (Some key) = Inr q \<and> node st q = Inr n
    \<and> node_like (kid_named (text_of st) key t) n \<and> rep st q (kid_named (text_of st) key t)"
  using get_law [OF assms, of key] node_law by blast

lemma item_node:
  assumes "rep st p t"
  shows "\<exists>q n. item st p i = Inr q \<and> node st q = Inr n \<and> node_like (kid_nth t i) n \<and> rep st q (kid_nth t i)"
  using item_law [OF assms, of i] node_law by blast

lemma string_text:
  assumes "rep st p t" "jt_type t = NX_JSON_STRING"
  shows "\<exists>k. jt_text t = Some k \<and> str_at (text_of st) k = Inr (cstr (drop k (text_of st)))"
proof -
  have "jt_text t \<noteq> None" "terminated (text_of st) (jt_text t)"
    using rep_doc [OF assms(1)] assms(2) by (cases t; simp)+
  then show ?thesis by (auto simp: terminated_def str_at_def)
qed

end

subsection \<open>The provider\<close>

lemma laid_kid:
  assumes "laid_forest h a ts None" "i < length ts"
  shows "\<exists>nx. laid h (kid_addr a ts i) (ts ! i) nx"
  using assms by (induction ts arbitrary: a i) (auto simp: less_Suc_eq_0_disj)

lemma kid_addr_end: "i < length ts \<Longrightarrow> kid_addr a ts i + tsize (ts ! i) \<le> a + fsize ts"
proof (induction ts arbitrary: a i)
  case (Cons t ts)
  then show ?case using Cons.IH [of "i - 1" "a + tsize t"] by (cases i) (simp_all add: add.assoc)
qed simp

lemma doc_tree_kids: "doc_tree b t \<Longrightarrow> c \<in> set (kids t) \<Longrightarrow> doc_tree b c"
  by (cases t) auto

lemma doc_tree_keys: "doc_tree b t \<Longrightarrow> keys_ok b (kids t)"
proof -
  assume d: "doc_tree b t"
  have "terminated b (jt_key c)" if "c \<in> set (kids t)" for c
    using doc_tree_kids [OF d that] by (cases c) simp
  then show ?thesis by (auto simp: keys_ok_def terminated_def)
qed

lemma doc_tree_null [simp]: "doc_tree b null_tree"
  by (simp add: terminated_def)

lemma tree_at_kid:
  assumes "tree_at st (J_at a) t" "i < length (kids t)"
  shows "tree_at st (J_at (kid_addr (Suc a) (kids t) i)) (kids t ! i)"
proof -
  obtain nx where l: "laid (heap st) a t nx" "a + tsize t \<le> brk st" "doc_tree (buf st) t"
    using assms(1) by (auto simp: tree_at_def)
  have "laid_forest (heap st) (Suc a) (kids t) None" using l(1) by (simp add: laid_kids)
  moreover have "kid_addr (Suc a) (kids t) i + tsize (kids t ! i) \<le> brk st"
    using kid_addr_end [OF assms(2), of "Suc a"] l(2) by (simp add: tsize_kids [of t])
  ultimately show ?thesis
    using laid_kid [OF _ assms(2)] doc_tree_kids [OF l(3)] assms(2) by (simp add: tree_at_def)
qed

lemma tree_at_dummy: "tree_at st J_dummy null_tree"
  by (simp add: tree_at_def terminated_def)

lemma get_dummy: "nx_json_get st J_dummy (Some key) = Inr J_dummy"
  by (simp add: nx_json_get_def deref_def zero_json_def)

lemma item_dummy: "nx_json_item st J_dummy i = Inr J_dummy"
  by (simp add: nx_json_item_def deref_def zero_json_def)

lemma find_kid_find:
  "find_kid b key a ts = None \<Longrightarrow> find (has_key b key) ts = None"
  "find_kid b key a ts = Some x \<Longrightarrow> \<exists>i < length ts. x = kid_addr a ts i \<and> find (has_key b key) ts = Some (ts ! i)"
  by (auto simp: find_kid_None find_kid_first find_None_iff find_Some_iff)

lemma nx_json_get_tree:
  assumes "tree_at st p t"
  shows "\<exists>q. nx_json_get st p (Some key) = Inr q \<and> tree_at st q (kid_named (buf st) key t)"
proof (cases p)
  case J_null
  then show ?thesis using assms by (simp add: tree_at_def)
next
  case J_dummy
  then show ?thesis using assms get_dummy tree_at_dummy by (auto simp: tree_at_def kid_named_def)
next
  case (J_at a)
  then obtain nx where l: "laid (heap st) a t nx" "a + tsize t \<le> brk st" "doc_tree (buf st) t"
    using assms by (auto simp: tree_at_def)
  have f: "laid_forest (heap st) (Suc a) (kids t) None" using l(1) by (simp add: laid_kids)
  have "length (kids t) < Suc (brk st)" using l(2) length_le_fsize [of "kids t"] by (simp add: tsize_kids)
  from get_loop_laid [OF f this doc_tree_keys [OF l(3)], of key] l(1)
  have g: "nx_json_get st p (Some key)
      = Inr (case find_kid (buf st) key (Suc a) (kids t) of None \<Rightarrow> J_dummy | Some x \<Rightarrow> J_at x)"
    by (simp add: J_at nx_json_get_def deref_def load_def laid_kids node_of_def)
  show ?thesis
  proof (cases "find_kid (buf st) key (Suc a) (kids t)")
    case None
    then show ?thesis using g find_kid_find(1) [OF None] tree_at_dummy by (simp add: kid_named_def)
  next
    case (Some x)
    then show ?thesis
      using g find_kid_find(2) [OF Some] tree_at_kid assms J_at by (auto simp: kid_named_def)
  qed
qed

lemma nx_json_item_tree:
  assumes "tree_at st p t"
  shows "\<exists>q. nx_json_item st p i = Inr q \<and> tree_at st q (kid_nth t i)"
proof (cases p)
  case J_null
  then show ?thesis using assms by (simp add: tree_at_def)
next
  case J_dummy
  then show ?thesis using assms item_dummy tree_at_dummy by (auto simp: tree_at_def kid_nth_def)
next
  case (J_at a)
  then obtain nx where l: "laid (heap st) a t nx" "a + tsize t \<le> brk st"
    using assms by (auto simp: tree_at_def)
  have f: "laid_forest (heap st) (Suc a) (kids t) None" using l(1) by (simp add: laid_kids)
  have "length (kids t) < Suc (brk st)" using l(2) length_le_fsize [of "kids t"] by (simp add: tsize_kids)
  from item_loop_laid [OF f this, of i] l(1)
  have "nx_json_item st p i = Inr (if 0 \<le> i \<and> nat i < length (kids t)
      then J_at (kid_addr (Suc a) (kids t) (nat i)) else J_dummy)"
    by (simp add: J_at nx_json_item_def deref_def load_def laid_kids node_of_def)
  then show ?thesis
    using tree_at_kid [of st a t "nat i"] tree_at_dummy assms J_at by (auto simp: kid_nth_def)
qed

lemma deref_tree: "tree_at st p t \<Longrightarrow> \<exists>n. deref (heap st) p = Inr n \<and> node_like t n"
  by (cases p) (auto simp: tree_at_def deref_def load_def laid_kids node_of_def node_like_def zero_json_def)

interpretation json: json_view tree_at buf nx_json_get nx_json_item "\<lambda>st. deref (heap st)"
proof unfold_locales
  show "doc_tree (buf st) t" if "tree_at st p t" for st p t using that by (simp add: tree_at_def)
qed (fact deref_tree nx_json_get_tree nx_json_item_tree)+

subsection \<open>What the parser returns is a document\<close>

lemma bounded_doc:
  assumes "e < length b" "b ! e = NUL" "bounded e t" "filled t"
  shows "doc_tree b t"
  using assms(3,4)
proof (induction t)
  case (Jt ty k tx i ts)
  have "terminated b k'" if "\<forall>x. k' = Some x \<longrightarrow> x \<le> e" for k'
  proof -
    have "b ! e \<in> set (drop x b)" if "x \<le> e" for x
      using assms(1) that nth_mem [of "e - x" "drop x b"] by simp
    then show ?thesis using assms(2) that by (simp add: terminated_def)
  qed
  then show ?case using Jt by auto
qed

text \<open>The heap holds the nodes of one tree and no other.\<close>

definition whole_tree :: "jstate \<Rightarrow> nat \<Rightarrow> jt \<Rightarrow> bool" where
  "whole_tree st a t \<longleftrightarrow> laid (heap st) a t None \<and> brk st = a + tsize t
     \<and> (\<forall>x. x < a \<or> a + tsize t \<le> x \<longrightarrow> heap st x = None)"

lemma parsed_tree_at:
  assumes "parsed (Some a) st"
  obtains t where "tree_at st (J_at a) t" "whole_tree st a t"
  using assms bounded_doc by (fastforce simp: parsed_def tree_at_def whole_tree_def)

end
