(* ===== verification/Bytes.thy ===== *)
theory Bytes
  imports Prelude
begin

text \<open>
  The in-memory bytes of the unsigned C fields that one side writes into a shared buffer
  and the other side reads back through a struct pointer.  Both sides run on the same
  machine, whose byte order is the parameter \<open>endian\<close>.
\<close>

datatype endian = Little | Big

definition byte_order :: "endian \<Rightarrow> bytes \<Rightarrow> bytes" where
  "byte_order en bs = (case en of Big \<Rightarrow> bs | Little \<Rightarrow> rev bs)"

definition enc16 :: "endian \<Rightarrow> u16 \<Rightarrow> bytes" where
  "enc16 en x = byte_order en [ucast (drop_bit 8 x), ucast x]"

definition dec16 :: "endian \<Rightarrow> bytes \<Rightarrow> u16" where
  "dec16 en bs = (case byte_order en bs of
      [b1, b0] \<Rightarrow> push_bit 8 (ucast b1) OR ucast b0 | _ \<Rightarrow> 0)"

definition enc32 :: "endian \<Rightarrow> u32 \<Rightarrow> bytes" where
  "enc32 en x = byte_order en
     [ucast (drop_bit 24 x), ucast (drop_bit 16 x), ucast (drop_bit 8 x), ucast x]"

definition dec32 :: "endian \<Rightarrow> bytes \<Rightarrow> u32" where
  "dec32 en bs = (case byte_order en bs of
      [b3, b2, b1, b0] \<Rightarrow> push_bit 24 (ucast b3) OR push_bit 16 (ucast b2)
        OR push_bit 8 (ucast b1) OR ucast b0
    | _ \<Rightarrow> 0)"

lemma length_enc [simp]: "length (enc16 en x) = 2" "length (enc32 en y) = 4"
  by (cases en; simp add: enc16_def enc32_def byte_order_def)+

lemma byte_order_inv [simp]: "byte_order en (byte_order en bs) = bs"
  by (cases en) (simp_all add: byte_order_def)

lemma join16: "push_bit 8 (ucast (ucast (drop_bit 8 x) :: u8)) OR ucast (ucast x :: u8) = x" for x :: u16
  by (rule bit_word_eqI) (auto simp: bit_simps)

lemma join32:
  fixes x :: u32
  shows "push_bit 24 (ucast (ucast (drop_bit 24 x) :: u8)) OR push_bit 16 (ucast (ucast (drop_bit 16 x) :: u8))
     OR push_bit 8 (ucast (ucast (drop_bit 8 x) :: u8)) OR ucast (ucast x :: u8) = x"
    (is "?l = x")
proof (rule bit_word_eqI)
  fix n assume n: "n < LENGTH(32)"
  consider "n < 8" | "8 \<le> n" "n < 16" | "16 \<le> n" "n < 24" | "24 \<le> n" by linarith
  then show "bit ?l n = bit x n"
    using n by cases (auto simp: bit_simps)
qed

lemma dec_enc16 [simp]: "dec16 en (enc16 en x) = x"
  by (simp add: dec16_def enc16_def join16)

lemma dec_enc32 [simp]: "dec32 en (enc32 en x) = x"
  by (simp add: dec32_def enc32_def join32)

text \<open>A field of a struct: the bytes at an offset.\<close>

definition field16 :: "endian \<Rightarrow> nat \<Rightarrow> bytes \<Rightarrow> u16 result" where
  "field16 en off bs = bindR (mem_read off 2 bs) (\<lambda>x. Inr (dec16 en x))"

definition field32 :: "endian \<Rightarrow> nat \<Rightarrow> bytes \<Rightarrow> u32 result" where
  "field32 en off bs = bindR (mem_read off 4 bs) (\<lambda>x. Inr (dec32 en x))"

lemma mem_read_at:
  "off = length pre \<Longrightarrow> n = length x \<Longrightarrow> mem_read off n (pre @ x @ post) = Inr x"
  by (simp add: mem_read_def window_def)

lemma field16_at: "off = length pre \<Longrightarrow> field16 en off (pre @ enc16 en x @ post) = Inr x"
  by (simp add: field16_def mem_read_at)

lemma field32_at: "off = length pre \<Longrightarrow> field32 en off (pre @ enc32 en x @ post) = Inr x"
  by (simp add: field32_def mem_read_at)

end
