(* ===== verification/NtrackUser.thy ===== *)
theory NtrackUser
  imports Bytes
begin

text \<open>
  Users and flows as \<open>include/src/ntrack_comm.h\<close> and \<open>ntrack_auth.h\<close> see them.  The
  structures themselves are declared in the kernel tree (\<open>linux/nos_track.h\<close>); the records
  here have the fields this repository reads or writes, at the width at which it does.  The
  table sizes \<open>NOS_USER_TRACK_MAX\<close> and \<open>NOS_FLOW_TRACK_MAX\<close>, the clock \<open>jiffies\<close> and its rate
  \<open>HZ\<close> are arguments.
\<close>

subsection \<open>Data\<close>

record user_hdr =
  hdr_flags :: u32
  hdr_time_stamp :: u32
  hdr_group_id :: int
  hdr_rule_idx :: int
  hdr_rule_magic :: u32

record user_info_t =
  ui_hdr :: user_hdr
  ui_id :: u32
  ui_magic :: u32
  ui_ip :: u32

record flow_info_t =
  fi_id :: u32
  fi_magic :: u32
  fi_user_id :: u32

definition magic_valid :: "u32 \<Rightarrow> bool" where
  "magic_valid m \<longleftrightarrow> m mod 2 = 0"

subsection \<open>Authentication status\<close>

abbreviation (input) AUTH_UNKNOWN :: u32 where "AUTH_UNKNOWN \<equiv> 0"
abbreviation (input) AUTH_REQ :: u32 where "AUTH_REQ \<equiv> 1"
abbreviation (input) AUTH_REJ :: u32 where "AUTH_REJ \<equiv> 2"
abbreviation (input) AUTH_OK :: u32 where "AUTH_OK \<equiv> 3"
abbreviation (input) AUTH_STATUS_MASK :: u32 where "AUTH_STATUS_MASK \<equiv> 0xff"

definition AUTH_STATUS :: "u32 \<Rightarrow> u32" where
  "AUTH_STATUS flags = flags AND AUTH_STATUS_MASK"

definition nt_auth_status :: "user_info_t \<Rightarrow> u32" where
  "nt_auth_status ui = AUTH_STATUS (hdr_flags (ui_hdr ui))"

text \<open>The previous status and the user with the new one.\<close>

definition nt_auth_set_status :: "user_info_t \<Rightarrow> u32 \<Rightarrow> u32 \<times> user_info_t" where
  "nt_auth_set_status ui status =
     (let h = ui_hdr ui;
          s_priv = AUTH_STATUS (hdr_flags h);
          f1 = hdr_flags h AND NOT AUTH_STATUS_MASK;
          f2 = f1 OR AUTH_STATUS status
      in (s_priv, ui\<lparr>ui_hdr := h\<lparr>hdr_flags := f2\<rparr>\<rparr>))"

lemma AUTH_STATUS_set: "AUTH_STATUS ((f AND NOT AUTH_STATUS_MASK) OR AUTH_STATUS s) = AUTH_STATUS s"
  unfolding AUTH_STATUS_def by (rule bit_word_eqI) (auto simp: bit_simps)

lemma AUTH_STATUS_rest:
  "((f AND NOT AUTH_STATUS_MASK) OR AUTH_STATUS s) AND NOT AUTH_STATUS_MASK = f AND NOT AUTH_STATUS_MASK"
  unfolding AUTH_STATUS_def by (rule bit_word_eqI) (auto simp: bit_simps)

lemma AUTH_STATUS_small: "unat s < 256 \<Longrightarrow> AUTH_STATUS s = s"
proof -
  assume "unat s < 256"
  have "AUTH_STATUS s = take_bit 8 s" by (simp add: AUTH_STATUS_def take_bit_eq_mask mask_eq_exp_minus_1)
  moreover have "unat (take_bit 8 s) = unat s"
    using \<open>unat s < 256\<close> by (simp add: unsigned_take_bit_eq take_bit_nat_eq_self)
  ultimately show ?thesis by (simp add: word_eq_iff_unat)
qed

lemma nt_auth_status_small [simp]: "unat s < 256 \<Longrightarrow> nt_auth_status (snd (nt_auth_set_status ui s)) = s"
  using AUTH_STATUS_set [of "hdr_flags (ui_hdr ui)" s] AUTH_STATUS_small [of s]
  by (simp add: nt_auth_status_def nt_auth_set_status_def Let_def)

text \<open>
  The status byte of a user can be set and read back: the status is the low byte of
  what was set, the returned value is the status there was before, and the other 24 bits of
  the flags, the identity and the rule fields are left alone.
\<close>

theorem nt_auth_set_get:
  "nt_auth_status (snd (nt_auth_set_status ui s)) = s AND 0xff
   \<and> fst (nt_auth_set_status ui s) = nt_auth_status ui
   \<and> hdr_flags (ui_hdr (snd (nt_auth_set_status ui s))) AND NOT 0xff = hdr_flags (ui_hdr ui) AND NOT 0xff
   \<and> snd (nt_auth_set_status ui s) = ui\<lparr>ui_hdr := (ui_hdr ui)\<lparr>hdr_flags :=
        hdr_flags (ui_hdr (snd (nt_auth_set_status ui s)))\<rparr>\<rparr>"
  using AUTH_STATUS_set [of "hdr_flags (ui_hdr ui)" s] AUTH_STATUS_rest [of "hdr_flags (ui_hdr ui)" s]
  by (simp add: nt_auth_status_def nt_auth_set_status_def Let_def AUTH_STATUS_def)

subsection \<open>Time stamps\<close>

text \<open>\<open>jiffies\<close> is an \<open>unsigned long\<close> of the kernel; here it has the 32 bits of the routers the drivers are built for.\<close>

definition user_update_timestamp :: "u32 \<Rightarrow> user_info_t \<Rightarrow> u32 \<times> user_info_t" where
  "user_update_timestamp jiffies ui =
     (hdr_time_stamp (ui_hdr ui), ui\<lparr>ui_hdr := (ui_hdr ui)\<lparr>hdr_time_stamp := jiffies\<rparr>\<rparr>)"

text \<open>The kernel's \<open>time_after (a, b)\<close>: the signed difference is negative.\<close>

definition time_after :: "u32 \<Rightarrow> u32 \<Rightarrow> bool" where
  "time_after a b \<longleftrightarrow> sint (b - a) < 0"

definition user_timeout :: "u32 \<Rightarrow> u32 \<Rightarrow> user_info_t \<Rightarrow> bool" where
  "user_timeout HZ jiffies ui \<longleftrightarrow> time_after jiffies (hdr_time_stamp (ui_hdr ui) + HZ * 30)"

lemma sint_neg_iff: "sint (x :: u32) < 0 \<longleftrightarrow> 2147483648 \<le> unat x"
proof -
  have lt: "unat x div 2147483648 < 2" using unat_less_size(3) [of x] by (simp add: less_mult_imp_div_less)
  have "sint x < 0 \<longleftrightarrow> odd (uint x div 2147483648)"
    by (simp add: sint_uint bit_iff_odd)
  also have "\<dots> \<longleftrightarrow> odd (unat x div 2147483648)"
  proof -
    have "uint x div 2147483648 = int (unat x div 2147483648)" by (simp add: zdiv_int)
    then show ?thesis by simp
  qed
  also have "\<dots> \<longleftrightarrow> unat x div 2147483648 = 1" using lt by (auto elim: oddE)
  also have "\<dots> \<longleftrightarrow> 2147483648 \<le> unat x" using lt div_greater_zero_iff [of "unat x" 2147483648] by linarith
  finally show ?thesis .
qed

text \<open>
  The keep-alive test is right across the wrap-around of the 32-bit clock: as long as
  less than half its range has passed since the time stamp, a user has timed out exactly
  when more than \<open>30 * HZ\<close> ticks have.
\<close>

theorem user_timeout_elapsed:
  assumes "unat (jiffies - hdr_time_stamp (ui_hdr ui)) < 2147483648" "30 * unat HZ < 2147483648"
  shows "user_timeout HZ jiffies ui \<longleftrightarrow> 30 * unat HZ < unat (jiffies - hdr_time_stamp (ui_hdr ui))"
proof -
  let ?e = "jiffies - hdr_time_stamp (ui_hdr ui)" and ?k = "HZ * 30 :: u32"
  have k: "unat ?k = 30 * unat HZ"
    using assms(2) by (simp add: unat_word_ariths mult.commute)
  have "hdr_time_stamp (ui_hdr ui) + ?k - jiffies = ?k - ?e" by simp
  then have "user_timeout HZ jiffies ui \<longleftrightarrow> 2147483648 \<le> unat (?k - ?e)"
    by (simp only: user_timeout_def time_after_def sint_neg_iff)
  also have "\<dots> \<longleftrightarrow> unat ?k < unat ?e"
    using assms k by (auto simp: unat_sub_if')
  finally show ?thesis using k by simp
qed

theorem user_timeout_elapsed_witness:
  "user_timeout 100 2000 \<lparr>ui_hdr = \<lparr>hdr_flags = 0, hdr_time_stamp = 4294966296, hdr_group_id = 0,
      hdr_rule_idx = 0, hdr_rule_magic = 0\<rparr>, ui_id = 0, ui_magic = 0, ui_ip = 0\<rparr>
   \<longleftrightarrow> 30 * unat (100 :: u32) < unat (2000 - 4294966296 :: u32)"
  using user_timeout_elapsed [of 2000 "\<lparr>ui_hdr = \<lparr>hdr_flags = 0, hdr_time_stamp = 4294966296, hdr_group_id = 0,
      hdr_rule_idx = 0, hdr_rule_magic = 0\<rparr>, ui_id = 0, ui_magic = 0, ui_ip = 0\<rparr>" 100]
  by simp

subsection \<open>The kernel's node accessors\<close>

text \<open>
  \<open>struct nos_track\<close> holds pointers to a flow and to two users; a user pointer is its index
  in the user table, null is \<open>None\<close>.  The assertion is a \<open>BUG_ON\<close>.
\<close>

record nos_track =
  trk_flow :: "nat option"
  trk_user :: "nat option"
  trk_peer :: "nat option"

definition checked_user :: "nat \<Rightarrow> user_info_t list \<Rightarrow> nat option \<Rightarrow> nat result" where
  "checked_user user_max users p = (case p of
      None \<Rightarrow> Inl Assert_failed
    | Some i \<Rightarrow> if length users \<le> i then Inl Out_of_bounds
        else bindR (assertR (unat (ui_id (users ! i)) < user_max)) (\<lambda>_. Inr i))"

definition nt_user :: "nat \<Rightarrow> user_info_t list \<Rightarrow> nos_track \<Rightarrow> nat result" where
  "nt_user user_max users nt = checked_user user_max users (trk_user nt)"

definition nt_peer :: "nat \<Rightarrow> user_info_t list \<Rightarrow> nos_track \<Rightarrow> nat result" where
  "nt_peer user_max users nt = checked_user user_max users (trk_peer nt)"

definition nt_flow :: "nat \<Rightarrow> flow_info_t list \<Rightarrow> nos_track \<Rightarrow> nat result" where
  "nt_flow flow_max flows nt = (case trk_flow nt of
      None \<Rightarrow> Inl Assert_failed
    | Some i \<Rightarrow> if length flows \<le> i then Inl Out_of_bounds
        else bindR (assertR (unat (fi_id (flows ! i)) < flow_max)) (\<lambda>_. Inr i))"

subsection \<open>The daemon's node accessors\<close>

text \<open>
  The tables mapped into user space.  A returned node is its index.
\<close>

record ntrack_t =
  nt_flows :: "flow_info_t list"
  nt_users :: "user_info_t list"

definition nt_get_flow_by_id :: "nat \<Rightarrow> ntrack_t \<Rightarrow> u32 \<Rightarrow> u32 \<Rightarrow> nat option result" where
  "nt_get_flow_by_id flow_max nt fid magic =
     bindR (assertR (unat fid < flow_max)) (\<lambda>_.
       if length (nt_flows nt) \<le> unat fid then Inl Out_of_bounds
       else Inr (if fi_magic (nt_flows nt ! unat fid) \<noteq> magic then None else Some (unat fid)))"

definition nt_get_user_by_id :: "nat \<Rightarrow> ntrack_t \<Rightarrow> u32 \<Rightarrow> u32 \<Rightarrow> nat option result" where
  "nt_get_user_by_id user_max nt uid magic =
     bindR (assertR (unat uid < user_max)) (\<lambda>_.
       if length (nt_users nt) \<le> unat uid then Inl Out_of_bounds
       else Inr (if ui_magic (nt_users nt ! unat uid) \<noteq> magic then None else Some (unat uid)))"

definition nt_get_user_by_flow :: "nat \<Rightarrow> ntrack_t \<Rightarrow> flow_info_t \<Rightarrow> nat result" where
  "nt_get_user_by_flow user_max nt fi =
     bindR (assertR (unat (fi_user_id fi) < user_max)) (\<lambda>_.
       if length (nt_users nt) \<le> unat (fi_user_id fi) then Inl Out_of_bounds
       else Inr (unat (fi_user_id fi)))"

text \<open>
  \<open>nt_get_user_by_id\<close> finds the node of an identifier exactly when the magic number of
  the slot is still the one asked for, aborts exactly on an identifier beyond the table, and
  never reads outside the table.
\<close>

theorem nt_get_user_by_id_spec:
  assumes "length (nt_users nt) = user_max"
  shows "nt_get_user_by_id user_max nt uid magic =
    (if user_max \<le> unat uid then Inl Assert_failed
     else Inr (if ui_magic (nt_users nt ! unat uid) = magic then Some (unat uid) else None))"
  using assms by (auto simp: nt_get_user_by_id_def assertR_def)

theorem nt_get_user_by_id_spec_witness:
  "nt_get_user_by_id 1 \<lparr>nt_flows = [], nt_users = [\<lparr>ui_hdr = \<lparr>hdr_flags = 0, hdr_time_stamp = 0,
      hdr_group_id = 0, hdr_rule_idx = 0, hdr_rule_magic = 0\<rparr>, ui_id = 0, ui_magic = 4, ui_ip = 0\<rparr>]\<rparr> 0 4
   = Inr (Some 0)"
  by (subst nt_get_user_by_id_spec) simp_all

end
