(* ===== verification/Packet.thy ===== *)
theory Packet
  imports Bytes
begin

text \<open>
  Packets as the netfilter hooks of \<open>drivers/nos_track\<close> see them, and the two tests that
  classify them: \<open>l3filter\<close> of \<open>ntrack_hooks.c\<close> and \<open>auth_check_http\<close> of \<open>ntrack_auth.c\<close>.
  The data of a packet are the bytes of its linear part from the IP header on; \<open>skb_len\<close>
  also counts the bytes in page fragments, which the code cannot reach through \<open>skb->data\<close>.
  Reading behind the linear part is a fault.  Headers are in network byte order.
\<close>

subsection \<open>Packets and headers\<close>

record sk_buff =
  skb_mac :: bytes
  skb_data :: bytes
  skb_len :: u32
  skb_dev :: "nat option"
  skb_iif :: int

record iphdr =
  ip_ihl :: nat
  ip_version :: nat
  ip_tot_len :: u16
  ip_protocol :: u8
  ip_saddr :: u32
  ip_daddr :: u32

definition rdb :: "bytes \<Rightarrow> nat \<Rightarrow> byte result" where
  "rdb b i = (if i < length b then Inr (b ! i) else Inl Out_of_bounds)"

text \<open>\<open>ip_hdr (skb)\<close>: the IP header at the start of the data.\<close>

definition ip_hdr :: "sk_buff \<Rightarrow> iphdr result" where
  "ip_hdr skb =
     bindR (rdb (skb_data skb) 0) (\<lambda>v.
     bindR (field16 Big 2 (skb_data skb)) (\<lambda>tl.
     bindR (rdb (skb_data skb) 9) (\<lambda>pr.
     bindR (field32 Big 12 (skb_data skb)) (\<lambda>sa.
     bindR (field32 Big 16 (skb_data skb)) (\<lambda>da.
       Inr \<lparr>ip_ihl = unat (v AND 0x0f), ip_version = unat (drop_bit 4 v), ip_tot_len = tl,
            ip_protocol = pr, ip_saddr = sa, ip_daddr = da\<rparr>)))))"

abbreviation (input) IPPROTO_ICMP :: u8 where "IPPROTO_ICMP \<equiv> 1"
abbreviation (input) IPPROTO_TCP :: u8 where "IPPROTO_TCP \<equiv> 6"
abbreviation (input) IPPROTO_UDP :: u8 where "IPPROTO_UDP \<equiv> 17"

subsection \<open>The address filter\<close>

text \<open>The kernel's address predicates, from \<open>linux/in.h\<close>.\<close>

record ipv4_preds =
  ipv4_is_lbcast :: "u32 \<Rightarrow> bool"
  ipv4_is_loopback :: "u32 \<Rightarrow> bool"
  ipv4_is_multicast :: "u32 \<Rightarrow> bool"
  ipv4_is_zeronet :: "u32 \<Rightarrow> bool"

definition l3filter :: "ipv4_preds \<Rightarrow> iphdr \<Rightarrow> bool" where
  "l3filter k iph \<longleftrightarrow>
     (if ip_protocol iph \<noteq> IPPROTO_TCP \<and> ip_protocol iph \<noteq> IPPROTO_UDP \<and> ip_protocol iph \<noteq> IPPROTO_ICMP
      then True
      else ipv4_is_lbcast k (ip_saddr iph) \<or> ipv4_is_lbcast k (ip_daddr iph)
        \<or> ipv4_is_loopback k (ip_saddr iph) \<or> ipv4_is_loopback k (ip_daddr iph)
        \<or> ipv4_is_multicast k (ip_saddr iph) \<or> ipv4_is_multicast k (ip_daddr iph)
        \<or> ipv4_is_zeronet k (ip_saddr iph) \<or> ipv4_is_zeronet k (ip_daddr iph))"

subsection \<open>The HTTP test\<close>

definition to_lower :: "byte \<Rightarrow> byte" where
  "to_lower c = (if 65 \<le> c \<and> c \<le> 90 then c + 32 else c)"

text \<open>
  \<open>strncasecmp (b + i, s, length s) == 0\<close> for a literal \<open>s\<close>: bytes are read until one differs.
\<close>

fun strncasecmp_eq :: "bytes \<Rightarrow> nat \<Rightarrow> bytes \<Rightarrow> bool result" where
  "strncasecmp_eq b i [] = Inr True"
| "strncasecmp_eq b i (x # xs) =
     bindR (rdb b i) (\<lambda>c. if to_lower c = to_lower x then strncasecmp_eq b (Suc i) xs else Inr False)"

abbreviation GET_bytes :: bytes where "GET_bytes \<equiv> [71, 69, 84]"
abbreviation POST_bytes :: bytes where "POST_bytes \<equiv> [80, 79, 83, 84]"

definition auth_check_http :: "iphdr \<Rightarrow> sk_buff \<Rightarrow> bool result" where
  "auth_check_http iph skb =
     (if ip_protocol iph \<noteq> IPPROTO_TCP then Inr False
      else bindR (rdb (skb_data skb) (4 * ip_ihl iph + 12)) (\<lambda>d.
        let doff = unat (drop_bit 4 d);
            l4len = int (unat (skb_len skb)) - 4 * int (ip_ihl iph) - 4 * int doff;
            l4data = 4 * ip_ihl iph + 4 * doff
        in bindR (if l4len > 3 then strncasecmp_eq (skb_data skb) l4data GET_bytes else Inr False) (\<lambda>g.
           if g then Inr True
           else if l4len > 4 then strncasecmp_eq (skb_data skb) l4data POST_bytes else Inr False)))"

subsection \<open>What the HTTP test accepts\<close>

definition has_prefix_ci :: "bytes \<Rightarrow> bytes \<Rightarrow> bool" where
  "has_prefix_ci xs b \<longleftrightarrow> length xs \<le> length b \<and> map to_lower (take (length xs) b) = map to_lower xs"

lemma strncasecmp_eq_prefix:
  "i + length xs \<le> length b \<Longrightarrow> strncasecmp_eq b i xs = Inr (has_prefix_ci xs (drop i b))"
proof (induction xs arbitrary: i)
  case Nil
  then show ?case by (simp add: has_prefix_ci_def)
next
  case (Cons x xs)
  then have "drop i b = b ! i # drop (Suc i) b" by (simp add: Cons_nth_drop_Suc)
  then show ?case using Cons by (auto simp: has_prefix_ci_def rdb_def)
qed

text \<open>The TCP payload of a linear packet.\<close>

definition tcp_payload :: "iphdr \<Rightarrow> sk_buff \<Rightarrow> bytes" where
  "tcp_payload iph skb =
     drop (4 * ip_ihl iph + 4 * unat (drop_bit 4 (skb_data skb ! (4 * ip_ihl iph + 12)))) (skb_data skb)"

lemma auth_check_http_tcp:
  assumes "unat (skb_len skb) = length (skb_data skb)" "4 * ip_ihl iph + 20 \<le> length (skb_data skb)"
    and "ip_protocol iph = IPPROTO_TCP"
  shows "auth_check_http iph skb =
    Inr (3 < length (tcp_payload iph skb) \<and> has_prefix_ci GET_bytes (tcp_payload iph skb)
      \<or> 4 < length (tcp_payload iph skb) \<and> has_prefix_ci POST_bytes (tcp_payload iph skb))"
proof -
  let ?d = "skb_data skb" and ?off = "4 * ip_ihl iph + 4 * unat (drop_bit 4 (skb_data skb ! (4 * ip_ihl iph + 12)))"
  have p: "tcp_payload iph skb = drop ?off ?d" by (simp add: tcp_payload_def)
  have "rdb ?d (4 * ip_ihl iph + 12) = Inr (?d ! (4 * ip_ihl iph + 12))"
    using assms(2) by (simp add: rdb_def)
  moreover have "3 < length ?d - ?off \<Longrightarrow> strncasecmp_eq ?d ?off GET_bytes = Inr (has_prefix_ci GET_bytes (drop ?off ?d))"
    by (rule strncasecmp_eq_prefix) simp
  moreover have "4 < length ?d - ?off \<Longrightarrow> strncasecmp_eq ?d ?off POST_bytes = Inr (has_prefix_ci POST_bytes (drop ?off ?d))"
    by (rule strncasecmp_eq_prefix) simp
  moreover have "int (length ?d) - 4 * int (ip_ihl iph) - 4 * int (unat (drop_bit 4 (?d ! (4 * ip_ihl iph + 12)))) > int n
      \<longleftrightarrow> n < length ?d - ?off" for n by linarith
  note this [of 3] this [of 4]
  ultimately show ?thesis
    using assms(1,3) p by (auto simp: auth_check_http_def Let_def simp del: strncasecmp_eq.simps)
qed

text \<open>
  On a linear packet that has its TCP header \<open>auth_check_http\<close> reads nothing outside
  the packet and accepts exactly the payloads that start, in any letter case, with \<open>GET\<close> and
  one more byte or with \<open>POST\<close> and one more byte.
\<close>

theorem auth_check_http_spec:
  assumes "unat (skb_len skb) = length (skb_data skb)" "4 * ip_ihl iph + 20 \<le> length (skb_data skb)"
  shows "auth_check_http iph skb = Inr (ip_protocol iph = IPPROTO_TCP
    \<and> (3 < length (tcp_payload iph skb) \<and> has_prefix_ci GET_bytes (tcp_payload iph skb)
      \<or> 4 < length (tcp_payload iph skb) \<and> has_prefix_ci POST_bytes (tcp_payload iph skb)))"
  using auth_check_http_tcp [OF assms] by (cases "ip_protocol iph = IPPROTO_TCP") (simp_all add: auth_check_http_def)

definition demo_tcp :: "bytes \<Rightarrow> sk_buff" where
  "demo_tcp payload = \<lparr>skb_mac = [], skb_data = 0x45 # replicate 8 0 @ [6] @ replicate 22 0 @ [0x50]
     @ replicate 7 0 @ payload, skb_len = of_nat (40 + length payload), skb_dev = Some 1, skb_iif = 1\<rparr>"

theorem auth_check_http_spec_witness:
  "auth_check_http \<lparr>ip_ihl = 5, ip_version = 4, ip_tot_len = 44, ip_protocol = 6, ip_saddr = 1, ip_daddr = 2\<rparr>
     (demo_tcp [0x67, 0x65, 0x54, 0x20]) = Inr True"
proof -
  have "unat (skb_len (demo_tcp [0x67, 0x65, 0x54, 0x20])) = length (skb_data (demo_tcp [0x67, 0x65, 0x54, 0x20]))"
    "40 \<le> length (skb_data (demo_tcp [0x67, 0x65, 0x54, 0x20]))"
    by code_simp+
  moreover have "3 < length (tcp_payload \<lparr>ip_ihl = 5, ip_version = 4, ip_tot_len = 44, ip_protocol = 6, ip_saddr = 1, ip_daddr = 2\<rparr>
       (demo_tcp [0x67, 0x65, 0x54, 0x20]))"
    "has_prefix_ci GET_bytes (tcp_payload \<lparr>ip_ihl = 5, ip_version = 4, ip_tot_len = 44, ip_protocol = 6, ip_saddr = 1, ip_daddr = 2\<rparr>
       (demo_tcp [0x67, 0x65, 0x54, 0x20]))"
    by code_simp+
  ultimately show ?thesis by (subst auth_check_http_spec) simp_all
qed

text \<open>
  On a packet whose payload is in page fragments the test reads behind the linear part.
\<close>

lemma auth_check_http_nonlinear:
  "auth_check_http \<lparr>ip_ihl = 5, ip_version = 4, ip_tot_len = 440, ip_protocol = 6, ip_saddr = 1, ip_daddr = 2\<rparr>
     ((demo_tcp [])\<lparr>skb_len := 440\<rparr>) = Inl Out_of_bounds"
  by code_simp

end
