(* ===== verification/NtrackConf.thy ===== *)
theory NtrackConf
  imports NxJsonView NtrackUser Packet
begin

text \<open>
  The configuration of the authentication rules: \<open>drivers/nos_track/src/ntrack_conf.c\<close> with
  the rule structures of \<open>include/src/ntrack_auth.h\<close>.  A netlink message carries a JSON text;
  \<open>ntrack_conf_sync\<close> parses it, builds a table of rules and swaps it in; \<open>ntrack_user_match\<close>
  finds the first rule one of whose IP sets matches a packet, and \<open>user_need_redirect\<close>
  decides whether the user has to authenticate.

  The kernel's IP set functions, the device lookup, \<open>simple_strtol\<close> and the address
  predicates are fields of the argument \<open>conf_env\<close>; \<open>jiffies\<close> and the outcomes of the
  allocations are arguments.
\<close>

subsection \<open>Rules\<close>

abbreviation (input) MAX_USR_SET :: nat where "MAX_USR_SET \<equiv> 4"
abbreviation (input) RULE_NAME_SIZE :: nat where "RULE_NAME_SIZE \<equiv> 64"
abbreviation (input) MAX_URL_RULES :: nat where "MAX_URL_RULES \<equiv> 64"
abbreviation (input) IPSET_INVALID_ID :: u16 where "IPSET_INVALID_ID \<equiv> 65535"

record auth_rule_t =
  rule_num_idx :: nat
  rule_flags :: u32
  rule_magic :: u32
  rule_uset_idx :: "u16 list"
  rule_name :: string

definition zero_rule :: auth_rule_t where
  "zero_rule = \<lparr>rule_num_idx = 0, rule_flags = 0, rule_magic = 0,
     rule_uset_idx = replicate MAX_USR_SET 0, rule_name = replicate RULE_NAME_SIZE NUL\<rparr>"

record G_AUTHCONF_t =
  conf_num_rules :: nat
  conf_rules :: "auth_rule_t list"

definition zero_conf :: G_AUTHCONF_t where
  "zero_conf = \<lparr>conf_num_rules = 0, conf_rules = replicate MAX_URL_RULES zero_rule\<rparr>"

record xt_action_param =
  act_thoff :: nat
  act_in :: "nat option"
  act_out :: "nat option"

record conf_env =
  env_strtol :: strtol_fn
  env_ip_set_get_byname :: "string \<Rightarrow> u16"
  env_ip_set_test :: "u16 \<Rightarrow> sk_buff \<Rightarrow> xt_action_param \<Rightarrow> int"
  env_dev_get_by_index :: "int \<Rightarrow> nat option"
  env_ipv4 :: ipv4_preds

text \<open>
  The module's state: the current table, the number of \<open>vmalloc\<close> blocks that exist, the IP
  set references that were taken, the process that sent the last configuration, and the
  pointer to the netlink socket, which is not reset when the socket is released.
\<close>

datatype nl_ptr = Nl_null | Nl_live | Nl_released

record conf_state =
  G_AuthConf :: "G_AUTHCONF_t option"
  vm_blocks :: nat
  set_refs :: "u16 list"
  user_process_pid :: u32
  conf_nl_sock :: nl_ptr

subsection \<open>Reading a configuration\<close>

text \<open>\<open>strncpy\<close> into a zeroed array of \<open>n\<close> characters.\<close>

definition strncpy :: "string \<Rightarrow> nat \<Rightarrow> nat \<Rightarrow> string result" where
  "strncpy b k n =
     (let s = take n (drop k b) in
      if NUL \<in> set s then Inr (cstr s @ replicate (n - length (cstr s)) NUL)
      else if length s = n then Inr s
      else Inl Out_of_bounds)"

text \<open>
  The inner loop over the set names.  The store at \<open>num_idx\<close> comes before the check that
  there was room for it.
\<close>

fun sets_loop ::
  "conf_env \<Rightarrow> jstate \<Rightarrow> jptr \<Rightarrow> nat \<Rightarrow> int \<Rightarrow> auth_rule_t \<Rightarrow> u16 list
   \<Rightarrow> (auth_rule_t \<times> u16 list) result" where
  "sets_loop env st sets 0 j rule refs = Inl No_fuel"
| "sets_loop env st sets (Suc fuel) j rule refs =
     bindR (nx_json_item st sets j) (\<lambda>str.
     if str = J_null then Inr (rule, refs) else
     bindR (deref (heap st) str) (\<lambda>n.
       if js_type n = NX_JSON_NULL then Inr (rule, refs)
       else if js_type n \<noteq> NX_JSON_STRING then sets_loop env st sets fuel (j + 1) rule refs
       else case js_text_value n of
           None \<Rightarrow> Inl Null_deref
         | Some k \<Rightarrow> bindR (str_at (buf st) k) (\<lambda>name.
             let idx = env_ip_set_get_byname env name in
             if idx = IPSET_INVALID_ID then sets_loop env st sets fuel (j + 1) rule refs
             else if length (rule_uset_idx rule) \<le> rule_num_idx rule then Inl Out_of_bounds
             else
               let rule' = rule\<lparr>rule_uset_idx := (rule_uset_idx rule)[rule_num_idx rule := idx],
                     rule_num_idx := rule_num_idx rule + 1\<rparr>
               in if rule_num_idx rule' > MAX_USR_SET then Inr (rule', refs @ [idx])
                  else sets_loop env st sets fuel (j + 1) rule' (refs @ [idx]))))"

text \<open>
  The body of the outer loop for one element: \<open>None\<close> when it is skipped by a \<open>continue\<close>,
  otherwise the rule.
\<close>

definition conf_item ::
  "conf_env \<Rightarrow> u32 \<Rightarrow> jstate \<Rightarrow> jptr \<Rightarrow> u16 list \<Rightarrow> (auth_rule_t option \<times> u16 list) result" where
  "conf_item env jiffies st node refs =
     bindR (deref (heap st) node) (\<lambda>n.
     if js_type n \<noteq> NX_JSON_OBJECT then Inr (None, refs) else
     bindR (nx_json_get st node (Some ''IPSets'')) (\<lambda>sets.
     bindR (deref (heap st) sets) (\<lambda>sn.
     if js_type sn \<noteq> NX_JSON_ARRAY then Inr (None, refs) else
     bindR (nx_json_get st node (Some ''Name'')) (\<lambda>str.
     bindR (deref (heap st) str) (\<lambda>nm.
     bindR (if js_type nm = NX_JSON_STRING then
              (case js_text_value nm of None \<Rightarrow> Inl Null_deref
               | Some k \<Rightarrow> strncpy (buf st) k RULE_NAME_SIZE)
            else Inr (rule_name zero_rule)) (\<lambda>name.
     bindR (sets_loop env st sets (Suc (brk st)) 0 (zero_rule\<lparr>rule_name := name\<rparr>) refs) (\<lambda>(rule, refs').
     bindR (nx_json_get st node (Some ''Flags'')) (\<lambda>flags.
     bindR (deref (heap st) flags) (\<lambda>fl.
       let rule1 = (if js_type fl = NX_JSON_INTEGER then rule\<lparr>rule_flags := of_int (js_int_value fl)\<rparr> else rule)
       in Inr (Some (rule1\<lparr>rule_magic := jiffies\<rparr>), refs'))))))))))"

text \<open>The outer loop.  Again the rule is stored before the number of rules is checked.\<close>

fun rules_loop ::
  "conf_env \<Rightarrow> u32 \<Rightarrow> jstate \<Rightarrow> jptr \<Rightarrow> nat \<Rightarrow> int \<Rightarrow> G_AUTHCONF_t \<Rightarrow> u16 list
   \<Rightarrow> (G_AUTHCONF_t \<times> u16 list) result" where
  "rules_loop env jiffies st json 0 i conf refs = Inl No_fuel"
| "rules_loop env jiffies st json (Suc fuel) i conf refs =
     bindR (nx_json_item st json i) (\<lambda>node.
     if node = J_null then Inr (conf, refs) else
     bindR (deref (heap st) node) (\<lambda>n.
     if js_type n = NX_JSON_NULL then Inr (conf, refs) else
     bindR (conf_item env jiffies st node refs) (\<lambda>(r, refs'). case r of
         None \<Rightarrow> rules_loop env jiffies st json fuel (i + 1) conf refs'
       | Some rule \<Rightarrow>
           if rule_num_idx rule = 0 then rules_loop env jiffies st json fuel (i + 1) conf refs'
           else if length (conf_rules conf) \<le> conf_num_rules conf then Inl Out_of_bounds
           else
             let conf' = conf\<lparr>conf_rules := (conf_rules conf)[conf_num_rules conf := rule],
                   conf_num_rules := conf_num_rules conf + 1\<rparr>
             in if conf_num_rules conf' > MAX_URL_RULES then Inr (conf', refs')
                else rules_loop env jiffies st json fuel (i + 1) conf' refs')))"

text \<open>\<open>ntrack_conf_free\<close> gives a table back; \<open>vm_blocks\<close> counts the tables that are allocated.\<close>

definition ntrack_conf_free :: "conf_state \<Rightarrow> conf_state" where
  [simp]: "ntrack_conf_free cs = cs\<lparr>vm_blocks := vm_blocks cs - 1\<rparr>"

text \<open>
  \<open>ntrack_conf_sync\<close>: \<open>vm\<close> says whether \<open>vmalloc\<close> succeeds and \<open>mem\<close> how many nodes can be
  allocated.  The result is the return value, the state, and the JSON heap that is left.  A
  failed \<open>vmalloc\<close> is reported but not handled: the \<open>memset\<close> that follows writes to null.  The log
  lines are not part of it; those that print \<open>rule.name\<close> with \<open>%s\<close> read behind the array when the
  name has 64 characters or more, since \<open>strncpy\<close> then stores no terminator.
\<close>

definition ntrack_conf_sync ::
  "conf_env \<Rightarrow> u32 \<Rightarrow> bool \<Rightarrow> nat \<Rightarrow> string \<Rightarrow> conf_state \<Rightarrow> (int \<times> conf_state \<times> jheap) result" where
  "ntrack_conf_sync env jiffies vm mem conf_str cs =
     (if \<not> vm then Inl Null_deref
      else
        let cs1 = cs\<lparr>vm_blocks := vm_blocks cs + 1\<rparr> in
        bindR (nx_json_parse_utf8 (env_strtol env) mem conf_str) (\<lambda>(json, st). case json of
            None \<Rightarrow> Inr (- EINVAL, cs1, heap st)
          | Some a \<Rightarrow> bindR (load (heap st) a) (\<lambda>n.
              if js_type n \<noteq> NX_JSON_ARRAY then Inr (- EINVAL, cs1, heap st)
              else bindR (rules_loop env jiffies st (J_at a) (Suc (brk st)) 0 zero_conf (set_refs cs1))
                (\<lambda>(conf, refs).
                let cs2 = (case G_AuthConf cs1 of
                      None \<Rightarrow> cs1
                    | Some tmp \<Rightarrow> ntrack_conf_free (cs1\<lparr>G_AuthConf := None\<rparr>));
                    cs3 = cs2\<lparr>G_AuthConf := Some conf, set_refs := refs\<rparr>
                in bindR (nx_json_free (2 * brk st) a (heap st)) (\<lambda>h. Inr (0, cs3, h))))))"

subsection \<open>Matching users\<close>

fun match_sets :: "conf_env \<Rightarrow> sk_buff \<Rightarrow> xt_action_param \<Rightarrow> auth_rule_t \<Rightarrow> nat list \<Rightarrow> int result" where
  "match_sets env skb act rule [] = Inr 0"
| "match_sets env skb act rule (j # js) =
     (if length (rule_uset_idx rule) \<le> j then Inl Out_of_bounds
      else let ret = env_ip_set_test env (rule_uset_idx rule ! j) skb act
           in if ret \<noteq> 0 then Inr ret else match_sets env skb act rule js)"

fun match_rules ::
  "conf_env \<Rightarrow> sk_buff \<Rightarrow> xt_action_param \<Rightarrow> G_AUTHCONF_t \<Rightarrow> nat list \<Rightarrow> user_info_t
   \<Rightarrow> (int \<times> user_info_t) result" where
  "match_rules env skb act conf [] ui = Inr (0, ui)"
| "match_rules env skb act conf (i # is) ui =
     (if length (conf_rules conf) \<le> i then Inl Out_of_bounds
      else let rule = conf_rules conf ! i in
        bindR (match_sets env skb act rule [0..<rule_num_idx rule]) (\<lambda>ret.
          if ret \<noteq> 0 then
            Inr (ret, ui\<lparr>ui_hdr := (ui_hdr ui)\<lparr>hdr_group_id := - 1, hdr_rule_idx := int i,
              hdr_rule_magic := rule_magic rule\<rparr>\<rparr>)
          else match_rules env skb act conf is ui))"

text \<open>\<open>indev\<close> is only set when the packet has a device and an input interface.\<close>

definition user_match_act :: "conf_env \<Rightarrow> sk_buff \<Rightarrow> iphdr \<Rightarrow> xt_action_param result" where
  "user_match_act env skb iph =
     bindR (case skb_dev skb of
         None \<Rightarrow> Inl Uninit_read
       | Some d \<Rightarrow> if skb_iif skb \<noteq> 0 then Inr (env_dev_get_by_index env (skb_iif skb)) else Inl Uninit_read)
       (\<lambda>indev. Inr \<lparr>act_thoff = 4 * ip_ihl iph,
          act_in = (if indev \<noteq> None then indev else skb_dev skb), act_out = skb_dev skb\<rparr>)"

definition ntrack_user_match ::
  "conf_env \<Rightarrow> conf_state \<Rightarrow> user_info_t \<Rightarrow> sk_buff \<Rightarrow> (int \<times> user_info_t) result" where
  "ntrack_user_match env cs ui skb =
     (case G_AuthConf cs of
        None \<Rightarrow> Inr (0, ui)
      | Some conf \<Rightarrow>
          if conf_num_rules conf = 0 then Inr (0, ui)
          else bindR (ip_hdr skb) (\<lambda>iph.
            if l3filter (env_ipv4 env) iph then Inr (0, ui)
            else bindR (user_match_act env skb iph) (\<lambda>act.
              match_rules env skb act conf [0..<conf_num_rules conf] ui)))"

text \<open>
  \<open>user_get_rule\<close>: the index is read into an \<open>int8_t\<close>.  The result is null or the address of
  an element, which may lie outside the array when the index is negative.
\<close>

definition int8 :: "int \<Rightarrow> int" where
  "int8 x = (x + 128) mod 256 - 128"

definition user_get_rule :: "user_info_t \<Rightarrow> G_AUTHCONF_t \<Rightarrow> int option" where
  "user_get_rule ui conf =
     (let idx = int8 (hdr_rule_idx (ui_hdr ui))
      in if idx \<ge> int (conf_num_rules conf) then None else Some idx)"

definition deref_rule :: "G_AUTHCONF_t \<Rightarrow> int option \<Rightarrow> auth_rule_t result" where
  "deref_rule conf p = (case p of
      None \<Rightarrow> Inl Null_deref
    | Some i \<Rightarrow> if 0 \<le> i \<and> nat i < length (conf_rules conf) then Inr (conf_rules conf ! nat i)
        else Inl Out_of_bounds)"

text \<open>The last part of \<open>user_need_redirect\<close>, with the rule it settled on.\<close>

definition redirect_decision ::
  "G_AUTHCONF_t \<Rightarrow> int option \<Rightarrow> user_info_t \<Rightarrow> (int \<times> user_info_t) result" where
  "redirect_decision conf rule ui =
     (if rule = None then Inr (0, ui)
      else if nt_auth_status ui \<le> AUTH_REQ then
        bindR (deref_rule conf rule) (\<lambda>r.
          if rule_flags r \<noteq> 0 then Inr (1, snd (nt_auth_set_status ui AUTH_REQ))
          else Inr (0, snd (nt_auth_set_status ui AUTH_OK)))
      else Inr (0, ui))"

definition user_need_redirect ::
  "conf_env \<Rightarrow> conf_state \<Rightarrow> user_info_t \<Rightarrow> sk_buff \<Rightarrow> (int \<times> user_info_t) result" where
  "user_need_redirect env cs ui skb =
     (case G_AuthConf cs of
        None \<Rightarrow> Inr (0, ui)
      | Some conf \<Rightarrow>
          if conf_num_rules conf = 0 then Inr (0, ui)
          else bindR (if hdr_rule_magic (ui_hdr ui) = 0 then ntrack_user_match env cs ui skb else Inr (1, ui))
            (\<lambda>(m, ui1).
            if m = 0 then Inr (0, ui1)
            else
              let rule = user_get_rule ui1 conf in
              bindR (deref_rule conf rule) (\<lambda>r.
                if hdr_rule_magic (ui_hdr ui1) \<noteq> rule_magic r then
                  bindR (ntrack_user_match env cs ui1 skb) (\<lambda>(m2, ui2).
                    if m2 = 0 then Inr (0, ui2)
                    else redirect_decision conf (user_get_rule ui2 conf) ui2)
                else redirect_decision conf rule ui1)))"

subsection \<open>Netlink\<close>

abbreviation (input) NLMSG_HDRLEN :: nat where "NLMSG_HDRLEN \<equiv> 16"

definition NLMSG_OK :: "nat \<Rightarrow> nat \<Rightarrow> bool" where
  "NLMSG_OK nlmsg_len len \<longleftrightarrow> len \<ge> NLMSG_HDRLEN \<and> nlmsg_len \<ge> NLMSG_HDRLEN \<and> nlmsg_len \<le> len"

definition chars_of :: "bytes \<Rightarrow> string" where
  "chars_of bs = map (\<lambda>b. char_of (unat b)) bs"

text \<open>
  \<open>nl_recv\<close> on the bytes of the received message: \<open>kz\<close> says whether \<open>kzalloc\<close> succeeds.  The
  text is copied into a zeroed buffer with room for a terminator.
\<close>

definition nl_recv ::
  "endian \<Rightarrow> conf_env \<Rightarrow> u32 \<Rightarrow> bool \<Rightarrow> bool \<Rightarrow> nat \<Rightarrow> bytes \<Rightarrow> conf_state \<Rightarrow> conf_state result" where
  "nl_recv en env jiffies kz vm mem skb cs =
     (if length skb < NLMSG_HDRLEN then Inr cs
      else bindR (field32 en 0 skb) (\<lambda>nlmsg_len.
        if \<not> NLMSG_OK (unat nlmsg_len) (length skb) then Inr cs
        else bindR (field32 en 12 skb) (\<lambda>pid.
          let len = unat nlmsg_len - NLMSG_HDRLEN;
              cs1 = cs\<lparr>user_process_pid := pid\<rparr>
          in if \<not> kz then Inr cs1
             else bindR (mem_read NLMSG_HDRLEN len skb) (\<lambda>msg.
             bindR (mem_write 0 (chars_of msg) (replicate (len + 1) NUL)) (\<lambda>json_str.
             bindR (ntrack_conf_sync env jiffies vm mem json_str cs1) (\<lambda>(_, cs2, _). Inr cs2))))))"

definition ntrack_conf_init :: "bool \<Rightarrow> conf_state \<Rightarrow> int \<times> conf_state" where
  "ntrack_conf_init nl_create cs =
     (if nl_create then (0, cs\<lparr>conf_nl_sock := Nl_live\<rparr>) else (- EINVAL, cs\<lparr>conf_nl_sock := Nl_null\<rparr>))"

definition ntrack_conf_exit :: "conf_state \<Rightarrow> conf_state result" where
  "ntrack_conf_exit cs = (case conf_nl_sock cs of
      Nl_null \<Rightarrow> Inr cs
    | Nl_live \<Rightarrow> Inr (cs\<lparr>conf_nl_sock := Nl_released\<rparr>)
    | Nl_released \<Rightarrow> Inl Use_after_free)"

subsection \<open>The configuration a document stands for\<close>

definition set_id :: "conf_env \<Rightarrow> string \<Rightarrow> jt \<Rightarrow> u16 option" where
  "set_id env b t = (case (jt_type t, jt_text t) of
      (NX_JSON_STRING, Some k) \<Rightarrow>
        let idx = env_ip_set_get_byname env (cstr (drop k b))
        in if idx = IPSET_INVALID_ID then None else Some idx
    | _ \<Rightarrow> None)"

definition live_items :: "jt list \<Rightarrow> jt list" where
  "live_items ts = takeWhile (\<lambda>t. jt_type t \<noteq> NX_JSON_NULL) ts"

definition item_ids :: "conf_env \<Rightarrow> string \<Rightarrow> jt \<Rightarrow> u16 list" where
  "item_ids env b t =
     (if jt_type t = NX_JSON_OBJECT \<and> jt_type (kid_named b ''IPSets'' t) = NX_JSON_ARRAY
      then List.map_filter (set_id env b) (live_items (kids (kid_named b ''IPSets'' t)))
      else [])"

definition pad :: "nat \<Rightarrow> string \<Rightarrow> string" where
  "pad n s = take n s @ replicate (n - length s) NUL"

definition item_name :: "string \<Rightarrow> jt \<Rightarrow> string" where
  "item_name b t = (let c = kid_named b ''Name'' t in
     case (jt_type c, jt_text c) of
       (NX_JSON_STRING, Some k) \<Rightarrow> pad RULE_NAME_SIZE (cstr (drop k b))
     | _ \<Rightarrow> pad RULE_NAME_SIZE [])"

definition item_flags :: "string \<Rightarrow> jt \<Rightarrow> u32" where
  "item_flags b t = (let c = kid_named b ''Flags'' t in
     if jt_type c = NX_JSON_INTEGER then of_int (jt_int c) else 0)"

definition item_rule :: "conf_env \<Rightarrow> u32 \<Rightarrow> string \<Rightarrow> jt \<Rightarrow> auth_rule_t" where
  "item_rule env jiffies b t =
     \<lparr>rule_num_idx = length (item_ids env b t), rule_flags = item_flags b t, rule_magic = jiffies,
      rule_uset_idx = item_ids env b t @ replicate (MAX_USR_SET - length (item_ids env b t)) 0,
      rule_name = item_name b t\<rparr>"

definition doc_rules :: "conf_env \<Rightarrow> u32 \<Rightarrow> string \<Rightarrow> jt list \<Rightarrow> auth_rule_t list" where
  "doc_rules env jiffies b ts =
     [item_rule env jiffies b t. t \<leftarrow> live_items ts, item_ids env b t \<noteq> []]"

definition doc_refs :: "conf_env \<Rightarrow> string \<Rightarrow> jt list \<Rightarrow> u16 list" where
  "doc_refs env b ts = concat (map (item_ids env b) (live_items ts))"

text \<open>The document fits the fixed arrays.\<close>

definition doc_fits :: "conf_env \<Rightarrow> string \<Rightarrow> jt list \<Rightarrow> bool" where
  "doc_fits env b ts \<longleftrightarrow> (\<forall>t \<in> set (live_items ts). length (item_ids env b t) \<le> MAX_USR_SET)
     \<and> length (filter (\<lambda>t. item_ids env b t \<noteq> []) (live_items ts)) \<le> MAX_URL_RULES"

definition conf_of :: "auth_rule_t list \<Rightarrow> G_AUTHCONF_t" where
  "conf_of rs = \<lparr>conf_num_rules = length rs,
     conf_rules = rs @ replicate (MAX_URL_RULES - length rs) zero_rule\<rparr>"

subsection \<open>The loops compute it\<close>

lemma kid_nth_drop: "kid_nth t (int j) = (case drop j (kids t) of [] \<Rightarrow> null_tree | c # _ \<Rightarrow> c)"
proof (cases "j < length (kids t)")
  case True
  then have "drop j (kids t) = kids t ! j # drop (Suc j) (kids t)" by (simp add: Cons_nth_drop_Suc)
  then show ?thesis using True by (simp add: kid_nth_def)
next
  case False
  then show ?thesis by (simp add: kid_nth_def)
qed

lemma drop_Suc_tl: "drop j xs = c # cs \<Longrightarrow> drop (Suc j) xs = cs"
  by (metis drop_Suc list.sel(3) tl_drop)

definition add_ids :: "auth_rule_t \<Rightarrow> u16 list \<Rightarrow> auth_rule_t" where
  "add_ids rule ids = rule\<lparr>rule_uset_idx := overlay (rule_num_idx rule) ids (rule_uset_idx rule),
     rule_num_idx := rule_num_idx rule + length ids\<rparr>"

lemma add_ids_Nil [simp]: "add_ids rule [] = rule"
  by (simp add: add_ids_def overlay_def)

lemma add_ids_Cons:
  assumes "rule_num_idx rule < length (rule_uset_idx rule)"
  shows "add_ids (rule\<lparr>rule_uset_idx := (rule_uset_idx rule)[rule_num_idx rule := x],
      rule_num_idx := rule_num_idx rule + 1\<rparr>) ids = add_ids rule (x # ids)"
  using assms by (simp add: add_ids_def overlay_def upd_conv_take_nth_drop take_Suc_conv_app_nth add.commute)

lemma tree_at_not_null: "tree_at st q t \<Longrightarrow> q \<noteq> J_null"
  by (auto simp: tree_at_def)

text \<open>One round of the loop over the sets, on an element that is not null.\<close>

lemma sets_loop_step:
  assumes "tree_at st sets t" "kid_nth t (int j) = c" "jt_type c \<noteq> NX_JSON_NULL"
    and "length (rule_uset_idx rule) = MAX_USR_SET" "rule_num_idx rule \<le> MAX_USR_SET"
  shows "sets_loop env st sets (Suc f) (int j) rule refs =
    (case set_id env (buf st) c of
       None \<Rightarrow> sets_loop env st sets f (int j + 1) rule refs
     | Some x \<Rightarrow>
         if rule_num_idx rule = MAX_USR_SET then Inl Out_of_bounds
         else sets_loop env st sets f (int j + 1)
           (rule\<lparr>rule_uset_idx := (rule_uset_idx rule)[rule_num_idx rule := x], rule_num_idx := rule_num_idx rule + 1\<rparr>)
           (refs @ [x]))"
proof -
  obtain q n where q: "nx_json_item st sets (int j) = Inr q" "deref (heap st) q = Inr n"
    "node_like c n" "tree_at st q c"
    using json.item_node [OF assms(1), of "int j"] assms(2) by auto
  note nn = tree_at_not_null [OF q(4)]
  show ?thesis
  proof (cases "jt_type c = NX_JSON_STRING")
    case False
    then have "set_id env (buf st) c = None" by (simp add: set_id_def split: nx_json_type.splits)
    then show ?thesis using False q nn assms(3) by (simp add: node_like_def)
  next
    case True
    obtain x where x: "jt_text c = Some x" "str_at (buf st) x = Inr (cstr (drop x (buf st)))"
      using json.string_text [OF q(4) True] by blast
    then have "set_id env (buf st) c = (let idx = env_ip_set_get_byname env (cstr (drop x (buf st)))
        in if idx = IPSET_INVALID_ID then None else Some idx)" using True by (simp add: set_id_def Let_def)
    then show ?thesis using True q nn x assms(4,5) by (auto simp: node_like_def Let_def)
  qed
qed

lemma sets_loop_spec:
  assumes "tree_at st sets t" "drop j (kids t) = ts" "length ts < fuel"
    and "length (rule_uset_idx rule) = MAX_USR_SET" "rule_num_idx rule \<le> MAX_USR_SET"
  shows "sets_loop env st sets fuel (int j) rule refs =
    (let ids = List.map_filter (set_id env (buf st)) (live_items ts)
     in if rule_num_idx rule + length ids \<le> MAX_USR_SET then Inr (add_ids rule ids, refs @ ids)
        else Inl Out_of_bounds)"
  using assms(2-)
proof (induction ts arbitrary: j fuel rule refs)
  case Nil
  then obtain f where f: "fuel = Suc f" by (cases fuel) auto
  obtain q n where q: "nx_json_item st sets (int j) = Inr q" "deref (heap st) q = Inr n"
    "node_like (kid_nth t (int j)) n" "tree_at st q (kid_nth t (int j))"
    using json.item_node [OF assms(1)] by blast
  then have "js_type n = NX_JSON_NULL" using Nil.prems(1) by (simp add: kid_nth_drop node_like_def)
  then show ?case using q tree_at_not_null [OF q(4)] Nil.prems
    by (simp add: f live_items_def map_filter_simps)
next
  case (Cons c cs)
  then obtain f where f: "fuel = Suc f" "length cs < f" by (cases fuel) auto
  have d: "drop (Suc j) (kids t) = cs" using Cons.prems(1) by (rule drop_Suc_tl)
  have k: "kid_nth t (int j) = c" using Cons.prems(1) by (simp add: kid_nth_drop)
  have ih: "sets_loop env st sets f (int j + 1) rule' refs' =
      (let ids = List.map_filter (set_id env (buf st)) (live_items cs)
       in if rule_num_idx rule' + length ids \<le> MAX_USR_SET then Inr (add_ids rule' ids, refs' @ ids)
          else Inl Out_of_bounds)"
    if "length (rule_uset_idx rule') = MAX_USR_SET" "rule_num_idx rule' \<le> MAX_USR_SET" for rule' refs'
    using Cons.IH [OF d f(2) that, of refs'] by (simp only: of_nat_Suc add.commute [of 1 "int j"])
  show ?case
  proof (cases "jt_type c = NX_JSON_NULL")
    case True
    obtain q n where "nx_json_item st sets (int j) = Inr q" "deref (heap st) q = Inr n" "node_like c n" "tree_at st q c"
      using json.item_node [OF assms(1), of "int j"] k by auto
    then show ?thesis using True tree_at_not_null Cons.prems
      by (simp add: f(1) node_like_def live_items_def map_filter_simps)
  next
    case False
    then have items: "live_items (c # cs) = c # live_items cs" by (simp add: live_items_def)
    show ?thesis
      using sets_loop_step [OF assms(1) k False Cons.prems(3,4), of env f refs] ih Cons.prems(3,4) add_ids_Cons [of rule]
      by (cases "set_id env (buf st) c") (simp_all add: f(1) items map_filter_simps Let_def)
  qed
qed

lemma cstr_split:
  assumes "NUL \<in> set s"
  obtains ys where "s = cstr s @ NUL # ys"
proof -
  obtain xs ys where "s = xs @ NUL # ys" "NUL \<notin> set xs" using split_list_first [OF assms] by blast
  moreover from this have "cstr s = xs" by (simp add: cstr_def takeWhile_append takeWhile_eq_all_conv)
  ultimately show thesis using that by simp
qed

lemma cstr_no_NUL: "NUL \<notin> set (cstr s)"
  by (auto simp: cstr_def dest: set_takeWhileD)

lemma cstr_append_NUL: "NUL \<notin> set xs \<Longrightarrow> cstr (xs @ NUL # ys) = xs"
  by (simp add: cstr_def takeWhile_append takeWhile_eq_all_conv)

lemma strncpy_terminated:
  assumes "NUL \<in> set (drop k b)"
  shows "strncpy b k n = Inr (pad n (cstr (drop k b)))"
proof -
  let ?c = "cstr (drop k b)"
  obtain ys where s: "drop k b = ?c @ NUL # ys" using cstr_split [OF assms] .
  show ?thesis
  proof (cases "length ?c < n")
    case True
    have "take n (drop k b) = ?c @ NUL # take (n - Suc (length ?c)) ys"
      using True by (subst s) (simp add: take_Cons')
    moreover from this have "cstr (take n (drop k b)) = ?c" by (simp add: cstr_append_NUL cstr_no_NUL)
    ultimately show ?thesis using True by (simp add: strncpy_def pad_def)
  next
    case False
    have "take n (drop k b) = take n ?c" using False by (subst s) simp
    moreover have "NUL \<notin> set (take n ?c)" using cstr_no_NUL by (metis in_set_takeD)
    ultimately show ?thesis using False by (simp add: strncpy_def pad_def)
  qed
qed

lemma zero_rule_name: "rule_name zero_rule = pad RULE_NAME_SIZE []"
  by (simp add: zero_rule_def pad_def)

lemma add_ids_zero:
  "length ids \<le> MAX_USR_SET \<Longrightarrow> add_ids (zero_rule\<lparr>rule_name := nm\<rparr>) ids =
     \<lparr>rule_num_idx = length ids, rule_flags = 0, rule_magic = 0,
      rule_uset_idx = ids @ replicate (MAX_USR_SET - length ids) 0, rule_name = nm\<rparr>"
  by (simp add: add_ids_def zero_rule_def overlay_def)

lemma tree_kids_brk: "tree_at st p t \<Longrightarrow> length (kids t) < Suc (brk st)"
  using length_le_fsize [of "kids t"] by (cases p) (auto simp: tree_at_def tsize_kids)

definition conf_object :: "string \<Rightarrow> jt \<Rightarrow> bool" where
  "conf_object b t \<longleftrightarrow> jt_type t = NX_JSON_OBJECT \<and> jt_type (kid_named b ''IPSets'' t) = NX_JSON_ARRAY"

lemma conf_item_spec:
  assumes "tree_at st node t"
  shows "conf_item env jiffies st node refs =
    (let ids = item_ids env (buf st) t in
     if \<not> conf_object (buf st) t then Inr (None, refs)
     else if length ids \<le> MAX_USR_SET then Inr (Some (item_rule env jiffies (buf st) t), refs @ ids)
     else Inl Out_of_bounds)"
proof -
  let ?b = "buf st"
  obtain n where n: "deref (heap st) node = Inr n" "node_like t n" using json.node_law [OF assms] by blast
  obtain sets sn where sn: "nx_json_get st node (Some ''IPSets'') = Inr sets" "deref (heap st) sets = Inr sn"
    "node_like (kid_named ?b ''IPSets'' t) sn" "tree_at st sets (kid_named ?b ''IPSets'' t)"
    using json.get_node [OF assms] by blast
  obtain str nm where nm: "nx_json_get st node (Some ''Name'') = Inr str" "deref (heap st) str = Inr nm"
    "node_like (kid_named ?b ''Name'' t) nm" "tree_at st str (kid_named ?b ''Name'' t)"
    using json.get_node [OF assms] by blast
  obtain flags fl where fl: "nx_json_get st node (Some ''Flags'') = Inr flags" "deref (heap st) flags = Inr fl"
    "node_like (kid_named ?b ''Flags'' t) fl"
    using json.get_node [OF assms] by blast
  have name: "(if js_type nm = NX_JSON_STRING then
      (case js_text_value nm of None \<Rightarrow> Inl Null_deref | Some k \<Rightarrow> strncpy ?b k RULE_NAME_SIZE)
      else Inr (rule_name zero_rule)) = Inr (item_name ?b t)"
  proof (cases "jt_type (kid_named ?b ''Name'' t) = NX_JSON_STRING")
    case True
    then obtain k where k: "jt_text (kid_named ?b ''Name'' t) = Some k" "NUL \<in> set (drop k ?b)"
      using json.string_text [OF nm(4)] by (auto simp: str_at_def split: if_splits)
    then show ?thesis using True nm(3) strncpy_terminated [of k ?b]
      by (simp add: item_name_def node_like_def)
  next
    case False
    then show ?thesis using nm(3)
      by (simp add: item_name_def node_like_def zero_rule_name Let_def split: nx_json_type.splits)
  qed
  let ?ids = "List.map_filter (set_id env ?b) (live_items (kids (kid_named ?b ''IPSets'' t)))"
  have "sets_loop env st sets (Suc (brk st)) 0 (zero_rule\<lparr>rule_name := item_name ?b t\<rparr>) refs
      = (if length ?ids \<le> MAX_USR_SET
         then Inr (add_ids (zero_rule\<lparr>rule_name := item_name ?b t\<rparr>) ?ids, refs @ ?ids) else Inl Out_of_bounds)"
    using sets_loop_spec [OF sn(4), of 0 _ "Suc (brk st)" "zero_rule\<lparr>rule_name := item_name ?b t\<rparr>" env refs]
      tree_kids_brk [OF sn(4)] by (simp add: zero_rule_def Let_def del: sets_loop.simps)
  then show ?thesis
    using n sn nm fl name
    by (simp add: conf_item_def conf_object_def node_like_def item_ids_def item_rule_def item_flags_def
        add_ids_zero Let_def del: sets_loop.simps)
qed

definition add_rules :: "G_AUTHCONF_t \<Rightarrow> auth_rule_t list \<Rightarrow> G_AUTHCONF_t" where
  "add_rules conf rs = conf\<lparr>conf_rules := overlay (conf_num_rules conf) rs (conf_rules conf),
     conf_num_rules := conf_num_rules conf + length rs\<rparr>"

lemma add_rules_Nil [simp]: "add_rules conf [] = conf"
  by (simp add: add_rules_def overlay_def)

lemma add_rules_Cons:
  assumes "conf_num_rules conf < length (conf_rules conf)"
  shows "add_rules (conf\<lparr>conf_rules := (conf_rules conf)[conf_num_rules conf := x],
      conf_num_rules := conf_num_rules conf + 1\<rparr>) rs = add_rules conf (x # rs)"
  using assms by (simp add: add_rules_def overlay_def upd_conv_take_nth_drop take_Suc_conv_app_nth add.commute)

definition sets_fit :: "conf_env \<Rightarrow> string \<Rightarrow> jt list \<Rightarrow> bool" where
  "sets_fit env b ts \<longleftrightarrow> (\<forall>t \<in> set (live_items ts). length (item_ids env b t) \<le> MAX_USR_SET)"

lemma doc_simps:
  "doc_rules env jf b [] = []" "doc_refs env b [] = []" "sets_fit env b []"
  "jt_type c = NX_JSON_NULL \<Longrightarrow> doc_rules env jf b (c # cs) = []"
  "jt_type c = NX_JSON_NULL \<Longrightarrow> doc_refs env b (c # cs) = []"
  "jt_type c = NX_JSON_NULL \<Longrightarrow> sets_fit env b (c # cs)"
  "jt_type c \<noteq> NX_JSON_NULL \<Longrightarrow> doc_rules env jf b (c # cs) =
     (if item_ids env b c = [] then [] else [item_rule env jf b c]) @ doc_rules env jf b cs"
  "jt_type c \<noteq> NX_JSON_NULL \<Longrightarrow> doc_refs env b (c # cs) = item_ids env b c @ doc_refs env b cs"
  "jt_type c \<noteq> NX_JSON_NULL \<Longrightarrow> sets_fit env b (c # cs)
     \<longleftrightarrow> length (item_ids env b c) \<le> MAX_USR_SET \<and> sets_fit env b cs"
  by (simp_all add: doc_rules_def doc_refs_def sets_fit_def live_items_def)

lemma rules_loop_spec:
  assumes "tree_at st json t" "drop i (kids t) = ts" "length ts < fuel"
    and "length (conf_rules conf) = MAX_URL_RULES" "conf_num_rules conf \<le> MAX_URL_RULES"
  shows "rules_loop env jf st json fuel (int i) conf refs =
    (if sets_fit env (buf st) ts \<and> conf_num_rules conf + length (doc_rules env jf (buf st) ts) \<le> MAX_URL_RULES
     then Inr (add_rules conf (doc_rules env jf (buf st) ts), refs @ doc_refs env (buf st) ts)
     else Inl Out_of_bounds)"
  using assms(2-)
proof (induction ts arbitrary: i fuel conf refs)
  case Nil
  then obtain f where f: "fuel = Suc f" by (cases fuel) auto
  obtain q n where q: "nx_json_item st json (int i) = Inr q" "deref (heap st) q = Inr n"
    "node_like (kid_nth t (int i)) n" "tree_at st q (kid_nth t (int i))"
    using json.item_node [OF assms(1)] by blast
  then have "js_type n = NX_JSON_NULL" using Nil.prems(1) by (simp add: kid_nth_drop node_like_def)
  then show ?case using q tree_at_not_null [OF q(4)] Nil.prems by (simp add: f doc_simps)
next
  case (Cons c cs)
  then obtain f where f: "fuel = Suc f" "length cs < f" by (cases fuel) auto
  let ?b = "buf st" and ?ids = "item_ids env (buf st) c" and ?rule = "item_rule env jf (buf st) c"
  have d: "drop (Suc i) (kids t) = cs" using Cons.prems(1) by (rule drop_Suc_tl)
  obtain q n where q: "nx_json_item st json (int i) = Inr q" "deref (heap st) q = Inr n"
    "node_like c n" "tree_at st q c"
    using json.item_node [OF assms(1), of "int i"] Cons.prems(1) by (auto simp: kid_nth_drop)
  note nn = tree_at_not_null [OF q(4)]
  have ih: "rules_loop env jf st json f (int i + 1) conf' refs' =
      (if sets_fit env ?b cs \<and> conf_num_rules conf' + length (doc_rules env jf ?b cs) \<le> MAX_URL_RULES
       then Inr (add_rules conf' (doc_rules env jf ?b cs), refs' @ doc_refs env ?b cs)
       else Inl Out_of_bounds)"
    if "length (conf_rules conf') = MAX_URL_RULES" "conf_num_rules conf' \<le> MAX_URL_RULES" for conf' refs'
    using Cons.IH [OF d f(2) that, of refs'] by (simp only: of_nat_Suc add.commute [of 1 "int i"])
  show ?case
  proof (cases "jt_type c = NX_JSON_NULL")
    case True
    then show ?thesis using q nn Cons.prems by (simp add: f(1) node_like_def doc_simps)
  next
    case False
    let ?conf = "conf\<lparr>conf_rules := (conf_rules conf)[conf_num_rules conf := ?rule],
      conf_num_rules := conf_num_rules conf + 1\<rparr>"
    have none: "\<not> conf_object ?b c \<Longrightarrow> ?ids = []" by (auto simp: item_ids_def conf_object_def)
    have step: "rules_loop env jf st json fuel (int i) conf refs =
        (if MAX_USR_SET < length ?ids then Inl Out_of_bounds
         else if ?ids = [] then rules_loop env jf st json f (int i + 1) conf refs
         else if conf_num_rules conf = MAX_URL_RULES then Inl Out_of_bounds
         else rules_loop env jf st json f (int i + 1) ?conf (refs @ ?ids))"
      using q nn False none Cons.prems(3,4) conf_item_spec [OF q(4), of env jf refs]
      by (cases "conf_object ?b c") (auto simp: f(1) node_like_def Let_def item_rule_def)
    show ?thesis
      using step ih [of conf refs] ih [of ?conf "refs @ ?ids"] Cons.prems(3,4) False
        add_rules_Cons [of conf ?rule "doc_rules env jf ?b cs"]
      by (auto simp: doc_simps simp del: rules_loop.simps)
  qed
qed

lemma length_doc_rules:
  "length (doc_rules env jf b ts) = length (filter (\<lambda>t. item_ids env b t \<noteq> []) (live_items ts))"
proof -
  have "length [item_rule env jf b t. t \<leftarrow> xs, item_ids env b t \<noteq> []] = length (filter (\<lambda>t. item_ids env b t \<noteq> []) xs)" for xs
    by (induction xs) auto
  then show ?thesis by (simp add: doc_rules_def)
qed

lemma add_rules_zero: "length rs \<le> MAX_URL_RULES \<Longrightarrow> add_rules zero_conf rs = conf_of rs"
  by (simp add: add_rules_def zero_conf_def conf_of_def overlay_def)

text \<open>What the state is after a configuration was accepted.\<close>

definition installed :: "conf_env \<Rightarrow> u32 \<Rightarrow> string \<Rightarrow> jt \<Rightarrow> conf_state \<Rightarrow> conf_state" where
  "installed env jiffies b t cs =
     cs\<lparr>G_AuthConf := Some (conf_of (doc_rules env jiffies b (kids t))),
        vm_blocks := (if G_AuthConf cs = None then vm_blocks cs + 1 else vm_blocks cs),
        set_refs := set_refs cs @ doc_refs env b (kids t)\<rparr>"

lemma ntrack_conf_sync_tree:
  assumes "nx_json_parse_utf8 (env_strtol env) mem text' = Inr (Some a, st)" "tree_at st (J_at a) t" "whole_tree st a t"
  shows "ntrack_conf_sync env jiffies True mem text' cs =
    (if jt_type t \<noteq> NX_JSON_ARRAY then Inr (- EINVAL, cs\<lparr>vm_blocks := vm_blocks cs + 1\<rparr>, heap st)
     else if doc_fits env (buf st) (kids t) then Inr (0, installed env jiffies (buf st) t cs, \<lambda>_. None)
     else Inl Out_of_bounds)"
proof -
  have t: "tree_at st (J_at a) t" "laid (heap st) a t None" "brk st = a + tsize t"
    "\<And>x. x < a \<or> a + tsize t \<le> x \<Longrightarrow> heap st x = None"
    using assms(2,3) by (auto simp: whole_tree_def)
  have n: "load (heap st) a = Inr (node_of a t None)" "js_type (node_of a t None) = jt_type t"
    using t(2) by (simp_all add: load_def laid_kids node_of_def)
  have free: "nx_json_free (2 * brk st) a (heap st) = Inr (\<lambda>_. None)"
  proof -
    have "cleared (heap st) a (a + tsize t) x = None" for x using t(4) [of x] by (auto simp: cleared_def not_le)
    then have "cleared (heap st) a (a + tsize t) = (\<lambda>_. None)" by blast
    then show ?thesis using free_laid(1) [OF t(2), of "2 * brk st"] t(3) by simp
  qed
  let ?rs = "doc_rules env jiffies (buf st) (kids t)"
  have loop: "rules_loop env jiffies st (J_at a) (Suc (brk st)) 0 zero_conf (set_refs cs) =
      (if doc_fits env (buf st) (kids t)
       then Inr (conf_of ?rs, set_refs cs @ doc_refs env (buf st) (kids t)) else Inl Out_of_bounds)"
    using rules_loop_spec [OF t(1), of 0 "kids t" "Suc (brk st)" zero_conf env jiffies "set_refs cs"]
      tree_kids_brk [OF t(1)]
    by (simp add: doc_fits_def sets_fit_def length_doc_rules add_rules_zero zero_conf_def del: rules_loop.simps)
      (simp add: zero_conf_def [symmetric] add_rules_zero length_doc_rules)
  show ?thesis
    using assms(1) n free loop
    by (auto simp: ntrack_conf_sync_def Let_def installed_def split: option.splits
        simp del: rules_loop.simps nx_json_free.simps)
qed

lemma ntrack_conf_sync_cases:
  assumes "NUL \<in> set text'" "strtol_ok (env_strtol env)"
  shows "\<exists>r st. nx_json_parse_utf8 (env_strtol env) mem text' = Inr (r, st) \<and> (case r of
      None \<Rightarrow> ntrack_conf_sync env jiffies True mem text' cs
        = Inr (- EINVAL, cs\<lparr>vm_blocks := vm_blocks cs + 1\<rparr>, \<lambda>_. None)
    | Some a \<Rightarrow> \<exists>t. tree_at st (J_at a) t \<and> ntrack_conf_sync env jiffies True mem text' cs =
        (if jt_type t \<noteq> NX_JSON_ARRAY then Inr (- EINVAL, cs\<lparr>vm_blocks := vm_blocks cs + 1\<rparr>, heap st)
         else if doc_fits env (buf st) (kids t) then Inr (0, installed env jiffies (buf st) t cs, \<lambda>_. None)
         else Inl Out_of_bounds))"
proof -
  obtain e where "live text' e 0" using live_exists [OF assms(1)] ..
  then obtain r st where p: "nx_json_parse_utf8 (env_strtol env) mem text' = Inr (r, st)" "parsed r st"
    using nx_json_parse_parsed [OF _ unicode_to_utf8_fits assms(2)] unfolding nx_json_parse_utf8_def by blast
  show ?thesis
  proof (cases r)
    case None
    then have "heap st = (\<lambda>_. None)" using p(2) by (auto simp: parsed_def)
    then show ?thesis using p None by (simp add: ntrack_conf_sync_def Let_def)
  next
    case (Some a)
    then obtain t where t: "tree_at st (J_at a) t" "whole_tree st a t" using p(2) parsed_tree_at by blast
    have "nx_json_parse_utf8 (env_strtol env) mem text' = Inr (Some a, st)" using p(1) Some by simp
    from ntrack_conf_sync_tree [OF this t] show ?thesis using p(1) Some t(1) by auto
  qed
qed

text \<open>
  C7.  \<open>ntrack_conf_sync\<close> on any terminated text.  A text the parser refuses, and a document
  that is not an array, give \<open>-EINVAL\<close> and leave the current rules as they are; an array that
  fits replaces them by exactly the rules of its well-formed elements, in order, and frees
  the whole document; an array with more than 64 rules, or with an element that names more
  than 4 known sets, makes the code write outside its arrays.
\<close>

theorem ntrack_conf_sync_spec:
  assumes "NUL \<in> set text'" "strtol_ok (env_strtol env)"
  shows "\<exists>r st. nx_json_parse_utf8 (env_strtol env) mem text' = Inr (r, st) \<and> (case r of
      None \<Rightarrow> ntrack_conf_sync env jiffies True mem text' cs
        = Inr (- EINVAL, cs\<lparr>vm_blocks := vm_blocks cs + 1\<rparr>, \<lambda>_. None)
    | Some a \<Rightarrow> \<exists>t. tree_at st (J_at a) t \<and> ntrack_conf_sync env jiffies True mem text' cs =
        (if jt_type t \<noteq> NX_JSON_ARRAY then Inr (- EINVAL, cs\<lparr>vm_blocks := vm_blocks cs + 1\<rparr>, heap st)
         else if doc_fits env (buf st) (kids t) then Inr (0, installed env jiffies (buf st) t cs, \<lambda>_. None)
         else Inl Out_of_bounds))"
  by (rule ntrack_conf_sync_cases [OF assms])

definition demo_env :: conf_env where
  "demo_env = \<lparr>env_strtol = (\<lambda>s. (1, if s = [] then 0 else 1)), env_ip_set_get_byname = (\<lambda>s. of_nat (length s)),
     env_ip_set_test = (\<lambda>x skb act. if x = 3 then 1 else 0), env_dev_get_by_index = Some \<circ> nat,
     env_ipv4 = \<lparr>ipv4_is_lbcast = (\<lambda>a. a = - 1), ipv4_is_loopback = (\<lambda>a. drop_bit 24 a = 127),
       ipv4_is_multicast = (\<lambda>a. drop_bit 28 a = 14), ipv4_is_zeronet = (\<lambda>a. drop_bit 24 a = 0)\<rparr>\<rparr>"

definition demo_cs :: conf_state where
  "demo_cs = \<lparr>G_AuthConf = None, vm_blocks = 0, set_refs = [], user_process_pid = 0, conf_nl_sock = Nl_live\<rparr>"

theorem ntrack_conf_sync_spec_witness:
  "\<exists>r st. nx_json_parse_utf8 (env_strtol demo_env) 9 (''[]'' @ [NUL]) = Inr (r, st) \<and> (case r of
      None \<Rightarrow> ntrack_conf_sync demo_env 5 True 9 (''[]'' @ [NUL]) demo_cs
        = Inr (- EINVAL, demo_cs\<lparr>vm_blocks := vm_blocks demo_cs + 1\<rparr>, \<lambda>_. None)
    | Some a \<Rightarrow> \<exists>t. tree_at st (J_at a) t \<and> ntrack_conf_sync demo_env 5 True 9 (''[]'' @ [NUL]) demo_cs =
        (if jt_type t \<noteq> NX_JSON_ARRAY then Inr (- EINVAL, demo_cs\<lparr>vm_blocks := vm_blocks demo_cs + 1\<rparr>, heap st)
         else if doc_fits demo_env (buf st) (kids t) then Inr (0, installed demo_env 5 (buf st) t demo_cs, \<lambda>_. None)
         else Inl Out_of_bounds))"
  by (rule ntrack_conf_sync_spec) (auto simp: demo_env_def strtol_ok_def Suc_le_eq)

subsection \<open>Matching\<close>

text \<open>A table whose counters stay inside its arrays.\<close>

definition rule_ok :: "auth_rule_t \<Rightarrow> bool" where
  "rule_ok r \<longleftrightarrow> rule_num_idx r \<le> length (rule_uset_idx r)"

definition conf_ok :: "G_AUTHCONF_t \<Rightarrow> bool" where
  "conf_ok conf \<longleftrightarrow> conf_num_rules conf \<le> length (conf_rules conf) \<and> conf_num_rules conf \<le> MAX_URL_RULES
     \<and> (\<forall>r \<in> set (take (conf_num_rules conf) (conf_rules conf)). rule_ok r)"

lemma conf_of_ok: "length rs \<le> MAX_URL_RULES \<Longrightarrow> \<forall>r \<in> set rs. rule_ok r \<Longrightarrow> conf_ok (conf_of rs)"
  by (simp add: conf_ok_def conf_of_def)

lemma installed_ok:
  assumes "doc_fits env b (kids t)"
  shows "\<exists>conf. G_AuthConf (installed env jf b t cs) = Some conf \<and> conf_ok conf"
proof -
  have "rule_ok r" if "r \<in> set (doc_rules env jf b (kids t))" for r
    using that assms by (auto simp: doc_rules_def rule_ok_def item_rule_def)
  then show ?thesis
    using assms by (auto simp: installed_def doc_fits_def length_doc_rules intro!: conf_of_ok)
qed

text \<open>The sets of a rule that match, and the first rule with one.\<close>

definition rule_hits :: "conf_env \<Rightarrow> sk_buff \<Rightarrow> xt_action_param \<Rightarrow> auth_rule_t \<Rightarrow> bool" where
  "rule_hits env skb act r \<longleftrightarrow>
     (\<exists>x \<in> set (take (rule_num_idx r) (rule_uset_idx r)). env_ip_set_test env x skb act \<noteq> 0)"

lemma match_sets_spec:
  assumes "\<forall>j \<in> set js. j < length (rule_uset_idx r)"
  shows "\<exists>ret. match_sets env skb act r js = Inr ret
    \<and> (ret \<noteq> 0 \<longleftrightarrow> (\<exists>j \<in> set js. env_ip_set_test env (rule_uset_idx r ! j) skb act \<noteq> 0))"
  using assms by (induction js) (auto simp: Let_def not_le)

lemma match_rule_spec:
  assumes "rule_ok r"
  shows "\<exists>ret. match_sets env skb act r [0..<rule_num_idx r] = Inr ret \<and> (ret \<noteq> 0 \<longleftrightarrow> rule_hits env skb act r)"
proof -
  have "set (take (rule_num_idx r) (rule_uset_idx r)) = (\<lambda>j. rule_uset_idx r ! j) ` set [0..<rule_num_idx r]"
    using assms by (simp add: rule_ok_def nth_image)
  moreover have "\<forall>j \<in> set [0..<rule_num_idx r]. j < length (rule_uset_idx r)"
    using assms by (auto simp: rule_ok_def)
  ultimately show ?thesis using match_sets_spec [of "[0..<rule_num_idx r]" r env skb act]
    by (auto simp: rule_hits_def)
qed

definition mark_user :: "user_info_t \<Rightarrow> nat \<Rightarrow> auth_rule_t \<Rightarrow> user_info_t" where
  "mark_user ui i r = ui\<lparr>ui_hdr := (ui_hdr ui)\<lparr>hdr_group_id := - 1, hdr_rule_idx := int i,
     hdr_rule_magic := rule_magic r\<rparr>\<rparr>"

lemma match_rules_spec:
  assumes "\<forall>i \<in> set is. i < length (conf_rules conf) \<and> rule_ok (conf_rules conf ! i)"
  shows "\<exists>ret ui'. match_rules env skb act conf is ui = Inr (ret, ui') \<and>
    (case find (\<lambda>i. rule_hits env skb act (conf_rules conf ! i)) is of
       None \<Rightarrow> ret = 0 \<and> ui' = ui
     | Some i \<Rightarrow> ret \<noteq> 0 \<and> ui' = mark_user ui i (conf_rules conf ! i))"
  using assms
proof (induction "is")
  case (Cons i "is")
  obtain ret where "match_sets env skb act (conf_rules conf ! i) [0..<rule_num_idx (conf_rules conf ! i)] = Inr ret"
    "ret \<noteq> 0 \<longleftrightarrow> rule_hits env skb act (conf_rules conf ! i)"
    using match_rule_spec [of "conf_rules conf ! i" env skb act] Cons.prems by auto
  then show ?case using Cons by (auto simp: Let_def mark_user_def not_le)
qed simp


text \<open>A forwarded packet: it has an IP header, a device and an input interface.\<close>

definition forwarded :: "sk_buff \<Rightarrow> bool" where
  "forwarded skb \<longleftrightarrow> 20 \<le> length (skb_data skb) \<and> skb_dev skb \<noteq> None \<and> skb_iif skb \<noteq> 0"

lemma ip_hdr_ok: "20 \<le> length (skb_data skb) \<Longrightarrow> \<exists>iph. ip_hdr skb = Inr iph"
  by (auto simp: ip_hdr_def rdb_def field16_def field32_def mem_read_def)

lemma user_match_act_ok: "forwarded skb \<Longrightarrow> \<exists>act. user_match_act env skb iph = Inr act"
  by (auto simp: user_match_act_def forwarded_def)

text \<open>What \<open>ntrack_user_match\<close> finds for a packet: the index of the first rule that hits.\<close>

definition first_hit :: "conf_env \<Rightarrow> G_AUTHCONF_t \<Rightarrow> sk_buff \<Rightarrow> iphdr \<Rightarrow> nat option" where
  "first_hit env conf skb iph =
     (if l3filter (env_ipv4 env) iph then None
      else case user_match_act env skb iph of
          Inl _ \<Rightarrow> None
        | Inr act \<Rightarrow> find (\<lambda>i. rule_hits env skb act (conf_rules conf ! i)) [0..<conf_num_rules conf])"

lemma first_hit_less: "first_hit env conf skb iph = Some i \<Longrightarrow> i < conf_num_rules conf"
  by (auto simp: first_hit_def find_Some_iff split: if_splits sum.splits)

lemma ntrack_user_match_cases:
  assumes "conf_ok conf" "forwarded skb" "ip_hdr skb = Inr iph" "G_AuthConf cs = Some conf"
  shows "\<exists>ret ui'. ntrack_user_match env cs ui skb = Inr (ret, ui') \<and>
    (case first_hit env conf skb iph of
       None \<Rightarrow> ret = 0 \<and> ui' = ui
     | Some i \<Rightarrow> ret \<noteq> 0 \<and> ui' = mark_user ui i (conf_rules conf ! i))"
proof -
  obtain act where act: "user_match_act env skb iph = Inr act" using user_match_act_ok [OF assms(2)] by blast
  have "rule_ok (conf_rules conf ! i)" if "i < conf_num_rules conf" for i
  proof -
    have "conf_rules conf ! i \<in> set (take (conf_num_rules conf) (conf_rules conf))"
      using that assms(1) by (auto simp: conf_ok_def in_set_conv_nth intro!: exI [of _ i])
    then show ?thesis using assms(1) by (simp add: conf_ok_def)
  qed
  then have "\<forall>i \<in> set [0..<conf_num_rules conf]. i < length (conf_rules conf) \<and> rule_ok (conf_rules conf ! i)"
    using assms(1) by (auto simp: conf_ok_def)
  from match_rules_spec [OF this, of env skb act ui]
  show ?thesis using act assms(3,4) by (auto simp: ntrack_user_match_def first_hit_def)
qed

text \<open>
  \<open>ntrack_user_match\<close> marks the user with the first rule, in the order of the
  configuration, one of whose sets contains the packet's source, and leaves the user alone
  when there is none or the packet is filtered; it reads no rule or set outside the table.
\<close>

theorem ntrack_user_match_first:
  assumes "conf_ok conf" "forwarded skb" "G_AuthConf cs = Some conf"
  shows "\<exists>iph ret ui'. ip_hdr skb = Inr iph \<and> ntrack_user_match env cs ui skb = Inr (ret, ui') \<and>
    (case first_hit env conf skb iph of
       None \<Rightarrow> ret = 0 \<and> ui' = ui
     | Some i \<Rightarrow> ret \<noteq> 0 \<and> i < conf_num_rules conf \<and> hdr_rule_idx (ui_hdr ui') = int i
         \<and> hdr_rule_magic (ui_hdr ui') = rule_magic (conf_rules conf ! i)
         \<and> nt_auth_status ui' = nt_auth_status ui \<and> ui_id ui' = ui_id ui \<and> ui_magic ui' = ui_magic ui)"
proof -
  obtain iph where iph: "ip_hdr skb = Inr iph" using ip_hdr_ok assms(2) by (auto simp: forwarded_def)
  from ntrack_user_match_cases [OF assms(1,2) iph assms(3), of env ui] iph first_hit_less
  show ?thesis by (fastforce simp: mark_user_def nt_auth_status_def split: option.splits)
qed

definition demo_user :: user_info_t where
  "demo_user = \<lparr>ui_hdr = \<lparr>hdr_flags = 0, hdr_time_stamp = 0, hdr_group_id = 0, hdr_rule_idx = 0, hdr_rule_magic = 0\<rparr>,
     ui_id = 7, ui_magic = 2, ui_ip = 0xc0a80102\<rparr>"

definition demo_fw :: sk_buff where
  "demo_fw = \<lparr>skb_mac = replicate 14 0, skb_data = [0x45, 0, 0, 44, 0, 0, 0, 0, 64, 6, 0, 0, 192, 168, 1, 2, 8, 8, 8, 8]
     @ replicate 12 0 @ [0x50] @ replicate 7 0 @ [71, 69, 84, 32], skb_len = 44, skb_dev = Some 2, skb_iif = 1\<rparr>"

definition demo_conf :: G_AUTHCONF_t where
  "demo_conf = conf_of [zero_rule\<lparr>rule_num_idx := 1, rule_uset_idx := [2, 0, 0, 0], rule_flags := 0, rule_magic := 9\<rparr>,
     zero_rule\<lparr>rule_num_idx := 2, rule_uset_idx := [1, 3, 0, 0], rule_flags := 1, rule_magic := 9\<rparr>]"

lemma demo_conf_ok: "conf_ok demo_conf"
  unfolding demo_conf_def by (rule conf_of_ok) (simp_all add: rule_ok_def)

lemma demo_fw_forwarded: "forwarded demo_fw"
  by (simp add: forwarded_def demo_fw_def)

lemma demo_fw_hdr: "ip_hdr demo_fw = Inr \<lparr>ip_ihl = 5, ip_version = 4, ip_tot_len = 44, ip_protocol = 6,
    ip_saddr = 0xc0a80102, ip_daddr = 0x08080808\<rparr>"
  by code_simp

lemma demo_user_magic: "hdr_rule_magic (ui_hdr demo_user) = 0"
  by (simp add: demo_user_def)

lemma demo_first_hit: "first_hit demo_env demo_conf demo_fw \<lparr>ip_ihl = 5, ip_version = 4, ip_tot_len = 44, ip_protocol = 6,
    ip_saddr = 0xc0a80102, ip_daddr = 0x08080808\<rparr> = Some 1"
  by code_simp

theorem ntrack_user_match_first_witness:
  "\<exists>ret ui'. ntrack_user_match demo_env (demo_cs\<lparr>G_AuthConf := Some demo_conf\<rparr>) demo_user demo_fw = Inr (ret, ui')
     \<and> ret \<noteq> 0 \<and> hdr_rule_idx (ui_hdr ui') = 1"
  using ntrack_user_match_first [OF demo_conf_ok demo_fw_forwarded, of "demo_cs\<lparr>G_AuthConf := Some demo_conf\<rparr>"
      demo_env demo_user]
  by (auto simp: demo_fw_hdr demo_first_hit)

subsection \<open>Deciding about a user\<close>

definition decide :: "auth_rule_t \<Rightarrow> user_info_t \<Rightarrow> int \<times> user_info_t" where
  "decide r ui =
     (if nt_auth_status ui \<le> AUTH_REQ then
        if rule_flags r \<noteq> 0 then (1, snd (nt_auth_set_status ui AUTH_REQ))
        else (0, snd (nt_auth_set_status ui AUTH_OK))
      else (0, ui))"

definition rematch :: "conf_env \<Rightarrow> G_AUTHCONF_t \<Rightarrow> sk_buff \<Rightarrow> iphdr \<Rightarrow> user_info_t \<Rightarrow> int \<times> user_info_t" where
  "rematch env conf skb iph ui = (case first_hit env conf skb iph of
      None \<Rightarrow> (0, ui)
    | Some i \<Rightarrow> decide (conf_rules conf ! i) (mark_user ui i (conf_rules conf ! i)))"

text \<open>The index a user carries, as \<open>user_get_rule\<close> reads it.\<close>

definition rule_index :: "user_info_t \<Rightarrow> int" where
  "rule_index ui = int8 (hdr_rule_idx (ui_hdr ui))"

text \<open>The reference: match again unless the user still carries the magic of its rule, then decide.\<close>

definition redirect_ref :: "conf_env \<Rightarrow> G_AUTHCONF_t \<Rightarrow> sk_buff \<Rightarrow> iphdr \<Rightarrow> user_info_t \<Rightarrow> int \<times> user_info_t" where
  "redirect_ref env conf skb iph ui =
     (let r = conf_rules conf ! nat (rule_index ui) in
      if hdr_rule_magic (ui_hdr ui) = 0 \<or> hdr_rule_magic (ui_hdr ui) \<noteq> rule_magic r
      then rematch env conf skb iph ui
      else decide r ui)"

text \<open>A user whose rule index, once set, is one of the current table.\<close>

definition user_fits :: "G_AUTHCONF_t \<Rightarrow> user_info_t \<Rightarrow> bool" where
  "user_fits conf ui \<longleftrightarrow> (hdr_rule_magic (ui_hdr ui) \<noteq> 0 \<longrightarrow> 0 \<le> rule_index ui \<and> rule_index ui < int (conf_num_rules conf))"

lemma int8_small: "0 \<le> x \<Longrightarrow> x < 128 \<Longrightarrow> int8 x = x"
  by (simp add: int8_def)

lemma user_get_rule_in:
  assumes "conf_ok conf" "0 \<le> rule_index ui" "rule_index ui < int (conf_num_rules conf)"
  shows "user_get_rule ui conf = Some (rule_index ui)"
    "deref_rule conf (Some (rule_index ui)) = Inr (conf_rules conf ! nat (rule_index ui))"
  using assms by (auto simp: user_get_rule_def deref_rule_def conf_ok_def rule_index_def Let_def)

lemma redirect_decision_in:
  assumes "conf_ok conf" "0 \<le> rule_index ui" "rule_index ui < int (conf_num_rules conf)"
  shows "redirect_decision conf (user_get_rule ui conf) ui = Inr (decide (conf_rules conf ! nat (rule_index ui)) ui)"
  using user_get_rule_in [OF assms] by (simp add: redirect_decision_def decide_def)

lemma mark_user_fields [simp]:
  "hdr_rule_idx (ui_hdr (mark_user ui i r)) = int i" "hdr_rule_magic (ui_hdr (mark_user ui i r)) = rule_magic r"
  "nt_auth_status (mark_user ui i r) = nt_auth_status ui"
  by (simp_all add: mark_user_def nt_auth_status_def)

lemma rule_index_marked: "conf_ok conf \<Longrightarrow> i < conf_num_rules conf \<Longrightarrow> rule_index (mark_user ui i r) = int i"
  by (simp add: rule_index_def conf_ok_def int8_small)

lemma redirect_marked:
  assumes "conf_ok conf" "i < conf_num_rules conf"
  shows "redirect_decision conf (user_get_rule (mark_user ui i r) conf) (mark_user ui i r)
      = Inr (decide (conf_rules conf ! i) (mark_user ui i r))"
    "deref_rule conf (user_get_rule (mark_user ui i r) conf) = Inr (conf_rules conf ! i)"
  using redirect_decision_in [OF assms(1), of "mark_user ui i r"] user_get_rule_in [OF assms(1), of "mark_user ui i r"] assms(2)
    rule_index_marked [OF assms, of ui r]
  by simp_all

lemma user_need_redirect_refined:
  assumes "conf_ok conf" "conf_num_rules conf \<noteq> 0" "forwarded skb" "G_AuthConf cs = Some conf" "user_fits conf ui"
  shows "\<exists>iph. ip_hdr skb = Inr iph \<and> user_need_redirect env cs ui skb = Inr (redirect_ref env conf skb iph ui)"
proof -
  obtain iph where iph: "ip_hdr skb = Inr iph" using ip_hdr_ok assms(3) by (auto simp: forwarded_def)
  obtain ret ui' where m: "ntrack_user_match env cs ui skb = Inr (ret, ui')"
    "case first_hit env conf skb iph of None \<Rightarrow> ret = 0 \<and> ui' = ui
     | Some i \<Rightarrow> ret \<noteq> 0 \<and> ui' = mark_user ui i (conf_rules conf ! i)"
    using ntrack_user_match_cases [OF assms(1,3) iph assms(4)] by blast
  note hit = first_hit_less [of env conf skb iph] redirect_marked [OF assms(1)]
  have "user_need_redirect env cs ui skb = Inr (redirect_ref env conf skb iph ui)"
  proof (cases "hdr_rule_magic (ui_hdr ui) = 0")
    case True
    then show ?thesis using assms(2,4) m hit
      by (auto simp: user_need_redirect_def redirect_ref_def rematch_def Let_def split: option.splits)
  next
    case False
    then have idx: "0 \<le> rule_index ui" "rule_index ui < int (conf_num_rules conf)"
      using assms(5) by (auto simp: user_fits_def)
    note r = user_get_rule_in [OF assms(1) idx] redirect_decision_in [OF assms(1) idx]
    show ?thesis using False assms(2,4) m hit r
      by (auto simp: user_need_redirect_def redirect_ref_def rematch_def Let_def split: option.splits)
  qed
  with iph show ?thesis by blast
qed

text \<open>
  A user that carries an index outside the current table: the pointer that \<open>user_get_rule\<close> returns
  is used before it is checked.
\<close>

lemma user_need_redirect_outside:
  assumes "G_AuthConf cs = Some conf" "conf_num_rules conf \<noteq> 0" "\<not> user_fits conf ui"
  shows "user_need_redirect env cs ui skb = Inl (if rule_index ui < 0 then Out_of_bounds else Null_deref)"
  using assms by (auto simp: user_need_redirect_def user_get_rule_def user_fits_def rule_index_def deref_rule_def Let_def)

definition conf_state_ok :: "conf_state \<Rightarrow> bool" where
  "conf_state_ok cs \<longleftrightarrow> (\<forall>conf. G_AuthConf cs = Some conf \<longrightarrow> conf_ok conf)"

lemma user_need_redirect_outcome:
  assumes "conf_state_ok cs" "forwarded skb"
  shows "\<exists>iph. ip_hdr skb = Inr iph \<and> user_need_redirect env cs ui skb =
    (case G_AuthConf cs of
       None \<Rightarrow> Inr (0, ui)
     | Some conf \<Rightarrow>
         if conf_num_rules conf = 0 then Inr (0, ui)
         else if user_fits conf ui then Inr (redirect_ref env conf skb iph ui)
         else Inl (if rule_index ui < 0 then Out_of_bounds else Null_deref))"
proof -
  obtain iph where iph: "ip_hdr skb = Inr iph" using ip_hdr_ok assms(2) by (auto simp: forwarded_def)
  show ?thesis
  proof (cases "G_AuthConf cs")
    case None
    then show ?thesis using iph by (simp add: user_need_redirect_def)
  next
    case (Some conf)
    then have "conf_ok conf" using assms(1) by (simp add: conf_state_ok_def)
    from user_need_redirect_refined [OF this _ assms(2) Some, of ui env] user_need_redirect_outside [OF Some, of ui env skb] iph Some
    show ?thesis by (cases "conf_num_rules conf = 0"; cases "user_fits conf ui") (simp_all add: user_need_redirect_def)
  qed
qed

text \<open>
  C8.  What \<open>user_need_redirect\<close> does for every user and every forwarded packet.  Without a table, or
  with an empty one, nothing happens.  A user that carries no rule, or one whose magic has
  changed, is matched again; then a user that is not yet authenticated is sent to the portal
  when its rule asks for it and is let in when it does not, and every other user is left alone.
  A user that carries the index of a rule the table does not have - left from a longer table, or
  negative - is not matched again: the code dereferences null, or reads in front of the table.
\<close>

theorem user_need_redirect_ref:
  assumes "conf_state_ok cs" "forwarded skb"
  shows "\<exists>iph. ip_hdr skb = Inr iph \<and> user_need_redirect env cs ui skb =
    (case G_AuthConf cs of
       None \<Rightarrow> Inr (0, ui)
     | Some conf \<Rightarrow>
         if conf_num_rules conf = 0 then Inr (0, ui)
         else if user_fits conf ui then Inr (redirect_ref env conf skb iph ui)
         else Inl (if rule_index ui < 0 then Out_of_bounds else Null_deref))"
  by (rule user_need_redirect_outcome [OF assms])

theorem user_need_redirect_ref_witness:
  "(\<exists>ui'. user_need_redirect demo_env (demo_cs\<lparr>G_AuthConf := Some demo_conf\<rparr>) demo_user demo_fw = Inr (1, ui')
     \<and> nt_auth_status ui' = AUTH_REQ)
   \<and> user_need_redirect demo_env (demo_cs\<lparr>G_AuthConf := Some demo_conf\<rparr>)
     (demo_user\<lparr>ui_hdr := (ui_hdr demo_user)\<lparr>hdr_rule_idx := 2, hdr_rule_magic := 5\<rparr>\<rparr>) demo_fw = Inl Null_deref"
proof -
  let ?cs = "demo_cs\<lparr>G_AuthConf := Some demo_conf\<rparr>"
    and ?old = "demo_user\<lparr>ui_hdr := (ui_hdr demo_user)\<lparr>hdr_rule_idx := 2, hdr_rule_magic := 5\<rparr>\<rparr>"
  have n: "conf_num_rules demo_conf = 2" "conf_state_ok ?cs" using demo_conf_ok
    by (simp_all add: demo_conf_def conf_of_def conf_state_ok_def)
  have "user_fits demo_conf demo_user" "\<not> user_fits demo_conf ?old" "\<not> rule_index ?old < 0"
    by (simp_all add: user_fits_def demo_user_def rule_index_def int8_def n)
  moreover have "redirect_ref demo_env demo_conf demo_fw \<lparr>ip_ihl = 5, ip_version = 4, ip_tot_len = 44, ip_protocol = 6,
      ip_saddr = 0xc0a80102, ip_daddr = 0x08080808\<rparr> demo_user
      = decide (conf_rules demo_conf ! 1) (mark_user demo_user 1 (conf_rules demo_conf ! 1))"
    using demo_user_magic by (simp add: redirect_ref_def rematch_def demo_first_hit)
  moreover have "nt_auth_status demo_user = 0" "rule_flags (conf_rules demo_conf ! 1) = 1"
    by (simp_all add: nt_auth_status_def demo_user_def AUTH_STATUS_def demo_conf_def conf_of_def)
  ultimately show ?thesis
    using user_need_redirect_ref [OF n(2) demo_fw_forwarded, of demo_env demo_user]
      user_need_redirect_ref [OF n(2) demo_fw_forwarded, of demo_env ?old] n(1)
    by (simp add: demo_fw_hdr decide_def)
qed

text \<open>
  Who is let in: the status of a user changes only while it is unknown or requested,
  and only through a rule of the current table whose magic the user then carries; it becomes
  \<open>AUTH_OK\<close> only through a rule without flags, and a redirection is asked for only through a
  rule with flags.
\<close>

theorem user_need_redirect_status:
  assumes "conf_ok conf" "conf_num_rules conf \<noteq> 0" "forwarded skb" "G_AuthConf cs = Some conf" "user_fits conf ui"
    and "user_need_redirect env cs ui skb = Inr (ret, ui')"
  shows "ret = 0 \<and> nt_auth_status ui' = nt_auth_status ui \<or>
    nt_auth_status ui \<le> AUTH_REQ \<and> (\<exists>i < conf_num_rules conf. rule_index ui' = int i
      \<and> hdr_rule_magic (ui_hdr ui') = rule_magic (conf_rules conf ! i)
      \<and> (if rule_flags (conf_rules conf ! i) \<noteq> 0 then ret = 1 \<and> nt_auth_status ui' = AUTH_REQ
         else ret = 0 \<and> nt_auth_status ui' = AUTH_OK))"
proof -
  have keep: "rule_index (snd (nt_auth_set_status u x)) = rule_index u"
    "hdr_rule_magic (ui_hdr (snd (nt_auth_set_status u x))) = hdr_rule_magic (ui_hdr u)" for u x
    by (simp_all add: nt_auth_set_status_def rule_index_def Let_def)
  have d: "decide (conf_rules conf ! i) u = (ret, ui') \<Longrightarrow> rule_index u = int i \<Longrightarrow>
      hdr_rule_magic (ui_hdr u) = rule_magic (conf_rules conf ! i) \<Longrightarrow> nt_auth_status u = nt_auth_status ui \<Longrightarrow>
      i < conf_num_rules conf \<Longrightarrow> ?thesis" for i u
    by (auto simp: decide_def keep split: if_splits)
  obtain iph where r: "redirect_ref env conf skb iph ui = (ret, ui')"
    using user_need_redirect_refined [OF assms(1-5), of env] assms(6) by auto
  show ?thesis
  proof (cases "hdr_rule_magic (ui_hdr ui) = 0
      \<or> hdr_rule_magic (ui_hdr ui) \<noteq> rule_magic (conf_rules conf ! nat (rule_index ui))")
    case True
    then have m: "rematch env conf skb iph ui = (ret, ui')" using r by (simp add: redirect_ref_def Let_def)
    show ?thesis
    proof (cases "first_hit env conf skb iph")
      case None
      then show ?thesis using m by (simp add: rematch_def)
    next
      case (Some i)
      then show ?thesis
        using m first_hit_less [OF Some] d [of i "mark_user ui i (conf_rules conf ! i)"]
          rule_index_marked [OF assms(1), of i ui "conf_rules conf ! i"]
        by (simp only: rematch_def option.case mark_user_fields simp_thms)
    qed
  next
    case False
    then have "decide (conf_rules conf ! nat (rule_index ui)) ui = (ret, ui')"
      "rule_index ui = int (nat (rule_index ui))"
      "nat (rule_index ui) < conf_num_rules conf"
      using r assms(5) by (auto simp: redirect_ref_def user_fits_def Let_def)
    with False show ?thesis by (intro d [of "nat (rule_index ui)" ui]) simp_all
  qed
qed

theorem user_need_redirect_status_witness:
  "\<exists>ret ui'. user_need_redirect demo_env (demo_cs\<lparr>G_AuthConf := Some demo_conf\<rparr>) demo_user demo_fw = Inr (ret, ui')
     \<and> (ret = 0 \<and> nt_auth_status ui' = nt_auth_status demo_user \<or> nt_auth_status demo_user \<le> AUTH_REQ)"
proof -
  have c: "conf_num_rules demo_conf \<noteq> 0" "user_fits demo_conf demo_user"
    by (simp_all add: demo_conf_def conf_of_def user_fits_def demo_user_def)
  obtain ret ui' where "user_need_redirect demo_env (demo_cs\<lparr>G_AuthConf := Some demo_conf\<rparr>) demo_user demo_fw = Inr (ret, ui')"
    using user_need_redirect_refined [OF demo_conf_ok c(1) demo_fw_forwarded _ c(2),
      of "demo_cs\<lparr>G_AuthConf := Some demo_conf\<rparr>" demo_env] by force
  moreover from user_need_redirect_status [OF demo_conf_ok c(1) demo_fw_forwarded _ c(2) this]
  have "ret = 0 \<and> nt_auth_status ui' = nt_auth_status demo_user \<or> nt_auth_status demo_user \<le> AUTH_REQ" by auto
  ultimately show ?thesis by blast
qed

subsection \<open>Receiving a configuration\<close>

text \<open>The text of a netlink message as the parser sees it.\<close>

definition nl_text :: "endian \<Rightarrow> bytes \<Rightarrow> string" where
  "nl_text en skb = chars_of (window NLMSG_HDRLEN (unat (dec32 en (window 0 4 skb)) - NLMSG_HDRLEN) skb) @ [NUL]"

lemma drop_last_NUL: "drop k (NUL # replicate k NUL) = [NUL]"
  by (induction k) simp_all

lemma nl_recv_eq:
  assumes "NLMSG_HDRLEN \<le> length skb" "NLMSG_OK (unat (dec32 en (window 0 4 skb))) (length skb)"
  shows "nl_recv en env jiffies True vm mem skb cs =
    bindR (ntrack_conf_sync env jiffies vm mem (nl_text en skb)
       (cs\<lparr>user_process_pid := dec32 en (window 12 4 skb)\<rparr>)) (\<lambda>(_, cs2, _). Inr cs2)"
proof -
  let ?n = "unat (dec32 en (window 0 4 skb))"
  have n: "?n \<le> length skb" "NLMSG_HDRLEN \<le> ?n" using assms(2) by (simp_all add: NLMSG_OK_def)
  let ?m = "window NLMSG_HDRLEN (?n - NLMSG_HDRLEN) skb"
  have l: "length (chars_of ?m) = ?n - NLMSG_HDRLEN" using n by (simp add: chars_of_def)
  then have "mem_write 0 (chars_of ?m) (replicate (?n - NLMSG_HDRLEN + 1) NUL) = Inr (nl_text en skb)"
    by (simp add: mem_write_def overlay_def nl_text_def drop_last_NUL)
  then show ?thesis
    using assms n by (simp add: nl_recv_def field32_def mem_read_def Let_def)
qed

lemma nl_recv_outcome:
  assumes "strtol_ok (env_strtol env)" "conf_state_ok cs"
  shows "case nl_recv en env jiffies kz True mem skb cs of
      Inr cs' \<Rightarrow> conf_state_ok cs'
    | Inl f \<Rightarrow> f = Out_of_bounds \<and> (\<exists>a st t. nx_json_parse_utf8 (env_strtol env) mem (nl_text en skb) = Inr (Some a, st)
        \<and> tree_at st (J_at a) t \<and> jt_type t = NX_JSON_ARRAY \<and> \<not> doc_fits env (buf st) (kids t))"
proof (cases "NLMSG_HDRLEN \<le> length skb \<and> NLMSG_OK (unat (dec32 en (window 0 4 skb))) (length skb) \<and> kz")
  case False
  then show ?thesis
    using assms(2) by (auto simp: nl_recv_def field32_def mem_read_def Let_def conf_state_ok_def)
next
  case True
  let ?cs = "cs\<lparr>user_process_pid := dec32 en (window 12 4 skb)\<rparr>"
  have cs: "conf_state_ok (?cs\<lparr>vm_blocks := n\<rparr>)" for n using assms(2) by (simp add: conf_state_ok_def)
  obtain r st where p: "nx_json_parse_utf8 (env_strtol env) mem (nl_text en skb) = Inr (r, st)"
    and c: "case r of
      None \<Rightarrow> ntrack_conf_sync env jiffies True mem (nl_text en skb) ?cs
        = Inr (- EINVAL, ?cs\<lparr>vm_blocks := vm_blocks ?cs + 1\<rparr>, \<lambda>_. None)
    | Some a \<Rightarrow> \<exists>t. tree_at st (J_at a) t \<and> ntrack_conf_sync env jiffies True mem (nl_text en skb) ?cs =
        (if jt_type t \<noteq> NX_JSON_ARRAY then Inr (- EINVAL, ?cs\<lparr>vm_blocks := vm_blocks ?cs + 1\<rparr>, heap st)
         else if doc_fits env (buf st) (kids t) then Inr (0, installed env jiffies (buf st) t ?cs, \<lambda>_. None)
         else Inl Out_of_bounds)"
    using ntrack_conf_sync_cases [of "nl_text en skb" env mem jiffies ?cs] assms(1) by (auto simp: nl_text_def)
  have inst: "conf_state_ok (installed env jiffies (buf st) t ?cs)" if "doc_fits env (buf st) (kids t)" for t
    using installed_ok [OF that, of jiffies ?cs] by (auto simp: conf_state_ok_def)
  have e: "nl_recv en env jiffies kz True mem skb cs =
      bindR (ntrack_conf_sync env jiffies True mem (nl_text en skb) ?cs) (\<lambda>(_, cs2, _). Inr cs2)"
    using nl_recv_eq True by simp
  show ?thesis
  proof (cases r)
    case None
    then show ?thesis using c e cs by simp
  next
    case (Some a)
    then obtain t where t: "tree_at st (J_at a) t" "ntrack_conf_sync env jiffies True mem (nl_text en skb) ?cs =
        (if jt_type t \<noteq> NX_JSON_ARRAY then Inr (- EINVAL, ?cs\<lparr>vm_blocks := vm_blocks ?cs + 1\<rparr>, heap st)
         else if doc_fits env (buf st) (kids t) then Inr (0, installed env jiffies (buf st) t ?cs, \<lambda>_. None)
         else Inl Out_of_bounds)" using c by auto
    show ?thesis unfolding e t(2) using cs inst p Some t(1) by auto
  qed
qed

text \<open>
  Whatever a process sends over netlink, \<open>nl_recv\<close> returns with a table of rules whose
  counters stay inside its arrays, except on one kind of message: a well-formed document
  that does not fit the arrays.
\<close>

theorem nl_recv_safe:
  assumes "strtol_ok (env_strtol env)" "conf_state_ok cs"
  shows "case nl_recv en env jiffies kz True mem skb cs of
      Inr cs' \<Rightarrow> conf_state_ok cs'
    | Inl f \<Rightarrow> f = Out_of_bounds \<and> (\<exists>a st t. nx_json_parse_utf8 (env_strtol env) mem (nl_text en skb) = Inr (Some a, st)
        \<and> tree_at st (J_at a) t \<and> jt_type t = NX_JSON_ARRAY \<and> \<not> doc_fits env (buf st) (kids t))"
  by (rule nl_recv_outcome [OF assms])

theorem nl_recv_safe_witness:
  "case nl_recv Little demo_env 5 True True 9 (enc32 Little 18 @ replicate 12 0 @ [91, 93]) demo_cs of
      Inr cs' \<Rightarrow> conf_state_ok cs'
    | Inl f \<Rightarrow> f = Out_of_bounds \<and> (\<exists>a st t. nx_json_parse_utf8 (env_strtol demo_env) 9
          (nl_text Little (enc32 Little 18 @ replicate 12 0 @ [91, 93])) = Inr (Some a, st)
        \<and> tree_at st (J_at a) t \<and> jt_type t = NX_JSON_ARRAY \<and> \<not> doc_fits demo_env (buf st) (kids t))"
  by (rule nl_recv_safe) (auto simp: demo_env_def demo_cs_def strtol_ok_def conf_state_ok_def Suc_le_eq)

text \<open>The smallest such message: one element that names five known sets.\<close>

definition five_sets :: string where
  "five_sets = ''[{'' @ [CHR 0x22] @ ''IPSets'' @ [CHR 0x22] @ '':[''
     @ concat (map (\<lambda>c. [CHR 0x22, c, CHR 0x22, CHR '','']) ''abcde'') @ '']}]'' @ [NUL]"

lemma ntrack_conf_sync_five_sets:
  "ntrack_conf_sync demo_env 5 True 99 five_sets demo_cs = Inl Out_of_bounds"
proof -
  have "case ntrack_conf_sync demo_env 5 True 99 five_sets demo_cs of Inl f \<Rightarrow> f = Out_of_bounds | Inr _ \<Rightarrow> False"
    by code_simp
  then show ?thesis by (simp split: sum.splits)
qed

text \<open>A failed \<open>vmalloc\<close> is not handled.\<close>

lemma ntrack_conf_sync_no_memory: "ntrack_conf_sync env jiffies False mem text' cs = Inl Null_deref"
  by (simp add: ntrack_conf_sync_def)

end
