(* ===== verification/Decimal.thy ===== *)
theory Decimal
  imports Prelude
begin

text \<open>
  Decimal text: what \<open>printf ("%u")\<close> writes and what \<open>atoi\<close> reads.  The C library's \<open>atoi\<close> is
  defined only for values of an \<open>int\<close>; here it returns the value it reads, and its callers
  convert it.  Text that ends without a terminator is read out of bounds.
\<close>

fun dec_str :: "nat \<Rightarrow> string" where
  "dec_str n = (if n < 10 then [char_of (48 + n)] else dec_str (n div 10) @ [char_of (48 + n mod 10)])"

declare dec_str.simps [simp del]

lemma dec_str_length: "n < 10 ^ Suc k \<Longrightarrow> length (dec_str n) \<le> Suc k"
proof (induction k arbitrary: n)
  case 0
  then show ?case by (simp add: dec_str.simps)
next
  case (Suc k)
  have "n div 10 < 10 ^ Suc k" using Suc.prems by (simp add: less_mult_imp_div_less mult.commute)
  then show ?case using Suc.IH [of "n div 10"] by (subst dec_str.simps) simp
qed

lemma dec_str_u32: "length (dec_str (unat (x :: u32))) \<le> 10"
  using dec_str_length [of "unat x" 9] unat_less_size(3) [of x] by simp

definition is_digit :: "char \<Rightarrow> bool" where
  "is_digit c \<longleftrightarrow> 48 \<le> (of_char c :: nat) \<and> (of_char c :: nat) \<le> 57"

definition is_space :: "char \<Rightarrow> bool" where
  "is_space c \<longleftrightarrow> (of_char c :: nat) = 32 \<or> 9 \<le> (of_char c :: nat) \<and> (of_char c :: nat) \<le> 13"

fun atoi_digits :: "int \<Rightarrow> string \<Rightarrow> int result" where
  "atoi_digits acc [] = Inl Out_of_bounds"
| "atoi_digits acc (c # cs) = (if is_digit c then atoi_digits (10 * acc + (int (of_char c) - 48)) cs else Inr acc)"

fun atoi :: "string \<Rightarrow> int result" where
  "atoi [] = Inl Out_of_bounds"
| "atoi (c # cs) = (if is_space c then atoi cs
     else if c = CHR ''-'' then bindR (atoi_digits 0 cs) (\<lambda>v. Inr (- v))
     else if c = CHR ''+'' then atoi_digits 0 cs
     else atoi_digits 0 (c # cs))"

lemma digit_char [simp]: "n < 10 \<Longrightarrow> (of_char (char_of (48 + n) :: char) :: nat) = 48 + n"
  by (simp add: of_char_of)

lemma is_digit_char [simp]: "n < 10 \<Longrightarrow> is_digit (char_of (48 + n :: nat))"
  by (simp add: is_digit_def of_char_of)

lemma atoi_digits_dec_str: "atoi_digits acc (dec_str n @ rest) = atoi_digits (acc * 10 ^ length (dec_str n) + int n) rest"
proof (induction n arbitrary: acc rest rule: dec_str.induct)
  case (1 n)
  show ?case
  proof (cases "n < 10")
    case True
    then show ?thesis by (simp add: dec_str.simps [of n] mult.commute)
  next
    case False
    have "int n = 10 * int (n div 10) + int (n mod 10)" by (metis mult_div_mod_eq of_nat_add of_nat_mult of_nat_numeral)
    then show ?thesis using False 1 by (simp add: dec_str.simps [of n] algebra_simps)
  qed
qed

lemma dec_str_first: "\<exists>d cs. dec_str n = char_of (48 + d :: nat) # cs \<and> d < 10"
proof (induction n rule: dec_str.induct)
  case (1 n)
  show ?case
  proof (cases "n < 10")
    case True
    then have "dec_str n = char_of (48 + n) # []" by (simp add: dec_str.simps [of n])
    with True show ?thesis by blast
  next
    case False
    then obtain d cs where d: "dec_str (n div 10) = char_of (48 + d :: nat) # cs" "d < 10" using 1 by blast
    then have "dec_str n = char_of (48 + d) # cs @ [char_of (48 + n mod 10)]" using False by (simp add: dec_str.simps [of n])
    with d(2) show ?thesis by blast
  qed
qed

text \<open>\<open>atoi\<close> reads back what \<open>"%u"\<close> printed in front of anything that is not a digit.\<close>

lemma atoi_dec_str:
  assumes "\<not> is_digit c"
  shows "atoi (dec_str n @ c # rest) = Inr (int n)"
proof -
  obtain d cs where d: "dec_str n = char_of (48 + d :: nat) # cs" "d < 10" using dec_str_first by blast
  have "\<not> is_space (char_of (48 + d))" using digit_char [OF d(2)] by (simp add: is_space_def)
  moreover have "of_char (char_of (48 + d) :: char) \<noteq> (of_char CHR ''-'' :: nat)"
    "of_char (char_of (48 + d) :: char) \<noteq> (of_char CHR ''+'' :: nat)" using digit_char [OF d(2)] by simp_all
  then have "char_of (48 + d) \<noteq> CHR ''-''" "char_of (48 + d) \<noteq> CHR ''+''" by metis+
  ultimately have "atoi (dec_str n @ c # rest) = atoi_digits 0 (dec_str n @ c # rest)" using d(1) by simp
  then show ?thesis using assms by (simp add: atoi_digits_dec_str)
qed

end
