(* ===== verification/Redirect.thy ===== *)
theory Redirect
  imports Packet NtrackUser Decimal
begin

text \<open>
  The packets of \<open>drivers/nos_track/src/redirect.c\<close>: the HTTP redirection that is sent back to
  the client, and the reset that is sent on to the server.  A new packet is a buffer with
  head room and tail room in which \<open>skb_push\<close> and \<open>skb_put\<close> panic when there is none left.
  The kernel's checksum functions are arguments; \<open>en\<close> is the byte order of the machine, which
  matters for the two fields that the source does not convert.
\<close>

subsection \<open>Reading the original headers\<close>

record tcphdr =
  th_source :: u16
  th_dest :: u16
  th_seq :: u32
  th_ack_seq :: u32
  th_doff :: nat
  th_flags :: u8
  th_window :: u16

abbreviation (input) TH_FIN :: u8 where "TH_FIN \<equiv> 1"
abbreviation (input) TH_RST :: u8 where "TH_RST \<equiv> 4"
abbreviation (input) TH_PSH :: u8 where "TH_PSH \<equiv> 8"
abbreviation (input) TH_ACK :: u8 where "TH_ACK \<equiv> 16"

definition tcp_hdr_at :: "bytes \<Rightarrow> nat \<Rightarrow> tcphdr result" where
  "tcp_hdr_at d off =
     bindR (field16 Big off d) (\<lambda>s. bindR (field16 Big (off + 2) d) (\<lambda>dst.
     bindR (field32 Big (off + 4) d) (\<lambda>sq. bindR (field32 Big (off + 8) d) (\<lambda>ak.
     bindR (rdb d (off + 12)) (\<lambda>o12. bindR (rdb d (off + 13)) (\<lambda>o13. bindR (field16 Big (off + 14) d) (\<lambda>w.
       Inr \<lparr>th_source = s, th_dest = dst, th_seq = sq, th_ack_seq = ak, th_doff = unat (drop_bit 4 o12),
            th_flags = o13, th_window = w\<rparr>)))))))"

text \<open>An Ethernet header: destination, source, protocol.\<close>

definition eth_dest :: "bytes \<Rightarrow> bytes" where "eth_dest e = take 6 e"
definition eth_source :: "bytes \<Rightarrow> bytes" where "eth_source e = take 6 (drop 6 e)"

subsection \<open>New packets\<close>

record nskb =
  nb_head_room :: nat
  nb_bytes :: bytes
  nb_tail_room :: nat

definition alloc_skb :: "nat \<Rightarrow> nskb" where
  "alloc_skb n = \<lparr>nb_head_room = 0, nb_bytes = [], nb_tail_room = n\<rparr>"

definition skb_reserve :: "nat \<Rightarrow> nskb \<Rightarrow> nskb" where
  "skb_reserve n s = s\<lparr>nb_head_room := nb_head_room s + n, nb_tail_room := nb_tail_room s - n\<rparr>"

text \<open>\<open>skb_put\<close> and \<open>skb_push\<close> together with the bytes that are then stored there.\<close>

definition skb_put :: "bytes \<Rightarrow> nskb \<Rightarrow> nskb result" where
  "skb_put bs s = (if nb_tail_room s < length bs then Inl Assert_failed
     else Inr (s\<lparr>nb_bytes := nb_bytes s @ bs, nb_tail_room := nb_tail_room s - length bs\<rparr>))"

definition skb_push :: "bytes \<Rightarrow> nskb \<Rightarrow> nskb result" where
  "skb_push bs s = (if nb_head_room s < length bs then Inl Assert_failed
     else Inr (s\<lparr>nb_bytes := bs @ nb_bytes s, nb_head_room := nb_head_room s - length bs\<rparr>))"

text \<open>The kernel's checksums: of an IP header, and of a TCP segment between two addresses.\<close>

record csum_env =
  ip_csum :: "bytes \<Rightarrow> u16"
  tcp_csum :: "u32 \<Rightarrow> u32 \<Rightarrow> bytes \<Rightarrow> u16"

subsection \<open>Header bytes\<close>

text \<open>A 20 byte TCP header with the given checksum and a zero urgent pointer.\<close>

definition tcp_bytes :: "tcphdr \<Rightarrow> u16 \<Rightarrow> bytes" where
  "tcp_bytes t chk = enc16 Big (th_source t) @ enc16 Big (th_dest t) @ enc32 Big (th_seq t)
     @ enc32 Big (th_ack_seq t) @ [push_bit 4 (of_nat (th_doff t)), th_flags t]
     @ enc16 Big (th_window t) @ enc16 Big chk @ [0, 0]"

text \<open>
  A 20 byte IP header without options.  \<open>id\<close> and \<open>frag_off\<close> are stored as they are, in the
  machine's byte order.
\<close>

definition ip_bytes :: "endian \<Rightarrow> iphdr \<Rightarrow> u16 \<Rightarrow> u16 \<Rightarrow> u16 \<Rightarrow> bytes" where
  "ip_bytes en h ident frag_off chk =
     [push_bit 4 (of_nat (ip_version h)) OR of_nat (ip_ihl h), 0] @ enc16 Big (ip_tot_len h)
     @ enc16 en ident @ enc16 en frag_off @ [0x80, ip_protocol h] @ enc16 Big chk
     @ enc32 Big (ip_saddr h) @ enc32 Big (ip_daddr h)"

lemma length_hdr_bytes [simp]: "length (tcp_bytes t c) = 20" "length (ip_bytes en h i f c') = 20"
  by (simp_all add: tcp_bytes_def ip_bytes_def)

text \<open>
  The common end of both functions: the TCP header is pushed in front of what is there, the IP
  header in front of it, both checksums are stored, and the Ethernet header comes first.
\<close>

definition push_headers ::
  "endian \<Rightarrow> csum_env \<Rightarrow> tcphdr \<Rightarrow> iphdr \<Rightarrow> u16 \<Rightarrow> bytes \<Rightarrow> nskb \<Rightarrow> nskb result" where
  "push_headers en k t h ident eth s =
     (let seg = tcp_bytes t 0 @ nb_bytes s;
          n = unat (ip_tot_len h) - 20
      in if length seg < n then Inl Out_of_bounds
         else bindR (skb_push (tcp_bytes t (tcp_csum k (ip_saddr h) (ip_daddr h) (take n seg))) s) (\<lambda>s1.
              bindR (skb_push (ip_bytes en h ident 0x0040 (ip_csum k (ip_bytes en h ident 0x0040 0))) s1)
                (skb_push eth)))"

subsection \<open>The two packets\<close>

text \<open>
  \<open>auth_reset\<close>: \<open>ok\<close> says whether \<open>alloc_skb\<close> succeeds.  The result is the return value and
  the bytes that are transmitted, if any.
\<close>

definition auth_reset :: "endian \<Rightarrow> csum_env \<Rightarrow> bool \<Rightarrow> sk_buff \<Rightarrow> (int \<times> bytes option) result" where
  "auth_reset en k ok skb =
     bindR (ip_hdr skb) (\<lambda>oiph.
     if \<not> ok then Inr (- 1, None)
     else
       bindR (tcp_hdr_at (skb_data skb) (4 * ip_ihl oiph)) (\<lambda>otcph.
       let nskb = skb_reserve 54 (alloc_skb 54);
           ntcph = \<lparr>th_source = th_source otcph, th_dest = th_dest otcph, th_seq = th_seq otcph,
             th_ack_seq = th_ack_seq otcph, th_doff = 5,
             th_flags = TH_RST OR (th_flags otcph AND TH_ACK), th_window = 0\<rparr>;
           niph = \<lparr>ip_ihl = 5, ip_version = ip_version oiph, ip_tot_len = 40,
             ip_protocol = ip_protocol oiph, ip_saddr = ip_saddr oiph, ip_daddr = ip_daddr oiph\<rparr>
       in bindR (mem_read 0 14 (skb_mac skb)) (\<lambda>oeth.
          bindR (push_headers en k ntcph niph 0 oeth nskb) (\<lambda>s. Inr (0, Some (nb_bytes s))))))"

definition auth_http ::
  "endian \<Rightarrow> csum_env \<Rightarrow> bool \<Rightarrow> bytes \<Rightarrow> sk_buff \<Rightarrow> (int \<times> bytes option) result" where
  "auth_http en k ok url skb =
     bindR (ip_hdr skb) (\<lambda>oiph.
     if \<not> ok then Inr (- 1, None)
     else
       bindR (skb_put url (skb_reserve 54 (alloc_skb (54 + length url)))) (\<lambda>nskb.
       bindR (tcp_hdr_at (skb_data skb) (4 * ip_ihl oiph)) (\<lambda>otcph.
       let ntcph = \<lparr>th_source = th_dest otcph, th_dest = th_source otcph, th_seq = th_ack_seq otcph,
             th_ack_seq = th_seq otcph + of_nat (unat (ip_tot_len oiph)) - of_nat (4 * ip_ihl oiph)
               - of_nat (4 * th_doff otcph),
             th_doff = 5, th_flags = TH_ACK OR TH_PSH OR TH_FIN, th_window = 65535\<rparr>;
           niph = \<lparr>ip_ihl = 5, ip_version = ip_version oiph, ip_tot_len = of_nat (40 + length url),
             ip_protocol = ip_protocol oiph, ip_saddr = ip_daddr oiph, ip_daddr = ip_saddr oiph\<rparr>
       in bindR (mem_read 0 12 (skb_mac skb)) (\<lambda>oeth.
          bindR (push_headers en k ntcph niph 0x2658
              (eth_source oeth @ eth_dest oeth @ enc16 Big 0x0800) nskb) (\<lambda>s.
            Inr (0, Some (nb_bytes s)))))))"

subsection \<open>The redirection text\<close>

definition bytes_of :: "string \<Rightarrow> bytes" where
  "bytes_of s = map (\<lambda>c. of_nat (of_char c)) s"

abbreviation (input) CRLF :: string where "CRLF \<equiv> [CHR 0x0D, CHR 0x0A]"

text \<open>A format string in pieces: literal text and \<open>%s\<close>.\<close>

datatype fmt = Lit string | Str

definition URL_STR_FMT :: "fmt list" where
  "URL_STR_FMT = [Lit ''http://1.0.0.8/webauth.cgi?ip='', Str, Lit ''&mac='', Str, Lit ''&in='', Str,
     Lit ''&uid='', Str, Lit ''&magic='', Str]"

definition http_redir_fmt :: "fmt list" where
  "http_redir_fmt =
     Lit (''HTTP/1.1 302 Moved Temporarily'' @ CRLF @ ''Location: '') # URL_STR_FMT
     @ Lit (CRLF @ ''Content-Type: text/html;'' @ CRLF @ ''Connection: close'' @ CRLF
         @ ''Cache-Control: no-cache'' @ CRLF @ CRLF
         @ ''<html><meta http-equiv='' @ [CHR 0x22] @ ''refresh'' @ [CHR 0x22] @ '' content='' @ [CHR 0x22]
         @ ''0;url='') # URL_STR_FMT
     @ [Lit ([CHR 0x22] @ ''></html>'')]"

fun fmt_length :: "fmt list \<Rightarrow> nat" where
  "fmt_length [] = 0"
| "fmt_length (Lit s # fs) = length s + fmt_length fs"
| "fmt_length (Str # fs) = 2 + fmt_length fs"

fun sprint :: "fmt list \<Rightarrow> string list \<Rightarrow> string" where
  "sprint [] xs = []"
| "sprint (Lit s # fs) xs = s @ sprint fs xs"
| "sprint (Str # fs) (x # xs) = x @ sprint fs xs"
| "sprint (Str # fs) [] = sprint fs []"

abbreviation (input) IFNAMSIZ :: nat where "IFNAMSIZ \<equiv> 16"

text \<open>\<open>sizeof\<close> of a string literal counts its terminator.\<close>

definition redirect_len :: nat where
  "redirect_len = (fmt_length http_redir_fmt + 1) + 2 * IFNAMSIZ + 2 * (length ''255.255.255.255'' + 1)
     + 2 * (length ''00:01:02:03:04:05'' + 1) + 2 * (length ''4294967295'' + 1) + 2 * (length ''4294967295'' + 1)"

text \<open>\<open>snprintf\<close> into a buffer of \<open>n\<close> bytes: the bytes stored in front of the terminator, and the length.\<close>

definition snprintf :: "nat \<Rightarrow> fmt list \<Rightarrow> string list \<Rightarrow> string \<times> nat" where
  "snprintf n f xs = (let s = sprint f xs in (take (n - 1) s, length s))"

record net_device =
  dev_index :: nat
  dev_name :: string

definition redirect_args :: "user_info_t \<Rightarrow> net_device \<Rightarrow> string list" where
  "redirect_args ui dev =
     (let one = [''1.2.3.4'', ''aa:bb:cc:dd:ee:ff'', dev_name dev,
        fst (snprintf 16 [Str] [dec_str (unat (ui_id ui))]), fst (snprintf 16 [Str] [dec_str (unat (ui_magic ui))])]
      in one @ one)"

text \<open>
  \<open>ntrack_redirect\<close>: \<open>km\<close>, \<open>ok1\<close> and \<open>ok2\<close> say whether the allocations of the text and of the
  two packets succeed.  The result is the list of transmissions.  The buffer behind the text
  holds the terminator that \<open>snprintf\<close> stored and then whatever \<open>kmalloc\<close> gave.
\<close>

definition ntrack_redirect ::
  "endian \<Rightarrow> csum_env \<Rightarrow> bool \<Rightarrow> bool \<Rightarrow> bool \<Rightarrow> user_info_t \<Rightarrow> sk_buff \<Rightarrow> net_device \<Rightarrow> net_device option
   \<Rightarrow> (nat \<times> bytes) list result" where
  "ntrack_redirect en k km ok1 ok2 ui skb in_dev out_dev =
     (if \<not> km then Inr []
      else
        let (s, len) = snprintf redirect_len http_redir_fmt (redirect_args ui in_dev) in
        bindR (assertR (0 < len \<and> len \<le> redirect_len)) (\<lambda>_.
        bindR (auth_http en k ok1 (take len (bytes_of s @ [0])) skb) (\<lambda>(ret, p1).
          let tx1 = (case p1 of None \<Rightarrow> [] | Some b \<Rightarrow> [(dev_index in_dev, b)]) in
          if ret \<noteq> 0 then Inr tx1
          else case out_dev of
              None \<Rightarrow> Inr tx1
            | Some o' \<Rightarrow> bindR (auth_reset en k ok2 skb) (\<lambda>(_, p2).
                Inr (tx1 @ (case p2 of None \<Rightarrow> [] | Some b \<Rightarrow> [(dev_index o', b)]))))))"

subsection \<open>Reading back what was built\<close>

lemma rdb_at: "off = length pre \<Longrightarrow> rdb (pre @ x # post) off = Inr x"
  by (simp add: rdb_def nth_append)

lemma ver_ihl_bits:
  fixes y :: u8
  shows "(push_bit 4 (drop_bit 4 y) OR 5) AND 0x0f = 5" "drop_bit 4 (push_bit 4 (drop_bit 4 y) OR 5) = drop_bit 4 y"
proof -
  have "(push_bit 4 (drop_bit 4 y) OR 5) AND 0x0f = take_bit 4 (push_bit 4 (drop_bit 4 y) OR 5)"
    by (simp add: take_bit_eq_mask mask_eq_exp_minus_1)
  also have "\<dots> = 5" by (simp add: take_bit_push_bit)
  finally show "(push_bit 4 (drop_bit 4 y) OR 5) AND 0x0f = 5" .
  have "drop_bit 4 (push_bit 4 (drop_bit 4 y)) = drop_bit 4 y"
    by (rule bit_word_eqI) (auto simp: bit_simps dest: bit_imp_le_length)
  then show "drop_bit 4 (push_bit 4 (drop_bit 4 y) OR 5) = drop_bit 4 y" by simp
qed

lemma ip_hdr_bytes:
  fixes y :: u8
  assumes "ip_ihl h = 5" "ip_version h = unat (drop_bit 4 y)" "skb_data s = ip_bytes en h ident fo chk @ rest"
  shows "ip_hdr s = Inr h"
proof -
  let ?v = "push_bit 4 (drop_bit 4 y) OR 5"
  let ?a = "[?v, 0]" and ?b = "enc16 en ident @ enc16 en fo @ [0x80 :: u8]" and ?r = "enc16 Big chk"
  have d: "skb_data s = ?a @ enc16 Big (ip_tot_len h) @ ?b @ [ip_protocol h] @ ?r
      @ enc32 Big (ip_saddr h) @ enc32 Big (ip_daddr h) @ rest"
    using assms by (simp add: ip_bytes_def)
  have "rdb (skb_data s) 0 = Inr ?v" by (simp add: d rdb_def)
  moreover have "field16 Big 2 (skb_data s) = Inr (ip_tot_len h)"
    unfolding d by (rule field16_at) simp
  moreover have "rdb (skb_data s) 9 = Inr (ip_protocol h)"
    using rdb_at [of 9 "?a @ enc16 Big (ip_tot_len h) @ ?b" "ip_protocol h"] by (simp add: d)
  moreover have "field32 Big 12 (skb_data s) = Inr (ip_saddr h)"
    using field32_at [of 12 "?a @ enc16 Big (ip_tot_len h) @ ?b @ [ip_protocol h] @ ?r" Big "ip_saddr h"] by (simp add: d)
  moreover have "field32 Big 16 (skb_data s) = Inr (ip_daddr h)"
    using field32_at [of 16 "?a @ enc16 Big (ip_tot_len h) @ ?b @ [ip_protocol h] @ ?r @ enc32 Big (ip_saddr h)" Big
        "ip_daddr h"] by (simp add: d)
  ultimately show ?thesis using assms(1,2) ver_ihl_bits [of y] by (cases h) (simp add: ip_hdr_def)
qed

lemma tcp_hdr_bytes:
  assumes "th_doff t = 5" "off = length pre" "d = pre @ tcp_bytes t chk @ rest"
  shows "tcp_hdr_at d off = Inr t"
proof -
  let ?s = "enc16 Big (th_source t)" and ?d = "enc16 Big (th_dest t)" and ?q = "enc32 Big (th_seq t)"
    and ?a = "enc32 Big (th_ack_seq t)"
  have e: "d = pre @ ?s @ ?d @ ?q @ ?a @ [0x50, th_flags t] @ enc16 Big (th_window t) @ enc16 Big chk @ [0, 0] @ rest"
    using assms by (simp add: tcp_bytes_def)
  have "field16 Big off d = Inr (th_source t)"
    unfolding e by (rule field16_at) (simp add: assms(2))
  moreover have "field16 Big (off + 2) d = Inr (th_dest t)"
    using field16_at [of "off + 2" "pre @ ?s" Big "th_dest t"] by (simp add: e assms(2))
  moreover have "field32 Big (off + 4) d = Inr (th_seq t)"
    using field32_at [of "off + 4" "pre @ ?s @ ?d" Big "th_seq t"] by (simp add: e assms(2))
  moreover have "field32 Big (off + 8) d = Inr (th_ack_seq t)"
    using field32_at [of "off + 8" "pre @ ?s @ ?d @ ?q" Big "th_ack_seq t"] by (simp add: e assms(2))
  moreover have "rdb d (off + 12) = Inr 0x50"
    using rdb_at [of "off + 12" "pre @ ?s @ ?d @ ?q @ ?a" "0x50"] by (simp add: e assms(2))
  moreover have "rdb d (off + 13) = Inr (th_flags t)"
    using rdb_at [of "off + 13" "pre @ ?s @ ?d @ ?q @ ?a @ [0x50]" "th_flags t"] by (simp add: e assms(2))
  moreover have "field16 Big (off + 14) d = Inr (th_window t)"
    using field16_at [of "off + 14" "pre @ ?s @ ?d @ ?q @ ?a @ [0x50, th_flags t]" Big "th_window t"]
    by (simp add: e assms(2))
  ultimately show ?thesis using assms(1) by (cases t) (simp add: tcp_hdr_at_def)
qed

subsection \<open>The packets that are sent\<close>

lemma push_headers_ok:
  assumes "nb_head_room s = 54" "length eth = 14" "unat (ip_tot_len h) = 40 + length (nb_bytes s)"
  shows "\<exists>s' c1 c2. push_headers en k t h ident eth s = Inr s'
    \<and> nb_bytes s' = eth @ ip_bytes en h ident 0x0040 c1 @ tcp_bytes t c2 @ nb_bytes s"
  using assms by (auto simp: push_headers_def skb_push_def Let_def)

text \<open>What a receiver reads from a transmitted packet.\<close>

definition raw_ip :: "bytes \<Rightarrow> sk_buff" where
  "raw_ip d = \<lparr>skb_mac = [], skb_data = d, skb_len = of_nat (length d), skb_dev = None, skb_iif = 0\<rparr>"

definition packet_reads :: "bytes \<Rightarrow> bytes \<Rightarrow> iphdr \<Rightarrow> tcphdr \<Rightarrow> bytes \<Rightarrow> bool" where
  "packet_reads p eth h t payload \<longleftrightarrow> take 14 p = eth \<and> ip_hdr (raw_ip (drop 14 p)) = Inr h
     \<and> tcp_hdr_at (drop 14 p) 20 = Inr t \<and> drop 54 p = payload"

lemma packet_reads_built:
  fixes y :: u8
  assumes "length eth = 14" "ip_ihl h = 5" "ip_version h = unat (drop_bit 4 y)" "th_doff t = 5"
  shows "packet_reads (eth @ ip_bytes en h ident fo c1 @ tcp_bytes t c2 @ payload) eth h t payload"
proof -
  have "ip_hdr (raw_ip (ip_bytes en h ident fo c1 @ tcp_bytes t c2 @ payload)) = Inr h"
    by (rule ip_hdr_bytes [OF assms(2,3)]) (simp add: raw_ip_def)
  moreover have "tcp_hdr_at (ip_bytes en h ident fo c1 @ tcp_bytes t c2 @ payload) 20 = Inr t"
    by (rule tcp_hdr_bytes [OF assms(4), where pre = "ip_bytes en h ident fo c1"]) simp_all
  ultimately show ?thesis using assms(1) by (simp add: packet_reads_def)
qed

lemma ip_hdr_version: "ip_hdr skb = Inr h \<Longrightarrow> \<exists>y :: u8. ip_version h = unat (drop_bit 4 y)"
  by (auto simp: ip_hdr_def bindR_eq_Inr)

lemma auth_http_packet:
  assumes h: "ip_hdr skb = Inr h" and t: "tcp_hdr_at (skb_data skb) (4 * ip_ihl h) = Inr t"
    and "14 \<le> length (skb_mac skb)" "40 + length url < 65536"
  shows "\<exists>p. auth_http en k True url skb = Inr (0, Some p) \<and> packet_reads p
      (eth_source (skb_mac skb) @ eth_dest (skb_mac skb) @ enc16 Big 0x0800)
      \<lparr>ip_ihl = 5, ip_version = ip_version h, ip_tot_len = of_nat (40 + length url), ip_protocol = ip_protocol h,
       ip_saddr = ip_daddr h, ip_daddr = ip_saddr h\<rparr>
      \<lparr>th_source = th_dest t, th_dest = th_source t, th_seq = th_ack_seq t,
       th_ack_seq = th_seq t + of_nat (unat (ip_tot_len h)) - of_nat (4 * ip_ihl h) - of_nat (4 * th_doff t),
       th_doff = 5, th_flags = 0x19, th_window = 65535\<rparr> url" (is "\<exists>p. _ \<and> packet_reads p ?eth ?h ?t url")
proof -
  obtain y :: u8 where y: "ip_version h = unat (drop_bit 4 y)" using ip_hdr_version [OF h] by blast
  have e: "length ?eth = 14" using assms(3) by (simp add: eth_source_def eth_dest_def)
  let ?s = "\<lparr>nb_head_room = 54, nb_bytes = url, nb_tail_room = 0\<rparr>"
  have put: "skb_put url (skb_reserve 54 (alloc_skb (54 + length url))) = Inr ?s"
    by (simp add: skb_put_def skb_reserve_def alloc_skb_def)
  have mac: "mem_read 0 12 (skb_mac skb) = Inr (take 12 (skb_mac skb))"
    "eth_source (take 12 (skb_mac skb)) = eth_source (skb_mac skb)" "eth_dest (take 12 (skb_mac skb)) = eth_dest (skb_mac skb)"
    using assms(3) by (simp_all add: mem_read_def window_def eth_source_def eth_dest_def drop_take min_def)
  have len: "unat (ip_tot_len ?h) = 40 + length (nb_bytes ?s)" using assms(4) by (simp add: unat_of_nat16 del: of_nat_add)
  obtain s' c1 c2 where s': "push_headers en k ?t ?h 0x2658 ?eth ?s = Inr s'"
    "nb_bytes s' = ?eth @ ip_bytes en ?h 0x2658 0x0040 c1 @ tcp_bytes ?t c2 @ url"
    using push_headers_ok [OF _ e len] by fastforce
  have "auth_http en k True url skb = Inr (0, Some (nb_bytes s'))"
    using h t put mac s'(1) by (simp add: auth_http_def Let_def)
  moreover have "packet_reads (nb_bytes s') ?eth ?h ?t url"
    unfolding s'(2) by (rule packet_reads_built [OF e, of _ y]) (simp_all add: y)
  ultimately show ?thesis by blast
qed

lemma auth_reset_packet:
  assumes h: "ip_hdr skb = Inr h" and t: "tcp_hdr_at (skb_data skb) (4 * ip_ihl h) = Inr t"
    and "14 \<le> length (skb_mac skb)"
  shows "\<exists>p. auth_reset en k True skb = Inr (0, Some p) \<and> packet_reads p (take 14 (skb_mac skb))
      \<lparr>ip_ihl = 5, ip_version = ip_version h, ip_tot_len = 40, ip_protocol = ip_protocol h,
       ip_saddr = ip_saddr h, ip_daddr = ip_daddr h\<rparr>
      \<lparr>th_source = th_source t, th_dest = th_dest t, th_seq = th_seq t, th_ack_seq = th_ack_seq t,
       th_doff = 5, th_flags = 4 OR (th_flags t AND 16), th_window = 0\<rparr> []" (is "\<exists>p. _ \<and> packet_reads p ?eth ?h ?t []")
proof -
  obtain y :: u8 where y: "ip_version h = unat (drop_bit 4 y)" using ip_hdr_version [OF h] by blast
  have e: "length ?eth = 14" using assms(3) by simp
  let ?s = "\<lparr>nb_head_room = 54, nb_bytes = [], nb_tail_room = 0\<rparr>"
  have res: "skb_reserve 54 (alloc_skb 54) = ?s" by (simp add: skb_reserve_def alloc_skb_def)
  have mac: "mem_read 0 14 (skb_mac skb) = Inr ?eth" using assms(3) by (simp add: mem_read_def window_def)
  have len: "unat (ip_tot_len ?h) = 40 + length (nb_bytes ?s)" by simp
  obtain s' c1 c2 where s': "push_headers en k ?t ?h 0 ?eth ?s = Inr s'"
    "nb_bytes s' = ?eth @ ip_bytes en ?h 0 0x0040 c1 @ tcp_bytes ?t c2 @ []"
    using push_headers_ok [OF _ e len] by fastforce
  have "auth_reset en k True skb = Inr (0, Some (nb_bytes s'))"
    using h t res mac s'(1) by (simp add: auth_reset_def Let_def)
  moreover have "packet_reads (nb_bytes s') ?eth ?h ?t []"
    unfolding s'(2) by (rule packet_reads_built [OF e, of _ y]) (simp_all add: y)
  ultimately show ?thesis by blast
qed

lemma redirect_text_fits:
  assumes "length (dev_name dev) < IFNAMSIZ"
  shows "length (sprint http_redir_fmt (redirect_args ui dev)) < redirect_len" "redirect_len < 65536 - 40"
    "0 < length (sprint http_redir_fmt (redirect_args ui dev))"
  using assms dec_str_u32 [of "ui_id ui"] dec_str_u32 [of "ui_magic ui"]
  by (simp_all add: http_redir_fmt_def URL_STR_FMT_def redirect_args_def redirect_len_def snprintf_def Let_def)


text \<open>
  C13.  What \<open>ntrack_redirect\<close> sends.  For a TCP packet with its headers and an interface name
  of legal length the text fits the buffer, nothing panics, and two packets leave: on the
  input interface an answer to the sender, with addresses and ports swapped, that
  acknowledges exactly the payload of the packet (modulo \<open>2 ^ 32\<close>), carries the whole
  redirection text and closes the connection; on the output interface a reset of the same
  connection in the original direction.
\<close>

theorem ntrack_redirect_packets:
  assumes "ip_hdr skb = Inr h" "tcp_hdr_at (skb_data skb) (4 * ip_ihl h) = Inr t" "14 \<le> length (skb_mac skb)"
    and "length (dev_name in_dev) < IFNAMSIZ"
  shows "\<exists>p1 p2. ntrack_redirect en k True True True ui skb in_dev (Some out_dev)
       = Inr [(dev_index in_dev, p1), (dev_index out_dev, p2)]
    \<and> packet_reads p1 (eth_source (skb_mac skb) @ eth_dest (skb_mac skb) @ enc16 Big 0x0800)
      \<lparr>ip_ihl = 5, ip_version = ip_version h,
       ip_tot_len = of_nat (40 + length (sprint http_redir_fmt (redirect_args ui in_dev))), ip_protocol = ip_protocol h,
       ip_saddr = ip_daddr h, ip_daddr = ip_saddr h\<rparr>
      \<lparr>th_source = th_dest t, th_dest = th_source t, th_seq = th_ack_seq t,
       th_ack_seq = th_seq t + of_nat (unat (ip_tot_len h)) - of_nat (4 * ip_ihl h) - of_nat (4 * th_doff t),
       th_doff = 5, th_flags = 0x19, th_window = 65535\<rparr>
      (bytes_of (sprint http_redir_fmt (redirect_args ui in_dev)))
    \<and> packet_reads p2 (take 14 (skb_mac skb))
      \<lparr>ip_ihl = 5, ip_version = ip_version h, ip_tot_len = 40, ip_protocol = ip_protocol h,
       ip_saddr = ip_saddr h, ip_daddr = ip_daddr h\<rparr>
      \<lparr>th_source = th_source t, th_dest = th_dest t, th_seq = th_seq t, th_ack_seq = th_ack_seq t,
       th_doff = 5, th_flags = 4 OR (th_flags t AND 16), th_window = 0\<rparr> []"
proof -
  let ?s = "sprint http_redir_fmt (redirect_args ui in_dev)"
  note fits = redirect_text_fits(1) [OF assms(4), of ui] redirect_text_fits(2) [OF assms(4)]
    redirect_text_fits(3) [OF assms(4), of ui]
  have sn: "snprintf redirect_len http_redir_fmt (redirect_args ui in_dev) = (?s, length ?s)"
    using fits(1) by (simp add: snprintf_def Let_def)
  have url: "take (length ?s) (bytes_of ?s @ [0]) = bytes_of ?s" by (simp add: bytes_of_def)
  have len: "40 + length (bytes_of ?s) < 65536" "length (bytes_of ?s) = length ?s"
    using fits by (simp_all add: bytes_of_def)
  have as: "?s \<noteq> []" "length ?s \<le> redirect_len" using fits by simp_all
  from auth_http_packet [OF assms(1-3) len(1), of en k] auth_reset_packet [OF assms(1-3), of en k]
  show ?thesis by (auto simp: ntrack_redirect_def sn url as len(2) Let_def)
qed

definition demo_get :: sk_buff where
  "demo_get = (demo_tcp [71, 69, 84, 32])\<lparr>skb_mac := replicate 14 0\<rparr>"

theorem ntrack_redirect_packets_witness:
  "\<exists>p1 p2. ntrack_redirect Little \<lparr>ip_csum = \<lambda>_. 0, tcp_csum = \<lambda>_ _ _. 0\<rparr> True True True
      \<lparr>ui_hdr = \<lparr>hdr_flags = 0, hdr_time_stamp = 0, hdr_group_id = 0, hdr_rule_idx = 0, hdr_rule_magic = 0\<rparr>,
       ui_id = 7, ui_magic = 2, ui_ip = 1\<rparr> demo_get \<lparr>dev_index = 1, dev_name = ''br-lan''\<rparr>
      (Some \<lparr>dev_index = 2, dev_name = ''eth0''\<rparr>) = Inr [(1, p1), (2, p2)]"
proof -
  have h: "ip_hdr demo_get = Inr \<lparr>ip_ihl = 5, ip_version = 4, ip_tot_len = 0, ip_protocol = 6, ip_saddr = 0, ip_daddr = 0\<rparr>"
    by code_simp
  have "tcp_hdr_at (skb_data demo_get) (4 * ip_ihl \<lparr>ip_ihl = 5, ip_version = 4, ip_tot_len = 0, ip_protocol = 6, ip_saddr = 0, ip_daddr = 0\<rparr>)
      = Inr \<lparr>th_source = 0, th_dest = 0, th_seq = 0, th_ack_seq = 0, th_doff = 5, th_flags = 0, th_window = 0\<rparr>"
    by code_simp
  moreover have "14 \<le> length (skb_mac demo_get)" by (simp add: demo_get_def)
  ultimately show ?thesis
    using ntrack_redirect_packets [OF h, of _ "\<lparr>dev_index = 1, dev_name = ''br-lan''\<rparr>" Little
        "\<lparr>ip_csum = \<lambda>_. 0, tcp_csum = \<lambda>_ _ _. 0\<rparr>"
        "\<lparr>ui_hdr = \<lparr>hdr_flags = 0, hdr_time_stamp = 0, hdr_group_id = 0, hdr_rule_idx = 0, hdr_rule_magic = 0\<rparr>,
         ui_id = 7, ui_magic = 2, ui_ip = 1\<rparr>" "\<lparr>dev_index = 2, dev_name = ''eth0''\<rparr>"]
    by fastforce
qed

end
