(* ===== verification/MsgQueue.thy ===== *)
theory MsgQueue
  imports RingBuffer Bytes
begin

text \<open>
  The kernel message queue of \<open>drivers/nos_track/src/ntrack_msg.c\<close> with the message header
  of \<open>include/src/ntrack_msg.h\<close>.  Each CPU has a list of allocated nodes, a counter, a work
  item and a ring; \<open>nmsg_enqueue\<close> puts a node on the list of the CPU its key selects and
  raises the work item, whose function moves nodes into the ring until the list is empty.

  \<open>kmalloc\<close> is a parameter: \<open>None\<close> when it fails, otherwise a node with arbitrary
  (uninitialised) contents.  \<open>nr_cpu_ids\<close>, the shared memory area and the work queue belong
  to the kernel.  The list is shown to be drained completely and in a bounded number of
  rounds into the ring's bounded queue, newest node first, and overflowing nodes dropped.
\<close>

subsection \<open>The message header\<close>

abbreviation (input) en_MSG_t_PCAP :: u16 where "en_MSG_t_PCAP \<equiv> 1"
abbreviation (input) en_MSG_t_NODE :: u16 where "en_MSG_t_NODE \<equiv> 2"
abbreviation (input) en_MSG_t_AUTH :: u16 where "en_MSG_t_AUTH \<equiv> 3"

record nmsg_hdr_t =
  msg_type :: u16
  msg_prio :: u16
  msg_data_len :: u16
  msg_crc :: u16

abbreviation (input) sizeof_nmsg_hdr_t :: nat where "sizeof_nmsg_hdr_t \<equiv> 8"

text \<open>The header as it lies in memory, and as it is read through a pointer.\<close>

definition nmsg_hdr_bytes :: "endian \<Rightarrow> nmsg_hdr_t \<Rightarrow> bytes" where
  "nmsg_hdr_bytes en h =
     enc16 en (msg_type h) @ enc16 en (msg_prio h) @ enc16 en (msg_data_len h) @ enc16 en (msg_crc h)"

definition nmsg_hdr_at :: "endian \<Rightarrow> bytes \<Rightarrow> nmsg_hdr_t result" where
  "nmsg_hdr_at en p =
     bindR (field16 en 0 p) (\<lambda>t. bindR (field16 en 2 p) (\<lambda>pr.
     bindR (field16 en 4 p) (\<lambda>dl. bindR (field16 en 6 p) (\<lambda>c.
       Inr \<lparr>msg_type = t, msg_prio = pr, msg_data_len = dl, msg_crc = c\<rparr>))))"

text \<open>\<open>nmsg_data\<close>: the bytes behind the header.\<close>

definition nmsg_data :: "bytes \<Rightarrow> bytes" where
  "nmsg_data p = drop sizeof_nmsg_hdr_t p"

definition nmsg_hdr_init :: "int \<Rightarrow> u16 \<Rightarrow> nmsg_hdr_t" where
  "nmsg_hdr_init type' data_len' =
     \<lparr>msg_type = of_int type', msg_prio = 0, msg_data_len = data_len', msg_crc = 0\<rparr>"

lemma length_nmsg_hdr_bytes [simp]: "length (nmsg_hdr_bytes en h) = sizeof_nmsg_hdr_t"
  by (simp add: nmsg_hdr_bytes_def)

lemma nmsg_hdr_roundtrip: "nmsg_hdr_at en (nmsg_hdr_bytes en h @ rest) = Inr h"
proof -
  let ?e = "enc16 en"
  let ?b = "nmsg_hdr_bytes en h @ rest"
  have "field16 en 0 ?b = Inr (msg_type h)"
    using field16_at [of 0 "[]" en "msg_type h"] by (simp add: nmsg_hdr_bytes_def)
  moreover have "field16 en 2 ?b = Inr (msg_prio h)"
    using field16_at [of 2 "?e (msg_type h)" en "msg_prio h"] by (simp add: nmsg_hdr_bytes_def)
  moreover have "field16 en 4 ?b = Inr (msg_data_len h)"
    using field16_at [of 4 "?e (msg_type h) @ ?e (msg_prio h)" en "msg_data_len h"]
    by (simp add: nmsg_hdr_bytes_def)
  moreover have "field16 en 6 ?b = Inr (msg_crc h)"
    using field16_at [of 6 "?e (msg_type h) @ ?e (msg_prio h) @ ?e (msg_data_len h)" en "msg_crc h"]
    by (simp add: nmsg_hdr_bytes_def)
  ultimately show ?thesis by (simp add: nmsg_hdr_at_def)
qed

subsection \<open>Nodes and per-CPU queues\<close>

abbreviation (input) NCAP_MAX_COUNT :: nat where "NCAP_MAX_COUNT \<equiv> 2048"

record nmsg_node_t =
  node_buff_size :: u32
  node_buff :: bytes

record nmsg_cpu_t =
  cpu_list :: "nmsg_node_t list"
  cpu_count :: u64
  cpu_wq_msg :: bool
  cpu_rbfp :: rbf_t

text \<open>The work queue pointer: null, a live queue, or the stale pointer to a destroyed one.\<close>

datatype wq_ptr = Wq_null | Wq_live | Wq_destroyed

record nmsg_state =
  nmsg_wq :: wq_ptr
  nmsg_cpus :: "nmsg_cpu_t list"
  nt_cap_block_sz :: u32

definition nmsg_target_cpu :: "nmsg_state \<Rightarrow> nat \<Rightarrow> nmsg_cpu_t result" where
  "nmsg_target_cpu st cpu =
     (if cpu < length (nmsg_cpus st) then Inr (nmsg_cpus st ! cpu) else Inl Out_of_bounds)"

definition set_cpu :: "nmsg_state \<Rightarrow> nat \<Rightarrow> nmsg_cpu_t \<Rightarrow> nmsg_state" where
  "set_cpu st cpu q = st\<lparr>nmsg_cpus := (nmsg_cpus st)[cpu := q]\<rparr>"

definition KEY_TO_CORE :: "nat \<Rightarrow> u32 \<Rightarrow> nat result" where
  "KEY_TO_CORE nr_cpu_ids k = (if nr_cpu_ids = 0 then Inl Div_by_zero else Inr (unat k mod nr_cpu_ids))"

text \<open>The block of a zeroed area that a ring is laid over: a zero header and zero bytes.\<close>

definition zeroed_block :: "nat \<Rightarrow> rbf_t" where
  "zeroed_block n = \<lparr>hdr = \<lparr>hdr_r = 0, hdr_w = 0, hdr_size = 0, hdr_count = 0, hdr_pad = 0\<rparr>,
     buffer = replicate (n - 12) 0\<rparr>"

definition nmsg_init_cpu :: "u32 \<Rightarrow> nmsg_cpu_t" where
  "nmsg_init_cpu size' =
     \<lparr>cpu_list = [], cpu_count = 0, cpu_wq_msg = True,
      cpu_rbfp = rbf_init (zeroed_block (unat size')) size'\<rparr>"

text \<open>
  \<open>nmsg_init\<close>: \<open>cap_base\<close> says whether the shared area exists, \<open>cap_size\<close> is its size,
  \<open>wq_alloc\<close> whether \<open>alloc_workqueue\<close> succeeds.  The entries of \<open>nmsg_cpus\<close> from
  \<open>nr_cpu_ids\<close> on keep their static contents.
\<close>

definition nmsg_init :: "nat \<Rightarrow> bool \<Rightarrow> u32 \<Rightarrow> bool \<Rightarrow> nmsg_state \<Rightarrow> (int \<times> nmsg_state) result" where
  "nmsg_init nr_cpu_ids cap_base cap_size wq_alloc st =
     bindR (assertR cap_base) (\<lambda>_.
     if nr_cpu_ids = 0 then Inl Div_by_zero else
     bindR (assertR (unat cap_size div nr_cpu_ids \<ge> RBF_NODE_SIZE * 32)) (\<lambda>_.
     if \<not> wq_alloc then Inr (- ENOMEM, st\<lparr>nmsg_wq := Wq_null\<rparr>)
     else if length (nmsg_cpus st) < nr_cpu_ids then Inl Out_of_bounds
     else let size' = of_nat (unat cap_size div nr_cpu_ids)
       in Inr (0, st\<lparr>nmsg_wq := Wq_live,
            nmsg_cpus := replicate nr_cpu_ids (nmsg_init_cpu size') @ drop nr_cpu_ids (nmsg_cpus st),
            nt_cap_block_sz := size'\<rparr>)))"

text \<open>
  \<open>nmsg_enqueue\<close> in the source's two halves: the node goes on the list (and is visible to
  the worker) under the lock, and is filled after the lock is released.
\<close>

definition nmsg_link :: "nmsg_cpu_t \<Rightarrow> nmsg_node_t \<Rightarrow> nmsg_cpu_t" where
  "nmsg_link q node = q\<lparr>cpu_count := cpu_count q + 1, cpu_list := node # cpu_list q\<rparr>"

definition nmsg_fill_node :: "endian \<Rightarrow> nmsg_node_t \<Rightarrow> nmsg_hdr_t \<Rightarrow> bytes \<Rightarrow> nmsg_node_t result" where
  "nmsg_fill_node en node hdr' buf_in =
     (let size' = unat (msg_data_len hdr') in
      bindR (mem_write 0 (nmsg_hdr_bytes en hdr') (node_buff node)) (\<lambda>b1.
      bindR (mem_read 0 size' buf_in) (\<lambda>src.
      bindR (mem_write sizeof_nmsg_hdr_t src b1) (\<lambda>b2.
        Inr (node\<lparr>node_buff_size := of_nat (size' + sizeof_nmsg_hdr_t), node_buff := b2\<rparr>)))))"

definition nmsg_enqueue ::
  "endian \<Rightarrow> nat \<Rightarrow> nmsg_node_t option \<Rightarrow> nmsg_hdr_t \<Rightarrow> bytes \<Rightarrow> u32 \<Rightarrow> nmsg_state
   \<Rightarrow> (int \<times> nmsg_state) result" where
  "nmsg_enqueue en nr_cpu_ids kmalloc_node hdr' buf_in key st =
     (let size' = unat (msg_data_len hdr') in
      bindR (KEY_TO_CORE nr_cpu_ids key) (\<lambda>core.
      bindR (nmsg_target_cpu st core) (\<lambda>cur_msgq.
        if unat (cpu_count cur_msgq) > NCAP_MAX_COUNT then Inr (- ENOMEM, st)
        else if size' + sizeof_nmsg_hdr_t > RBF_NODE_SIZE then Inr (- EINVAL, st)
        else case kmalloc_node of
            None \<Rightarrow> Inr (- ENOMEM, st)
          | Some node \<Rightarrow>
              let linked = nmsg_link cur_msgq node in
              bindR (nmsg_fill_node en node hdr' buf_in) (\<lambda>filled.
                if nmsg_wq st = Wq_null then Inl Null_deref
                else if nmsg_wq st = Wq_destroyed then Inl Use_after_free
                else Inr (0, set_cpu st core
                  (linked\<lparr>cpu_list := filled # tl (cpu_list linked), cpu_wq_msg := True\<rparr>))))))"

text \<open>
  The same statements in two steps, for what can happen in between.  \<open>nmsg_enqueue_link\<close> ends where
  the lock is released; \<open>nmsg_enqueue_fill\<close> is the rest.  The node is known by the number \<open>p\<close> of nodes
  behind it, which stays the same as long as it is on the list: nodes come and go in front.
\<close>

definition nmsg_enqueue_link ::
  "nat \<Rightarrow> nmsg_node_t option \<Rightarrow> nmsg_hdr_t \<Rightarrow> u32 \<Rightarrow> nmsg_state \<Rightarrow> (int \<times> nmsg_state) result" where
  "nmsg_enqueue_link nr_cpu_ids kmalloc_node hdr' key st =
     bindR (KEY_TO_CORE nr_cpu_ids key) (\<lambda>core.
     bindR (nmsg_target_cpu st core) (\<lambda>cur_msgq.
       if unat (cpu_count cur_msgq) > NCAP_MAX_COUNT then Inr (- ENOMEM, st)
       else if unat (msg_data_len hdr') + sizeof_nmsg_hdr_t > RBF_NODE_SIZE then Inr (- EINVAL, st)
       else case kmalloc_node of
           None \<Rightarrow> Inr (- ENOMEM, st)
         | Some node \<Rightarrow> Inr (0, set_cpu st core (nmsg_link cur_msgq node))))"

definition nmsg_enqueue_fill ::
  "endian \<Rightarrow> nmsg_hdr_t \<Rightarrow> bytes \<Rightarrow> nat \<Rightarrow> nat \<Rightarrow> nmsg_state \<Rightarrow> nmsg_state result" where
  "nmsg_enqueue_fill en hdr' buf_in core p st =
     bindR (nmsg_target_cpu st core) (\<lambda>q.
       let i = length (cpu_list q) - Suc p in
       if length (cpu_list q) \<le> p then Inl Use_after_free
       else bindR (nmsg_fill_node en (cpu_list q ! i) hdr' buf_in) (\<lambda>filled.
         if nmsg_wq st = Wq_null then Inl Null_deref
         else if nmsg_wq st = Wq_destroyed then Inl Use_after_free
         else Inr (set_cpu st core (q\<lparr>cpu_list := (cpu_list q)[i := filled], cpu_wq_msg := True\<rparr>))))"

lemma nmsg_enqueue_split:
  "nmsg_enqueue en nr node h b key st =
     bindR (nmsg_enqueue_link nr node h key st) (\<lambda>(r, st1).
       if r \<noteq> 0 then Inr (r, st1)
       else bindR (KEY_TO_CORE nr key) (\<lambda>core.
         bindR (nmsg_enqueue_fill en h b core (length (cpu_list (nmsg_cpus st ! core))) st1) (\<lambda>st2. Inr (0, st2))))"
proof (cases "nr = 0 \<or> length (nmsg_cpus st) \<le> unat key mod nr")
  case True
  then show ?thesis by (auto simp: nmsg_enqueue_def nmsg_enqueue_link_def KEY_TO_CORE_def nmsg_target_cpu_def)
next
  case False
  then show ?thesis
    by (auto simp: nmsg_enqueue_def nmsg_enqueue_link_def nmsg_enqueue_fill_def KEY_TO_CORE_def nmsg_target_cpu_def nmsg_link_def
        set_cpu_def Let_def bindR_assoc if_distrib [of "\<lambda>r. bindR r _"] split: option.split cong: if_cong)
qed

definition nmsg_fill_buffer :: "rbf_t \<Rightarrow> nmsg_node_t \<Rightarrow> (int \<times> rbf_t) result" where
  "nmsg_fill_buffer rbfp node =
     bindR (rbf_get_buff rbfp) (\<lambda>p. case p of
        None \<Rightarrow> Inr (- ENOMEM, rbfp)
      | Some off \<Rightarrow>
          bindR (mem_read 0 (unat (node_buff_size node)) (node_buff node)) (\<lambda>src.
          bindR (rbf_write rbfp off src) (\<lambda>rb1.
          bindR (rbf_release_buff rb1) (\<lambda>rb2. Inr (0, rb2)))))"

text \<open>\<open>nmsg_dequeue\<close> ignores the result of \<open>nmsg_fill_buffer\<close>: a node that finds no room is freed.\<close>

definition nmsg_dequeue :: "nmsg_cpu_t \<Rightarrow> (int \<times> nmsg_cpu_t) result" where
  "nmsg_dequeue cur_msgq =
     (case cpu_list cur_msgq of
        [] \<Rightarrow> Inr (- 1, cur_msgq)
      | node # rest \<Rightarrow>
          bindR (nmsg_fill_buffer (cpu_rbfp cur_msgq) node) (\<lambda>(_, rb).
            Inr (0, cur_msgq\<lparr>cpu_rbfp := rb, cpu_count := cpu_count cur_msgq - 1, cpu_list := rest\<rparr>)))"

lemma nmsg_dequeue_shrinks:
  "nmsg_dequeue q = Inr (0, q') \<Longrightarrow> length (cpu_list q') < length (cpu_list q)"
  by (auto simp: nmsg_dequeue_def bindR_eq_Inr split: list.splits)

function nmsg_wq_dequeue_loop :: "nat \<Rightarrow> nmsg_cpu_t \<Rightarrow> (nat \<times> nmsg_cpu_t) result" where
  "nmsg_wq_dequeue_loop count q =
     (case nmsg_dequeue q of
        Inl f \<Rightarrow> Inl f
      | Inr (ret, q') \<Rightarrow> if ret = 0 then nmsg_wq_dequeue_loop (count + 1) q' else Inr (count, q'))"
  by pat_completeness auto
termination
  by (relation "measure (\<lambda>(count, q). length (cpu_list q))") (auto dest: nmsg_dequeue_shrinks)

declare nmsg_wq_dequeue_loop.simps [simp del]

text \<open>The work function, run on \<open>cpu\<close> (\<open>smp_processor_id\<close>); its work item is no longer pending.\<close>

definition nmsg_wq_dequeue_func :: "nat \<Rightarrow> nmsg_state \<Rightarrow> nmsg_state result" where
  "nmsg_wq_dequeue_func cpu st =
     bindR (nmsg_target_cpu st cpu) (\<lambda>q.
     bindR (nmsg_wq_dequeue_loop 0 (q\<lparr>cpu_wq_msg := False\<rparr>)) (\<lambda>(count, q').
       Inr (set_cpu st cpu q')))"

text \<open>
  \<open>nmsg_cleanup\<close>: \<open>destroy_workqueue\<close> completes the pending work items before it frees the
  queue; the pointer itself is not reset.
\<close>

fun nmsg_run_pending :: "nat list \<Rightarrow> nmsg_state \<Rightarrow> nmsg_state result" where
  "nmsg_run_pending [] st = Inr st"
| "nmsg_run_pending (cpu # cpus) st =
     bindR (nmsg_target_cpu st cpu) (\<lambda>q.
     bindR (if cpu_wq_msg q then nmsg_wq_dequeue_func cpu st else Inr st) (nmsg_run_pending cpus))"

definition nmsg_cleanup :: "nmsg_state \<Rightarrow> nmsg_state result" where
  "nmsg_cleanup st =
     (case nmsg_wq st of
        Wq_null \<Rightarrow> Inr st
      | Wq_destroyed \<Rightarrow> Inl Use_after_free
      | Wq_live \<Rightarrow> bindR (nmsg_run_pending [0..<length (nmsg_cpus st)] st)
          (\<lambda>st'. Inr (st'\<lparr>nmsg_wq := Wq_destroyed\<rparr>)))"

subsection \<open>Invariants\<close>

definition node_ok :: "nmsg_node_t \<Rightarrow> bool" where
  "node_ok n \<longleftrightarrow> length (node_buff n) = RBF_NODE_SIZE \<and> unat (node_buff_size n) \<le> RBF_NODE_SIZE"

definition node_bytes :: "nmsg_node_t \<Rightarrow> bytes" where
  "node_bytes n = take (unat (node_buff_size n)) (node_buff n)"

definition nmsg_cpu_ok :: "nmsg_cpu_t \<Rightarrow> bool" where
  "nmsg_cpu_ok q \<longleftrightarrow> rbf_ok (cpu_rbfp q) \<and> unat (cpu_count q) = length (cpu_list q)
     \<and> length (cpu_list q) \<le> NCAP_MAX_COUNT + 1 \<and> (\<forall>n \<in> set (cpu_list q). node_ok n)"

definition nmsg_ok :: "nat \<Rightarrow> nmsg_state \<Rightarrow> bool" where
  "nmsg_ok nr_cpu_ids st \<longleftrightarrow> 0 < nr_cpu_ids \<and> nr_cpu_ids \<le> length (nmsg_cpus st) \<and> nmsg_wq st = Wq_live
     \<and> (\<forall>i < nr_cpu_ids. nmsg_cpu_ok (nmsg_cpus st ! i))"

lemma length_node_bytes: "node_ok n \<Longrightarrow> length (node_bytes n) = unat (node_buff_size n)"
  by (simp add: node_ok_def node_bytes_def)

lemma node_bytes_le: "node_ok n \<Longrightarrow> length (node_bytes n) \<le> RBF_NODE_SIZE"
  by (simp add: length_node_bytes) (simp add: node_ok_def)

text \<open>Filling a node leaves header and payload as its leading bytes.\<close>

lemma nmsg_fill_node_ok:
  assumes "length (node_buff n) = RBF_NODE_SIZE" "unat (msg_data_len h) + 8 \<le> RBF_NODE_SIZE"
    and "unat (msg_data_len h) \<le> length buf"
  obtains n' where "nmsg_fill_node en n h buf = Inr n'" "node_ok n'"
    "node_bytes n' = nmsg_hdr_bytes en h @ take (unat (msg_data_len h)) buf"
proof -
  let ?len = "unat (msg_data_len h)"
  let ?src = "take ?len buf"
  let ?b2 = "nmsg_hdr_bytes en h @ ?src @ drop (8 + ?len) (node_buff n)"
  have w: "overlay 8 ?src (overlay 0 (nmsg_hdr_bytes en h) (node_buff n)) = ?b2"
    using assms by (simp add: overlay_def add.commute)
  have "?len + 8 < 4294967296" using assms(2) by simp
  then have sz: "unat (of_nat (?len + 8) :: u32) = ?len + 8" by (rule unat_of_nat32)
  have eq: "nmsg_fill_node en n h buf =
      Inr (n\<lparr>node_buff_size := of_nat (?len + 8), node_buff := ?b2\<rparr>)"
    using assms w by (simp add: nmsg_fill_node_def Let_def mem_write_def mem_read_def window_def)
  show thesis
    by (rule that [OF eq])
      (use assms sz in \<open>simp_all add: node_ok_def node_bytes_def del: of_nat_add\<close>)
qed

subsection \<open>Enqueue\<close>

lemma unat_count_inc: "unat (c :: u64) \<le> NCAP_MAX_COUNT \<Longrightarrow> unat (c + 1) = Suc (unat c)"
  by (simp add: unat_word_ariths)

lemma unat_count_dec: "0 < unat (c :: u64) \<Longrightarrow> unat (c - 1) = unat c - 1"
  by (metis unat_gt_0 unat_minus_one)

lemma nmsg_enqueue_accepts:
  assumes "nmsg_ok nr st" "unat (cpu_count (nmsg_cpus st ! (unat key mod nr))) \<le> NCAP_MAX_COUNT"
    and "unat (msg_data_len h) + 8 \<le> RBF_NODE_SIZE" "unat (msg_data_len h) \<le> length buf"
    and "length (node_buff node) = RBF_NODE_SIZE"
  obtains n' where
    "nmsg_enqueue en nr (Some node) h buf key st =
      Inr (0, set_cpu st (unat key mod nr) ((nmsg_cpus st ! (unat key mod nr))
        \<lparr>cpu_count := cpu_count (nmsg_cpus st ! (unat key mod nr)) + 1,
         cpu_list := n' # cpu_list (nmsg_cpus st ! (unat key mod nr)), cpu_wq_msg := True\<rparr>))"
    "node_ok n'" "node_bytes n' = nmsg_hdr_bytes en h @ take (unat (msg_data_len h)) buf"
proof -
  have core: "unat key mod nr < length (nmsg_cpus st)"
    using assms(1) by (metis nmsg_ok_def mod_less_divisor order_less_le_trans)
  obtain n' where "nmsg_fill_node en node h buf = Inr n'" "node_ok n'"
    "node_bytes n' = nmsg_hdr_bytes en h @ take (unat (msg_data_len h)) buf"
    using nmsg_fill_node_ok [OF assms(5,3,4)] .
  then show thesis
    using assms core
    by (intro that [of n'])
      (simp_all add: nmsg_enqueue_def KEY_TO_CORE_def nmsg_target_cpu_def nmsg_link_def nmsg_ok_def Let_def)
qed

lemma set_cpu_ok:
  assumes "nmsg_ok nr st" "nmsg_cpu_ok q"
  shows "nmsg_ok nr (set_cpu st i q)"
proof -
  have "nmsg_cpu_ok ((nmsg_cpus st)[i := q] ! j)" if "j < nr" for j
    using that assms by (cases "j = i") (auto simp: nmsg_ok_def)
  then show ?thesis using assms(1) by (simp add: nmsg_ok_def set_cpu_def)
qed

lemma nmsg_enqueue_refuses:
  assumes "nmsg_ok nr st" "nmsg_enqueue en nr node h buf key st = Inr (ret, st')" "ret \<noteq> 0"
  shows "st' = st"
  using assms
  by (auto simp: nmsg_enqueue_def nmsg_ok_def KEY_TO_CORE_def nmsg_target_cpu_def Let_def bindR_eq_Inr
      split: if_splits option.splits)

subsection \<open>Draining\<close>

lemma nmsg_fill_buffer_send:
  assumes "node_ok n"
  shows "nmsg_fill_buffer rb n =
    bindR (rbf.send rb (node_bytes n))
      (\<lambda>r. Inr (case r of None \<Rightarrow> (- ENOMEM, rb) | Some rb' \<Rightarrow> (0, rb')))"
proof -
  have "mem_read 0 (unat (node_buff_size n)) (node_buff n) = Inr (node_bytes n)"
    using assms by (simp add: mem_read_def window_def node_bytes_def node_ok_def)
  then show ?thesis
    by (auto simp: nmsg_fill_buffer_def rbf.send_def bindR_def split: sum.splits option.splits)
qed

lemma nmsg_wq_dequeue_loop_send_all:
  assumes "\<forall>n \<in> set (cpu_list q). node_ok n"
  shows "nmsg_wq_dequeue_loop k q =
    bindR (rbf.send_all (cpu_rbfp q) (map node_bytes (cpu_list q))) (\<lambda>rb'.
      Inr (k + length (cpu_list q),
        q\<lparr>cpu_rbfp := rb', cpu_count := cpu_count q - of_nat (length (cpu_list q)), cpu_list := []\<rparr>))"
  using assms
proof (induction "cpu_list q" arbitrary: k q)
  case Nil
  then show ?case by (simp add: nmsg_wq_dequeue_loop.simps [of k q] nmsg_dequeue_def)
next
  case (Cons n ns)
  note list = Cons.hyps(2) [symmetric]
  show ?case
  proof (cases "rbf.send (cpu_rbfp q) (node_bytes n)")
    case (Inl f)
    then show ?thesis
      using Cons.prems list
      by (simp add: nmsg_wq_dequeue_loop.simps [of k q] nmsg_dequeue_def nmsg_fill_buffer_send)
  next
    case (Inr r)
    let ?rb = "case r of None \<Rightarrow> cpu_rbfp q | Some rb' \<Rightarrow> rb'"
    let ?q = "q\<lparr>cpu_rbfp := ?rb, cpu_count := cpu_count q - 1, cpu_list := ns\<rparr>"
    have "nmsg_dequeue q = Inr (0, ?q)"
      using Cons.prems list Inr
      by (simp add: nmsg_dequeue_def nmsg_fill_buffer_send split: option.split)
    then have "nmsg_wq_dequeue_loop k q = nmsg_wq_dequeue_loop (k + 1) ?q"
      by (simp add: nmsg_wq_dequeue_loop.simps [of k q])
    also have "\<dots> = bindR (rbf.send_all ?rb (map node_bytes ns)) (\<lambda>rb'.
        Inr (k + 1 + length ns, ?q\<lparr>cpu_rbfp := rb', cpu_count := cpu_count q - 1 - of_nat (length ns),
          cpu_list := []\<rparr>))"
      using Cons.hyps(1) [of ?q "k + 1"] Cons.prems list by simp
    finally show ?thesis using list Inr by (simp add: diff_diff_eq)
  qed
qed

lemma nmsg_drain_ok:
  assumes "nmsg_cpu_ok q"
  obtains q' slots where "nmsg_wq_dequeue_loop k q = Inr (k + length (cpu_list q), q')"
    "nmsg_cpu_ok q'" "cpu_list q' = []" "cpu_wq_msg q' = cpu_wq_msg q"
    "rbf_capacity (cpu_rbfp q') = rbf_capacity (cpu_rbfp q)"
    "rbf_contents (cpu_rbfp q') = rbf_contents (cpu_rbfp q) @ slots"
    "list_all2 carries slots
       (take (rbf_capacity (cpu_rbfp q) - length (rbf_contents (cpu_rbfp q))) (map node_bytes (cpu_list q)))"
proof -
  have ok: "rbf_ok (cpu_rbfp q)" and nodes: "\<forall>n \<in> set (cpu_list q). node_ok n"
    and cnt: "unat (cpu_count q) = length (cpu_list q)"
    using assms by (simp_all add: nmsg_cpu_ok_def)
  have "\<forall>m \<in> set (map node_bytes (cpu_list q)). length m \<le> RBF_NODE_SIZE"
    using nodes node_bytes_le by auto
  from rbf.send_all_ok [OF ok this] obtain rb' slots where rb':
    "rbf.send_all (cpu_rbfp q) (map node_bytes (cpu_list q)) = Inr rb'" "rbf_ok rb'"
    "rbf_capacity rb' = rbf_capacity (cpu_rbfp q)" "rbf_contents rb' = rbf_contents (cpu_rbfp q) @ slots"
    "list_all2 carries slots
       (take (rbf_capacity (cpu_rbfp q) - length (rbf_contents (cpu_rbfp q))) (map node_bytes (cpu_list q)))"
    by blast
  let ?q' = "q\<lparr>cpu_rbfp := rb', cpu_count := cpu_count q - of_nat (length (cpu_list q)), cpu_list := []\<rparr>"
  have "of_nat (length (cpu_list q)) = cpu_count q" using cnt of_nat_eq_word by metis
  then have "nmsg_cpu_ok ?q'" using rb'(2) by (simp add: nmsg_cpu_ok_def)
  then show thesis
    using rb' nodes by (intro that [of ?q' slots]) (simp_all add: nmsg_wq_dequeue_loop_send_all)
qed

lemma nmsg_wq_dequeue_func_ok:
  assumes "nmsg_ok nr st" "cpu < nr"
  obtains st' q' slots where "nmsg_wq_dequeue_func cpu st = Inr st'" "nmsg_ok nr st'"
    "st' = set_cpu st cpu q'" "cpu_list q' = []" "\<not> cpu_wq_msg q'" "nmsg_cpu_ok q'"
    "rbf_contents (cpu_rbfp q') = rbf_contents (cpu_rbfp (nmsg_cpus st ! cpu)) @ slots"
    "list_all2 carries slots
       (take (rbf_capacity (cpu_rbfp (nmsg_cpus st ! cpu))
              - length (rbf_contents (cpu_rbfp (nmsg_cpus st ! cpu))))
         (map node_bytes (cpu_list (nmsg_cpus st ! cpu))))"
proof -
  let ?q = "(nmsg_cpus st ! cpu)\<lparr>cpu_wq_msg := False\<rparr>"
  have cpu: "cpu < length (nmsg_cpus st)" and q: "nmsg_cpu_ok (nmsg_cpus st ! cpu)"
    using assms by (auto simp: nmsg_ok_def)
  from q have "nmsg_cpu_ok ?q" by (simp add: nmsg_cpu_ok_def)
  from nmsg_drain_ok [OF this, of 0] obtain q' slots where q':
    "nmsg_wq_dequeue_loop 0 ?q = Inr (0 + length (cpu_list ?q), q')"
    "nmsg_cpu_ok q'" "cpu_list q' = []" "cpu_wq_msg q' = cpu_wq_msg ?q"
    "rbf_contents (cpu_rbfp q') = rbf_contents (cpu_rbfp ?q) @ slots"
    "list_all2 carries slots
       (take (rbf_capacity (cpu_rbfp ?q) - length (rbf_contents (cpu_rbfp ?q))) (map node_bytes (cpu_list ?q)))"
    by blast
  have "nmsg_wq_dequeue_func cpu st = Inr (set_cpu st cpu q')"
    using cpu q'(1) by (simp add: nmsg_wq_dequeue_func_def nmsg_target_cpu_def)
  then show thesis
    using q' set_cpu_ok [OF assms(1) q'(2)]
    by (intro that [of "set_cpu st cpu q'" q' slots]) simp_all
qed

lemma nth_set_cpu [simp]:
  "i < length (nmsg_cpus st) \<Longrightarrow> nmsg_cpus (set_cpu st i q) ! i = q"
  "i \<noteq> j \<Longrightarrow> nmsg_cpus (set_cpu st i q) ! j = nmsg_cpus st ! j"
  by (simp_all add: set_cpu_def)

lemma nmsg_ok_core:
  assumes "nmsg_ok nr st"
  shows "unat key mod nr < nr" "unat key mod nr < length (nmsg_cpus st)"
    "nmsg_cpu_ok (nmsg_cpus st ! (unat key mod nr))"
proof -
  from assms have "0 < nr" by (simp add: nmsg_ok_def)
  then show "unat key mod nr < nr" by (rule mod_less_divisor)
  then show "unat key mod nr < length (nmsg_cpus st)" "nmsg_cpu_ok (nmsg_cpus st ! (unat key mod nr))"
    using assms by (auto simp: nmsg_ok_def)
qed

subsection \<open>Properties of the queue\<close>

text \<open>
  C21.  \<open>nmsg_enqueue\<close> on every branch.  For a well-formed queue state and a caller that
  hands over at least \<open>data_len\<close> bytes: a list of more than 2048 nodes refuses with
  \<open>-ENOMEM\<close>, an oversized frame with \<open>-EINVAL\<close>, a failed allocation with \<open>-ENOMEM\<close>, all
  three without a change; otherwise the CPU that the key selects gets exactly one more
  node at the front of its list, which holds the header followed by the payload, its work
  item is raised, no other CPU changes, and the state stays well-formed.
\<close>

theorem nmsg_enqueue_spec:
  fixes key :: u32
  assumes "nmsg_ok nr st" "unat (msg_data_len h) \<le> length buf"
    and "\<And>n. node = Some n \<Longrightarrow> length (node_buff n) = RBF_NODE_SIZE"
  defines "core \<equiv> unat key mod nr"
  defines "q \<equiv> nmsg_cpus st ! core"
  shows
    "(if NCAP_MAX_COUNT < unat (cpu_count q) then nmsg_enqueue en nr node h buf key st = Inr (- ENOMEM, st)
      else if RBF_NODE_SIZE < unat (msg_data_len h) + 8 then
        nmsg_enqueue en nr node h buf key st = Inr (- EINVAL, st)
      else if node = None then nmsg_enqueue en nr node h buf key st = Inr (- ENOMEM, st)
      else (\<exists>st' n'. nmsg_enqueue en nr node h buf key st = Inr (0, st') \<and> nmsg_ok nr st'
        \<and> cpu_list (nmsg_cpus st' ! core) = n' # cpu_list q
        \<and> node_bytes n' = nmsg_hdr_bytes en h @ take (unat (msg_data_len h)) buf
        \<and> cpu_wq_msg (nmsg_cpus st' ! core) \<and> cpu_rbfp (nmsg_cpus st' ! core) = cpu_rbfp q
        \<and> (\<forall>i. i \<noteq> core \<longrightarrow> nmsg_cpus st' ! i = nmsg_cpus st ! i)))"
proof -
  note core = nmsg_ok_core [OF assms(1), of key, folded core_def, folded q_def]
  have target: "KEY_TO_CORE nr key = Inr core" "nmsg_target_cpu st core = Inr q"
    using assms(1) core(2)
    by (simp_all add: KEY_TO_CORE_def nmsg_target_cpu_def nmsg_ok_def core_def q_def)
  consider (refuse) "NCAP_MAX_COUNT < unat (cpu_count q) \<or> RBF_NODE_SIZE < unat (msg_data_len h) + 8
      \<or> node = None"
    | (accept) n where "unat (cpu_count q) \<le> NCAP_MAX_COUNT"
      "unat (msg_data_len h) + 8 \<le> RBF_NODE_SIZE" "node = Some n"
    by (cases node) force+
  then show ?thesis
  proof cases
    case refuse
    then show ?thesis using target by (auto simp: nmsg_enqueue_def Let_def)
  next
    case (accept n)
    obtain n' where n': "nmsg_enqueue en nr (Some n) h buf key st = Inr (0, set_cpu st core
        (q\<lparr>cpu_count := cpu_count q + 1, cpu_list := n' # cpu_list q, cpu_wq_msg := True\<rparr>))"
      "node_ok n'" "node_bytes n' = nmsg_hdr_bytes en h @ take (unat (msg_data_len h)) buf"
      using nmsg_enqueue_accepts [OF assms(1), of key h buf n, folded core_def, folded q_def,
          OF accept(1,2) assms(2) assms(3) [OF accept(3)]] by blast
    have "nmsg_cpu_ok (q\<lparr>cpu_count := cpu_count q + 1, cpu_list := n' # cpu_list q, cpu_wq_msg := True\<rparr>)"
      using core(3) n'(2) accept(1) by (simp add: nmsg_cpu_ok_def unat_count_inc)
    then show ?thesis
      using accept n' core(2) set_cpu_ok [OF assms(1)] by auto
  qed
qed

definition demo_cpu :: nmsg_cpu_t where
  "demo_cpu = \<lparr>cpu_list = [], cpu_count = 0, cpu_wq_msg = False,
     cpu_rbfp = \<lparr>hdr = \<lparr>hdr_r = 0, hdr_w = 0, hdr_size = 8192, hdr_count = 4, hdr_pad = 0\<rparr>,
                 buffer = replicate 8192 0\<rparr>\<rparr>"

definition demo_state :: nmsg_state where
  "demo_state = \<lparr>nmsg_wq = Wq_live, nmsg_cpus = [demo_cpu, demo_cpu], nt_cap_block_sz = 8204\<rparr>"

definition demo_node :: nmsg_node_t where
  "demo_node = \<lparr>node_buff_size = 5, node_buff = replicate 2048 0xAA\<rparr>"

lemma demo_ok:
  "nmsg_ok 2 demo_state" "length (node_buff demo_node) = RBF_NODE_SIZE"
  "rbf_ok (cpu_rbfp demo_cpu)" "rbf_contents (cpu_rbfp demo_cpu) = []" "rbf_capacity (cpu_rbfp demo_cpu) = 3"
  by (auto simp: nmsg_ok_def demo_state_def demo_cpu_def demo_node_def nmsg_cpu_ok_def rbf_ok_def
      rbf_contents_def rbf_used_def rbf_capacity_def less_2_cases_iff)

lemma nmsg_enqueue_spec_witness:
  "\<exists>st' n'. nmsg_enqueue Little 2 (Some demo_node) (nmsg_hdr_init 3 2) [1, 2] 5 demo_state = Inr (0, st')
     \<and> nmsg_ok 2 st' \<and> cpu_list (nmsg_cpus st' ! 1) = [n']
     \<and> node_bytes n' = nmsg_hdr_bytes Little (nmsg_hdr_init 3 2) @ [1, 2]"
  using nmsg_enqueue_spec [OF demo_ok(1), of "nmsg_hdr_init 3 2" "[1, 2]" "Some demo_node" 5 Little]
    demo_ok(2)
  by (force simp: nmsg_hdr_init_def demo_state_def demo_cpu_def)

text \<open>
  C20.  The work function drains its CPU.  On a well-formed state the loop stops without a
  fault after as many rounds as the list has nodes; the list is empty and the work item
  no longer pending afterwards; the ring has received the nodes front to back, as many as
  it had room for, and the rest are gone; no other CPU is touched and well-formedness is
  kept.
\<close>

theorem nmsg_wq_drains:
  assumes "nmsg_ok nr st" "cpu < nr"
  shows "\<exists>st' slots. nmsg_wq_dequeue_func cpu st = Inr st' \<and> nmsg_ok nr st'
    \<and> cpu_list (nmsg_cpus st' ! cpu) = [] \<and> cpu_count (nmsg_cpus st' ! cpu) = 0
    \<and> \<not> cpu_wq_msg (nmsg_cpus st' ! cpu)
    \<and> rbf_contents (cpu_rbfp (nmsg_cpus st' ! cpu)) = rbf_contents (cpu_rbfp (nmsg_cpus st ! cpu)) @ slots
    \<and> list_all2 carries slots
        (take (rbf_capacity (cpu_rbfp (nmsg_cpus st ! cpu))
               - length (rbf_contents (cpu_rbfp (nmsg_cpus st ! cpu))))
          (map node_bytes (cpu_list (nmsg_cpus st ! cpu))))
    \<and> (\<forall>i. i \<noteq> cpu \<longrightarrow> nmsg_cpus st' ! i = nmsg_cpus st ! i)"
proof -
  have cpu: "cpu < length (nmsg_cpus st)" using assms by (auto simp: nmsg_ok_def)
  show ?thesis
    by (rule nmsg_wq_dequeue_func_ok [OF assms])
      (use cpu in \<open>auto simp: nmsg_cpu_ok_def unat_eq_zero\<close>)
qed

lemma nmsg_wq_drains_witness:
  "\<exists>st' slot. nmsg_wq_dequeue_func 1
     (set_cpu demo_state 1 (nmsg_link demo_cpu demo_node)) = Inr st'
     \<and> cpu_list (nmsg_cpus st' ! 1) = [] \<and> rbf_contents (cpu_rbfp (nmsg_cpus st' ! 1)) = [slot]
     \<and> carries slot (replicate 5 0xAA)"
proof -
  let ?st = "set_cpu demo_state 1 (nmsg_link demo_cpu demo_node)"
  have q: "nmsg_cpus ?st ! 1 = nmsg_link demo_cpu demo_node"
    by (simp add: set_cpu_def demo_state_def)
  have "nmsg_cpu_ok (nmsg_link demo_cpu demo_node)"
    using demo_ok(2,3)
    by (simp add: nmsg_cpu_ok_def nmsg_link_def demo_cpu_def node_ok_def) (simp add: demo_node_def)
  then have "nmsg_ok 2 ?st" by (rule set_cpu_ok [OF demo_ok(1)])
  from nmsg_wq_drains [OF this, of 1] q demo_ok(4,5)
  show ?thesis
    by (fastforce simp: nmsg_link_def demo_cpu_def node_bytes_def demo_node_def list_all2_Cons2)
qed

text \<open>
  Delivery order.  Two messages enqueued one after the other on an idle CPU whose ring
  has two free nodes reach the ring in the opposite order: \<open>list_add\<close> pushes at the front
  and \<open>nmsg_dequeue\<close> takes from the front.
\<close>

theorem nmsg_delivers_newest_first:
  fixes key :: u32
  assumes "nmsg_ok nr st" "cpu_list (nmsg_cpus st ! (unat key mod nr)) = []"
    and "length (rbf_contents (cpu_rbfp (nmsg_cpus st ! (unat key mod nr)))) + 2
      \<le> rbf_capacity (cpu_rbfp (nmsg_cpus st ! (unat key mod nr)))"
    and "unat (msg_data_len h1) + 8 \<le> RBF_NODE_SIZE" "unat (msg_data_len h1) = length d1"
    and "unat (msg_data_len h2) + 8 \<le> RBF_NODE_SIZE" "unat (msg_data_len h2) = length d2"
    and "length (node_buff n1) = RBF_NODE_SIZE" "length (node_buff n2) = RBF_NODE_SIZE"
  shows "\<exists>st1 st2 st3 s1 s2. nmsg_enqueue en nr (Some n1) h1 d1 key st = Inr (0, st1)
    \<and> nmsg_enqueue en nr (Some n2) h2 d2 key st1 = Inr (0, st2)
    \<and> nmsg_wq_dequeue_func (unat key mod nr) st2 = Inr st3
    \<and> rbf_contents (cpu_rbfp (nmsg_cpus st3 ! (unat key mod nr)))
        = rbf_contents (cpu_rbfp (nmsg_cpus st ! (unat key mod nr))) @ [s2, s1]
    \<and> carries s1 (nmsg_hdr_bytes en h1 @ d1) \<and> carries s2 (nmsg_hdr_bytes en h2 @ d2)"
proof -
  define core where "core = unat key mod nr"
  note core = nmsg_ok_core [OF assms(1), of key, folded core_def]
  have c0: "unat (cpu_count (nmsg_cpus st ! core)) = 0"
    using core(3) assms(2) by (simp add: nmsg_cpu_ok_def core_def)
  then obtain st1 m1 where st1: "nmsg_enqueue en nr (Some n1) h1 d1 key st = Inr (0, st1)" "nmsg_ok nr st1"
    "cpu_list (nmsg_cpus st1 ! core) = [m1]" "node_bytes m1 = nmsg_hdr_bytes en h1 @ d1"
    "cpu_rbfp (nmsg_cpus st1 ! core) = cpu_rbfp (nmsg_cpus st ! core)"
    using nmsg_enqueue_spec [OF assms(1), of h1 d1 "Some n1" key en, folded core_def] assms
    by (auto simp: core_def)
  have "nmsg_cpu_ok (nmsg_cpus st1 ! core)" using st1(2) core(1) by (simp add: nmsg_ok_def)
  then have c1: "unat (cpu_count (nmsg_cpus st1 ! core)) = 1" using st1(3) by (simp add: nmsg_cpu_ok_def)
  obtain st2 m2 where st2: "nmsg_enqueue en nr (Some n2) h2 d2 key st1 = Inr (0, st2)" "nmsg_ok nr st2"
    "cpu_list (nmsg_cpus st2 ! core) = [m2, m1]" "node_bytes m2 = nmsg_hdr_bytes en h2 @ d2"
    "cpu_rbfp (nmsg_cpus st2 ! core) = cpu_rbfp (nmsg_cpus st ! core)"
    using nmsg_enqueue_spec [OF st1(2), of h2 d2 "Some n2" key en, folded core_def] assms st1(3,5) c1
    by auto
  let ?free = "rbf_capacity (cpu_rbfp (nmsg_cpus st ! core)) - length (rbf_contents (cpu_rbfp (nmsg_cpus st ! core)))"
  have "take ?free [node_bytes m2, node_bytes m1] = [node_bytes m2, node_bytes m1]"
    using assms(3) by (intro take_all) (simp add: core_def)
  then show ?thesis
    using nmsg_wq_drains [OF st2(2) core(1)] st1 st2
    by (auto simp: core_def [symmetric] list_all2_Cons2)
qed

lemma nmsg_delivers_newest_first_witness:
  "\<exists>st1 st2 st3 s1 s2.
     nmsg_enqueue Big 2 (Some demo_node) (nmsg_hdr_init 3 1) [1] 4 demo_state = Inr (0, st1)
   \<and> nmsg_enqueue Big 2 (Some demo_node) (nmsg_hdr_init 3 1) [2] 4 st1 = Inr (0, st2)
   \<and> nmsg_wq_dequeue_func 0 st2 = Inr st3
   \<and> rbf_contents (cpu_rbfp (nmsg_cpus st3 ! 0)) = [s2, s1]
   \<and> carries s1 (nmsg_hdr_bytes Big (nmsg_hdr_init 3 1) @ [1])
   \<and> carries s2 (nmsg_hdr_bytes Big (nmsg_hdr_init 3 1) @ [2])"
  using nmsg_delivers_newest_first [OF demo_ok(1), of 4 "nmsg_hdr_init 3 1" "[1]" "nmsg_hdr_init 3 1" "[2]"
      demo_node demo_node Big] demo_ok
  by (simp add: demo_state_def nmsg_hdr_init_def) (simp add: demo_cpu_def)

text \<open>One CPU's queue after start-up, and the state \<open>nmsg_init\<close> returns.\<close>

lemma nmsg_init_cpu_fresh:
  assumes "RBF_NODE_SIZE * 32 \<le> unat sz" "unat sz < 65536 * RBF_NODE_SIZE"
  shows "nmsg_cpu_ok (nmsg_init_cpu sz)" "cpu_list (nmsg_init_cpu sz) = []"
    "rbf_contents (cpu_rbfp (nmsg_init_cpu sz)) = []" "31 \<le> ring_count (cpu_rbfp (nmsg_init_cpu sz))"
proof -
  let ?rb = "rbf_init (zeroed_block (unat sz)) sz"
  have len: "RBF_NODE_SIZE + 12 \<le> unat sz" "unat sz < 65536 * RBF_NODE_SIZE" using assms by simp_all
  have rb: "rbf_ok ?rb" "rbf_contents ?rb = []"
    using rbf_init_ok [OF len, of "zeroed_block (unat sz)"] by (simp_all add: zeroed_block_def)
  then show "nmsg_cpu_ok (nmsg_init_cpu sz)" "cpu_list (nmsg_init_cpu sz) = []"
    "rbf_contents (cpu_rbfp (nmsg_init_cpu sz)) = []"
    by (simp_all add: nmsg_cpu_ok_def nmsg_init_cpu_def)
  have "ring_count ?rb = (unat sz - 12) div RBF_NODE_SIZE" using len by (intro rbf_init_count) simp_all
  then show "31 \<le> ring_count (cpu_rbfp (nmsg_init_cpu sz))" using assms(1) by (simp add: nmsg_init_cpu_def)
qed

lemma nmsg_init_runs:
  assumes "0 < nr" "nr \<le> length (nmsg_cpus st)" "RBF_NODE_SIZE * 32 \<le> unat cap_size div nr"
    and "unat cap_size div nr < 65536 * RBF_NODE_SIZE"
  obtains sz where "unat sz = unat cap_size div nr"
    "nmsg_init nr True cap_size True st = Inr (0, st\<lparr>nmsg_wq := Wq_live,
      nmsg_cpus := replicate nr (nmsg_init_cpu sz) @ drop nr (nmsg_cpus st), nt_cap_block_sz := sz\<rparr>)"
    "nmsg_cpu_ok (nmsg_init_cpu sz)"
proof -
  have "unat cap_size div nr < 4294967296" using assms(4) by simp
  then have sz: "unat (of_nat (unat cap_size div nr) :: u32) = unat cap_size div nr" by (rule unat_of_nat32)
  show thesis
    using assms sz by (intro that [of "of_nat (unat cap_size div nr)"])
      (simp_all add: nmsg_init_def Let_def nmsg_init_cpu_fresh)
qed

text \<open>
  Start-up.  When the shared area gives every CPU between 32 nodes and 128 MiB and the
  work queue can be allocated, \<open>nmsg_init\<close> returns 0 and every CPU has an empty list and an
  empty well-formed ring with at least 31 nodes, laid over its own block.
\<close>

theorem nmsg_init_establishes:
  assumes "0 < nr" "nr \<le> length (nmsg_cpus st)" "RBF_NODE_SIZE * 32 \<le> unat cap_size div nr"
    and "unat cap_size div nr < 65536 * RBF_NODE_SIZE"
  shows "\<exists>st'. nmsg_init nr True cap_size True st = Inr (0, st') \<and> nmsg_ok nr st'
    \<and> unat (nt_cap_block_sz st') = unat cap_size div nr
    \<and> (\<forall>i < nr. cpu_list (nmsg_cpus st' ! i) = [] \<and> rbf_contents (cpu_rbfp (nmsg_cpus st' ! i)) = []
        \<and> 31 \<le> ring_count (cpu_rbfp (nmsg_cpus st' ! i)))"
proof -
  obtain sz where sz: "unat sz = unat cap_size div nr"
    and run: "nmsg_init nr True cap_size True st = Inr (0, st\<lparr>nmsg_wq := Wq_live,
      nmsg_cpus := replicate nr (nmsg_init_cpu sz) @ drop nr (nmsg_cpus st), nt_cap_block_sz := sz\<rparr>)"
    and ok: "nmsg_cpu_ok (nmsg_init_cpu sz)"
    using nmsg_init_runs [OF assms] .
  show ?thesis
    using assms run sz ok nmsg_init_cpu_fresh(2-4) [of sz] by (simp add: nmsg_ok_def nth_append)
qed

lemma nmsg_init_establishes_witness:
  "\<exists>st'. nmsg_init 2 True 131072 True demo_state = Inr (0, st') \<and> nmsg_ok 2 st'"
  using nmsg_init_establishes [of 2 demo_state 131072] by (auto simp: demo_state_def)

text \<open>
  The window between linking and filling.  A worker that runs after \<open>nmsg_enqueue\<close> has
  linked the node and before it has filled it publishes the node's uninitialised memory:
  with a leftover size of at most 2048 the leftover bytes go to the ring as a message, with
  a larger one the copy leaves the node's buffer.
\<close>

theorem nmsg_enqueue_window:
  assumes "nmsg_cpu_ok q" "length (node_buff raw) = RBF_NODE_SIZE"
    and "length (rbf_contents (cpu_rbfp q)) < rbf_capacity (cpu_rbfp q)"
  shows "if unat (node_buff_size raw) \<le> RBF_NODE_SIZE
    then \<exists>q' slot. nmsg_dequeue (nmsg_link q raw) = Inr (0, q')
      \<and> rbf_contents (cpu_rbfp q') = rbf_contents (cpu_rbfp q) @ [slot]
      \<and> carries slot (take (unat (node_buff_size raw)) (node_buff raw))
    else nmsg_dequeue (nmsg_link q raw) = Inl Out_of_bounds"
proof -
  have ok: "rbf_ok (cpu_rbfp q)" using assms(1) by (simp add: nmsg_cpu_ok_def)
  show ?thesis
  proof (cases "unat (node_buff_size raw) \<le> RBF_NODE_SIZE")
    case True
    then have n: "node_ok raw" using assms(2) by (simp add: node_ok_def)
    obtain rb' slot where "rbf.send (cpu_rbfp q) (node_bytes raw) = Inr (Some rb')"
      "rbf_contents rb' = rbf_contents (cpu_rbfp q) @ [slot]" "carries slot (node_bytes raw)"
      using rbf.send_free [OF ok assms(3) node_bytes_le [OF n]] .
    then show ?thesis
      using True by (simp add: nmsg_dequeue_def nmsg_link_def nmsg_fill_buffer_send [OF n] node_bytes_def)
  next
    case False
    obtain p where "rbf_get_buff (cpu_rbfp q) = Inr (Some p)"
      using rbf_get_buff_ok [OF ok] assms(3) by simp
    then show ?thesis
      using False assms(2) by (simp add: nmsg_dequeue_def nmsg_link_def nmsg_fill_buffer_def mem_read_def)
  qed
qed

lemma nmsg_enqueue_window_witness:
  "\<exists>q' slot. nmsg_dequeue (nmsg_link demo_cpu demo_node) = Inr (0, q')
     \<and> rbf_contents (cpu_rbfp q') = [slot] \<and> carries slot (replicate 5 0xAA)"
proof -
  have "nmsg_cpu_ok demo_cpu" using demo_ok(3) by (simp add: nmsg_cpu_ok_def) (simp add: demo_cpu_def)
  from nmsg_enqueue_window [OF this demo_ok(2)] demo_ok(4,5) show ?thesis
    by (simp add: demo_node_def)
qed

end
