(* ===== verification/NtrackHooks.thy ===== *)
theory NtrackHooks
  imports NtrackConf Redirect MsgQueue
begin

text \<open>
  The netfilter hooks and the life cycle of the module: \<open>drivers/nos_track/src/ntrack_hooks.c\<close>.
  The hook on forwarded packets finds the user of the connection, lets the configuration
  decide, answers HTTP requests of users that have to authenticate with a redirection, and
  reports users that are online to the daemon through the message queue.  Connection
  tracking belongs to the kernel: a packet's connection is an argument.
\<close>

subsection \<open>State and arguments\<close>

record nf_conn =
  ct_untracked :: bool
  ct_nos :: "nos_track option"
  ct_mark :: u32

record nt_state =
  st_users :: "user_info_t list"
  st_conf :: conf_state
  st_msg :: nmsg_state
  st_xmit :: "(nat \<times> bytes) list"

record hook_env =
  he_conf :: conf_env
  he_csum :: csum_env
  he_endian :: endian
  he_nr_cpu_ids :: nat
  he_user_max :: nat
  he_HZ :: u32

text \<open>The outcomes of the allocations during one call.\<close>

record hook_alloc =
  al_kmalloc :: bool
  al_skb1 :: bool
  al_skb2 :: bool
  al_node :: "nmsg_node_t option"

abbreviation (input) NF_ACCEPT :: nat where "NF_ACCEPT \<equiv> 1"

definition set_user :: "nt_state \<Rightarrow> nat \<Rightarrow> user_info_t \<Rightarrow> nt_state" where
  "set_user st i ui = st\<lparr>st_users := (st_users st)[i := ui]\<rparr>"

subsection \<open>The hooks\<close>

text \<open>\<open>auth_msg_t\<close> in memory: \<open>magic\<close>, then \<open>id\<close>.\<close>

definition auth_msg_bytes :: "endian \<Rightarrow> u32 \<Rightarrow> u32 \<Rightarrow> bytes" where
  "auth_msg_bytes en magic uid = enc32 en magic @ enc32 en uid"

text \<open>
  The hook in three parts.  First the decision on the packet: \<open>None\<close> when the hook returns early,
  otherwise the user, as the decision leaves it, and the state.
\<close>

definition hook_decide ::
  "hook_env \<Rightarrow> hook_alloc \<Rightarrow> nf_conn option \<Rightarrow> sk_buff \<Rightarrow> net_device \<Rightarrow> net_device option \<Rightarrow> nt_state
   \<Rightarrow> (nat \<times> user_info_t \<times> nt_state) option result" where
  "hook_decide env al conn skb in_dev out_dev st =
     (case conn of
        None \<Rightarrow> Inr None
      | Some ct \<Rightarrow>
          if ct_untracked ct then Inr None
          else case ct_nos ct of
              None \<Rightarrow> Inr None
            | Some nos \<Rightarrow>
                bindR (ip_hdr skb) (\<lambda>iph.
                if l3filter (env_ipv4 (he_conf env)) iph then Inr None
                else bindR (nt_user (he_user_max env) (st_users st) nos) (\<lambda>i.
                bindR (user_need_redirect (he_conf env) (st_conf st) (st_users st ! i) skb) (\<lambda>(r, ui).
                let st1 = set_user st i ui in
                bindR (if r \<noteq> 0 then
                    bindR (auth_check_http iph skb) (\<lambda>http.
                      if http then
                        bindR (ntrack_redirect (he_endian env) (he_csum env) (al_kmalloc al) (al_skb1 al) (al_skb2 al)
                            ui skb in_dev out_dev) (\<lambda>tx. Inr (st1\<lparr>st_xmit := st_xmit st1 @ tx\<rparr>))
                      else Inr st1)
                  else Inr st1) (\<lambda>st2.
                Inr (Some (i, ui, st2)))))))"

text \<open>Then the time stamp, and the message that is due for a user that is online and was silent.\<close>

definition report_due :: "hook_env \<Rightarrow> u32 \<Rightarrow> nat \<Rightarrow> user_info_t \<Rightarrow> nt_state \<Rightarrow> bytes option \<times> nt_state" where
  "report_due env jiffies i ui st =
     (if user_timeout (he_HZ env) jiffies ui then
        let ui' = snd (user_update_timestamp jiffies ui)
        in (if nt_auth_status ui' \<ge> AUTH_OK
            then Some (auth_msg_bytes (he_endian env) (ui_magic ui') (ui_id ui')) else None, set_user st i ui')
      else (None, st))"

text \<open>Last the call of \<open>nmsg_enqueue\<close>, whose result is ignored.\<close>

definition report_online ::
  "hook_env \<Rightarrow> hook_alloc \<Rightarrow> u32 \<Rightarrow> nat \<Rightarrow> user_info_t \<Rightarrow> nt_state \<Rightarrow> (nat \<times> nt_state) result" where
  "report_online env al jiffies i ui st =
     (case report_due env jiffies i ui st of
        (None, st1) \<Rightarrow> Inr (NF_ACCEPT, st1)
      | (Some auth, st1) \<Rightarrow>
          bindR (nmsg_enqueue (he_endian env) (he_nr_cpu_ids env) (al_node al) (nmsg_hdr_init 3 8) auth 0 (st_msg st1))
            (\<lambda>(_, m). Inr (NF_ACCEPT, st1\<lparr>st_msg := m\<rparr>)))"

definition ntrack_hook_fw ::
  "hook_env \<Rightarrow> hook_alloc \<Rightarrow> u32 \<Rightarrow> nf_conn option \<Rightarrow> sk_buff \<Rightarrow> net_device \<Rightarrow> net_device option \<Rightarrow> nt_state
   \<Rightarrow> (nat \<times> nt_state) result" where
  "ntrack_hook_fw env al jiffies conn skb in_dev out_dev st =
     bindR (hook_decide env al conn skb in_dev out_dev st) (\<lambda>d. case d of
         None \<Rightarrow> Inr (NF_ACCEPT, st)
       | Some (i, ui, st1) \<Rightarrow> report_online env al jiffies i ui st1)"

text \<open>
  The hook as far as the point in \<open>nmsg_enqueue\<close> where the lock is released: the message that is still
  to be written into the node, if one was linked, and the state.
\<close>

definition ntrack_hook_link ::
  "hook_env \<Rightarrow> hook_alloc \<Rightarrow> u32 \<Rightarrow> nf_conn option \<Rightarrow> sk_buff \<Rightarrow> net_device \<Rightarrow> net_device option \<Rightarrow> nt_state
   \<Rightarrow> (bytes option \<times> nt_state) result" where
  "ntrack_hook_link env al jiffies conn skb in_dev out_dev st =
     bindR (hook_decide env al conn skb in_dev out_dev st) (\<lambda>d. case d of
         None \<Rightarrow> Inr (None, st)
       | Some (i, ui, st1) \<Rightarrow> (case report_due env jiffies i ui st1 of
             (None, st2) \<Rightarrow> Inr (None, st2)
           | (Some auth, st2) \<Rightarrow>
               bindR (nmsg_enqueue_link (he_nr_cpu_ids env) (al_node al) (nmsg_hdr_init 3 8) 0 (st_msg st2))
                 (\<lambda>(r, m). Inr (if r = 0 then Some auth else None, st2\<lparr>st_msg := m\<rparr>))))"

definition ntrack_hook_test :: "nf_conn option \<Rightarrow> nat" where
  "ntrack_hook_test conn =
     (case conn of
        None \<Rightarrow> NF_ACCEPT
      | Some ct \<Rightarrow> if ct_untracked ct then NF_ACCEPT else if ct_mark ct = 0 then NF_ACCEPT else NF_ACCEPT)"

subsection \<open>The module's life cycle\<close>

datatype klog_ptr = Kl_null | Kl_live | Kl_freed

record mod_state =
  md_klog :: klog_ptr
  md_conf :: conf_state
  md_msg :: nmsg_state
  md_hooks :: bool
  md_match_fn :: bool

definition klog_fini_ptr :: "mod_state \<Rightarrow> mod_state result" where
  "klog_fini_ptr md = (case md_klog md of
      Kl_null \<Rightarrow> Inl Null_deref
    | Kl_live \<Rightarrow> Inr (md\<lparr>md_klog := Kl_freed\<rparr>)
    | Kl_freed \<Rightarrow> Inl Use_after_free)"

text \<open>The label \<open>__err\<close>.\<close>

definition modules_err :: "mod_state \<Rightarrow> mod_state result" where
  "modules_err md =
     bindR (nmsg_cleanup (md_msg md)) (\<lambda>m.
     let md1 = md\<lparr>md_msg := m\<rparr> in
     bindR (if md_klog md1 \<noteq> Kl_null then klog_fini_ptr md1 else Inr md1) (\<lambda>md2.
     bindR (ntrack_conf_exit (md_conf md2)) (\<lambda>c. Inr (md2\<lparr>md_conf := c\<rparr>))))"

text \<open>
  \<open>ntrack_modules_init\<close>: \<open>klog_ok\<close>, \<open>nl_ok\<close> and \<open>wq_ok\<close> are the outcomes of the allocations,
  \<open>hooks_ret\<close> is what \<open>nf_register_hooks\<close> returns.
\<close>

definition ntrack_modules_init ::
  "bool \<Rightarrow> bool \<Rightarrow> nat \<Rightarrow> bool \<Rightarrow> u32 \<Rightarrow> bool \<Rightarrow> int \<Rightarrow> mod_state \<Rightarrow> (int \<times> mod_state) result" where
  "ntrack_modules_init klog_ok nl_ok nr_cpu_ids cap_base cap_size wq_ok hooks_ret md =
     (if \<not> klog_ok then Inr (- ENOMEM, md\<lparr>md_klog := Kl_null\<rparr>)
      else
        let md1 = md\<lparr>md_klog := Kl_live\<rparr>;
            (ret1, c) = ntrack_conf_init nl_ok (md_conf md1);
            md2 = md1\<lparr>md_conf := c\<rparr>
        in if ret1 \<noteq> 0 then bindR (modules_err md2) (\<lambda>md'. Inr (ret1, md'))
           else bindR (nmsg_init nr_cpu_ids cap_base cap_size wq_ok (md_msg md2)) (\<lambda>(ret2, m).
             let md3 = md2\<lparr>md_msg := m\<rparr> in
             if ret2 \<noteq> 0 then bindR (modules_err md3) (\<lambda>md'. Inr (ret2, md'))
             else if hooks_ret \<noteq> 0 then bindR (modules_err md3) (\<lambda>md'. Inr (hooks_ret, md'))
             else Inr (0, md3\<lparr>md_hooks := True, md_match_fn := True\<rparr>)))"

definition ntrack_modules_exit :: "mod_state \<Rightarrow> mod_state result" where
  "ntrack_modules_exit md =
     (let md1 = md\<lparr>md_match_fn := False, md_hooks := False\<rparr> in
      bindR (nmsg_cleanup (md_msg md1)) (\<lambda>m.
      bindR (ntrack_conf_exit (md_conf md1)) (\<lambda>c.
        klog_fini_ptr (md1\<lparr>md_msg := m, md_conf := c\<rparr>))))"

subsection \<open>Invariant\<close>

definition users_ok :: "hook_env \<Rightarrow> user_info_t \<Rightarrow> bool" where
  "users_ok env u \<longleftrightarrow> unat (ui_id u) < he_user_max env"

definition hook_ok :: "hook_env \<Rightarrow> nt_state \<Rightarrow> bool" where
  "hook_ok env st \<longleftrightarrow> conf_state_ok (st_conf st) \<and> nmsg_ok (he_nr_cpu_ids env) (st_msg st) \<and> (\<forall>u \<in> set (st_users st). users_ok env u)"

text \<open>A user that carries the index of a rule the current table does not have.\<close>

definition stale_user :: "conf_state \<Rightarrow> user_info_t \<Rightarrow> bool" where
  "stale_user cs u \<longleftrightarrow> (case G_AuthConf cs of None \<Rightarrow> False | Some conf \<Rightarrow> conf_num_rules conf \<noteq> 0 \<and> \<not> user_fits conf u)"

text \<open>
  What the kernel guarantees at the hook, and what it does not: a packet with its Ethernet,
  IP and (for TCP) transport header, all of it in the linear part.
\<close>

definition linear_packet :: "sk_buff \<Rightarrow> bool" where
  "linear_packet skb \<longleftrightarrow> forwarded skb \<and> 14 \<le> length (skb_mac skb) \<and> unat (skb_len skb) = length (skb_data skb)
     \<and> (\<forall>iph. ip_hdr skb = Inr iph \<longrightarrow> ip_protocol iph = IPPROTO_TCP \<longrightarrow> 4 * ip_ihl iph + 20 \<le> length (skb_data skb))"

lemma nt_auth_set_keeps [simp]:
  "hdr_rule_idx (ui_hdr (snd (nt_auth_set_status u x))) = hdr_rule_idx (ui_hdr u)"
  "hdr_rule_magic (ui_hdr (snd (nt_auth_set_status u x))) = hdr_rule_magic (ui_hdr u)"
  "ui_id (snd (nt_auth_set_status u x)) = ui_id u" "ui_magic (snd (nt_auth_set_status u x)) = ui_magic u"
  by (simp_all add: nt_auth_set_status_def Let_def)

lemma decide_keeps:
  "decide r u = (ret, u') \<Longrightarrow> hdr_rule_idx (ui_hdr u') = hdr_rule_idx (ui_hdr u)
     \<and> hdr_rule_magic (ui_hdr u') = hdr_rule_magic (ui_hdr u) \<and> ui_id u' = ui_id u \<and> ui_magic u' = ui_magic u"
  by (auto simp: decide_def split: if_splits)

lemma mark_keeps [simp]: "ui_id (mark_user u i r) = ui_id u" "ui_magic (mark_user u i r) = ui_magic u"
  by (simp_all add: mark_user_def)

lemma redirect_ref_keeps:
  assumes "redirect_ref env conf skb iph u = (ret, u')"
  shows "ui_id u' = ui_id u \<and> ui_magic u' = ui_magic u"
proof -
  have "rematch env conf skb iph u = (ret, u') \<Longrightarrow> ?thesis"
    by (fastforce simp: rematch_def split: option.splits dest!: decide_keeps)
  then show ?thesis using assms decide_keeps [of "conf_rules conf ! nat (rule_index u)" u ret u']
    by (auto simp: redirect_ref_def Let_def split: if_splits)
qed

text \<open>The decision returns exactly for the users that are not stale, and keeps who the user is.\<close>

lemma user_need_redirect_total:
  assumes "conf_state_ok cs" "forwarded skb"
  shows "case user_need_redirect cenv cs u skb of
      Inl f \<Rightarrow> stale_user cs u
    | Inr (r, u') \<Rightarrow> \<not> stale_user cs u \<and> ui_id u' = ui_id u \<and> ui_magic u' = ui_magic u"
proof -
  obtain iph where e: "user_need_redirect cenv cs u skb = (case G_AuthConf cs of
       None \<Rightarrow> Inr (0, u)
     | Some conf \<Rightarrow> if conf_num_rules conf = 0 then Inr (0, u)
         else if user_fits conf u then Inr (redirect_ref cenv conf skb iph u)
         else Inl (if rule_index u < 0 then Out_of_bounds else Null_deref))"
    using user_need_redirect_outcome [OF assms, of cenv u] by blast
  show ?thesis unfolding e
    by (auto simp: stale_user_def split: option.split prod.split dest: redirect_ref_keeps)
qed

lemma tcp_hdr_ok: "off + 20 \<le> length d \<Longrightarrow> \<exists>t. tcp_hdr_at d off = Inr t"
  by (auto simp: tcp_hdr_at_def rdb_def field16_def field32_def mem_read_def)

lemma ntrack_redirect_total:
  assumes h: "ip_hdr skb = Inr h" and "4 * ip_ihl h + 20 \<le> length (skb_data skb)" "14 \<le> length (skb_mac skb)"
    and "length (dev_name in_dev) < IFNAMSIZ"
  shows "\<exists>tx. ntrack_redirect en k km ok1 ok2 ui skb in_dev out_dev = Inr tx"
proof -
  obtain t where t: "tcp_hdr_at (skb_data skb) (4 * ip_ihl h) = Inr t" using tcp_hdr_ok assms(2) by blast
  let ?s = "sprint http_redir_fmt (redirect_args ui in_dev)"
  note fits = redirect_text_fits(1) [OF assms(4), of ui] redirect_text_fits(2) [OF assms(4)]
    redirect_text_fits(3) [OF assms(4), of ui]
  have sn: "snprintf redirect_len http_redir_fmt (redirect_args ui in_dev) = (?s, length ?s)"
    using fits(1) by (simp add: snprintf_def Let_def)
  have as: "?s \<noteq> []" "length ?s \<le> redirect_len" using fits by simp_all
  have "40 + length (take (length ?s) (bytes_of ?s @ [0])) < 65536" using fits by (simp add: bytes_of_def)
  from auth_http_packet [OF h t assms(3) this, of en k]
  have 1: "\<exists>x. auth_http en k ok1 (take (length ?s) (bytes_of ?s @ [0])) skb = Inr x"
    by (cases ok1) (auto simp: auth_http_def h)
  have 2: "\<exists>x. auth_reset en k ok2 skb = Inr x"
    using auth_reset_packet [OF h t assms(3), of en k] by (cases ok2) (auto simp: auth_reset_def h)
  from 1 2 show ?thesis by (cases km; cases out_dev) (auto simp: ntrack_redirect_def sn as Let_def)
qed

lemma auth_check_http_total:
  assumes "linear_packet skb" "ip_hdr skb = Inr iph"
  shows "\<exists>b. auth_check_http iph skb = Inr b \<and> (b \<longrightarrow> ip_protocol iph = IPPROTO_TCP)"
proof (cases "ip_protocol iph = IPPROTO_TCP")
  case True
  then show ?thesis using assms auth_check_http_tcp [of skb iph] by (auto simp: linear_packet_def)
next
  case False
  then have "auth_check_http iph skb = Inr False" by (simp add: auth_check_http_def)
  then show ?thesis using False by blast
qed

text \<open>Queueing the keep-alive message.\<close>

lemma nmsg_enqueue_total:
  fixes key :: u32
  assumes ok: "nmsg_ok nr m" and "unat (msg_data_len h) + 8 \<le> RBF_NODE_SIZE" "unat (msg_data_len h) \<le> length b"
    and "\<And>n. node = Some n \<Longrightarrow> length (node_buff n) = RBF_NODE_SIZE"
  shows "\<exists>ret m'. nmsg_enqueue en nr node h b key m = Inr (ret, m') \<and> nmsg_ok nr m'"
proof -
  let ?core = "unat key mod nr"
  note core = nmsg_ok_core [OF ok, of key]
  have target: "KEY_TO_CORE nr key = Inr ?core" "nmsg_target_cpu m ?core = Inr (nmsg_cpus m ! ?core)"
    using ok core(2) by (simp_all add: KEY_TO_CORE_def nmsg_target_cpu_def nmsg_ok_def)
  show ?thesis
  proof (cases "node = None \<or> NCAP_MAX_COUNT < unat (cpu_count (nmsg_cpus m ! ?core))")
    case True
    then show ?thesis using target ok assms(2) by (auto simp: nmsg_enqueue_def Let_def)
  next
    case False
    then obtain n where n: "node = Some n" "unat (cpu_count (nmsg_cpus m ! ?core)) \<le> NCAP_MAX_COUNT" by auto
    obtain n' where n': "nmsg_enqueue en nr (Some n) h b key m = Inr (0, set_cpu m ?core ((nmsg_cpus m ! ?core)
        \<lparr>cpu_count := cpu_count (nmsg_cpus m ! ?core) + 1,
         cpu_list := n' # cpu_list (nmsg_cpus m ! ?core), cpu_wq_msg := True\<rparr>))" "node_ok n'"
      using nmsg_enqueue_accepts [OF ok n(2) assms(2,3), of n] assms(4) [OF n(1)] by metis
    have "nmsg_cpu_ok ((nmsg_cpus m ! ?core)\<lparr>cpu_count := cpu_count (nmsg_cpus m ! ?core) + 1,
         cpu_list := n' # cpu_list (nmsg_cpus m ! ?core), cpu_wq_msg := True\<rparr>)"
      using core(3) n'(2) n(2) by (simp add: nmsg_cpu_ok_def unat_count_inc)
    then show ?thesis using n' n(1) core(2) set_cpu_ok [OF ok] by auto
  qed
qed

subsection \<open>The forward hook\<close>

lemma users_ok_set:
  "\<forall>u \<in> set us. users_ok env u \<Longrightarrow> users_ok env u' \<Longrightarrow> \<forall>u \<in> set (us[i := u']). users_ok env u"
  using set_update_subset_insert [of us i u'] by auto

lemma hook_ok_set_user: "hook_ok env st \<Longrightarrow> users_ok env u \<Longrightarrow> hook_ok env (set_user st i u)"
  using users_ok_set [of "st_users st" env u i] by (simp add: hook_ok_def set_user_def)

lemma users_ok_timestamp: "users_ok env u \<Longrightarrow> users_ok env (snd (user_update_timestamp j u))"
  by (simp add: users_ok_def user_update_timestamp_def)

text \<open>
  Reporting keeps the state well-formed, whatever the outcome of the allocation.
\<close>

lemma report_online_ok:
  assumes "hook_ok env st" "users_ok env ui"
    and "\<And>n. al_node al = Some n \<Longrightarrow> length (node_buff n) = RBF_NODE_SIZE"
  shows "\<exists>st'. report_online env al j i ui st = Inr (NF_ACCEPT, st') \<and> hook_ok env st'
    \<and> st_conf st' = st_conf st \<and> st_xmit st' = st_xmit st"
proof -
  let ?u = "snd (user_update_timestamp j ui)"
  let ?st = "set_user st i ?u"
  have h: "hook_ok env ?st" using assms(1,2) by (simp add: hook_ok_set_user users_ok_timestamp)
  then have "nmsg_ok (he_nr_cpu_ids env) (st_msg ?st)" by (simp add: hook_ok_def)
  from nmsg_enqueue_total [OF this, of "nmsg_hdr_init 3 8" "auth_msg_bytes (he_endian env) (ui_magic ?u) (ui_id ?u)"
      "al_node al" "he_endian env" 0] assms(3)
  obtain r m where "nmsg_enqueue (he_endian env) (he_nr_cpu_ids env) (al_node al) (nmsg_hdr_init 3 8)
      (auth_msg_bytes (he_endian env) (ui_magic ?u) (ui_id ?u)) 0 (st_msg ?st) = Inr (r, m)"
    "nmsg_ok (he_nr_cpu_ids env) m"
    by (auto simp: nmsg_hdr_init_def auth_msg_bytes_def)
  then show ?thesis using h assms(1) by (auto simp: report_online_def report_due_def Let_def hook_ok_def set_user_def)
qed

text \<open>The decision on a tracked packet.\<close>

lemma hook_decide_steps:
  assumes "conf_state_ok (st_conf st) \<and> (\<forall>u \<in> set (st_users st). users_ok env u)" "linear_packet skb" "length (dev_name in_dev) < IFNAMSIZ"
    and "ct_nos ct = Some nos" "trk_user nos = Some i" "i < length (st_users st)"
  shows "\<exists>iph http. ip_hdr skb = Inr iph \<and> auth_check_http iph skb = Inr http \<and>
    (if ct_untracked ct \<or> l3filter (env_ipv4 (he_conf env)) iph then hook_decide env al (Some ct) skb in_dev out_dev st = Inr None
     else case user_need_redirect (he_conf env) (st_conf st) (st_users st ! i) skb of
       Inl f \<Rightarrow> stale_user (st_conf st) (st_users st ! i) \<and> hook_decide env al (Some ct) skb in_dev out_dev st = Inl f
     | Inr (r, ui) \<Rightarrow> \<not> stale_user (st_conf st) (st_users st ! i)
         \<and> ui_id ui = ui_id (st_users st ! i) \<and> ui_magic ui = ui_magic (st_users st ! i)
         \<and> (\<exists>tx. hook_decide env al (Some ct) skb in_dev out_dev st
               = Inr (Some (i, ui, (set_user st i ui)\<lparr>st_xmit := st_xmit st @ tx\<rparr>))
             \<and> (if r \<noteq> 0 \<and> http then ntrack_redirect (he_endian env) (he_csum env) (al_kmalloc al) (al_skb1 al) (al_skb2 al)
                 ui skb in_dev out_dev = Inr tx else tx = [])))"
proof -
  have fw: "forwarded skb" using assms(2) by (simp add: linear_packet_def)
  then obtain iph where iph: "ip_hdr skb = Inr iph" using ip_hdr_ok by (auto simp: forwarded_def)
  have "users_ok env (st_users st ! i)" using assms(1,6) by simp
  then have user: "nt_user (he_user_max env) (st_users st) nos = Inr i"
    using assms(5,6) by (simp add: nt_user_def checked_user_def users_ok_def)
  have cs: "conf_state_ok (st_conf st)" using assms(1) by simp
  note dec = user_need_redirect_total [OF cs fw, where cenv = "he_conf env" and u = "st_users st ! i"]
  obtain http where http: "auth_check_http iph skb = Inr http" "http \<Longrightarrow> ip_protocol iph = IPPROTO_TCP"
    using auth_check_http_total [OF assms(2) iph] by blast
  have tx: "\<exists>tx. ntrack_redirect (he_endian env) (he_csum env) (al_kmalloc al) (al_skb1 al) (al_skb2 al) ui skb in_dev out_dev = Inr tx"
    if http for ui using ntrack_redirect_total [OF iph _ _ assms(3)] http(2) [OF that] assms(2) iph by (fastforce simp: linear_packet_def)
  show ?thesis
  proof (cases "ct_untracked ct \<or> l3filter (env_ipv4 (he_conf env)) iph")
    case True
    then show ?thesis using iph http(1) assms(4) by (intro exI [of _ iph] exI [of _ http]) (auto simp: hook_decide_def)
  next
    case False
    show ?thesis
    proof (cases "user_need_redirect (he_conf env) (st_conf st) (st_users st ! i) skb")
      case (Inl f)
      then show ?thesis using False iph http(1) assms(4) user dec
        by (intro exI [of _ iph] exI [of _ http]) (simp add: hook_decide_def)
    next
      case (Inr d)
      obtain r ui where d: "d = (r, ui)" by fastforce
      let ?tx = "\<lambda>tx. if r \<noteq> 0 \<and> http then ntrack_redirect (he_endian env) (he_csum env) (al_kmalloc al) (al_skb1 al) (al_skb2 al)
          ui skb in_dev out_dev = Inr tx else tx = []"
      obtain tx where "?tx tx" using tx [of ui] by (cases "r \<noteq> 0 \<and> http") auto
      then show ?thesis using False Inr d iph http(1) assms(4) user dec
        by (intro exI [of _ iph] exI [of _ http]) (auto simp: hook_decide_def Let_def set_user_def intro!: exI [of _ tx] split: if_splits)
    qed
  qed
qed

lemma hook_ok_decides: "hook_ok env st \<Longrightarrow> conf_state_ok (st_conf st) \<and> (\<forall>u \<in> set (st_users st). users_ok env u)"
  by (simp add: hook_ok_def)

lemma hook_decided:
  assumes "hook_ok env st" "linear_packet skb" "length (dev_name in_dev) < IFNAMSIZ"
    and "ct_nos ct = Some nos" "trk_user nos = Some i" "i < length (st_users st)" "\<not> ct_untracked ct"
    and "ip_hdr skb = Inr iph" "\<not> l3filter (env_ipv4 (he_conf env)) iph"
    and "user_need_redirect (he_conf env) (st_conf st) (st_users st ! i) skb = Inr (r, ui)"
  obtains tx where "ui_id ui = ui_id (st_users st ! i)" "ui_magic ui = ui_magic (st_users st ! i)"
    "hook_decide env al (Some ct) skb in_dev out_dev st = Inr (Some (i, ui, (set_user st i ui)\<lparr>st_xmit := st_xmit st @ tx\<rparr>))"
  using hook_decide_steps [OF hook_ok_decides [OF assms(1)] assms(2-6), of al out_dev] assms(7-10) by auto

text \<open>
  C9.  What the forward hook does with a packet.  In a well-formed state, for a linear packet of a
  connection whose user is in the table: an untracked or filtered packet passes and changes
  nothing.  Otherwise, if the user carries the index of a rule that the current table does not
  have, the hook ends in the fault of \<open>user_need_redirect\<close>; for every other user it lets the
  packet pass, leaves the state well-formed and the configuration as it is, and sends the
  redirection packets exactly when the decision asks for a redirection and the packet is an
  HTTP request.
\<close>

theorem ntrack_hook_fw_safe:
  assumes "hook_ok env st" "linear_packet skb" "length (dev_name in_dev) < IFNAMSIZ"
    and "\<And>n. al_node al = Some n \<Longrightarrow> length (node_buff n) = RBF_NODE_SIZE"
    and "ct_nos ct = Some nos" "trk_user nos = Some i" "i < length (st_users st)"
  shows "\<exists>iph http. ip_hdr skb = Inr iph \<and> auth_check_http iph skb = Inr http \<and>
    (if ct_untracked ct \<or> l3filter (env_ipv4 (he_conf env)) iph
     then ntrack_hook_fw env al jiffies (Some ct) skb in_dev out_dev st = Inr (NF_ACCEPT, st)
     else case user_need_redirect (he_conf env) (st_conf st) (st_users st ! i) skb of
       Inl f \<Rightarrow> stale_user (st_conf st) (st_users st ! i) \<and> ntrack_hook_fw env al jiffies (Some ct) skb in_dev out_dev st = Inl f
     | Inr (r, ui) \<Rightarrow> \<not> stale_user (st_conf st) (st_users st ! i)
         \<and> (\<exists>st'. ntrack_hook_fw env al jiffies (Some ct) skb in_dev out_dev st = Inr (NF_ACCEPT, st')
             \<and> hook_ok env st' \<and> st_conf st' = st_conf st
             \<and> (if r \<noteq> 0 \<and> http
                 then \<exists>tx. ntrack_redirect (he_endian env) (he_csum env) (al_kmalloc al) (al_skb1 al) (al_skb2 al)
                     ui skb in_dev out_dev = Inr tx \<and> st_xmit st' = st_xmit st @ tx
                 else st_xmit st' = st_xmit st)))"
proof -
  from hook_decide_steps [OF hook_ok_decides [OF assms(1)] assms(2,3,5-7), of al out_dev] obtain iph http where
    iph: "ip_hdr skb = Inr iph" and http: "auth_check_http iph skb = Inr http"
    and d: "if ct_untracked ct \<or> l3filter (env_ipv4 (he_conf env)) iph then hook_decide env al (Some ct) skb in_dev out_dev st = Inr None
     else case user_need_redirect (he_conf env) (st_conf st) (st_users st ! i) skb of
       Inl f \<Rightarrow> stale_user (st_conf st) (st_users st ! i) \<and> hook_decide env al (Some ct) skb in_dev out_dev st = Inl f
     | Inr (r, ui) \<Rightarrow> \<not> stale_user (st_conf st) (st_users st ! i)
         \<and> ui_id ui = ui_id (st_users st ! i) \<and> ui_magic ui = ui_magic (st_users st ! i)
         \<and> (\<exists>tx. hook_decide env al (Some ct) skb in_dev out_dev st
               = Inr (Some (i, ui, (set_user st i ui)\<lparr>st_xmit := st_xmit st @ tx\<rparr>))
             \<and> (if r \<noteq> 0 \<and> http then ntrack_redirect (he_endian env) (he_csum env) (al_kmalloc al) (al_skb1 al) (al_skb2 al)
                 ui skb in_dev out_dev = Inr tx else tx = []))" by blast
  have rep: "\<exists>st'. report_online env al jiffies i ui ((set_user st i ui)\<lparr>st_xmit := st_xmit st @ tx\<rparr>) = Inr (NF_ACCEPT, st')
      \<and> hook_ok env st' \<and> st_conf st' = st_conf st \<and> st_xmit st' = st_xmit st @ tx"
    if "ui_id ui = ui_id (st_users st ! i)" for ui tx
  proof -
    have u: "users_ok env ui" using that assms(1,7) by (simp add: hook_ok_def users_ok_def)
    then have "hook_ok env ((set_user st i ui)\<lparr>st_xmit := st_xmit st @ tx\<rparr>)"
      using hook_ok_set_user [OF assms(1) u] by (simp add: hook_ok_def)
    from report_online_ok [OF this u assms(4)] show ?thesis by (simp add: set_user_def)
  qed
  show ?thesis
  proof (cases "ct_untracked ct \<or> l3filter (env_ipv4 (he_conf env)) iph")
    case True
    then show ?thesis using iph http d by (auto simp: ntrack_hook_fw_def)
  next
    case False
    show ?thesis
    proof (cases "user_need_redirect (he_conf env) (st_conf st) (st_users st ! i) skb")
      case (Inl f)
      then show ?thesis using False iph http d by (auto simp: ntrack_hook_fw_def)
    next
      case (Inr a)
      obtain r ui where a: "a = (r, ui)" by fastforce
      from d False Inr a obtain tx where "\<not> stale_user (st_conf st) (st_users st ! i)" "ui_id ui = ui_id (st_users st ! i)"
        "hook_decide env al (Some ct) skb in_dev out_dev st = Inr (Some (i, ui, (set_user st i ui)\<lparr>st_xmit := st_xmit st @ tx\<rparr>))"
        "if r \<noteq> 0 \<and> http then ntrack_redirect (he_endian env) (he_csum env) (al_kmalloc al) (al_skb1 al) (al_skb2 al)
           ui skb in_dev out_dev = Inr tx else tx = []" by auto
      with rep [of ui tx] False Inr a iph http show ?thesis by (auto simp: ntrack_hook_fw_def)
    qed
  qed
qed

definition demo_hook_env :: hook_env where
  "demo_hook_env = \<lparr>he_conf = demo_env, he_csum = \<lparr>ip_csum = \<lambda>_. 0, tcp_csum = \<lambda>_ _ _. 0\<rparr>, he_endian = Little,
     he_nr_cpu_ids = 2, he_user_max = 8, he_HZ = 100\<rparr>"

definition demo_hook_state :: nt_state where
  "demo_hook_state = \<lparr>st_users = [demo_user\<lparr>ui_hdr := (ui_hdr demo_user)\<lparr>hdr_flags := 3\<rparr>\<rparr>],
     st_conf = demo_cs\<lparr>G_AuthConf := Some demo_conf\<rparr>, st_msg = demo_state, st_xmit = []\<rparr>"

abbreviation demo_conn :: nf_conn where
  "demo_conn \<equiv> \<lparr>ct_untracked = False, ct_nos = Some \<lparr>trk_flow = None, trk_user = Some 0, trk_peer = None\<rparr>, ct_mark = 0\<rparr>"

abbreviation demo_alloc :: hook_alloc where
  "demo_alloc \<equiv> \<lparr>al_kmalloc = True, al_skb1 = True, al_skb2 = True, al_node = Some demo_node\<rparr>"

lemma demo_fw_linear: "linear_packet demo_fw"
  using demo_fw_forwarded by (simp add: linear_packet_def demo_fw_hdr) (simp add: demo_fw_def)

lemma demo_hook_ok: "hook_ok demo_hook_env demo_hook_state"
  using demo_conf_ok demo_ok(1)
  by (simp add: hook_ok_def demo_hook_env_def demo_hook_state_def conf_state_ok_def users_ok_def demo_user_def)

text \<open>A user that carries the third rule of a longer table.\<close>

definition demo_stale_state :: nt_state where
  "demo_stale_state = demo_hook_state\<lparr>st_users := [demo_user\<lparr>ui_hdr := (ui_hdr demo_user)\<lparr>hdr_rule_idx := 2, hdr_rule_magic := 5\<rparr>\<rparr>]\<rparr>"

theorem ntrack_hook_fw_safe_witness:
  "(\<exists>st'. ntrack_hook_fw demo_hook_env demo_alloc 9000 (Some demo_conn) demo_fw
      \<lparr>dev_index = 1, dev_name = ''br-lan''\<rparr> None demo_hook_state = Inr (1, st') \<and> hook_ok demo_hook_env st')
   \<and> ntrack_hook_fw demo_hook_env demo_alloc 9000 (Some demo_conn) demo_fw
      \<lparr>dev_index = 1, dev_name = ''br-lan''\<rparr> None demo_stale_state = Inl Null_deref"
proof -
  let ?iph = "\<lparr>ip_ihl = 5, ip_version = 4, ip_tot_len = 44, ip_protocol = 6, ip_saddr = 0xc0a80102, ip_daddr = 0x08080808\<rparr>"
    and ?dev = "\<lparr>dev_index = 1, dev_name = ''br-lan''\<rparr>"
  have f: "\<not> l3filter (env_ipv4 (he_conf demo_hook_env)) ?iph" by code_simp
  have "case user_need_redirect (he_conf demo_hook_env) (st_conf demo_hook_state) (st_users demo_hook_state ! 0) demo_fw of
      Inl _ \<Rightarrow> False | Inr _ \<Rightarrow> True" by code_simp
  then obtain r u where u: "user_need_redirect (he_conf demo_hook_env) (st_conf demo_hook_state)
      (st_users demo_hook_state ! 0) demo_fw = Inr (r, u)" by (auto split: sum.splits)
  have "case user_need_redirect (he_conf demo_hook_env) (st_conf demo_stale_state) (st_users demo_stale_state ! 0) demo_fw of
      Inl f \<Rightarrow> f = Null_deref | Inr _ \<Rightarrow> False" by code_simp
  then have v: "user_need_redirect (he_conf demo_hook_env) (st_conf demo_stale_state) (st_users demo_stale_state ! 0) demo_fw
      = Inl Null_deref" by (auto split: sum.splits)
  have "hook_ok demo_hook_env demo_stale_state"
    using demo_hook_ok by (simp add: hook_ok_def demo_stale_state_def demo_hook_state_def users_ok_def)
  note w = ntrack_hook_fw_safe [OF this demo_fw_linear, of ?dev demo_alloc demo_conn _ 0 9000 None]
  have n: "0 < length (st_users demo_hook_state)" "0 < length (st_users demo_stale_state)" "length (dev_name ?dev) < IFNAMSIZ"
    by (simp_all add: demo_hook_state_def demo_stale_state_def)
  from ntrack_hook_fw_safe [OF demo_hook_ok demo_fw_linear, of ?dev demo_alloc demo_conn _ 0 9000 None] w n f u v demo_ok(2)
  show ?thesis by (auto simp: demo_fw_hdr)
qed

text \<open>Linking the node and filling it, without anything in between, is the whole hook.\<close>

lemma ntrack_hook_fw_split:
  "ntrack_hook_fw env al jiffies conn skb in_dev out_dev st =
     bindR (ntrack_hook_link env al jiffies conn skb in_dev out_dev st) (\<lambda>(due, st'). case due of
         None \<Rightarrow> Inr (NF_ACCEPT, st')
       | Some auth \<Rightarrow> bindR (nmsg_enqueue_fill (he_endian env) (nmsg_hdr_init 3 8) auth 0
             (length (cpu_list (nmsg_cpus (st_msg st) ! 0))) (st_msg st')) (\<lambda>m. Inr (NF_ACCEPT, st'\<lparr>st_msg := m\<rparr>)))"
proof -
  have same: "st_msg st2 = st_msg st" if "hook_decide env al conn skb in_dev out_dev st = Inr (Some (i, ui, st1))"
    "report_due env jiffies i ui st1 = (d, st2)" for i ui st1 st2 d
    using that by (auto simp: hook_decide_def report_due_def set_user_def Let_def bindR_eq_Inr split: option.splits if_splits)
  have z: "KEY_TO_CORE nr 0 = Inr c \<Longrightarrow> c = 0" for nr c by (simp add: KEY_TO_CORE_def split: if_splits)
  have k: "nmsg_enqueue_link nr node h 0 m = Inr (r, m') \<Longrightarrow> KEY_TO_CORE nr 0 = Inr 0" for nr node h m r m'
    using z by (auto simp: nmsg_enqueue_link_def bindR_eq_Inr)
  show ?thesis
  proof (cases "hook_decide env al conn skb in_dev out_dev st")
    case (Inr d)
    show ?thesis
    proof (cases d)
      case (Some t)
      obtain i ui st1 where t: "t = (i, ui, st1)" by (cases t)
      obtain due st2 where r: "report_due env jiffies i ui st1 = (due, st2)" by fastforce
      have m: "st_msg st2 = st_msg st" using same Inr Some t r by simp
      show ?thesis
      proof (cases due)
        case None
        then show ?thesis using Inr Some t r by (simp add: ntrack_hook_fw_def ntrack_hook_link_def report_online_def)
      next
        case (Some auth)
        show ?thesis
        proof (cases "nmsg_enqueue_link (he_nr_cpu_ids env) (al_node al) (nmsg_hdr_init 3 8) 0 (st_msg st)")
          case l: (Inr l)
          then show ?thesis using Inr \<open>d = Some t\<close> t r Some m k
            by (cases l) (auto simp: ntrack_hook_fw_def ntrack_hook_link_def report_online_def nmsg_enqueue_split bindR_assoc)
        qed (use Inr \<open>d = Some t\<close> t r Some m in \<open>simp add: ntrack_hook_fw_def ntrack_hook_link_def report_online_def nmsg_enqueue_split\<close>)
      qed
    qed (use Inr in \<open>simp add: ntrack_hook_fw_def ntrack_hook_link_def\<close>)
  qed (simp add: ntrack_hook_fw_def ntrack_hook_link_def)
qed

subsection \<open>The keep-alive message\<close>

lemma auth_msg_roundtrip:
  "field32 en 0 (auth_msg_bytes en m i) = Inr m" "field32 en 4 (auth_msg_bytes en m i) = Inr i"
  by (cases en; simp add: auth_msg_bytes_def field32_def mem_read_def window_def)+

text \<open>The report of a user that is online and was silent: where it goes and what stays.\<close>

lemma ntrack_hook_fw_queues:
  assumes "hook_ok env st" "linear_packet skb" "length (dev_name in_dev) < IFNAMSIZ"
    and "al_node al = Some node" "length (node_buff node) = RBF_NODE_SIZE"
    and "ct_nos ct = Some nos" "trk_user nos = Some i" "i < length (st_users st)" "\<not> ct_untracked ct"
    and "ip_hdr skb = Inr iph" "\<not> l3filter (env_ipv4 (he_conf env)) iph"
    and "user_need_redirect (he_conf env) (st_conf st) (st_users st ! i) skb = Inr (r, ui)"
    and "unat (cpu_count (nmsg_cpus (st_msg st) ! 0)) \<le> NCAP_MAX_COUNT"
    and "user_timeout (he_HZ env) jiffies ui" "nt_auth_status ui \<ge> AUTH_OK"
  obtains st' n where "ntrack_hook_fw env al jiffies (Some ct) skb in_dev out_dev st = Inr (NF_ACCEPT, st')"
    "nmsg_ok (he_nr_cpu_ids env) (st_msg st')"
    "cpu_list (nmsg_cpus (st_msg st') ! 0) = n # cpu_list (nmsg_cpus (st_msg st) ! 0)"
    "cpu_rbfp (nmsg_cpus (st_msg st') ! 0) = cpu_rbfp (nmsg_cpus (st_msg st) ! 0)"
    "node_bytes n = nmsg_hdr_bytes (he_endian env) (nmsg_hdr_init 3 8)
       @ auth_msg_bytes (he_endian env) (ui_magic (st_users st ! i)) (ui_id (st_users st ! i))"
    "st_users st' = (st_users st)[i := snd (user_update_timestamp jiffies ui)]"
    "ui_id ui = ui_id (st_users st ! i)" "ui_magic ui = ui_magic (st_users st ! i)"
proof -
  obtain tx where
    ids: "ui_id ui = ui_id (st_users st ! i)" "ui_magic ui = ui_magic (st_users st ! i)"
    and run: "ntrack_hook_fw env al jiffies (Some ct) skb in_dev out_dev st = report_online env al jiffies i ui
         ((set_user st i ui)\<lparr>st_xmit := st_xmit st @ tx\<rparr>)"
    by (rule hook_decided [OF assms(1-3,6-12), of al out_dev]) (simp add: ntrack_hook_fw_def)
  have ok: "nmsg_ok (he_nr_cpu_ids env) (st_msg st)" using assms(1) by (simp add: hook_ok_def)
  let ?b = "auth_msg_bytes (he_endian env) (ui_magic ui) (ui_id ui)" and ?q = "nmsg_cpus (st_msg st) ! 0"
  have fit: "unat (msg_data_len (nmsg_hdr_init 3 8)) + 8 \<le> RBF_NODE_SIZE" "unat (msg_data_len (nmsg_hdr_init 3 8)) = length ?b"
    "unat (cpu_count (nmsg_cpus (st_msg st) ! (unat (0 :: u32) mod he_nr_cpu_ids env))) \<le> NCAP_MAX_COUNT"
    using assms(13) by (simp_all add: nmsg_hdr_init_def auth_msg_bytes_def)
  obtain n where n: "nmsg_enqueue (he_endian env) (he_nr_cpu_ids env) (Some node) (nmsg_hdr_init 3 8) ?b 0 (st_msg st)
      = Inr (0, set_cpu (st_msg st) 0 (?q\<lparr>cpu_count := cpu_count ?q + 1, cpu_list := n # cpu_list ?q, cpu_wq_msg := True\<rparr>))"
    "node_bytes n = nmsg_hdr_bytes (he_endian env) (nmsg_hdr_init 3 8) @ ?b"
    using nmsg_enqueue_accepts [OF ok fit(3,1) eq_imp_le [OF fit(2)] assms(5)] fit(2) by auto
  have "nmsg_ok (he_nr_cpu_ids env)
      (set_cpu (st_msg st) 0 (?q\<lparr>cpu_count := cpu_count ?q + 1, cpu_list := n # cpu_list ?q, cpu_wq_msg := True\<rparr>))"
    using nmsg_enqueue_total [OF ok, of "nmsg_hdr_init 3 8" ?b "Some node" "he_endian env" 0] n(1) fit(1,2) assms(5) by auto
  moreover have "0 < length (nmsg_cpus (st_msg st))" using ok by (auto simp: nmsg_ok_def)
  ultimately show thesis
    using that run n assms(4,8,14,15) ids
    by (auto simp: report_online_def report_due_def Let_def set_user_def user_update_timestamp_def nt_auth_status_def)
qed

text \<open>
  The keep-alive message of a user.  When the user's time stamp is older than 30 seconds
  and the user is authenticated after the decision on the packet, the hook queues on CPU 0
  exactly one message in front of what is queued there, whose bytes decode to a header of
  type \<open>en_MSG_t_AUTH\<close> for eight bytes and to the magic and the identity the user has in the
  table; the user's time stamp is the current time.  Otherwise the queue is left alone.
\<close>

theorem ntrack_hook_fw_reports:
  assumes "hook_ok env st" "linear_packet skb" "length (dev_name in_dev) < IFNAMSIZ"
    and "al_node al = Some node" "length (node_buff node) = RBF_NODE_SIZE"
    and "ct_nos ct = Some nos" "trk_user nos = Some i" "i < length (st_users st)" "\<not> ct_untracked ct"
    and "ip_hdr skb = Inr iph" "\<not> l3filter (env_ipv4 (he_conf env)) iph"
    and "user_need_redirect (he_conf env) (st_conf st) (st_users st ! i) skb = Inr (r, ui)"
    and "unat (cpu_count (nmsg_cpus (st_msg st) ! 0)) \<le> NCAP_MAX_COUNT"
  shows "\<exists>st'. ntrack_hook_fw env al jiffies (Some ct) skb in_dev out_dev st = Inr (NF_ACCEPT, st')
    \<and> (if user_timeout (he_HZ env) jiffies ui then hdr_time_stamp (ui_hdr (st_users st' ! i)) = jiffies
        else st_users st' ! i = ui)
    \<and> (if user_timeout (he_HZ env) jiffies ui \<and> nt_auth_status ui \<ge> AUTH_OK then
          \<exists>n body. cpu_list (nmsg_cpus (st_msg st') ! 0) = n # cpu_list (nmsg_cpus (st_msg st) ! 0)
            \<and> node_bytes n = nmsg_hdr_bytes (he_endian env) (nmsg_hdr_init 3 8) @ body
            \<and> field32 (he_endian env) 0 body = Inr (ui_magic (st_users st ! i))
            \<and> field32 (he_endian env) 4 body = Inr (ui_id (st_users st ! i))
        else st_msg st' = st_msg st)"
proof (cases "user_timeout (he_HZ env) jiffies ui \<and> nt_auth_status ui \<ge> AUTH_OK")
  case True
  note rt = auth_msg_roundtrip [of "he_endian env" "ui_magic (st_users st ! i)" "ui_id (st_users st ! i)"]
  show ?thesis
    by (rule ntrack_hook_fw_queues [OF assms conjunct1 [OF True] conjunct2 [OF True], of out_dev])
      (use True assms(8) rt in \<open>auto simp: user_update_timestamp_def\<close>)
next
  case False
  obtain tx where run: "ntrack_hook_fw env al jiffies (Some ct) skb in_dev out_dev st = report_online env al jiffies i ui
       ((set_user st i ui)\<lparr>st_xmit := st_xmit st @ tx\<rparr>)"
    by (rule hook_decided [OF assms(1-3,6-12), of al out_dev]) (simp add: ntrack_hook_fw_def)
  then show ?thesis
    using False assms(8) by (auto simp: report_online_def report_due_def Let_def set_user_def user_update_timestamp_def nt_auth_status_def)
qed

theorem ntrack_hook_fw_reports_witness:
  "\<exists>st' n body. ntrack_hook_fw demo_hook_env demo_alloc 9000 (Some demo_conn) demo_fw
      \<lparr>dev_index = 1, dev_name = ''br-lan''\<rparr> None demo_hook_state = Inr (1, st')
    \<and> cpu_list (nmsg_cpus (st_msg st') ! 0) = [n] \<and> node_bytes n = nmsg_hdr_bytes Little (nmsg_hdr_init 3 8) @ body
    \<and> field32 Little 4 body = Inr (ui_id demo_user)"
proof -
  let ?iph = "\<lparr>ip_ihl = 5, ip_version = 4, ip_tot_len = 44, ip_protocol = 6, ip_saddr = 0xc0a80102, ip_daddr = 0x08080808\<rparr>"
  have "case user_need_redirect (he_conf demo_hook_env) (st_conf demo_hook_state) (st_users demo_hook_state ! 0) demo_fw of
      Inl _ \<Rightarrow> False | Inr (r, u) \<Rightarrow> user_timeout 100 9000 u \<and> 3 \<le> nt_auth_status u"
    by code_simp
  then obtain r u where u: "user_need_redirect (he_conf demo_hook_env) (st_conf demo_hook_state)
      (st_users demo_hook_state ! 0) demo_fw = Inr (r, u)" "user_timeout 100 9000 u" "3 \<le> nt_auth_status u"
    by (auto split: sum.splits)
  have f: "\<not> l3filter (env_ipv4 (he_conf demo_hook_env)) ?iph" by code_simp
  from ntrack_hook_fw_reports [OF demo_hook_ok demo_fw_linear _ _ demo_ok(2) _ _ _ _ demo_fw_hdr f u(1),
      of "\<lparr>dev_index = 1, dev_name = ''br-lan''\<rparr>" demo_alloc demo_conn _ 9000 None]
  show ?thesis using u(2,3)
    by (auto simp: demo_hook_state_def demo_hook_env_def demo_state_def demo_cpu_def)
qed

subsection \<open>The life cycle of the module\<close>

text \<open>What holds before the module is loaded: the statics are zero and the per-CPU area exists.\<close>

definition mod_fresh :: "nat \<Rightarrow> mod_state \<Rightarrow> bool" where
  "mod_fresh nr md \<longleftrightarrow> nmsg_wq (md_msg md) = Wq_null \<and> length (nmsg_cpus (md_msg md)) = nr
     \<and> conf_nl_sock (md_conf md) = Nl_null \<and> \<not> md_hooks md \<and> \<not> md_match_fn md"

text \<open>
  Nothing of the module is reachable from the kernel, and log, socket and work queue are given
  back.  The rule table is not among these: no path of the module frees it.
\<close>

definition mod_released :: "mod_state \<Rightarrow> bool" where
  "mod_released md \<longleftrightarrow> md_klog md \<noteq> Kl_live \<and> conf_nl_sock (md_conf md) \<noteq> Nl_live \<and> nmsg_wq (md_msg md) \<noteq> Wq_live
     \<and> \<not> md_hooks md \<and> \<not> md_match_fn md"

definition mod_live :: "nat \<Rightarrow> mod_state \<Rightarrow> bool" where
  "mod_live nr md \<longleftrightarrow> md_klog md = Kl_live \<and> conf_nl_sock (md_conf md) = Nl_live \<and> nmsg_ok nr (md_msg md)
     \<and> length (nmsg_cpus (md_msg md)) = nr \<and> md_hooks md \<and> md_match_fn md"

lemma nmsg_run_pending_ok:
  assumes "nmsg_ok nr m" "set cpus \<subseteq> {..<nr}"
  shows "\<exists>m'. nmsg_run_pending cpus m = Inr m' \<and> nmsg_ok nr m'"
  using assms
proof (induction cpus arbitrary: m)
  case (Cons c cs)
  have t: "nmsg_target_cpu m c = Inr (nmsg_cpus m ! c)"
    using Cons.prems by (auto simp: nmsg_target_cpu_def nmsg_ok_def)
  obtain m1 where "nmsg_wq_dequeue_func c m = Inr m1" "nmsg_ok nr m1"
    using nmsg_wq_dequeue_func_ok [OF Cons.prems(1), of c] Cons.prems(2) by auto
  then show ?case using t Cons by auto
qed simp

lemma nmsg_cleanup_ok:
  assumes "nmsg_ok nr m" "length (nmsg_cpus m) = nr"
  obtains m' where "nmsg_cleanup m = Inr m'" "nmsg_wq m' = Wq_destroyed"
proof -
  obtain m' where "nmsg_run_pending [0..<nr] m = Inr m'" using nmsg_run_pending_ok [OF assms(1), of "[0..<nr]"] by (auto simp: lessThan_atLeast0)
  then show thesis using assms by (intro that [of "m'\<lparr>nmsg_wq := Wq_destroyed\<rparr>"]) (simp_all add: nmsg_cleanup_def nmsg_ok_def)
qed

text \<open>The error path releases what has been acquired, whichever step failed.\<close>

lemma modules_err_ok:
  assumes "md_klog md = Kl_live" "conf_nl_sock (md_conf md) \<noteq> Nl_released" "\<not> md_hooks md" "\<not> md_match_fn md"
    and "nmsg_wq (md_msg md) = Wq_null \<or> nmsg_ok nr (md_msg md) \<and> length (nmsg_cpus (md_msg md)) = nr"
  shows "\<exists>md'. modules_err md = Inr md' \<and> mod_released md'"
proof -
  obtain m where m: "nmsg_cleanup (md_msg md) = Inr m" "nmsg_wq m \<noteq> Wq_live"
  proof (cases "nmsg_wq (md_msg md) = Wq_null")
    case True
    then show thesis using that [of "md_msg md"] by (simp add: nmsg_cleanup_def)
  next
    case False
    then obtain m where "nmsg_cleanup (md_msg md) = Inr m" "nmsg_wq m = Wq_destroyed"
      using assms(5) by (elim disjE conjE) (simp, rule nmsg_cleanup_ok)
    then show thesis by (intro that [of m]) simp_all
  qed
  then show ?thesis using assms(1-4)
    by (cases "conf_nl_sock (md_conf md)")
      (simp_all add: modules_err_def klog_fini_ptr_def ntrack_conf_exit_def mod_released_def)
qed

lemma ntrack_modules_exit_ok:
  assumes "mod_live nr md"
  shows "\<exists>md'. ntrack_modules_exit md = Inr md' \<and> mod_released md' \<and> G_AuthConf (md_conf md') = G_AuthConf (md_conf md)
    \<and> vm_blocks (md_conf md') = vm_blocks (md_conf md)"
proof -
  obtain m where "nmsg_cleanup (md_msg md) = Inr m" "nmsg_wq m = Wq_destroyed"
    using assms nmsg_cleanup_ok [of nr "md_msg md"] by (auto simp: mod_live_def)
  then show ?thesis using assms
    by (simp add: ntrack_modules_exit_def Let_def klog_fini_ptr_def ntrack_conf_exit_def mod_released_def mod_live_def)
qed

lemma modules_err_no_socket:
  assumes "mod_fresh nr md"
  shows "\<exists>md'. modules_err (md\<lparr>md_klog := Kl_live, md_conf := (md_conf md)\<lparr>conf_nl_sock := Nl_null\<rparr>\<rparr>) = Inr md' \<and> mod_released md'"
  by (rule modules_err_ok [where nr = nr]) (use assms in \<open>auto simp: mod_fresh_def\<close>)

lemma modules_init_ok:
  assumes "mod_fresh nr md" "0 < nr" "RBF_NODE_SIZE * 32 \<le> unat cap_size div nr"
    and "unat cap_size div nr < 65536 * RBF_NODE_SIZE"
  shows "\<exists>ret md'. ntrack_modules_init klog_ok nl_ok nr True cap_size wq_ok hooks_ret md = Inr (ret, md')
    \<and> ret = (if \<not> klog_ok then - ENOMEM else if \<not> nl_ok then - EINVAL else if \<not> wq_ok then - ENOMEM else hooks_ret)
    \<and> (if ret = 0 then mod_live nr md' else mod_released md')"
proof -
  obtain sz where run: "nmsg_init nr True cap_size True (md_msg md) = Inr (0, (md_msg md)\<lparr>nmsg_wq := Wq_live,
      nmsg_cpus := replicate nr (nmsg_init_cpu sz) @ drop nr (nmsg_cpus (md_msg md)), nt_cap_block_sz := sz\<rparr>)"
    and ok: "nmsg_cpu_ok (nmsg_init_cpu sz)"
    using nmsg_init_runs [of nr "md_msg md" cap_size] assms by (auto simp: mod_fresh_def)
  define m where "m = (md_msg md)\<lparr>nmsg_wq := Wq_live,
      nmsg_cpus := replicate nr (nmsg_init_cpu sz) @ drop nr (nmsg_cpus (md_msg md)), nt_cap_block_sz := sz\<rparr>"
  have m: "nmsg_ok nr m" "length (nmsg_cpus m) = nr"
    using assms(1,2) ok by (simp_all add: m_def nmsg_ok_def mod_fresh_def nth_append)
  have nowq: "nmsg_init nr True cap_size False (md_msg md) = Inr (- ENOMEM, (md_msg md)\<lparr>nmsg_wq := Wq_null\<rparr>)"
    using assms(2,3) by (simp add: nmsg_init_def)
  let ?sock = "md\<lparr>md_klog := Kl_live, md_conf := (md_conf md)\<lparr>conf_nl_sock := Nl_live\<rparr>\<rparr>"
  have e2: "\<exists>md'. modules_err (?sock\<lparr>md_msg := (md_msg md)\<lparr>nmsg_wq := Wq_null\<rparr>\<rparr>) = Inr md' \<and> mod_released md'"
    by (rule modules_err_ok [where nr = nr]) (use assms(1) in \<open>auto simp: mod_fresh_def\<close>)
  have e3: "\<exists>md'. modules_err (?sock\<lparr>md_msg := m\<rparr>) = Inr md' \<and> mod_released md'"
    by (rule modules_err_ok [where nr = nr]) (use assms(1) m in \<open>auto simp: mod_fresh_def\<close>)
  have live: "mod_live nr (?sock\<lparr>md_msg := m, md_hooks := True, md_match_fn := True\<rparr>)" using m by (simp add: mod_live_def)
  consider "\<not> klog_ok" | "klog_ok" "\<not> nl_ok" | "klog_ok" "nl_ok" "\<not> wq_ok" | "klog_ok" "nl_ok" "wq_ok" "hooks_ret \<noteq> 0"
    | "klog_ok" "nl_ok" "wq_ok" "hooks_ret = 0" by blast
  then show ?thesis
  proof cases
    case 1
    then show ?thesis using assms(1) by (simp add: ntrack_modules_init_def mod_released_def mod_fresh_def)
  next
    case 2
    then show ?thesis using modules_err_no_socket [OF assms(1)] by (auto simp: ntrack_modules_init_def ntrack_conf_init_def)
  next
    case 3
    then show ?thesis using e2 nowq by (auto simp: ntrack_modules_init_def ntrack_conf_init_def)
  next
    case 4
    then show ?thesis using e3 run by (auto simp: ntrack_modules_init_def ntrack_conf_init_def m_def)
  next
    case 5
    then show ?thesis using live run by (auto simp: ntrack_modules_init_def ntrack_conf_init_def m_def)
  qed
qed

text \<open>
  C26.  Loading and unloading the module.  From the state in which the statics are zero, on a
  machine with blocks of less than 128 MiB per CPU: loading panics exactly when log and socket
  could be opened but the shared area is not mapped or has less than 32 nodes for each CPU.
  Otherwise it returns 0 with log, netlink socket, message queue, hooks and match function in
  place, or the error of the step that failed (\<open>-ENOMEM\<close> without a log or a work queue, \<open>-EINVAL\<close>
  without a socket, the error of the hook registration otherwise) with all of these given back.
  Unloading, from any state of a loaded module whose queues are well-formed, gives them all back
  too, but not the rule table: the pointer and the allocated blocks are what they were.
\<close>

theorem ntrack_modules_lifecycle:
  assumes "mod_fresh nr md" "0 < nr" "unat cap_size div nr < 65536 * RBF_NODE_SIZE"
  shows "(if klog_ok \<and> nl_ok \<and> \<not> (cap_base \<and> RBF_NODE_SIZE * 32 \<le> unat cap_size div nr)
      then ntrack_modules_init klog_ok nl_ok nr cap_base cap_size wq_ok hooks_ret md = Inl Assert_failed
      else \<exists>ret md'. ntrack_modules_init klog_ok nl_ok nr cap_base cap_size wq_ok hooks_ret md = Inr (ret, md')
        \<and> ret = (if \<not> klog_ok then - ENOMEM else if \<not> nl_ok then - EINVAL else if \<not> wq_ok then - ENOMEM else hooks_ret)
        \<and> (if ret = 0 then mod_live nr md' else mod_released md'))
    \<and> (mod_live nr md2 \<longrightarrow> (\<exists>md'. ntrack_modules_exit md2 = Inr md' \<and> mod_released md'
        \<and> G_AuthConf (md_conf md') = G_AuthConf (md_conf md2) \<and> vm_blocks (md_conf md') = vm_blocks (md_conf md2)))"
proof (intro conjI impI)
  let ?init = "ntrack_modules_init klog_ok nl_ok nr cap_base cap_size wq_ok hooks_ret md"
  show "if klog_ok \<and> nl_ok \<and> \<not> (cap_base \<and> RBF_NODE_SIZE * 32 \<le> unat cap_size div nr) then ?init = Inl Assert_failed
      else \<exists>ret md'. ?init = Inr (ret, md')
        \<and> ret = (if \<not> klog_ok then - ENOMEM else if \<not> nl_ok then - EINVAL else if \<not> wq_ok then - ENOMEM else hooks_ret)
        \<and> (if ret = 0 then mod_live nr md' else mod_released md')"
  proof (cases "cap_base \<and> RBF_NODE_SIZE * 32 \<le> unat cap_size div nr")
    case False
    then show ?thesis using assms modules_err_no_socket [OF assms(1)]
      by (auto simp: ntrack_modules_init_def ntrack_conf_init_def nmsg_init_def assertR_def mod_released_def mod_fresh_def)
  next
    case True
    then show ?thesis using modules_init_ok [OF assms(1,2) _ assms(3)] by simp
  qed
qed (rule ntrack_modules_exit_ok)

definition demo_mod :: mod_state where
  "demo_mod = \<lparr>md_klog = Kl_null, md_conf = demo_cs\<lparr>conf_nl_sock := Nl_null\<rparr>, md_msg = demo_state\<lparr>nmsg_wq := Wq_null\<rparr>,
     md_hooks = False, md_match_fn = False\<rparr>"

text \<open>The module in use, with a table.\<close>

definition demo_loaded :: mod_state where
  "demo_loaded = \<lparr>md_klog = Kl_live, md_conf = demo_cs\<lparr>G_AuthConf := Some demo_conf, vm_blocks := 1\<rparr>, md_msg = demo_state,
     md_hooks = True, md_match_fn = True\<rparr>"

theorem ntrack_modules_lifecycle_witness:
  "(\<exists>md'. ntrack_modules_init True True 2 True 131072 True 0 demo_mod = Inr (0, md') \<and> mod_live 2 md')
   \<and> (\<exists>md'. ntrack_modules_init True True 2 True 131072 True (- 12) demo_mod = Inr (- 12, md') \<and> mod_released md')
   \<and> ntrack_modules_init True True 2 True 4096 True 0 demo_mod = Inl Assert_failed
   \<and> (\<exists>md'. ntrack_modules_exit demo_loaded = Inr md' \<and> mod_released md' \<and> vm_blocks (md_conf md') = 1)"
proof -
  have f: "mod_fresh 2 demo_mod" by (simp add: mod_fresh_def demo_mod_def demo_cs_def demo_state_def)
  have l: "mod_live 2 demo_loaded" using demo_ok(1) by (simp add: mod_live_def demo_loaded_def demo_cs_def demo_state_def)
  from ntrack_modules_lifecycle [where klog_ok = True and nl_ok = True and cap_base = True and wq_ok = True and cap_size = 131072
      and hooks_ret = 0 and ?md2.0 = demo_loaded, OF f]
    ntrack_modules_lifecycle [where klog_ok = True and nl_ok = True and cap_base = True and wq_ok = True and cap_size = 131072
      and hooks_ret = "- 12", OF f]
    ntrack_modules_lifecycle [where klog_ok = True and nl_ok = True and cap_base = True and wq_ok = True and cap_size = 4096
      and hooks_ret = 0, OF f] l
  show ?thesis by (auto simp: demo_loaded_def)
qed

end
