(* ===== verification/NtMessage.thy ===== *)
theory NtMessage
  imports RingBuffer NtrackUser Decimal
begin

text \<open>
  The library of the user-space side, \<open>libs/utils/src/nt_message.c\<close>: it reads the layout of the
  shared memory from \<open>/proc\<close>, maps the memory, attaches to the ring of the core the process is
  bound to, and runs the loop that hands every message to a callback.  What the system calls
  return is an argument.  The shared memory is a list of blocks of \<open>nt_cap_block_sz\<close> bytes, one
  ring in each, and the two node tables at their offsets.
\<close>

subsection \<open>Reading the layout\<close>

text \<open>
  An entry of \<open>/proc\<close>: it cannot be opened, it delivers text, or reading it fails with an
  errno.  \<open>errno'\<close> is the value left by an earlier call.
\<close>

datatype proc_file = No_file | File_text string | File_error int

definition proc_uint :: "int \<Rightarrow> proc_file \<Rightarrow> u32 \<Rightarrow> (int \<times> u32) result" where
  "proc_uint errno' f out =
     (case f of
        No_file \<Rightarrow> Inr (- EINVAL, out)
      | File_error e \<Rightarrow> Inr (e, out)
      | File_text s \<Rightarrow>
          let got = take 32 s;
              buff = overlay 0 got (replicate 32 (CHR 0x00))
          in if length got > 0 then bindR (atoi buff) (\<lambda>v. Inr (0, of_int v))
             else Inr (errno', out))"

datatype shm_ptr = Shm_null | Shm_failed | Shm_mapped

record nt_lib =
  shm_base_addr :: shm_ptr
  shm_user_offset :: u32
  shm_flow_offset :: u32
  nt_cap_block :: u32
  nt_message_rbf :: "nat option"

record nt_proc =
  fn_shm_cap_sz :: proc_file
  fn_shm_uoff :: proc_file
  fn_shm_foff :: proc_file

definition proc_pars_init :: "int \<Rightarrow> nt_proc \<Rightarrow> nt_lib \<Rightarrow> (int \<times> nt_lib) result" where
  "proc_pars_init errno' pr lib =
     bindR (proc_uint errno' (fn_shm_cap_sz pr) (nt_cap_block lib)) (\<lambda>(res, v).
     let lib1 = lib\<lparr>nt_cap_block := v\<rparr> in
     if res \<noteq> 0 then Inr (res, lib1)
     else bindR (proc_uint errno' (fn_shm_uoff pr) (shm_user_offset lib1)) (\<lambda>(res, v).
     let lib2 = lib1\<lparr>shm_user_offset := v\<rparr> in
     if res \<noteq> 0 then Inr (res, lib2)
     else bindR (proc_uint errno' (fn_shm_foff pr) (shm_flow_offset lib2)) (\<lambda>(res, v).
     let lib3 = lib2\<lparr>shm_flow_offset := v\<rparr> in
     if res \<noteq> 0 then Inr (res, lib3) else Inr (0, lib3))))"

subsection \<open>Mapping the memory\<close>

record shm_area =
  area_blocks :: "rbf_t list"
  area_users :: "u32 \<Rightarrow> user_info_t list"
  area_flows :: "u32 \<Rightarrow> flow_info_t list"

text \<open>
  \<open>shm_init\<close>: \<open>mem\<close> says whether \<open>/dev/mem\<close> can be opened, \<open>addr\<close> is what \<open>mmap\<close> returns.  The
  tables of the result start at the offsets that \<open>/proc\<close> gave.
\<close>

definition shm_init :: "bool \<Rightarrow> shm_ptr \<Rightarrow> shm_area \<Rightarrow> nt_lib \<Rightarrow> ntrack_t \<Rightarrow> int \<times> nt_lib \<times> ntrack_t" where
  "shm_init mem addr area lib nt =
     (if \<not> mem then (- EINVAL, lib, nt)
      else
        let lib1 = lib\<lparr>shm_base_addr := addr\<rparr> in
        if addr = Shm_null then (- ENOMEM, lib1, nt)
        else (0, lib1, nt\<lparr>nt_flows := area_flows area (shm_flow_offset lib1),
                         nt_users := area_users area (shm_user_offset lib1)\<rparr>))"

text \<open>
  \<open>shm_rbf_init\<close>: the affinity mask is a list of flags.  The loop runs over the indices up to
  and including the number of flags that are set, and attaches to the first core among them.
  The blocks of the area are a list: block \<open>i\<close> is what starts at \<open>nt_cap_block_sz * i\<close>.
\<close>

definition CPU_ISSET :: "nat \<Rightarrow> bool list \<Rightarrow> bool" where
  "CPU_ISSET i cpus \<longleftrightarrow> i < length cpus \<and> cpus ! i"

definition CPU_COUNT :: "bool list \<Rightarrow> nat" where
  "CPU_COUNT cpus = length (filter (\<lambda>b. b) cpus)"

definition attach_ring :: "nat \<Rightarrow> nt_lib \<Rightarrow> shm_area \<Rightarrow> (nt_lib \<times> shm_area) result" where
  "attach_ring i lib area =
     (if shm_base_addr lib \<noteq> Shm_mapped \<or> length (area_blocks area) \<le> i then Inl Out_of_bounds
      else Inr (lib\<lparr>nt_message_rbf := Some i\<rparr>,
        area\<lparr>area_blocks := (area_blocks area)[i := rbf_init (area_blocks area ! i) (nt_cap_block lib)]\<rparr>))"

fun rbf_init_loop :: "nat list \<Rightarrow> bool list \<Rightarrow> nt_lib \<Rightarrow> shm_area \<Rightarrow> (nt_lib \<times> shm_area) result" where
  "rbf_init_loop [] cpus lib area = Inr (lib, area)"
| "rbf_init_loop (i # is) cpus lib area =
     (if CPU_ISSET i cpus then attach_ring i lib area else rbf_init_loop is cpus lib area)"

definition shm_rbf_init :: "int \<Rightarrow> bool list option \<Rightarrow> nt_lib \<Rightarrow> shm_area \<Rightarrow> (int \<times> nt_lib \<times> shm_area) result" where
  "shm_rbf_init errno' affinity lib area =
     (case affinity of
        None \<Rightarrow> Inr (errno', lib, area)
      | Some cpus \<Rightarrow> bindR (rbf_init_loop [0..<CPU_COUNT cpus + 1] cpus lib area)
          (\<lambda>(lib', area'). Inr (0, lib', area')))"

record sys_env =
  sys_errno :: int
  sys_proc :: nt_proc
  sys_mem :: bool
  sys_mmap :: shm_ptr
  sys_affinity :: "bool list option"

definition nt_message_init ::
  "sys_env \<Rightarrow> nt_lib \<Rightarrow> shm_area \<Rightarrow> ntrack_t \<Rightarrow> (int \<times> nt_lib \<times> shm_area \<times> ntrack_t) result" where
  "nt_message_init sys lib area nt =
     bindR (proc_pars_init (sys_errno sys) (sys_proc sys) lib) (\<lambda>(res, lib1).
     if res \<noteq> 0 then Inr (- EINVAL, lib1, area, nt)
     else
       let (res, lib2, nt2) = shm_init (sys_mem sys) (sys_mmap sys) area lib1 nt in
       if res \<noteq> 0 then Inr (- EINVAL, lib2, area, nt2)
       else bindR (shm_rbf_init (sys_errno sys) (sys_affinity sys) lib2 area) (\<lambda>(res, lib3, area3).
         if res \<noteq> 0 then Inr (- EINVAL, lib3, area3, nt2) else Inr (0, lib3, area3, nt2)))"

subsection \<open>The message loop\<close>

text \<open>
  The callback sees the node its pointer points to.  \<open>n\<close> is the number of rounds in which
  \<open>*running\<close> is read as non-zero; a round that finds no message sleeps.
\<close>

definition rbf_read_node :: "rbf_t \<Rightarrow> nat \<Rightarrow> bytes result" where
  "rbf_read_node rb p = mem_read p RBF_NODE_SIZE (buffer rb)"

fun nt_message_loop :: "nat \<Rightarrow> (bytes \<Rightarrow> 'd \<Rightarrow> 'd result) option \<Rightarrow> rbf_t \<Rightarrow> 'd \<Rightarrow> (rbf_t \<times> 'd) result" where
  "nt_message_loop 0 cb rb d = Inr (rb, d)"
| "nt_message_loop (Suc n) cb rb d =
     (case rbf_get_data rb of
        None \<Rightarrow> nt_message_loop n cb rb d
      | Some p \<Rightarrow>
          bindR (case cb of None \<Rightarrow> Inr d | Some f \<Rightarrow> bindR (rbf_read_node rb p) (\<lambda>node. f node d)) (\<lambda>d1.
          bindR (rbf_release_data rb) (\<lambda>rb1. nt_message_loop n cb rb1 d1)))"

definition nt_message_process ::
  "nat \<Rightarrow> (bytes \<Rightarrow> 'd \<Rightarrow> 'd result) option \<Rightarrow> nt_lib \<Rightarrow> shm_area \<Rightarrow> 'd \<Rightarrow> (shm_area \<times> 'd) result" where
  "nt_message_process n cb lib area d =
     (case nt_message_rbf lib of
        None \<Rightarrow> Inl Assert_failed
      | Some i \<Rightarrow>
          if length (area_blocks area) \<le> i then Inl Out_of_bounds
          else bindR (nt_message_loop n cb (area_blocks area ! i) d) (\<lambda>(rb, d').
            Inr (area\<lparr>area_blocks := (area_blocks area)[i := rb]\<rparr>, d')))"

subsection \<open>The reader's side of a ring\<close>

text \<open>
  What a consumer may rely on beyond the channel: through the pointer it is given it sees the
  oldest node.  Any reader that keeps peeking and releasing then folds over the messages in
  the order in which they were published.
\<close>

fun foldR :: "(bytes \<Rightarrow> 'd \<Rightarrow> 'd result) \<Rightarrow> bytes list \<Rightarrow> 'd \<Rightarrow> 'd result" where
  "foldR f [] d = Inr d"
| "foldR f (m # ms) d = bindR (f m d) (foldR f ms)"

locale ring_reader = ring_channel invar contents capacity get_buff put_bytes release_buff get_data release_data
  for invar :: "'q \<Rightarrow> bool" and contents :: "'q \<Rightarrow> bytes list" and capacity :: "'q \<Rightarrow> nat"
    and get_buff :: "'q \<Rightarrow> nat option result" and put_bytes :: "'q \<Rightarrow> nat \<Rightarrow> bytes \<Rightarrow> 'q result"
    and release_buff :: "'q \<Rightarrow> 'q result" and get_data :: "'q \<Rightarrow> nat option" and release_data :: "'q \<Rightarrow> 'q result" +
  fixes read_node :: "'q \<Rightarrow> nat \<Rightarrow> bytes result"
  assumes peek: "invar q \<Longrightarrow> contents q \<noteq> [] \<Longrightarrow> get_data q = Some p \<Longrightarrow> read_node q p = Inr (hd (contents q))"
begin

fun receive :: "nat \<Rightarrow> (bytes \<Rightarrow> 'd \<Rightarrow> 'd result) \<Rightarrow> 'q \<Rightarrow> 'd \<Rightarrow> ('q \<times> 'd) result" where
  "receive 0 f q d = Inr (q, d)"
| "receive (Suc n) f q d = (case get_data q of
      None \<Rightarrow> receive n f q d
    | Some p \<Rightarrow> bindR (read_node q p) (\<lambda>m. bindR (f m d) (\<lambda>d1. bindR (release_data q) (\<lambda>q1. receive n f q1 d1))))"

lemma receive_folds:
  assumes "invar q" "foldR f (take n (contents q)) d = Inr d'"
  shows "\<exists>q'. receive n f q d = Inr (q', d') \<and> invar q' \<and> capacity q' = capacity q \<and> contents q' = drop n (contents q)"
  using assms
proof (induction n arbitrary: q d)
  case 0
  then show ?case by simp
next
  case (Suc n)
  show ?case
  proof (cases "contents q")
    case Nil
    then show ?thesis using Suc.IH [of q d] Suc.prems peek_empty [OF Suc.prems(1)] by simp
  next
    case (Cons m ms)
    obtain p q1 where q1: "get_data q = Some p" "release_data q = Inr q1" "invar q1" "capacity q1 = capacity q"
      "contents q1 = ms"
      using consume [OF Suc.prems(1)] Cons by auto
    have "read_node q p = Inr m" using peek [OF Suc.prems(1) _ q1(1)] Cons by simp
    moreover obtain d1 where "f m d = Inr d1" "foldR f (take n ms) d1 = Inr d'"
      using Suc.prems(2) Cons by (auto simp: bindR_eq_Inr)
    ultimately show ?thesis using Suc.IH [OF q1(3), of d1] q1 Cons by simp
  qed
qed

end

lemma rbf_peek:
  assumes "rbf_ok rb" "rbf_contents rb \<noteq> []" "rbf_get_data rb = Some p"
  shows "rbf_read_node rb p = Inr (hd (rbf_contents rb))"
proof -
  have "p = RBF_NODE_SIZE * ring_r rb" using rbf_get_data_ok [OF assms(1)] assms(2,3) by simp
  then show ?thesis
    using slot_end [OF assms(1) rbf_okD(1) [OF assms(1)]] rbf_hd_contents [OF assms(1,2)]
    by (simp add: rbf_read_node_def mem_read_def rbf_slot_def chunk_def)
qed

interpretation rbf_reader: ring_reader rbf_ok rbf_contents rbf_capacity rbf_get_buff rbf_write
  rbf_release_buff rbf_get_data rbf_release_data rbf_read_node
  by unfold_locales (rule rbf_peek)

lemma nt_message_loop_receive: "nt_message_loop n (Some f) rb d = rbf_reader.receive n f rb d"
  by (induction n arbitrary: rb d) (simp_all add: bindR_assoc split: option.split)

subsection \<open>Delivery\<close>

lemma nt_message_process_runs:
  assumes "nt_message_rbf lib = Some i" "i < length (area_blocks area)" "rbf_ok (area_blocks area ! i)"
    and "foldR cb (take n (rbf_contents (area_blocks area ! i))) d = Inr d'"
  obtains rb' where "nt_message_process n (Some cb) lib area d = Inr (area\<lparr>area_blocks := (area_blocks area)[i := rb']\<rparr>, d')"
    "rbf_ok rb'" "rbf_capacity rb' = rbf_capacity (area_blocks area ! i)"
    "rbf_contents rb' = drop n (rbf_contents (area_blocks area ! i))"
  using rbf_reader.receive_folds [OF assms(3,4)] assms(1,2)
  by (auto simp: nt_message_process_def nt_message_loop_receive)

text \<open>
  C28.  The message loop delivers.  On a well-formed ring, \<open>n\<close> rounds hand the first \<open>n\<close>
  waiting messages to the callback, each once, oldest first, and release exactly these; with
  at least as many rounds as messages the ring is empty afterwards.  The rings of the other
  cores are not touched.
\<close>

theorem nt_message_process_delivers:
  assumes "nt_message_rbf lib = Some i" "i < length (area_blocks area)" "rbf_ok (area_blocks area ! i)"
    and "foldR cb (take n (rbf_contents (area_blocks area ! i))) d = Inr d'"
  shows "\<exists>rb'. nt_message_process n (Some cb) lib area d = Inr (area\<lparr>area_blocks := (area_blocks area)[i := rb']\<rparr>, d')
    \<and> rbf_ok rb' \<and> rbf_capacity rb' = rbf_capacity (area_blocks area ! i)
    \<and> rbf_contents rb' = drop n (rbf_contents (area_blocks area ! i))"
  using nt_message_process_runs [OF assms] by metis

lemma ring3_contents: "rbf_contents ring3 = [rbf_slot ring3 2]"
proof -
  have "rbf_used ring3 = 1" "ring_r ring3 = 2" "ring_count ring3 = 3"
    by (simp_all add: rbf_used_def ring_dist_def ring3_def)
  then show ?thesis by (simp add: rbf_contents_def flip: numeral_2_eq_2)
qed

definition demo_area :: shm_area where
  "demo_area = \<lparr>area_blocks = [ring3], area_users = \<lambda>_. [], area_flows = \<lambda>_. []\<rparr>"

definition demo_lib :: nt_lib where
  "demo_lib = \<lparr>shm_base_addr = Shm_mapped, shm_user_offset = 0, shm_flow_offset = 0, nt_cap_block = 6156, nt_message_rbf = Some 0\<rparr>"

theorem nt_message_process_delivers_witness:
  "\<exists>area'. nt_message_process 2 (Some (\<lambda>m log. Inr (log @ [take 2 m]))) demo_lib demo_area []
     = Inr (area', [[1, 1]]) \<and> rbf_contents (area_blocks area' ! 0) = []"
proof -
  have ok: "rbf_ok ring3" by (simp add: rbf_ok_def ring3_def)
  note c = ring3_contents
  have t: "take 2 (rbf_slot ring3 2) = [1, 1]" by (simp add: rbf_slot_def chunk_def window_def ring3_def) (simp add: numeral_2_eq_2)
  from nt_message_process_delivers [of demo_lib 0 demo_area "\<lambda>m log. Inr (log @ [take 2 m])" 2 "[]" "[[1, 1]]"]
  show ?thesis using ok c t by (auto simp: demo_lib_def demo_area_def)
qed

subsection \<open>Attaching to the ring\<close>

text \<open>The mask of a process that is bound to one core.\<close>

definition bound_to :: "nat \<Rightarrow> nat \<Rightarrow> bool list" where
  "bound_to core ncpu = (replicate ncpu False)[core := True]"

lemma CPU_ISSET_bound: "core < ncpu \<Longrightarrow> CPU_ISSET i (bound_to core ncpu) \<longleftrightarrow> i = core"
  by (auto simp: CPU_ISSET_def bound_to_def nth_list_update)

lemma CPU_COUNT_bound: "core < ncpu \<Longrightarrow> CPU_COUNT (bound_to core ncpu) = 1"
proof -
  assume "core < ncpu"
  then have "bound_to core ncpu = replicate core False @ True # replicate (ncpu - Suc core) False"
    by (simp add: bound_to_def upd_conv_take_nth_drop min_def)
  then show ?thesis by (simp add: CPU_COUNT_def)
qed

lemma shm_rbf_init_bound:
  assumes "core < ncpu"
  shows "shm_rbf_init e (Some (bound_to core ncpu)) lib area =
    (if core \<le> 1 then bindR (attach_ring core lib area) (\<lambda>(lib', area'). Inr (0, lib', area')) else Inr (0, lib, area))"
proof -
  consider "core = 0" | "core = 1" | "2 \<le> core" by linarith
  then show ?thesis using assms
    by cases (simp_all add: shm_rbf_init_def CPU_COUNT_bound CPU_ISSET_bound numeral_2_eq_2)
qed

text \<open>
  C30.  A daemon on the third core or beyond gets no ring.  The loop over the cores runs up to the
  number of cores in the mask, not to the highest one, so a process that is bound to a single
  core with an index above 1 is told that the initialisation succeeded, without a ring, and
  the message loop aborts.
\<close>

theorem shm_rbf_init_misses_core:
  assumes "2 \<le> core" "core < ncpu" "nt_message_rbf lib = None"
  shows "shm_rbf_init e (Some (bound_to core ncpu)) lib area = Inr (0, lib, area)
    \<and> nt_message_process n cb lib area d = Inl Assert_failed"
  using assms by (simp add: shm_rbf_init_bound nt_message_process_def)

theorem shm_rbf_init_misses_core_witness:
  "shm_rbf_init 0 (Some (bound_to 2 4)) (demo_lib\<lparr>nt_message_rbf := None\<rparr>) demo_area
    = Inr (0, demo_lib\<lparr>nt_message_rbf := None\<rparr>, demo_area)
   \<and> nt_message_process 9 None (demo_lib\<lparr>nt_message_rbf := None\<rparr>) demo_area () = Inl Assert_failed"
  by (rule shm_rbf_init_misses_core) simp_all

text \<open>Laying the header over a ring a second time changes nothing.\<close>

lemma rbf_init_idem: "rbf_init (rbf_init mem sz) sz = rbf_init mem sz"
  by (simp add: rbf_init_def Let_def)

lemma proc_uint_text:
  assumes "unat v < 2147483648"
  shows "proc_uint e (File_text (dec_str (unat v) @ [CHR 0x0A])) out = Inr (0, v)"
proof -
  let ?s = "dec_str (unat v) @ [CHR 0x0A]"
  have len: "length (dec_str (unat v)) \<le> 10" by (rule dec_str_u32)
  then have "overlay 0 (take 32 ?s) (replicate 32 (CHR 0x00)) = dec_str (unat v) @ CHR 0x0A # replicate (31 - length (dec_str (unat v))) (CHR 0x00)"
    by (simp add: overlay_def Suc_diff_le)
  moreover have "\<not> is_digit (CHR 0x0A)" by (simp add: is_digit_def)
  ultimately show ?thesis using atoi_dec_str [of "CHR 0x0A" "unat v"] len by (simp add: proc_uint_def Let_def)
qed

text \<open>\<open>/proc\<close> shows the block size and the two offsets, in decimal and each below \<open>2 ^ 31\<close>.\<close>

definition shows_layout :: "nt_proc \<Rightarrow> u32 \<Rightarrow> u32 \<Rightarrow> u32 \<Rightarrow> bool" where
  "shows_layout pr sz uoff foff \<longleftrightarrow>
     fn_shm_cap_sz pr = File_text (dec_str (unat sz) @ [CHR 0x0A]) \<and> unat sz < 2147483648
     \<and> fn_shm_uoff pr = File_text (dec_str (unat uoff) @ [CHR 0x0A]) \<and> unat uoff < 2147483648
     \<and> fn_shm_foff pr = File_text (dec_str (unat foff) @ [CHR 0x0A]) \<and> unat foff < 2147483648"

definition mapped_lib :: "u32 \<Rightarrow> u32 \<Rightarrow> u32 \<Rightarrow> nt_lib \<Rightarrow> nt_lib" where
  "mapped_lib sz uoff foff lib = lib\<lparr>nt_cap_block := sz, shm_user_offset := uoff, shm_flow_offset := foff, shm_base_addr := Shm_mapped\<rparr>"

lemma nt_message_init_runs:
  assumes "shows_layout (sys_proc sys) sz uoff foff" "sys_mem sys" "sys_mmap sys = Shm_mapped"
    and "sys_affinity sys = Some (bound_to core ncpu)" "core < ncpu"
  shows "nt_message_init sys lib area nt =
    (let nt' = nt\<lparr>nt_flows := area_flows area foff, nt_users := area_users area uoff\<rparr>
     in if core \<le> 1 then bindR (attach_ring core (mapped_lib sz uoff foff lib) area) (\<lambda>(lib', area'). Inr (0, lib', area', nt'))
        else Inr (0, mapped_lib sz uoff foff lib, area, nt'))"
proof -
  have "proc_pars_init (sys_errno sys) (sys_proc sys) lib
      = Inr (0, lib\<lparr>nt_cap_block := sz, shm_user_offset := uoff, shm_flow_offset := foff\<rparr>)"
    using assms(1) by (simp add: shows_layout_def proc_pars_init_def proc_uint_text Let_def)
  then show ?thesis
    using assms(2-5)
    by (simp add: nt_message_init_def shm_init_def shm_rbf_init_bound mapped_lib_def Let_def bindR_assoc split_def)
qed

lemma attach_ring_same:
  assumes "shm_base_addr lib = Shm_mapped" "i < length (area_blocks area)"
    and "area_blocks area ! i = rbf_init blk (nt_cap_block lib)"
  shows "attach_ring i lib area = Inr (lib\<lparr>nt_message_rbf := Some i\<rparr>, area)"
proof -
  have "(area_blocks area)[i := rbf_init (area_blocks area ! i) (nt_cap_block lib)] = area_blocks area"
    using assms(3) rbf_init_idem [of blk "nt_cap_block lib"] list_update_id [of "area_blocks area" i] by metis
  then show ?thesis using assms(1,2) by (simp add: attach_ring_def)
qed

text \<open>
  Attaching to a running system.  When \<open>/proc\<close> shows the block size and the offsets as
  decimal numbers, the memory can be mapped and the process is bound to one of the first two
  cores, initialisation succeeds: the library works with exactly these numbers, the tables
  are those at the offsets, the ring is that of the core, and the rings, which the kernel has
  laid out with the same block size, keep their messages.
\<close>

theorem nt_message_init_attaches:
  assumes "shows_layout (sys_proc sys) sz uoff foff" "sys_mem sys" "sys_mmap sys = Shm_mapped"
    and "sys_affinity sys = Some (bound_to core ncpu)" "core < ncpu" "core \<le> 1"
    and "core < length (area_blocks area)" "area_blocks area ! core = rbf_init blk sz"
  shows "nt_message_init sys lib area nt =
    Inr (0, \<lparr>shm_base_addr = Shm_mapped, shm_user_offset = uoff, shm_flow_offset = foff, nt_cap_block = sz,
             nt_message_rbf = Some core\<rparr>, area, nt\<lparr>nt_flows := area_flows area foff, nt_users := area_users area uoff\<rparr>)"
proof -
  have "attach_ring core (mapped_lib sz uoff foff lib) area = Inr ((mapped_lib sz uoff foff lib)\<lparr>nt_message_rbf := Some core\<rparr>, area)"
    using assms(7,8) by (intro attach_ring_same) (simp_all add: mapped_lib_def)
  then show ?thesis
    using nt_message_init_runs [OF assms(1-5)] assms(6) by (simp add: mapped_lib_def)
qed

definition demo_sys :: sys_env where
  "demo_sys = \<lparr>sys_errno = 0, sys_proc = \<lparr>fn_shm_cap_sz = File_text (dec_str (unat (6156 :: u32)) @ [CHR 0x0A]),
     fn_shm_uoff = File_text (dec_str (unat (4096 :: u32)) @ [CHR 0x0A]),
     fn_shm_foff = File_text (dec_str (unat (8192 :: u32)) @ [CHR 0x0A])\<rparr>,
     sys_mem = True, sys_mmap = Shm_mapped, sys_affinity = Some (bound_to 1 4)\<rparr>"

theorem nt_message_init_attaches_witness:
  "nt_message_init demo_sys demo_lib (demo_area\<lparr>area_blocks := [ring3, rbf_init ring3 6156]\<rparr>) \<lparr>nt_flows = [], nt_users = []\<rparr> =
    Inr (0, \<lparr>shm_base_addr = Shm_mapped, shm_user_offset = 4096, shm_flow_offset = 8192, nt_cap_block = 6156,
             nt_message_rbf = Some 1\<rparr>, demo_area\<lparr>area_blocks := [ring3, rbf_init ring3 6156]\<rparr>, \<lparr>nt_flows = [], nt_users = []\<rparr>)"
  by (subst nt_message_init_attaches [where sz = 6156 and uoff = 4096 and foff = 8192 and core = 1 and ncpu = 4 and blk = ring3])
    (simp_all add: demo_sys_def demo_area_def shows_layout_def)

text \<open>
  Two ways in which a failure is taken for success: an entry of \<open>/proc\<close> that is empty, while
  \<open>errno\<close> is still zero, and a mapping that fails (\<open>mmap\<close> does not return null then).
\<close>

lemma proc_uint_empty: "proc_uint 0 (File_text []) out = Inr (0, out)"
  by (simp add: proc_uint_def Let_def)

lemma shm_init_map_failed: "fst (shm_init True Shm_failed area lib nt) = 0"
  by (simp add: shm_init_def Let_def)

end
