(* ===== verification/NxJsonGrammar.thy ===== *)
theory NxJsonGrammar
  imports NxJsonView Decimal
begin

text \<open>
  JSON documents and the texts of them that the reader of \<open>nxjson.c\<close> accepts.  The reader is
  lenient: separators are blanks and commas in any number, comments of both kinds may stand
  between the values, and a value ends where its last character does.  \<open>json_value\<close> is the
  grammar of these texts, \<open>render\<close> the usual compact text of a document, and \<open>doc_of\<close> the
  document that a tree of nodes shows.
\<close>

subsection \<open>Documents\<close>

text \<open>\<open>D_double\<close> stands for the node type that only the user-space build creates; no text reads so.\<close>

datatype jdoc = D_null | D_bool bool | D_int int | D_str string | D_double
  | D_arr "jdoc list" | D_obj "(string \<times> jdoc) list"

fun dsize :: "jdoc \<Rightarrow> nat" where
  "dsize (D_arr ds) = Suc (sum_list (map dsize ds))"
| "dsize (D_obj kds) = Suc (sum_list (map (\<lambda>kd. dsize (snd kd)) kds))"
| "dsize _ = 1"

text \<open>The document of a tree of nodes whose keys and texts point into the buffer \<open>b\<close>.\<close>

definition cstr_of :: "string \<Rightarrow> nat option \<Rightarrow> string" where
  "cstr_of b k = (case k of None \<Rightarrow> [] | Some x \<Rightarrow> cstr (drop x b))"

fun doc_of :: "string \<Rightarrow> jt \<Rightarrow> jdoc" where
  "doc_of b (Jt ty k tx i ts) = (case ty of
      NX_JSON_NULL \<Rightarrow> D_null
    | NX_JSON_BOOL \<Rightarrow> D_bool (i \<noteq> 0)
    | NX_JSON_INTEGER \<Rightarrow> D_int i
    | NX_JSON_STRING \<Rightarrow> D_str (cstr_of b tx)
    | NX_JSON_ARRAY \<Rightarrow> D_arr (map (doc_of b) ts)
    | NX_JSON_OBJECT \<Rightarrow> D_obj (map (\<lambda>t. (cstr_of b (jt_key t), doc_of b t)) ts)
    | NX_JSON_DOUBLE \<Rightarrow> D_double)"

subsection \<open>The texts of a document\<close>

definition separator :: "char \<Rightarrow> bool" where
  "separator c \<longleftrightarrow> c = CHR '' '' \<or> c = CHR 0x09 \<or> c = CHR 0x0A \<or> c = CHR 0x0D \<or> c = CHR '',''"

fun has_close :: "string \<Rightarrow> bool" where
  "has_close (x # y # zs) \<longleftrightarrow> x = CHR ''*'' \<and> y = CHR ''/'' \<or> has_close (y # zs)"
| "has_close _ \<longleftrightarrow> False"

inductive gap :: "string \<Rightarrow> bool" where
  gap_nil: "gap []"
| gap_sep: "separator c \<Longrightarrow> gap g \<Longrightarrow> gap (c # g)"
| gap_line: "CHR 0x0A \<notin> set l \<Longrightarrow> gap g \<Longrightarrow> gap (''//'' @ l @ CHR 0x0A # g)"
| gap_block: "\<not> has_close (l @ ''*'') \<Longrightarrow> gap g \<Longrightarrow> gap (''/*'' @ l @ ''*/'' @ g)"

definition blank :: "string \<Rightarrow> bool" where
  "blank w \<longleftrightarrow> (\<forall>c \<in> set w. IS_WHITESPACE c)"

text \<open>A string literal, without its opening quote: the reference decoder reads it to its end.\<close>

definition literal :: "encoder option \<Rightarrow> string \<Rightarrow> string \<Rightarrow> bool" where
  "literal enc lit s \<longleftrightarrow> unescape enc (lit @ [CHR 0x22]) = Some (s, []) \<and> NUL \<notin> set s"

definition int_text :: "int \<Rightarrow> string" where
  "int_text i = (if i < 0 then CHR ''-'' # dec_str (nat (- i)) else dec_str (nat i))"

definition is_alnum :: "char \<Rightarrow> bool" where
  "is_alnum c = (let n = of_char c :: nat in 48 \<le> n \<and> n \<le> 57 \<or> 65 \<le> n \<and> n \<le> 90 \<or> 97 \<le> n \<and> n \<le> 122)"

text \<open>A number has to be followed by a character that is neither a digit nor a letter.\<close>

definition number_stops :: "jdoc \<Rightarrow> string \<Rightarrow> bool" where
  "number_stops d rest \<longleftrightarrow> (case d of D_int i \<Rightarrow> rest = [] \<or> \<not> is_alnum (hd rest) | _ \<Rightarrow> True)"

inductive json_value :: "encoder option \<Rightarrow> string \<Rightarrow> jdoc \<Rightarrow> bool"
  and json_items :: "encoder option \<Rightarrow> string \<Rightarrow> jdoc list \<Rightarrow> bool"
  and json_members :: "encoder option \<Rightarrow> string \<Rightarrow> (string \<times> jdoc) list \<Rightarrow> bool"
  for enc :: "encoder option" where
  v_null: "json_value enc ''null'' D_null"
| v_true: "json_value enc ''true'' (D_bool True)"
| v_false: "json_value enc ''false'' (D_bool False)"
| v_int: "- (2 ^ 31) \<le> i \<Longrightarrow> i < 2 ^ 31 \<Longrightarrow> json_value enc (int_text i) (D_int i)"
| v_str: "literal enc lit s \<Longrightarrow> json_value enc (CHR 0x22 # lit @ [CHR 0x22]) (D_str s)"
| v_arr: "json_items enc xs ds \<Longrightarrow> json_value enc (CHR ''['' # xs @ '']'') (D_arr ds)"
| v_obj: "json_members enc xs kds \<Longrightarrow> json_value enc (CHR ''{'' # xs @ ''}'') (D_obj kds)"
| i_nil: "gap g \<Longrightarrow> json_items enc g []"
| i_cons: "gap g \<Longrightarrow> json_value enc xs d \<Longrightarrow> number_stops d ys \<Longrightarrow> json_items enc ys ds
    \<Longrightarrow> json_items enc (g @ xs @ ys) (d # ds)"
| m_nil: "gap g \<Longrightarrow> json_members enc g []"
| m_cons: "gap g \<Longrightarrow> literal enc lit k \<Longrightarrow> blank w \<Longrightarrow> gap g' \<Longrightarrow> json_value enc xs d \<Longrightarrow> number_stops d ys
    \<Longrightarrow> json_members enc ys kds
    \<Longrightarrow> json_members enc (g @ CHR 0x22 # lit @ CHR 0x22 # w @ CHR '':'' # g' @ xs @ ys) ((k, d) # kds)"

lemma emit_eq_Some: "emit cs r = Some (s, rest) \<longleftrightarrow> (\<exists>s'. r = Some (s', rest) \<and> s = cs @ s')"
  by (auto simp: emit_def)

subsection \<open>Literals\<close>

lemma hex4s_append: "hex4s xs = Some (v, r) \<Longrightarrow> hex4s (xs @ ys) = Some (v, r @ ys)"
  by (induction xs rule: hex4s.induct) (auto split: if_splits)

lemma unescape_u_append: "unescape_u xs = Some (cp, r) \<Longrightarrow> unescape_u (xs @ ys) = Some (cp, r @ ys)"
proof -
  assume u: "unescape_u xs = Some (cp, r)"
  then obtain c1 r1 where h: "hex4s xs = Some (c1, r1)" by (auto simp: unescape_u_def split: option.splits)
  then have h': "hex4s (xs @ ys) = Some (c1, r1 @ ys)" by (rule hex4s_append)
  show ?thesis
  proof (cases "c1 AND 0xfc00 = 0xd800")
    case True
    from u h True obtain c2 r2 where r1: "r1 = CHR 0x5C # CHR ''u'' # r2" "hex4s r2 = Some (c2, r)"
      "c2 AND 0xfc00 = 0xdc00" "cp = 0x10000 + push_bit 10 (c1 - 0xd800) + (c2 - 0xdc00)"
      by (auto simp: unescape_u_def split: option.splits list.splits if_splits)
    then show ?thesis using h' True hex4s_append [OF r1(2), of ys] by (simp add: unescape_u_def)
  next
    case False
    then show ?thesis using u h h' by (simp add: unescape_u_def)
  qed
qed

text \<open>What follows the closing quote has no influence on the decoder.\<close>

lemma unescape_append: "unescape enc xs = Some (s, r) \<Longrightarrow> unescape enc (xs @ ys) = Some (s, r @ ys)"
proof (induction enc xs arbitrary: s r rule: unescape.induct)
  case (1 enc)
  then show ?case by simp
next
  case (2 enc c cs)
  note step = unescape.simps(2) [of enc c]
  note un = "2.prems" [unfolded step]
  have plain: ?case if "unescape enc (c # cs) = emit [c] (unescape enc cs)"
    "unescape enc (c # cs @ ys) = emit [c] (unescape enc (cs @ ys))"
    "\<And>s r. unescape enc cs = Some (s, r) \<Longrightarrow> unescape enc (cs @ ys) = Some (s, r @ ys)"
    using "2.prems" that by (auto simp: emit_eq_Some simp del: unescape.simps(2))
  show ?case
  proof (cases "c = CHR 0x5C")
    case False
    then show ?thesis
      using "2.prems" "2.IH"(5) by (cases "c = CHR 0x22") (auto simp: emit_eq_Some)
  next
    case True
    then obtain e es where cs: "cs = e # es" using un by (cases cs) auto
    note bs = unescape.simps(2) [of _ "CHR 0x5C"]
    show ?thesis
    proof (cases "simple_escape e")
      case (Some x)
      then show ?thesis using un True cs "2.IH"(4)
        by (auto simp: emit_eq_Some bs simp del: unescape.simps(2))
    next
      case None
      consider "e \<noteq> CHR ''u''" | "e = CHR ''u''" "enc = None" | encode where "e = CHR ''u''" "enc = Some encode" by blast
      then show ?thesis
      proof cases
        case 1
        then show ?thesis using True cs None "2.IH"(3) by (intro plain) (simp_all del: unescape.simps(2) add: bs)
      next
        case 2
        then show ?thesis using True cs None "2.IH"(1) by (intro plain) (simp_all del: unescape.simps(2) add: bs)
      next
        case (3 encode)
        then obtain cp q bs where u: "unescape_u es = Some (cp, q)" "encode cp = Some bs" "emit bs (unescape enc q) = Some (s, r)"
          using un True cs None by (auto simp del: unescape.simps(2) split: option.splits)
        then show ?thesis
          using True cs None 3 "2.IH"(2) unescape_u_append [OF u(1), of ys]
          by (auto simp: emit_eq_Some simp del: unescape.simps(2) simp: bs)
      qed
    qed
  qed
qed

lemma literal_unescape: "literal enc lit s \<Longrightarrow> unescape enc (lit @ CHR 0x22 # rest) = Some (s, rest)"
  using unescape_append [of enc "lit @ [CHR 0x22]" s "[]" rest] by (simp add: literal_def)

lemma literal_escape: "NUL \<notin> set s \<Longrightarrow> literal enc (escape s) s"
  using unescape_escape [of enc s "[]"] by (simp add: literal_def)

subsection \<open>Rendering\<close>

text \<open>The elements with a comma behind each but the last.\<close>

fun joined :: "string list \<Rightarrow> string" where
  "joined [] = []"
| "joined [x] = x"
| "joined (x # y # zs) = x @ '','' @ joined (y # zs)"

fun render :: "jdoc \<Rightarrow> string" where
  "render D_null = ''null''"
| "render (D_bool t) = (if t then ''true'' else ''false'')"
| "render (D_int i) = int_text i"
| "render D_double = []"
| "render (D_str s) = CHR 0x22 # escape s @ [CHR 0x22]"
| "render (D_arr ds) = ''['' @ joined (map render ds) @ '']''"
| "render (D_obj kds) = ''{'' @ joined (map (\<lambda>kd. CHR 0x22 # escape (fst kd) @ CHR 0x22 # '':'' @ render (snd kd)) kds) @ ''}''"

text \<open>Documents a C program can hold: no terminator inside a string, numbers of an \<open>int\<close>.\<close>

fun doc_ok :: "jdoc \<Rightarrow> bool" where
  "doc_ok D_null \<longleftrightarrow> True"
| "doc_ok (D_bool t) \<longleftrightarrow> True"
| "doc_ok (D_int i) \<longleftrightarrow> - (2 ^ 31) \<le> i \<and> i < 2 ^ 31"
| "doc_ok D_double \<longleftrightarrow> False"
| "doc_ok (D_str s) \<longleftrightarrow> NUL \<notin> set s"
| "doc_ok (D_arr ds) \<longleftrightarrow> (\<forall>d \<in> set ds. doc_ok d)"
| "doc_ok (D_obj kds) \<longleftrightarrow> (\<forall>kd \<in> set kds. NUL \<notin> set (fst kd) \<and> doc_ok (snd kd))"

lemma number_stops_comma: "number_stops d (CHR '','' # rest)"
  by (cases d) (simp_all add: number_stops_def is_alnum_def)

lemma number_stops_nil [simp]: "number_stops d []"
  by (cases d) (simp_all add: number_stops_def)

lemmas gap_comma = gap_sep [of "CHR '',''", OF _ gap_nil, unfolded separator_def, simplified]

text \<open>A list text may start with a separator.\<close>

lemma json_items_comma: "json_items enc ys ds \<Longrightarrow> json_items enc (CHR '','' # ys) ds"
proof (erule json_items.cases)
  fix g assume "ys = g" "ds = []" "gap g"
  then show ?thesis by (auto intro!: json_value_json_items_json_members.i_nil gap_sep simp: separator_def)
next
  fix g xs d zs es
  assume i_cons: "ys = g @ xs @ zs" "ds = d # es" "gap g" "json_value enc xs d" "number_stops d zs" "json_items enc zs es"
  have "gap (CHR '','' # g)" using i_cons by (intro gap_sep) (simp_all add: separator_def)
  from json_value_json_items_json_members.i_cons [OF this i_cons(4-6)] show ?thesis using i_cons by simp
qed

lemma json_members_comma: "json_members enc ys kds \<Longrightarrow> json_members enc (CHR '','' # ys) kds"
proof (erule json_members.cases)
  fix g assume "ys = g" "kds = []" "gap g"
  then show ?thesis by (auto intro!: json_value_json_items_json_members.m_nil gap_sep simp: separator_def)
next
  fix g lit k w g' xs d zs es
  assume m_cons: "ys = g @ CHR 0x22 # lit @ CHR 0x22 # w @ CHR '':'' # g' @ xs @ zs" "kds = (k, d) # es" "gap g"
    "literal enc lit k" "blank w" "gap g'" "json_value enc xs d" "number_stops d zs" "json_members enc zs es"
  have "gap (CHR '','' # g)" using m_cons by (intro gap_sep) (simp_all add: separator_def)
  from json_value_json_items_json_members.m_cons [OF this m_cons(4-9)] show ?thesis using m_cons by simp
qed

lemma joined_Cons: "joined (x # xs) = x @ (if xs = [] then [] else '','' @ joined xs)"
  by (cases xs) simp_all

lemma render_items:
  "(\<And>d. d \<in> set ds \<Longrightarrow> json_value enc (render d) d) \<Longrightarrow> json_items enc (joined (map render ds)) ds"
proof (induction ds)
  case Nil
  then show ?case by (simp add: i_nil gap_nil)
next
  case (Cons d ds)
  let ?ys = "if ds = [] then [] else '','' @ joined (map render ds)"
  have "json_items enc (joined (map render ds)) ds" using Cons by simp
  then have "json_items enc ?ys ds" by (auto intro: json_items_comma)
  moreover have "number_stops d ?ys" by (simp add: number_stops_comma)
  ultimately have "json_items enc ([] @ render d @ ?ys) (d # ds)"
    using Cons.prems by (intro i_cons gap_nil) simp_all
  then show ?case by (simp add: joined_Cons)
qed

lemma render_members:
  "(\<And>kd. kd \<in> set kds \<Longrightarrow> NUL \<notin> set (fst kd) \<and> json_value enc (render (snd kd)) (snd kd))
   \<Longrightarrow> json_members enc (joined (map (\<lambda>kd. CHR 0x22 # escape (fst kd) @ CHR 0x22 # '':'' @ render (snd kd)) kds)) kds"
proof (induction kds)
  case Nil
  then show ?case by (simp add: m_nil gap_nil)
next
  case (Cons kd kds)
  let ?m = "\<lambda>kd. CHR 0x22 # escape (fst kd) @ CHR 0x22 # '':'' @ render (snd kd)"
  let ?ys = "if kds = [] then [] else '','' @ joined (map ?m kds)"
  have "json_members enc (joined (map ?m kds)) kds" using Cons by simp
  then have "json_members enc ?ys kds" by (auto intro: json_members_comma)
  moreover have "number_stops (snd kd) ?ys" by (simp add: number_stops_comma)
  ultimately have "json_members enc ([] @ CHR 0x22 # escape (fst kd) @ CHR 0x22 # [] @ CHR '':'' # [] @ render (snd kd) @ ?ys)
      ((fst kd, snd kd) # kds)"
    using Cons.prems by (intro m_cons gap_nil literal_escape) (simp_all add: blank_def)
  then show ?case by (cases kds) (simp_all add: joined_Cons)
qed

text \<open>The compact text of a document is one of its texts.\<close>

lemma render_json: "doc_ok d \<Longrightarrow> json_value enc (render d) d"
proof (induction d)
  case (D_bool t)
  then show ?case by (cases t) (simp_all add: v_true v_false)
next
  case (D_arr ds)
  then have "json_items enc (joined (map render ds)) ds" by (intro render_items) auto
  then show ?case using v_arr by simp
next
  case (D_obj kds)
  then have "json_members enc (joined (map (\<lambda>kd. CHR 0x22 # escape (fst kd) @ CHR 0x22 # '':'' @ render (snd kd)) kds)) kds"
    by (intro render_members) (auto simp: snds.simps)
  then show ?case using v_obj by simp
qed (simp_all add: v_null v_int v_str literal_escape)

lemma dec_str_no_NUL: "NUL \<notin> set (dec_str n)"
proof (induction n rule: dec_str.induct)
  case (1 n)
  have "NUL \<noteq> char_of (48 + k)" if "k < 10" for k :: nat
  proof
    assume "NUL = char_of (48 + k)"
    then have "of_char (char_of (48 + k) :: char) = (of_char NUL :: nat)" by metis
    then show False using digit_char [OF that] by simp
  qed
  from this [of n] this [of "n mod 10"] show ?case using 1 by (subst dec_str.simps) simp
qed

lemma joined_set: "set (joined xs) \<subseteq> insert (CHR '','') (\<Union> (set ` set xs))"
  by (induction xs rule: joined.induct) auto

lemma render_no_NUL: "doc_ok d \<Longrightarrow> NUL \<notin> set (render d)"
proof (induction d)
  case (D_int i)
  then show ?case by (simp add: int_text_def dec_str_no_NUL)
next
  case (D_arr ds)
  then have "NUL \<notin> (\<Union> (set ` set (map render ds)))" by auto
  then show ?case using joined_set [of "map render ds"] by auto
next
  case (D_obj kds)
  let ?xs = "map (\<lambda>kd. CHR 0x22 # escape (fst kd) @ CHR 0x22 # '':'' @ render (snd kd)) kds"
  have "NUL \<notin> (\<Union> (set ` set ?xs))" using D_obj by (auto simp: NUL_escape snds.simps)
  then show ?case using joined_set [of ?xs] by auto
qed (simp_all add: NUL_escape)

end
