(* ===== verification/NxJsonText.thy ===== *)
theory NxJsonText
  imports NxJsonGrammar
begin

text \<open>
  What \<open>nx_json_parse\<close> makes of a JSON text: a tree that shows exactly the document the text
  stands for, whatever separators, comments and escapes it uses.  The proof follows the
  grammar, one lemma for each of its rules, and keeps track of the strings that have been
  decoded in place: each ends in front of the position read so far, where nothing is written
  any more.
\<close>

subsection \<open>Decoded strings\<close>

text \<open>\<open>ends b p k\<close>: the string \<open>k\<close> points to has its terminator in front of \<open>p\<close>.\<close>

definition ends :: "string \<Rightarrow> nat \<Rightarrow> nat option \<Rightarrow> bool" where
  "ends b p k \<longleftrightarrow> (\<forall>x. k = Some x \<longrightarrow> NUL \<in> set (drop x (take p b)))"

fun settled :: "string \<Rightarrow> nat \<Rightarrow> jt \<Rightarrow> bool" where
  "settled b p (Jt ty k tx i ts) \<longleftrightarrow> ends b p k \<and> ends b p tx \<and> (\<forall>t \<in> set ts. settled b p t)"

lemma ends_None [simp]: "ends b p None"
  by (simp add: ends_def)

lemma ends_le: "ends b p k \<Longrightarrow> k = Some x \<Longrightarrow> x < p"
  by (cases "x < p") (auto simp: ends_def)

lemma ends_keep:
  assumes "ends b p k" "take p b' = take p b" "p \<le> q"
  shows "ends b' q k" "cstr_of b' k = cstr_of b k"
proof -
  have t: "take q b' = take p b @ drop p (take q b')"
    using assms(2,3) by (metis append_take_drop_id min.absorb1 take_take)
  have b: "b' = take p b @ drop p b'" "b = take p b @ drop p b" using assms(2) by (metis append_take_drop_id)+
  have c: "cstr (drop x (take p b @ r)) = cstr (drop x (take p b))" if "k = Some x" for x r
    using assms(1) that by (simp add: ends_def cstr_def takeWhile_append1)
  show "ends b' q k" using assms(1) by (subst ends_def, subst t) (simp add: ends_def)
  show "cstr_of b' k = cstr_of b k"
  proof (cases k)
    case (Some x)
    then have "cstr (drop x b') = cstr (drop x b)" using c [OF Some] b by metis
    then show ?thesis using Some by (simp add: cstr_of_def)
  qed (simp add: cstr_of_def)
qed

lemma settled_key: "settled b p t \<Longrightarrow> ends b p (jt_key t)"
  by (cases t) simp

lemma settled_keep:
  assumes "settled b p t" "take p b' = take p b" "p \<le> q"
  shows "settled b' q t \<and> doc_of b' t = doc_of b t"
  using assms(1)
proof (induction t)
  case (Jt ty k tx i ts)
  note keep = ends_keep [OF _ assms(2,3)]
  have "settled b' q u \<and> doc_of b' u = doc_of b u \<and> cstr_of b' (jt_key u) = cstr_of b (jt_key u)" if "u \<in> set ts" for u
    using Jt that keep(2) [OF settled_key] by simp
  then have "map (doc_of b') ts = map (doc_of b) ts" "\<forall>u \<in> set ts. settled b' q u"
    "map (\<lambda>t. (cstr_of b' (jt_key t), doc_of b' t)) ts = map (\<lambda>t. (cstr_of b (jt_key t), doc_of b t)) ts" by simp_all
  then show ?case using Jt.prems keep by (simp split: nx_json_type.split)
qed

definition shown :: "string \<Rightarrow> nat \<Rightarrow> jdoc \<Rightarrow> jt \<Rightarrow> bool" where
  "shown b p d c \<longleftrightarrow> settled b p c \<and> doc_of b c = d \<and> tsize c = dsize d"

definition shown_member :: "string \<Rightarrow> nat \<Rightarrow> string \<times> jdoc \<Rightarrow> jt \<Rightarrow> bool" where
  "shown_member b p kd c \<longleftrightarrow> shown b p (snd kd) c \<and> cstr_of b (jt_key c) = fst kd"

lemma shown_keep: "shown b p d c \<Longrightarrow> take p b' = take p b \<Longrightarrow> p \<le> q \<Longrightarrow> shown b' q d c"
  using settled_keep [of b p c b' q] by (simp add: shown_def)

lemma shown_member_keep:
  "shown_member b p kd c \<Longrightarrow> take p b' = take p b \<Longrightarrow> p \<le> q \<Longrightarrow> shown_member b' q kd c"
  using shown_keep [of b p "snd kd" c b' q] ends_keep(2) [OF settled_key, of b p c b' q]
  by (simp add: shown_member_def shown_def)

lemma shown_items:
  "list_all2 (shown b p) ds cs \<Longrightarrow>
    map (doc_of b) cs = ds \<and> fsize cs = sum_list (map dsize ds) \<and> (\<forall>c \<in> set cs. settled b p c)"
  by (induction rule: list_all2_induct) (auto simp: shown_def)

lemma shown_members:
  "list_all2 (shown_member b p) kds cs \<Longrightarrow> map (\<lambda>c. (cstr_of b (jt_key c), doc_of b c)) cs = kds
    \<and> fsize cs = sum_list (map (\<lambda>kd. dsize (snd kd)) kds) \<and> (\<forall>c \<in> set cs. settled b p c)"
  by (induction rule: list_all2_induct) (auto simp: shown_def shown_member_def)

subsection \<open>Scanning\<close>

lemma text_live: "text_at b p xs \<Longrightarrow> live b (p + length xs) p"
proof (induction xs arbitrary: p)
  case Nil
  then show ?case by (simp add: live_def)
next
  case (Cons x xs)
  then have "live b (Suc p + length xs) (Suc p)" by fastforce
  moreover have "b ! i \<noteq> NUL" if "p \<le> i" "i < Suc p + length xs" "\<forall>i. Suc p \<le> i \<longrightarrow> i < Suc p + length xs \<longrightarrow> b ! i \<noteq> NUL" for i
    using that Cons.prems by (cases "i = p") auto
  ultimately show ?case using Cons.prems by (simp add: live_def)
qed

lemma match_at_text: "text_at b p (w @ rest) \<Longrightarrow> match_at b p w = Inr True"
  by (induction w arbitrary: p) (simp_all add: rd_def)

lemma strchr_text: "text_at b i (xs @ c # ys) \<Longrightarrow> c \<notin> set xs \<Longrightarrow> strchr b i c = Inr (Some (i + length xs))"
proof (induction xs arbitrary: i)
  case Nil
  then show ?case by (simp add: strchr.simps [of b i c])
next
  case (Cons x xs)
  then have "strchr b (Suc i) c = Inr (Some (Suc i + length xs))" by simp
  then show ?case using Cons.prems by (auto simp: strchr.simps [of b i c])
qed

lemma skip_ws_text:
  "text_at b p (w @ c # rest) \<Longrightarrow> blank w \<Longrightarrow> \<not> IS_WHITESPACE c \<Longrightarrow> skip_ws b p = Inr (p + length w)"
proof (induction w arbitrary: p)
  case Nil
  then show ?case by (simp add: skip_ws.simps [of b p])
next
  case (Cons x w)
  then have "skip_ws b (Suc p) = Inr (Suc p + length w)" by (simp add: blank_def)
  then show ?case using Cons.prems by (simp add: skip_ws.simps [of b p] blank_def)
qed

lemma has_close_append: "has_close (us @ CHR ''*'' # CHR ''/'' # vs)"
proof (induction us)
  case (Cons u us)
  then show ?case by (cases "us @ CHR ''*'' # CHR ''/'' # vs") auto
qed simp

text \<open>The comment loop, from the character \<open>c\<close> on: the comment ends with the first \<open>*/\<close>.\<close>

lemma text_at_nth: "text_at b p (xs @ c # ys) \<Longrightarrow> b ! (p + length xs) = c"
  using text_at_append [of b p xs "c # ys"] by simp

lemma skip_repeat_text:
  "text_at b p (c # l @ CHR ''/'' # rest) \<Longrightarrow> last (c # l) = CHR ''*'' \<Longrightarrow> \<not> has_close (c # l)
   \<Longrightarrow> skip_repeat b p = Inr (Some (p + length l + 2))"
proof (induction "length l" arbitrary: c l p rule: less_induct)
  case less
  have prev: "b ! (p + length us) = last (c # us)" if "l = us @ vs" for us vs
  proof -
    have "c # us = butlast (c # us) @ [last (c # us)]" by (rule append_butlast_last_id [symmetric]) simp
    then have "text_at b p (butlast (c # us) @ last (c # us) # vs @ CHR ''/'' # rest)"
      using less.prems(1) that by (metis append.assoc append_Cons append_Nil)
    from text_at_nth [OF this] show ?thesis by (simp only: length_butlast length_Cons diff_Suc_1)
  qed
  show ?case
  proof (cases "CHR ''/'' \<in> set l")
    case False
    have "strchr b (Suc p) (CHR ''/'') = Inr (Some (Suc p + length l))"
      using less.prems(1) False by (intro strchr_text [of b "Suc p" l _ rest]) simp_all
    moreover have "b ! (p + length l) = CHR ''*''" using prev [of l "[]"] less.prems(2) by simp
    ultimately show ?thesis by (simp add: skip_repeat.simps [of b p])
  next
    case True
    then obtain us vs where l: "l = us @ CHR ''/'' # vs" "CHR ''/'' \<notin> set us" by (metis split_list_first)
    have "strchr b (Suc p) (CHR ''/'') = Inr (Some (Suc p + length us))"
      using less.prems(1) l by (intro strchr_text [of b "Suc p" us _ "vs @ CHR ''/'' # rest"]) simp_all
    moreover have "last (c # us) \<noteq> CHR ''*''"
      using less.prems(3) has_close_append [of "butlast (c # us)" vs] l(1)
        append_butlast_last_id [of "c # us"] by (metis append.assoc append_Cons append_Nil list.distinct(1))
    then have "b ! (p + length us) \<noteq> CHR ''*''" using prev [OF l(1)] by simp
    moreover have "skip_repeat b (Suc p + length us) = Inr (Some (Suc p + length us + length vs + 2))"
    proof (rule less.hyps)
      show "text_at b (Suc p + length us) (CHR ''/'' # vs @ CHR ''/'' # rest)"
        using text_at_append [of b "Suc p" us "CHR ''/'' # vs @ CHR ''/'' # rest"] less.prems(1) l(1) by simp
      show "last (CHR ''/'' # vs) = CHR ''*''" using less.prems(2) l(1) by (simp split: if_splits)
      have "\<not> has_close zs" if "\<not> has_close (ys @ zs)" for ys zs
        using that by (induction ys) (auto, metis has_close.elims(2) has_close.simps(1) list.sel(3) append_is_Nil_conv)
      from this [of "c # us"] show "\<not> has_close (CHR ''/'' # vs)" using less.prems(3) l(1) by simp
    qed (use l in simp)
    ultimately show ?thesis using l(1) by (simp add: skip_repeat.simps [of b p])
  qed
qed

lemma skip_block_comment_text:
  assumes "text_at b p (l @ ''*/'' @ rest)" "\<not> has_close (l @ ''*'')"
  shows "skip_block_comment b p = Inr (Some (p + length l + 2))"
proof -
  obtain c l' where c: "l @ ''*'' = c # l'" by (cases l) auto
  then have l: "length l = length l'" "last (c # l') = CHR ''*''"
    by (metis diff_Suc_1 length_append_singleton length_Cons, metis last_snoc)
  have "l @ ''*/'' @ rest = c # l' @ CHR ''/'' # rest" using c by (metis append.assoc append_Cons append_Nil)
  then have "text_at b p (c # l' @ CHR ''/'' # rest)" using assms(1) by metis
  from skip_repeat_text [OF this l(2)] this show ?thesis
    using assms(2) c l(1) by (simp add: skip_block_comment_def rd_def)
qed

lemma skip_line_comment_text:
  "text_at b p (l @ CHR 0x0A # rest) \<Longrightarrow> CHR 0x0A \<notin> set l \<Longrightarrow> skip_line_comment b p = Inr (Some (p + length l + 1))"
  by (simp add: skip_line_comment_def strchr_text)

text \<open>A gap is skipped by \<open>parse_key\<close>, and by \<open>parse_value\<close> at the cost of some fuel.\<close>

lemma parse_key_gap:
  "gap g \<Longrightarrow> text_at b p (g @ rest) \<Longrightarrow> parse_key enc b p = parse_key enc b (p + length g)"
proof (induction arbitrary: p rule: gap.induct)
  case (gap_sep c g)
  have "parse_key enc b p = parse_key enc b (Suc p)"
    using gap_sep by (subst parse_key.simps) (auto simp: separator_def IS_WHITESPACE_def)
  then show ?case using gap_sep by simp
next
  case (gap_line l g)
  have "skip_line_comment b (p + 2) = Inr (Some (p + 2 + length l + 1))"
    using gap_line by (intro skip_line_comment_text [of b _ l "g @ rest"]) simp_all
  then have "parse_key enc b p = parse_key enc b (Suc (Suc (Suc (p + length l))))"
    using gap_line by (subst parse_key.simps) (simp add: IS_WHITESPACE_def rd_def ac_simps)
  moreover have "text_at b (p + length (''//'' @ l @ [CHR 0x0A])) (g @ rest)"
    using gap_line.prems by (intro text_at_append) simp
  then have "text_at b (Suc (Suc (Suc (p + length l)))) (g @ rest)" by (simp add: ac_simps)
  ultimately show ?case using gap_line.IH by (simp add: ac_simps)
next
  case (gap_block l g)
  have "skip_block_comment b (p + 2) = Inr (Some (p + 2 + length l + 2))"
    using gap_block by (intro skip_block_comment_text [of b _ l "g @ rest"]) simp_all
  then have "parse_key enc b p = parse_key enc b (Suc (Suc (Suc (Suc (p + length l)))))"
    using gap_block by (subst parse_key.simps) (simp add: IS_WHITESPACE_def rd_def ac_simps)
  moreover have "text_at b (p + length (''/*'' @ l @ ''*/'')) (g @ rest)"
    using gap_block.prems by (intro text_at_append) simp
  then have "text_at b (Suc (Suc (Suc (Suc (p + length l))))) (g @ rest)" by (simp add: ac_simps)
  ultimately show ?case using gap_block.IH by (simp add: ac_simps)
qed simp

lemma parse_value_gap:
  assumes "gap g" "text_at (buf st) p (g @ rest)" "length g < fuel"
  shows "\<exists>f \<ge> fuel - length g. f \<le> fuel
    \<and> parse_value enc strtol fuel pa key p st = parse_value enc strtol f pa key (p + length g) st"
  using assms
proof (induction arbitrary: p fuel rule: gap.induct)
  case gap_nil
  then show ?case by auto
next
  case (gap_sep c g)
  obtain f where f: "fuel = Suc f" "length g < f" using gap_sep.prems(2) by (cases fuel) auto
  have "parse_value enc strtol fuel pa key p st = parse_value enc strtol f pa key (Suc p) st"
    using gap_sep f by (auto simp: separator_def rd_def)
  moreover have "text_at (buf st) (Suc p) (g @ rest)" using gap_sep.prems by simp
  from gap_sep.IH [OF this f(2)] obtain f' where "f - length g \<le> f'" "f' \<le> f"
    "parse_value enc strtol f pa key (Suc p) st = parse_value enc strtol f' pa key (Suc p + length g) st" by blast
  ultimately show ?case using f by (intro exI [of _ f']) simp
next
  case (gap_line l g)
  let ?q = "Suc (Suc (Suc (p + length l)))"
  obtain f where f: "fuel = Suc f" "length g < f" using gap_line.prems(2) by (cases fuel) auto
  have "skip_line_comment (buf st) (p + 2) = Inr (Some (p + 2 + length l + 1))"
    using gap_line by (intro skip_line_comment_text [of _ _ l "g @ rest"]) simp_all
  then have "parse_value enc strtol fuel pa key p st = parse_value enc strtol f pa key ?q st"
    using gap_line f by (simp add: rd_def ac_simps)
  moreover have "text_at (buf st) (p + length (''//'' @ l @ [CHR 0x0A])) (g @ rest)"
    using gap_line.prems by (intro text_at_append) simp
  then have "text_at (buf st) ?q (g @ rest)" by (simp add: ac_simps)
  from gap_line.IH [OF this f(2)] obtain f' where "f - length g \<le> f'" "f' \<le> f"
    "parse_value enc strtol f pa key ?q st = parse_value enc strtol f' pa key (?q + length g) st" by blast
  ultimately show ?case using f by (intro exI [of _ f']) (simp add: ac_simps)
next
  case (gap_block l g)
  let ?q = "Suc (Suc (Suc (Suc (p + length l))))"
  obtain f where f: "fuel = Suc f" "length g < f" using gap_block.prems(2) by (cases fuel) auto
  have "skip_block_comment (buf st) (p + 2) = Inr (Some (p + 2 + length l + 2))"
    using gap_block by (intro skip_block_comment_text [of _ _ l "g @ rest"]) simp_all
  then have "parse_value enc strtol fuel pa key p st = parse_value enc strtol f pa key ?q st"
    using gap_block f by (simp add: rd_def ac_simps)
  moreover have "text_at (buf st) (p + length (''/*'' @ l @ ''*/'')) (g @ rest)"
    using gap_block.prems by (intro text_at_append) simp
  then have "text_at (buf st) ?q (g @ rest)" by (simp add: ac_simps)
  from gap_block.IH [OF this f(2)] obtain f' where "f - length g \<le> f'" "f' \<le> f"
    "parse_value enc strtol f pa key ?q st = parse_value enc strtol f' pa key (?q + length g) st" by blast
  ultimately show ?case using f by (intro exI [of _ f']) (simp add: ac_simps)
qed

subsection \<open>Values\<close>

text \<open>
  \<open>strtol\<close> reads a decimal number of an \<open>int\<close> to its end, as documented for base 0.
\<close>

definition strtol_reads :: "strtol_fn \<Rightarrow> bool" where
  "strtol_reads strtol \<longleftrightarrow> (\<forall>i rest. - (2 ^ 31) \<le> i \<longrightarrow> i < 2 ^ 31 \<longrightarrow> number_stops (D_int i) rest
     \<longrightarrow> strtol (int_text i @ rest) = (i, length (int_text i)))"

text \<open>
  \<open>one_more\<close>: the parser went over \<open>xs\<close> at \<open>p\<close>, with \<open>rest\<close> behind it, and appended one child
  with the given key that shows the document \<open>d\<close>.
\<close>

definition one_more ::
  "nat \<Rightarrow> jt \<Rightarrow> nat \<Rightarrow> string \<Rightarrow> string \<Rightarrow> nat option \<Rightarrow> jdoc \<Rightarrow> jstate \<Rightarrow> (nat option \<times> jstate) result \<Rightarrow> bool" where
  "one_more pa t p xs rest key d st x \<longleftrightarrow> (\<exists>c st'. x = Inr (Some (p + length xs), st')
     \<and> grown (p + length (xs @ rest)) pa t [c] p st (Some (p + length xs), st')
     \<and> jt_key c = key \<and> shown (buf st') (p + length xs) d c)"

definition value_reads :: "encoder option \<Rightarrow> strtol_fn \<Rightarrow> string \<Rightarrow> jdoc \<Rightarrow> bool" where
  "value_reads enc strtol xs d \<longleftrightarrow> (\<forall>st pa t p key fuel rest. jok st pa t \<longrightarrow> text_at (buf st) p (xs @ rest)
     \<longrightarrow> number_stops d rest \<longrightarrow> 2 * length (xs @ rest) + 1 \<le> fuel \<longrightarrow> dsize d \<le> mem_left st
     \<longrightarrow> ends (buf st) p key \<longrightarrow> one_more pa t p xs rest key d st (parse_value enc strtol fuel pa key p st))"

lemma leaf_reads:
  assumes "jok st pa t" "w \<noteq> []" "mem_left st \<noteq> 0" "ends (buf st) p key" "ty \<noteq> NX_JSON_STRING"
    and "\<forall>a. f (node_of a (leaf ty key) None) = node_of a (Jt ty key None i []) None"
    and "\<And>b. doc_of b (Jt ty key None i []) = d" "dsize d = 1"
  shows "one_more pa t p w rest key d st (leaf_json ty key pa f (p + length w) st)"
proof -
  have k: "\<forall>k. key = Some k \<longrightarrow> k \<le> p + length (w @ rest)" using ends_le [OF assms(4)] by fastforce
  have "settled (buf st) (p + length w) (Jt ty key None i [])" using ends_keep(1) [OF assms(4)] by simp
  then have "shown (buf st) (p + length w) d (Jt ty key None i [])" using assms(7,8) by (simp add: shown_def)
  moreover have w: "p < p + length w" "p + length w \<le> p + length (w @ rest)" using assms(2) by simp_all
  ultimately show ?thesis
    by (cases rule: leaf_json_step [OF assms(1) w k assms(5,6)]) (use assms(3) in \<open>auto simp: one_more_def\<close>)
qed

lemma value_reads_null: "value_reads enc strtol ''null'' D_null"
  unfolding value_reads_def
proof (intro allI impI)
  fix st pa t p key fuel rest
  assume a: "jok st pa t" "text_at (buf st) p (''null'' @ rest)" "2 * length (''null'' @ rest) + 1 \<le> fuel"
    "dsize D_null \<le> mem_left st" "ends (buf st) p key"
  have "one_more pa t p ''null'' rest key D_null st (leaf_json NX_JSON_NULL key pa (\<lambda>n. n) (p + length ''null'') st)"
    using a by (intro leaf_reads) (simp_all add: node_of_def)
  then show "one_more pa t p ''null'' rest key D_null st (parse_value enc strtol fuel pa key p st)"
    using a(2,3) match_at_text [OF a(2)] by (cases fuel) (simp_all add: rd_def numeral_eq_Suc)
qed

lemma value_reads_bool: "value_reads enc strtol (if v then ''true'' else ''false'') (D_bool v)"
  unfolding value_reads_def
proof (intro allI impI)
  fix st pa t p key fuel rest
  let ?w = "if v then ''true'' else ''false''"
  assume a: "jok st pa t" "text_at (buf st) p (?w @ rest)" "2 * length (?w @ rest) + 1 \<le> fuel"
    "dsize (D_bool v) \<le> mem_left st" "ends (buf st) p key"
  have "one_more pa t p ?w rest key (D_bool v) st
      (leaf_json NX_JSON_BOOL key pa (\<lambda>n. n\<lparr>js_int_value := (if v then 1 else 0)\<rparr>) (p + length ?w) st)"
    using a by (intro leaf_reads [where i = "if v then 1 else 0"]) (simp_all add: node_of_def)
  then show "one_more pa t p ?w rest key (D_bool v) st (parse_value enc strtol fuel pa key p st)"
    using a(2,3) match_at_text [OF a(2)] by (cases fuel; cases v) (simp_all add: rd_def numeral_eq_Suc)
qed

lemma int_text_first:
  "\<exists>c cs. int_text i = c # cs \<and> (c = CHR ''-'' \<or> 48 \<le> (of_char c :: nat) \<and> (of_char c :: nat) \<le> 57)"
proof (cases "i < 0")
  case False
  obtain d cs where d: "dec_str (nat i) = char_of (48 + d :: nat) # cs" "d < 10" using dec_str_first by blast
  then show ?thesis using False digit_char [OF d(2)] by (simp add: int_text_def)
qed (simp add: int_text_def)

lemma value_reads_int:
  assumes "strtol_ok strtol" "strtol_reads strtol" "- (2 ^ 31) \<le> i" "i < 2 ^ 31"
  shows "value_reads enc strtol (int_text i) (D_int i)"
  unfolding value_reads_def
proof (intro allI impI)
  fix st pa t p key fuel rest
  assume a: "jok st pa t" "text_at (buf st) p (int_text i @ rest)" "number_stops (D_int i) rest"
    "2 * length (int_text i @ rest) + 1 \<le> fuel" "dsize (D_int i) \<le> mem_left st" "ends (buf st) p key"
  have k: "\<forall>k. key = Some k \<longrightarrow> k \<le> p + length (int_text i @ rest)" using ends_le [OF a(6)] by fastforce
  have vn: "strtol (cstr (drop p (buf st))) = (i, length (int_text i))"
    using assms(2-4) a(3) text_at_cstr [OF a(2)] by (simp add: strtol_reads_def)
  obtain c cs where c: "int_text i = c # cs" "c = CHR ''-'' \<or> 48 \<le> (of_char c :: nat) \<and> (of_char c :: nat) \<le> 57"
    using int_text_first by blast
  have s: "shown (buf st) (p + length (int_text i)) (D_int i) (Jt NX_JSON_INTEGER key None i [])"
    using ends_keep(1) [OF a(6)] by (simp add: shown_def)
  have "one_more pa t p (int_text i) rest key (D_int i) st (number_json strtol key pa p st)"
    by (cases rule: number_json_step [OF a(1) text_live [OF a(2)] k assms(1) vn])
      (use a(5) s c(1) in \<open>auto simp: one_more_def\<close>)
  moreover have "parse_value enc strtol fuel pa key p st = number_json strtol key pa p st"
    using a(2,4) c by (cases fuel) (auto simp: rd_def)
  ultimately show "one_more pa t p (int_text i) rest key (D_int i) st (parse_value enc strtol fuel pa key p st)" by simp
qed

lemma literal_decodes:
  assumes "text_at b s (lit @ CHR 0x22 # rest)" "literal enc lit x" "encoder_fits enc"
  obtains b' where "unescape_string enc b s = Inr (Some (s, s + length lit + 1), b')"
    "length b' = length b" "take s b' = take s b" "cstr (drop s b') = x"
    "drop (s + length lit + 1) b' = drop (s + length lit + 1) b" "ends b' (s + length lit + 1) (Some s)"
proof -
  have n: "NUL \<notin> set x" using assms(2) by (simp add: literal_def)
  from unescape_loop_decodes [OF assms(1) order_refl assms(3)] literal_unescape [OF assms(2), of rest]
  obtain b' where b': "unescape_string enc b s = Inr (Some (s, s + length lit + 1), b')"
    "length b' = length b" "take s b' = take s b" "window s (length x + 1) b' = x @ [NUL]"
    "length x < length lit + 1" "drop (s + length lit + 1) b' = drop (s + length lit + 1) b"
    by (auto simp: decodes_def unescape_string_def)
  have "take (length x + 1) (drop s (take (s + length lit + 1) b')) = x @ [NUL]"
    using b'(4,5) by (simp add: window_def drop_take min_def)
  then have "NUL \<in> set (take (length x + 1) (drop s (take (s + length lit + 1) b')))" by simp
  then have "NUL \<in> set (drop s (take (s + length lit + 1) b'))" by (rule in_set_takeD)
  then have "ends b' (s + length lit + 1) (Some s)" by (simp add: ends_def)
  with that [OF b'(1-3) cstr_window [OF b'(4) n] b'(6)] show thesis .
qed

lemma value_reads_str:
  assumes "literal enc lit s" "encoder_fits enc"
  shows "value_reads enc strtol (CHR 0x22 # lit @ [CHR 0x22]) (D_str s)"
  unfolding value_reads_def
proof (intro allI impI)
  fix st pa t p key fuel rest
  let ?xs = "CHR 0x22 # lit @ [CHR 0x22]"
  assume a: "jok st pa t" "text_at (buf st) p (?xs @ rest)" "2 * length (?xs @ rest) + 1 \<le> fuel"
    "dsize (D_str s) \<le> mem_left st" "ends (buf st) p key"
  let ?e = "p + length (?xs @ rest)" and ?q = "Suc p + length lit + 1"
  have k: "\<forall>k. key = Some k \<longrightarrow> k \<le> ?e" using ends_le [OF a(5)] by fastforce
  have "text_at (buf st) (Suc p) (lit @ CHR 0x22 # rest)" using a(2) by simp
  from literal_decodes [OF this assms] obtain b' where
    b': "unescape_string enc (buf st) (Suc p) = Inr (Some (Suc p, ?q), b')" "length b' = length (buf st)"
      "take (Suc p) b' = take (Suc p) (buf st)" "cstr (drop (Suc p) b') = s"
      "drop ?q b' = drop ?q (buf st)" "ends b' ?q (Some (Suc p))" .
  have q: "\<forall>s' q. Some (Suc p, ?q) = Some (s', q) \<longrightarrow> s' = Suc p \<and> Suc p < q \<and> q \<le> ?e \<and> drop q b' = drop q (buf st)"
    using b'(5) by simp
  have "take p b' = take p (buf st)" using b'(3) by (rule take_earlier) simp
  then have "ends b' ?q key" by (rule ends_keep(1) [OF a(5)]) simp
  then have s: "shown b' ?q (D_str s) (Jt NX_JSON_STRING key (Some (Suc p)) 0 [])"
    using b'(4,6) by (simp add: shown_def cstr_of_def)
  have "one_more pa t p ?xs rest key (D_str s) st (string_json enc key pa (Suc p) st)"
    by (cases rule: string_json_step [OF a(1) k assms(2) b'(1-3) q])
      (use a(4) s in \<open>auto simp: one_more_def\<close>)
  moreover have "parse_value enc strtol fuel pa key p st = string_json enc key pa (Suc p) st"
    using a(2,3) by (cases fuel) (auto simp: rd_def)
  ultimately show "one_more pa t p ?xs rest key (D_str s) st (parse_value enc strtol fuel pa key p st)" by simp
qed

subsection \<open>Arrays and objects\<close>

text \<open>Likewise for the children that a loop appends, up to and with the closing bracket.\<close>

definition all_more ::
  "nat \<Rightarrow> jt \<Rightarrow> nat \<Rightarrow> string \<Rightarrow> string \<Rightarrow> (string \<Rightarrow> nat \<Rightarrow> jt list \<Rightarrow> bool) \<Rightarrow> jstate
   \<Rightarrow> (nat option \<times> jstate) result \<Rightarrow> bool" where
  "all_more pa t p xs rest R st x \<longleftrightarrow> (\<exists>cs st'. x = Inr (Some (p + length xs), st')
     \<and> grown (p + length (xs @ rest)) pa t cs p st (Some (p + length xs), st') \<and> R (buf st') (p + length xs) cs)"

definition items_read :: "encoder option \<Rightarrow> strtol_fn \<Rightarrow> string \<Rightarrow> jdoc list \<Rightarrow> bool" where
  "items_read enc strtol xs ds \<longleftrightarrow> (\<forall>st pa t p fuel rest. jok st pa t \<longrightarrow> text_at (buf st) p (xs @ '']'' @ rest)
     \<longrightarrow> 2 * length (xs @ '']'' @ rest) + 2 \<le> fuel \<longrightarrow> sum_list (map dsize ds) \<le> mem_left st
     \<longrightarrow> all_more pa t p (xs @ '']'') rest (\<lambda>b q. list_all2 (shown b q) ds) st (array_loop enc strtol fuel pa p st))"

definition members_read :: "encoder option \<Rightarrow> strtol_fn \<Rightarrow> string \<Rightarrow> (string \<times> jdoc) list \<Rightarrow> bool" where
  "members_read enc strtol xs kds \<longleftrightarrow> (\<forall>st pa t p fuel rest. jok st pa t \<longrightarrow> text_at (buf st) p (xs @ ''}'' @ rest)
     \<longrightarrow> 2 * length (xs @ ''}'' @ rest) + 2 \<le> fuel \<longrightarrow> sum_list (map (\<lambda>kd. dsize (snd kd)) kds) \<le> mem_left st
     \<longrightarrow> all_more pa t p (xs @ ''}'') rest (\<lambda>b q. list_all2 (shown_member b q) kds) st (object_loop enc strtol fuel pa p st))"

lemma nested_reads:
  assumes j: "jok st pa t" and m: "mem_left st \<noteq> 0" "ends (buf st) p key" "ty \<noteq> NX_JSON_STRING"
    and loop: "\<And>st1 a. jok st1 a (leaf ty key) \<Longrightarrow> buf st1 = buf st \<Longrightarrow> mem_left st = Suc (mem_left st1)
      \<Longrightarrow> all_more a (leaf ty key) (Suc p) xs rest R st1 (loop a (p + 1) st1)"
    and R: "\<And>b q cs. R b q cs \<Longrightarrow> ends b q key \<Longrightarrow> shown b q d (Jt ty key None 0 cs)"
  shows "one_more pa t p (c # xs) rest key d st (bindR (create_json ty key pa st) (\<lambda>(js, st1). case js of
        None \<Rightarrow> Inr (None, st1) | Some a \<Rightarrow> loop a (p + 1) st1))"
proof (cases rule: create_json_cases [OF j, of ty key])
  case 1
  then show ?thesis using m(1) by simp
next
  case (2 st1)
  let ?q = "Suc p + length xs" and ?e = "Suc p + length (xs @ rest)"
  have "jok st1 (pa + tsize t) (leaf ty key)" "buf st1 = buf st" "mem_left st = Suc (mem_left st1)"
    using 2(2) j by (auto simp: created_def jok_def)
  from loop [OF this] this(2) obtain cs st2 where l: "loop (pa + tsize t) (Suc p) st1 = Inr (Some ?q, st2)"
    "grown ?e (pa + tsize t) (leaf ty key) cs (Suc p) st1 (Some ?q, st2)" "R (buf st2) ?q cs" "buf st1 = buf st"
    by (auto simp: all_more_def)
  have k: "\<And>k. key = Some k \<Longrightarrow> k \<le> ?e" using ends_le [OF m(2)] by fastforce
  have "take (Suc p) (buf st2) = take (Suc p) (buf st)" using l(2,4) by (simp add: grown_def)
  then have "take p (buf st2) = take p (buf st)" by (rule take_earlier) simp
  then have "ends (buf st2) ?q key" by (rule ends_keep(1) [OF m(2)]) simp
  then have "shown (buf st2) ?q d (Jt ty key None 0 cs)" using R l(3) by simp
  moreover have "grown ?e pa t [Jt ty key None 0 cs] p st (Some ?q, st2)"
    by (rule grown_nested [OF 2(2) l(2)]) (use k m(3) in auto)
  ultimately show ?thesis using 2(1) l(1) by (auto simp: one_more_def)
qed

lemma value_reads_arr:
  assumes "items_read enc strtol xs ds"
  shows "value_reads enc strtol (CHR ''['' # xs @ '']'') (D_arr ds)"
  unfolding value_reads_def
proof (intro allI impI)
  fix st pa t p key fuel rest
  let ?xs = "CHR ''['' # xs @ '']''"
  assume a: "jok st pa t" "text_at (buf st) p (?xs @ rest)" "2 * length (?xs @ rest) + 1 \<le> fuel"
    "dsize (D_arr ds) \<le> mem_left st" "ends (buf st) p key"
  obtain f where f: "fuel = Suc f" using a(3) by (cases fuel) auto
  have "one_more pa t p ?xs rest key (D_arr ds) st (bindR (create_json NX_JSON_ARRAY key pa st) (\<lambda>(js, st1). case js of
        None \<Rightarrow> Inr (None, st1) | Some b \<Rightarrow> array_loop enc strtol f b (p + 1) st1))"
  proof (rule nested_reads [OF a(1) _ a(5), where loop = "array_loop enc strtol f" and R = "\<lambda>b q. list_all2 (shown b q) ds"])
    show "all_more b (leaf NX_JSON_ARRAY key) (Suc p) (xs @ '']'') rest (\<lambda>b q. list_all2 (shown b q) ds) st1
        (array_loop enc strtol f b (p + 1) st1)"
      if "jok st1 b (leaf NX_JSON_ARRAY key)" "buf st1 = buf st" "mem_left st = Suc (mem_left st1)" for st1 b
      using assms [unfolded items_read_def, rule_format, OF that(1), of "Suc p" rest f] a(2-4) f that by simp
    show "shown b q (D_arr ds) (Jt NX_JSON_ARRAY key None 0 cs)" if "list_all2 (shown b q) ds cs" "ends b q key" for b q cs
      using shown_items [OF that(1)] that(2) by (simp add: shown_def)
  qed (use a(4) in simp_all)
  then show "one_more pa t p ?xs rest key (D_arr ds) st (parse_value enc strtol fuel pa key p st)"
    using a(2) f by (simp add: rd_def)
qed

lemma value_reads_obj:
  assumes "members_read enc strtol xs kds"
  shows "value_reads enc strtol (CHR ''{'' # xs @ ''}'') (D_obj kds)"
  unfolding value_reads_def
proof (intro allI impI)
  fix st pa t p key fuel rest
  let ?xs = "CHR ''{'' # xs @ ''}''"
  assume a: "jok st pa t" "text_at (buf st) p (?xs @ rest)" "2 * length (?xs @ rest) + 1 \<le> fuel"
    "dsize (D_obj kds) \<le> mem_left st" "ends (buf st) p key"
  obtain f where f: "fuel = Suc f" using a(3) by (cases fuel) auto
  have "one_more pa t p ?xs rest key (D_obj kds) st (bindR (create_json NX_JSON_OBJECT key pa st) (\<lambda>(js, st1). case js of
        None \<Rightarrow> Inr (None, st1) | Some b \<Rightarrow> object_loop enc strtol f b (p + 1) st1))"
  proof (rule nested_reads [OF a(1) _ a(5), where loop = "object_loop enc strtol f" and R = "\<lambda>b q. list_all2 (shown_member b q) kds"])
    show "all_more b (leaf NX_JSON_OBJECT key) (Suc p) (xs @ ''}'') rest (\<lambda>b q. list_all2 (shown_member b q) kds) st1
        (object_loop enc strtol f b (p + 1) st1)"
      if "jok st1 b (leaf NX_JSON_OBJECT key)" "buf st1 = buf st" "mem_left st = Suc (mem_left st1)" for st1 b
      using assms [unfolded members_read_def, rule_format, OF that(1), of "Suc p" rest f] a(2-4) f that by simp
    show "shown b q (D_obj kds) (Jt NX_JSON_OBJECT key None 0 cs)" if "list_all2 (shown_member b q) kds cs" "ends b q key" for b q cs
      using shown_members [OF that(1)] that(2) by (simp add: shown_def)
  qed (use a(4) in simp_all)
  then show "one_more pa t p ?xs rest key (D_obj kds) st (parse_value enc strtol fuel pa key p st)"
    using a(2) f by (simp add: rd_def)
qed

text \<open>A value, and a list of them, does not start with a closing bracket.\<close>

lemma gap_first: "gap g \<Longrightarrow> g = c # cs \<Longrightarrow> c \<noteq> CHR '']'' \<and> c \<noteq> CHR ''}''"
  by (induction rule: gap.induct) (auto simp: separator_def)

lemma value_first: "json_value enc xs d \<Longrightarrow> \<exists>c cs. xs = c # cs \<and> c \<noteq> CHR '']'' \<and> c \<noteq> CHR ''}''"
proof (erule json_value.cases)
  fix i assume "xs = int_text i"
  moreover obtain c cs where "int_text i = c # cs" "c = CHR ''-'' \<or> 48 \<le> (of_char c :: nat) \<and> (of_char c :: nat) \<le> 57"
    using int_text_first by blast
  ultimately show ?thesis by (intro exI [of _ c] exI [of _ cs]) auto
qed simp_all

lemma gap_value_first:
  assumes "gap g" "json_value enc xs d"
  shows "\<exists>c cs. g @ xs = c # cs \<and> c \<noteq> CHR '']'' \<and> c \<noteq> CHR ''}''"
  using value_first [OF assms(2)] gap_first [OF assms(1)] by (cases g) auto

lemma items_first: "json_items enc ys ds \<Longrightarrow> ys = [] \<and> ds = [] \<or> (\<exists>c cs. ys = c # cs \<and> c \<noteq> CHR '']'')"
proof (erule json_items.cases)
  fix g assume "ys = g" "ds = []" "gap g"
  then show ?thesis using gap_first [of g] by (cases g) auto
next
  fix g xs d zs es assume "ys = g @ xs @ zs" "gap g" "json_value enc xs d"
  then show ?thesis using gap_value_first [of g enc xs d] by (metis append.assoc append_Cons)
qed

lemma grown_cons:
  assumes "grown e pa t [c] p st (Some q, st1)" "grown e pa (add_kids t [c]) cs q st1 (Some q2, st2)"
  shows "grown e pa t (c # cs) p st (Some q2, st2)" "take q (buf st2) = take q (buf st1)" "q \<le> q2"
  using grown_trans [OF assms] assms(2) by (simp_all add: grown_def)

text \<open>The state behind a value, from which the loop goes on.\<close>

lemma grown_next:
  assumes "grown e pa t [c] p st (Some q, st1)" "text_at (buf st) q ys" "jok st pa t" "tsize c + m \<le> mem_left st"
  shows "jok st1 pa (add_kids t [c])" "text_at (buf st1) q ys" "m \<le> mem_left st1"
  using assms text_at_cong [of "buf st1" "buf st" q ys] by (auto simp: grown_def jok_def)

lemma number_stops_append: "number_stops d ys \<Longrightarrow> \<not> is_alnum c \<Longrightarrow> number_stops d (ys @ c # rest)"
  by (cases d; cases ys) (simp_all add: number_stops_def)

text \<open>A value with blanks and comments in front.\<close>

lemma gap_value_reads:
  assumes g: "gap g" and v: "value_reads enc strtol xs d" and a: "jok st pa t" "text_at (buf st) p (g @ xs @ ys)"
    and b: "number_stops d ys" "2 * length (g @ xs @ ys) + 1 \<le> fuel" "dsize d \<le> mem_left st" "ends (buf st) p key"
  shows "one_more pa t p (g @ xs) ys key d st (parse_value enc strtol fuel pa key p st)"
proof -
  have "length g < fuel" using b(2) by simp
  from parse_value_gap [OF g a(2) this] obtain f where f: "fuel - length g \<le> f"
    "parse_value enc strtol fuel pa key p st = parse_value enc strtol f pa key (p + length g) st" by blast
  have "ends (buf st) (p + length g) key" using ends_keep(1) [OF b(4) refl, of "p + length g"] by simp
  then have "one_more pa t (p + length g) xs ys key d st (parse_value enc strtol f pa key (p + length g) st)"
    using v [unfolded value_reads_def, rule_format, OF a(1) text_at_append [OF a(2)] b(1)] b(2,3) f(1) by simp
  then obtain c st' where "parse_value enc strtol f pa key (p + length g) st = Inr (Some (p + length (g @ xs)), st')"
    "grown (p + length ((g @ xs) @ ys)) pa t [c] (p + length g) st (Some (p + length (g @ xs)), st')" "jt_key c = key"
    "shown (buf st') (p + length (g @ xs)) d c" by (auto simp: one_more_def add.assoc)
  then show ?thesis unfolding f(2) one_more_def
    by (intro exI [of _ c] exI [of _ st']) (auto intro: grown_later [where q = "p + length g"])
qed

lemma items_read_nil:
  assumes "gap g"
  shows "items_read enc strtol g []"
  unfolding items_read_def
proof (intro allI impI)
  fix st pa t p fuel rest
  assume a: "jok st pa t" "text_at (buf st) p (g @ '']'' @ rest)" "2 * length (g @ '']'' @ rest) + 2 \<le> fuel"
  obtain f where f: "fuel = Suc f" "length g < f" using a(3) by (cases fuel) auto
  obtain f' where f': "f - length g \<le> f'"
    "parse_value enc strtol f pa None p st = parse_value enc strtol f' pa None (p + length g) st"
    using parse_value_gap [OF assms a(2) f(2)] by blast
  have r: "rd (buf st) (p + length g) = Inr (CHR '']'')" using text_at_rd [OF text_at_append [OF a(2)]] by simp
  have "parse_value enc strtol f' pa None (p + length g) st = Inr (Some (p + length g), st)"
    using r f f'(1) by (cases f') simp_all
  then have "array_loop enc strtol fuel pa p st = Inr (Some (p + length g + 1), st)" using f f'(2) r by simp
  moreover have "grown (p + length ((g @ '']'') @ rest)) pa t [] p st (Some (p + length g + 1), st)"
    using a(1) by (simp add: grown_def)
  ultimately show "all_more pa t p (g @ '']'') rest (\<lambda>b q. list_all2 (shown b q) []) st (array_loop enc strtol fuel pa p st)"
    unfolding all_more_def by (intro exI [of _ "[]"] exI [of _ st]) simp
qed

lemma items_read_cons:
  assumes g: "gap g" and v: "json_value enc xs d" "value_reads enc strtol xs d" and n: "number_stops d ys"
    and i: "json_items enc ys ds" "items_read enc strtol ys ds"
  shows "items_read enc strtol (g @ xs @ ys) (d # ds)"
  unfolding items_read_def
proof (intro allI impI)
  fix st pa t p fuel rest
  let ?ys = "ys @ '']'' @ rest" and ?all = "(g @ xs @ ys) @ '']'' @ rest"
  assume a: "jok st pa t" "text_at (buf st) p ?all" "2 * length ?all + 2 \<le> fuel" "sum_list (map dsize (d # ds)) \<le> mem_left st"
  let ?q = "p + length (g @ xs)" and ?e = "p + length ?all"
  obtain f where f: "fuel = Suc f" using a(3) by (cases fuel) auto
  have a2: "text_at (buf st) p (g @ xs @ ?ys)" using a(2) by simp
  have "number_stops d ?ys" using number_stops_append [OF n, of "CHR '']''"] by (simp add: is_alnum_def)
  from gap_value_reads [OF g v(2) a(1) a2 this, of f None] obtain c st1 where
    c: "parse_value enc strtol f pa None p st = Inr (Some ?q, st1)" and c2: "grown ?e pa t [c] p st (Some ?q, st1)"
    and sh: "shown (buf st1) ?q d c"
    using a(3,4) f by (auto simp: one_more_def)
  have "text_at (buf st) p ((g @ xs) @ ?ys)" using a(2) by simp
  note tq = text_at_append [OF this]
  have m: "tsize c + sum_list (map dsize ds) \<le> mem_left st" using a(4) sh by (simp add: shown_def)
  note nx = grown_next [OF c2 tq a(1) m]
  have x: "xs \<noteq> []" using value_first [OF v(1)] by auto
  have "all_more pa t p ((g @ xs @ ys) @ '']'') rest (\<lambda>b q. list_all2 (shown b q) (d # ds)) st
      (array_loop enc strtol (Suc f) pa p st)"
    using items_first [OF i(1)]
  proof
    assume y: "ys = [] \<and> ds = []"
    then have r: "rd (buf st1) ?q = Inr (CHR '']'')" using text_at_rd [OF nx(2)] by simp
    have "grown ?e pa t [c] p st (Some (Suc ?q), st1)"
      using c2 y drop_later [of ?q "buf st1" "buf st" "Suc ?q"] by (auto simp: grown_def)
    moreover have "shown (buf st1) (Suc ?q) d c" using shown_keep [OF sh refl, of "Suc ?q"] by simp
    ultimately show ?thesis unfolding all_more_def using c r y
      by (intro exI [of _ "[c]"] exI [of _ st1]) (simp add: ac_simps)
  next
    assume "\<exists>c cs. ys = c # cs \<and> c \<noteq> CHR '']''"
    then obtain r where r: "rd (buf st1) ?q = Inr r" "r \<noteq> CHR '']''" using text_at_rd [OF nx(2)] by auto
    have "all_more pa (add_kids t [c]) ?q (ys @ '']'') rest (\<lambda>b q. list_all2 (shown b q) ds) st1 (array_loop enc strtol f pa ?q st1)"
      using i(2) [unfolded items_read_def, rule_format, OF nx(1,2) _ nx(3), of f] a(3) f x by (cases xs) simp_all
    then obtain cs st2 q2 where l: "array_loop enc strtol f pa ?q st1 = Inr (Some q2, st2)" "q2 = ?q + length (ys @ '']'')"
      "grown ?e pa (add_kids t [c]) cs ?q st1 (Some q2, st2)" "list_all2 (shown (buf st2) q2) ds cs"
      by (auto simp: all_more_def add.assoc)
    note gc = grown_cons [OF c2 l(3)]
    have "shown (buf st2) q2 d c" by (rule shown_keep [OF sh gc(2,3)])
    then show ?thesis unfolding all_more_def using c r l(1,4) gc
      by (intro exI [of _ "c # cs"] exI [of _ st2]) (simp add: l(2) add.assoc)
  qed
  then show "all_more pa t p ((g @ xs @ ys) @ '']'') rest (\<lambda>b q. list_all2 (shown b q) (d # ds)) st
      (array_loop enc strtol fuel pa p st)" by (simp only: f)
qed

text \<open>A key with its colon.\<close>

lemma parse_key_reads:
  assumes "text_at b p (g @ CHR 0x22 # lit @ CHR 0x22 # w @ CHR '':'' # rest)" "gap g" "literal enc lit x" "blank w"
    "encoder_fits enc"
  obtains b' k q where "parse_key enc b p = Inr (Some q, Some k, b')"
    "q = p + length (g @ CHR 0x22 # lit @ CHR 0x22 # w @ '':'')"
    "length b' = length b" "take p b' = take p b" "drop q b' = drop q b" "ends b' q (Some k)" "cstr (drop k b') = x"
proof -
  let ?s = "Suc (p + length g)"
  let ?e = "?s + length lit + 1"
  let ?q = "?e + length w"
  note t = text_at_append [OF assms(1)]
  have t1: "text_at b ?s (lit @ CHR 0x22 # w @ CHR '':'' # rest)" using t by simp
  from literal_decodes [OF t1 assms(3,5)] obtain b' where
    b': "unescape_string enc b ?s = Inr (Some (?s, ?e), b')" "length b' = length b" "take ?s b' = take ?s b"
      "cstr (drop ?s b') = x" "drop ?e b' = drop ?e b" "ends b' ?e (Some ?s)" .
  have "text_at b (?s + length (lit @ [CHR 0x22])) (w @ CHR '':'' # rest)" using t1 by (intro text_at_append) simp
  then have t2: "text_at b' ?e (w @ CHR '':'' # rest)" using text_at_cong [OF b'(2,5)] by simp
  have "skip_ws b' ?e = Inr ?q" using skip_ws_text [OF t2 assms(4)] by (simp add: IS_WHITESPACE_def)
  moreover have "b' ! ?q = CHR '':''" using text_at_nth [OF t2] .
  ultimately have "parse_key enc b (p + length g) = Inr (Some (?q + 1), Some ?s, b')"
    using t b'(1) by (subst parse_key.simps) simp
  then have pk: "parse_key enc b p = Inr (Some (?q + 1), Some ?s, b')" using parse_key_gap [OF assms(2,1), of enc] by simp
  have e1: "ends b' (?q + 1) (Some ?s)" using ends_keep(1) [OF b'(6) refl, of "?q + 1"] by simp
  have e2: "take p b' = take p b" using b'(3) by (rule take_earlier) simp
  have e3: "drop (?q + 1) b' = drop (?q + 1) b" using b'(5) by (rule drop_later) simp
  show thesis by (rule that [OF pk _ b'(2) e2 e3 e1 b'(4)]) simp
qed

lemma members_read_nil:
  assumes "gap g"
  shows "members_read enc strtol g []"
  unfolding members_read_def
proof (intro allI impI)
  fix st pa t p fuel rest
  assume a: "jok st pa t" "text_at (buf st) p (g @ ''}'' @ rest)" "2 * length (g @ ''}'' @ rest) + 2 \<le> fuel"
  obtain f where f: "fuel = Suc f" using a(3) by (cases fuel) auto
  have t: "text_at (buf st) (p + length g) (''}'' @ rest)" by (rule text_at_append [OF a(2)])
  then have "parse_key enc (buf st) (p + length g) = Inr (Some (p + length g), None, buf st)"
    by (subst parse_key.simps) (simp add: IS_WHITESPACE_def)
  then have "parse_key enc (buf st) p = Inr (Some (p + length g), None, buf st)" using parse_key_gap [OF assms a(2), of enc] by simp
  then have "object_loop enc strtol fuel pa p st = Inr (Some (p + length g + 1), st)"
    using f text_at_rd [OF t] by simp
  moreover have "grown (p + length ((g @ ''}'') @ rest)) pa t [] p st (Some (p + length g + 1), st)"
    using a(1) by (simp add: grown_def)
  ultimately show "all_more pa t p (g @ ''}'') rest (\<lambda>b q. list_all2 (shown_member b q) []) st (object_loop enc strtol fuel pa p st)"
    unfolding all_more_def by (intro exI [of _ "[]"] exI [of _ st]) simp
qed

lemma members_read_cons:
  assumes g: "gap g" and k: "literal enc lit k" "blank w" "encoder_fits enc" and g': "gap g'"
    and v: "json_value enc xs d" "value_reads enc strtol xs d" and n: "number_stops d ys" and m: "members_read enc strtol ys kds"
  shows "members_read enc strtol (g @ CHR 0x22 # lit @ CHR 0x22 # w @ CHR '':'' # g' @ xs @ ys) ((k, d) # kds)"
  unfolding members_read_def
proof (intro allI impI)
  fix st pa t p fuel rest
  let ?ks = "g @ CHR 0x22 # lit @ CHR 0x22 # w @ '':''" and ?ys = "ys @ ''}'' @ rest"
  let ?xs = "g @ CHR 0x22 # lit @ CHR 0x22 # w @ CHR '':'' # g' @ xs @ ys"
  let ?all = "?xs @ ''}'' @ rest"
  assume a: "jok st pa t" "text_at (buf st) p ?all" "2 * length ?all + 2 \<le> fuel"
    "sum_list (map (\<lambda>kd. dsize (snd kd)) ((k, d) # kds)) \<le> mem_left st"
  let ?e = "p + length ?all"
  obtain f where f: "fuel = Suc f" using a(3) by (cases fuel) auto
  have "text_at (buf st) p (g @ CHR 0x22 # lit @ CHR 0x22 # w @ CHR '':'' # g' @ xs @ ?ys)" using a(2) by simp
  from parse_key_reads [OF this g k] obtain b' x q where pk: "parse_key enc (buf st) p = Inr (Some q, Some x, b')"
    "q = p + length ?ks" "length b' = length (buf st)" "take p b' = take p (buf st)" "drop q b' = drop q (buf st)"
    "ends b' q (Some x)" "cstr (drop x b') = k" .
  let ?st1 = "st\<lparr>buf := b'\<rparr>" and ?q = "q + length (g' @ xs)"
  have e: "?e = q + length ((g' @ xs) @ ?ys)" and e': "?e = ?q + length ((ys @ ''}'') @ rest)" using pk(2) by simp_all
  have "text_at (buf st) p (?ks @ g' @ xs @ ?ys)" using a(2) by simp
  from text_at_append [OF this] have tq: "text_at (buf ?st1) q (g' @ xs @ ?ys)"
    using text_at_cong [OF pk(3,5)] pk(2) by simp
  have j1: "jok ?st1 pa t" using a(1) by (simp add: jok_def)
  have gr1: "grown ?e pa t [] p st (Some q, ?st1)" using a(1) pk by (auto simp: grown_def jok_def)
  have "text_at (buf ?st1) q ((g' @ xs) @ ?ys)" using tq by simp
  note tv = text_at_append [OF this]
  have "number_stops d ?ys" using number_stops_append [OF n, of "CHR ''}''"] by (simp add: is_alnum_def)
  from gap_value_reads [OF g' v(2) j1 tq this, of f "Some x"]
  have "one_more pa t q (g' @ xs) ?ys (Some x) d ?st1 (parse_value enc strtol f pa (Some x) q ?st1)"
    using a(3,4) f pk(6) by simp
  then obtain c st2 where c: "parse_value enc strtol f pa (Some x) q ?st1 = Inr (Some ?q, st2)"
    "grown ?e pa t [c] q ?st1 (Some ?q, st2)" "jt_key c = Some x" "shown (buf st2) ?q d c"
    unfolding e one_more_def by blast
  note c1 = c(2)
  have c2: "grown ?e pa t [c] p st (Some ?q, st2)" using grown_trans [OF gr1, of "[c]"] c1 by simp
  have "take q (buf st2) = take q b'" using c1 by (simp add: grown_def)
  then have "cstr_of (buf st2) (Some x) = k" using ends_keep(2) [OF pk(6), of "buf st2" q] pk(7) by (simp add: cstr_of_def)
  then have sm: "shown_member (buf st2) ?q (k, d) c" using c(3,4) by (simp add: shown_member_def)
  have mm: "tsize c + sum_list (map (\<lambda>kd. dsize (snd kd)) kds) \<le> mem_left ?st1" using a(4) c(4) by (simp add: shown_def)
  note nx = grown_next [OF c1 tv j1 mm]
  have "all_more pa (add_kids t [c]) ?q (ys @ ''}'') rest (\<lambda>b q. list_all2 (shown_member b q) kds) st2 (object_loop enc strtol f pa ?q st2)"
    using m [unfolded members_read_def, rule_format, OF nx(1,2) _ nx(3), of f] a(3) f by simp
  then obtain cs st3 q2 where l: "object_loop enc strtol f pa ?q st2 = Inr (Some q2, st3)" "q2 = ?q + length (ys @ ''}'')"
    "grown ?e pa (add_kids t [c]) cs ?q st2 (Some q2, st3)" "list_all2 (shown_member (buf st3) q2) kds cs"
    unfolding e' all_more_def by blast
  note gc = grown_cons [OF c2 l(3)]
  have s3: "shown_member (buf st3) q2 (k, d) c" by (rule shown_member_keep [OF sm gc(2,3)])
  obtain r rs where r: "g' @ xs = r # rs" "r \<noteq> CHR ''}''" using gap_value_first [OF g' v(1)] by blast
  then have first: "g' @ xs @ ?ys = r # rs @ ?ys" by (metis append.assoc append_Cons)
  have "rd b' q = Inr r" using text_at_rd [OF tq] unfolding first by simp
  then have "object_loop enc strtol fuel pa p st = Inr (Some q2, st3)" using f pk(1) r(2) c(1) l(1) by simp
  then show "all_more pa t p (?xs @ ''}'') rest (\<lambda>b q. list_all2 (shown_member b q) ((k, d) # kds)) st
      (object_loop enc strtol fuel pa p st)"
    unfolding all_more_def using gc(1) s3 l(4) pk(2) by (intro exI [of _ "c # cs"] exI [of _ st3]) (simp add: l(2) add.assoc)
qed

text \<open>The parser reads every text of the grammar.\<close>

lemma parser_reads:
  assumes "encoder_fits enc" "strtol_ok strtol" "strtol_reads strtol"
  shows "json_value enc xs d \<Longrightarrow> value_reads enc strtol xs d"
    "json_items enc xs ds \<Longrightarrow> items_read enc strtol xs ds"
    "json_members enc xs kds \<Longrightarrow> members_read enc strtol xs kds"
proof (induction rule: json_value_json_items_json_members.inducts)
  case v_true
  show ?case using value_reads_bool [of enc strtol True] by simp
next
  case v_false
  show ?case using value_reads_bool [of enc strtol False] by simp
qed (simp_all add: value_reads_null value_reads_int value_reads_str value_reads_arr value_reads_obj items_read_nil
  items_read_cons members_read_nil members_read_cons assms)

subsection \<open>Whole texts\<close>

lemma nx_json_parse_text:
  assumes "encoder_fits enc" "strtol_ok strtol" "strtol_reads strtol"
    and "gap g" "json_value enc xs d" "number_stops d rest" "NUL \<notin> set (g @ xs @ rest)" "dsize d \<le> mem"
  shows "\<exists>st t. nx_json_parse enc strtol mem (g @ xs @ rest @ NUL # post) = Inr (Some 1, st)
    \<and> tree_at st (J_at 1) t \<and> whole_tree st 1 t \<and> doc_of (buf st) t = d"
proof -
  let ?b = "g @ xs @ rest @ NUL # post" and ?p = "length g" and ?e = "length g + length (xs @ rest)"
  let ?st = "\<lparr>buf = ?b, heap = [0 \<mapsto> zero_json], brk = 1, mem_left = mem\<rparr>" and ?q = "length g + length xs"
  have t: "text_at (buf ?st) 0 (g @ xs @ rest)" using text_at_literal [OF assms(7), of "[]" post] by simp
  have "length g < 2 * length ?b + 2" by simp
  from parse_value_gap [OF assms(4) t this] obtain f where f: "2 * length ?b + 2 - length g \<le> f"
    "parse_value enc strtol (2 * length ?b + 2) 0 None 0 ?st = parse_value enc strtol f 0 None ?p ?st" by force
  have "one_more 0 (leaf NX_JSON_NULL None) ?p xs rest None d ?st (parse_value enc strtol f 0 None ?p ?st)"
  proof (rule parser_reads(1) [OF assms(1-3,5), unfolded value_reads_def, rule_format])
    show "jok ?st 0 (leaf NX_JSON_NULL None)" by (rule root_jok)
    show "text_at (buf ?st) ?p (xs @ rest)" using text_at_append [OF t] by simp
  qed (use assms(6,8) f(1) in simp_all)
  then obtain c st where c: "parse_value enc strtol (2 * length ?b + 2) 0 None 0 ?st = Inr (Some ?q, st)"
    "grown ?e 0 (leaf NX_JSON_NULL None) [c] ?p ?st (Some ?q, st)" "shown (buf st) ?q d c"
    unfolding f(2) one_more_def by blast
  have l: "live (buf st) ?e ?q" using grown_live [OF c(2)] text_live [OF text_at_append [OF t]] by simp
  have j: "jok st 0 (Jt NX_JSON_NULL None None 0 [c])" and bd: "bounded ?e c" "filled c"
    using c(2) by (simp_all add: grown_def add_kids_def)
  let ?st2 = "st\<lparr>heap := (heap st)(0 := None)\<rparr>"
  have h0: "heap st 0 = Some (node_of 0 (Jt NX_JSON_NULL None None 0 [c]) None)" "laid (heap st) 1 c None"
    "brk st = 1 + tsize c" "\<And>x. 1 + tsize c \<le> x \<Longrightarrow> heap st x = None"
    using j by (auto simp: jok_def)
  have "nx_json_parse enc strtol mem ?b = Inr (Some 1, ?st2)"
    unfolding nx_json_parse_def c(1) using h0(1) by (simp add: load_def node_of_def)
  moreover have la: "laid (heap ?st2) 1 c None" using h0(2) laid_cong(1) [of 1 c "heap ?st2" "heap st" None] by simp
  moreover have "doc_tree (buf st) c" using bounded_doc [of ?e "buf st" c] l bd by (simp add: live_def)
  then have "tree_at ?st2 (J_at 1) c" using la h0(3) by (auto simp: tree_at_def)
  moreover have "whole_tree ?st2 1 c" using la h0(3,4) by (auto simp: whole_tree_def)
  moreover have "doc_of (buf ?st2) c = d" using c(3) by (simp add: shown_def)
  ultimately show ?thesis by blast
qed

subsection \<open>A decimal \<open>strtol\<close>\<close>

text \<open>A function that meets what is assumed of \<open>strtol\<close>.\<close>

definition digits_value :: "string \<Rightarrow> int" where
  "digits_value ds = foldl (\<lambda>v c. 10 * v + (int (of_char c) - 48)) 0 ds"

definition dec_strtol :: strtol_fn where
  "dec_strtol s = (case s of
      [] \<Rightarrow> (0, 0)
    | c # cs \<Rightarrow>
        if c = CHR ''-'' then (let ds = takeWhile is_digit cs in (- digits_value ds, if ds = [] then 0 else Suc (length ds)))
        else (let ds = takeWhile is_digit s in (digits_value ds, length ds)))"

lemma dec_strtol_ok: "strtol_ok dec_strtol"
proof -
  have "snd (dec_strtol s) \<le> length s" for s
    using length_takeWhile_le [of is_digit s] length_takeWhile_le [of is_digit "List.tl s"]
    by (auto simp: dec_strtol_def Let_def split: list.split)
  then show ?thesis by (simp add: strtol_ok_def)
qed

lemma dec_str_digits: "c \<in> set (dec_str n) \<Longrightarrow> is_digit c"
proof (induction n rule: dec_str.induct)
  case (1 n)
  then show ?case by (subst (asm) (2) dec_str.simps) (auto split: if_splits)
qed

lemma digits_value_dec_str: "digits_value (dec_str n) = int n"
proof (induction n rule: dec_str.induct)
  case (1 n)
  have "10 * int (n div 10) + int (n mod 10) = int n" by (metis mult_div_mod_eq of_nat_add of_nat_mult of_nat_numeral)
  then show ?case using 1 by (cases "n < 10") (simp_all add: dec_str.simps [of n] digits_value_def)
qed

lemma takeWhile_dec_str:
  assumes "rest = [] \<or> \<not> is_alnum (hd rest)"
  shows "takeWhile is_digit (dec_str n @ rest) = dec_str n"
proof -
  have "takeWhile is_digit rest = []"
    using assms by (cases rest) (auto simp: is_alnum_def is_digit_def Let_def)
  then show ?thesis using dec_str_digits [of _ n] by (simp add: takeWhile_append)
qed

lemma is_digit_minus: "\<not> is_digit (CHR ''-'')"
  by (simp add: is_digit_def)

lemma dec_strtol_reads: "strtol_reads dec_strtol"
  unfolding strtol_reads_def
proof (intro allI impI)
  fix i rest assume "number_stops (D_int i) rest"
  then have r: "rest = [] \<or> \<not> is_alnum (hd rest)" by (simp add: number_stops_def)
  note dv = takeWhile_dec_str [OF r] digits_value_dec_str
  obtain d cs where d: "dec_str (nat i) = char_of (48 + d :: nat) # cs" "d < 10" using dec_str_first by blast
  have "is_digit (char_of (48 + d))" using d by simp
  then have "char_of (48 + d) \<noteq> CHR ''-''" by (metis is_digit_minus)
  then have "dec_strtol (dec_str (nat i) @ rest) = (int (nat i), length (dec_str (nat i)))"
    using dv(1) [of "nat i"] dv(2) [of "nat i"] d(1) by (simp add: dec_strtol_def Let_def)
  moreover have "dec_str (nat (- i)) \<noteq> []" using dec_str_first [of "nat (- i)"] by auto
  ultimately show "dec_strtol (int_text i @ rest) = (i, length (int_text i))"
    using dv(1) [of "nat (- i)"] dv(2) [of "nat (- i)"] by (simp add: int_text_def dec_strtol_def Let_def)
qed

subsection \<open>Properties\<close>

text \<open>
  C3.  \<open>nx_json_parse\<close> reads every JSON text: separators and comments in front, one value of the
  (lenient) grammar, and anything behind it, which it ignores.  With memory for the nodes of
  the document it returns a tree, and the tree shows exactly the document the text stands
  for: every key, string, number and literal, in the order of the text.
\<close>

theorem nx_json_parse_reads:
  assumes "encoder_fits enc" "strtol_ok strtol" "strtol_reads strtol"
    and "gap g" "json_value enc xs d" "number_stops d rest" "NUL \<notin> set (g @ xs @ rest)" "dsize d \<le> mem"
  shows "\<exists>st t. nx_json_parse enc strtol mem (g @ xs @ rest @ [NUL]) = Inr (Some 1, st)
    \<and> tree_at st (J_at 1) t \<and> doc_of (buf st) t = d"
  using nx_json_parse_text [OF assms, of "[]"] by blast

theorem nx_json_parse_reads_witness:
  "\<exists>st t. nx_json_parse (Some unicode_to_utf8) dec_strtol 5
       (''/* ab */ '' @ ''[-7 {'' @ [CHR 0x22] @ ''a'' @ [CHR 0x5C] @ ''u00e9'' @ [CHR 0x22] @ '' : true},]'' @ '' z'' @ [NUL]) = Inr (Some 1, st)
     \<and> tree_at st (J_at 1) t \<and> doc_of (buf st) t = D_arr [D_int (- 7), D_obj [([CHR ''a'', CHR 0xC3, CHR 0xA9], D_bool True)]]"
proof -
  let ?enc = "Some unicode_to_utf8" and ?k = "[CHR ''a'', CHR 0xC3, CHR 0xA9]" and ?lit = "''a'' @ [CHR 0x5C] @ ''u00e9''"
  have l: "literal ?enc ?lit ?k" unfolding literal_def by code_simp
  have g: "gap ''/* ab */ ''" using gap_block [of "'' ab ''" "'' ''"] gap_sep [of "CHR '' ''" "[]"] gap_nil by (simp add: separator_def)
  have gs: "gap '' ''" "gap '',''" using gap_nil by (auto intro!: gap_sep simp: separator_def)
  have "json_members ?enc ([] @ CHR 0x22 # ?lit @ CHR 0x22 # '' '' @ CHR '':'' # '' '' @ ''true'' @ []) [(?k, D_bool True)]"
    using l gs gap_nil by (intro m_cons v_true m_nil) (simp_all add: blank_def IS_WHITESPACE_def)
  from v_obj [OF this] have o: "json_value ?enc (''{'' @ [CHR 0x22] @ ?lit @ [CHR 0x22] @ '' : true}'') (D_obj [(?k, D_bool True)])"
    by simp
  have i7: "int_text (- 7) = ''-7''" by code_simp
  have "json_items ?enc ([] @ int_text (- 7) @ '' '' @ (''{'' @ [CHR 0x22] @ ?lit @ [CHR 0x22] @ '' : true}'') @ '','')
      [D_int (- 7), D_obj [(?k, D_bool True)]]"
    using o gs gap_nil by (intro i_cons v_int i_nil) (simp_all add: number_stops_def is_alnum_def)
  from v_arr [OF this] have v: "json_value ?enc (''[-7 {'' @ [CHR 0x22] @ ''a'' @ [CHR 0x5C] @ ''u00e9'' @ [CHR 0x22] @ '' : true},]'')
      (D_arr [D_int (- 7), D_obj [(?k, D_bool True)]])" by (simp add: i7)
  show ?thesis
    using nx_json_parse_reads [OF unicode_to_utf8_fits dec_strtol_ok dec_strtol_reads g v, of "'' z''" 5]
    by (simp add: number_stops_def)
qed

text \<open>
  C19.  Round trip of whole documents: the compact text of a document, printed with its
  strings escaped and its numbers in decimal, is parsed back into a tree that shows the same
  document.
\<close>

theorem nx_json_parse_render:
  assumes "encoder_fits enc" "strtol_ok strtol" "strtol_reads strtol" "doc_ok d" "dsize d \<le> mem"
  shows "\<exists>st t. nx_json_parse enc strtol mem (render d @ [NUL]) = Inr (Some 1, st)
    \<and> tree_at st (J_at 1) t \<and> doc_of (buf st) t = d"
  using nx_json_parse_text [OF assms(1-3) gap_nil render_json [OF assms(4)], of "[]" mem "[]"]
    render_no_NUL [OF assms(4)] assms(5) by auto

theorem nx_json_parse_render_witness:
  "\<exists>st t. nx_json_parse None dec_strtol 4
       (render (D_obj [(''k'', D_arr [D_str [CHR 0x22], D_int 42])]) @ [NUL]) = Inr (Some 1, st)
     \<and> tree_at st (J_at 1) t \<and> doc_of (buf st) t = D_obj [(''k'', D_arr [D_str [CHR 0x22], D_int 42])]"
  by (rule nx_json_parse_render [OF _ dec_strtol_ok dec_strtol_reads]) (simp_all add: encoder_fits_def)

end
