(* ===== verification/ConfText.thy ===== *)
theory ConfText
  imports NtrackConf NxJsonText
begin

text \<open>
  The configuration at the level of JSON documents: the rules a document asks for, computed
  from the document itself, and the proof that \<open>ntrack_conf_sync\<close> on any text of the document
  installs exactly these rules.  Together with the text the daemon sends this closes the path
  from a list of rules in user space to the rule table of the kernel.
\<close>

subsection \<open>The rules of a document\<close>

definition member :: "string \<Rightarrow> jdoc \<Rightarrow> jdoc" where
  "member key d = (case d of
      D_obj kds \<Rightarrow> (case find (\<lambda>kd. fst kd = key) kds of None \<Rightarrow> D_null | Some kd \<Rightarrow> snd kd)
    | _ \<Rightarrow> D_null)"

definition up_to_null :: "jdoc list \<Rightarrow> jdoc list" where
  "up_to_null ds = takeWhile (\<lambda>d. d \<noteq> D_null) ds"

definition set_of_doc :: "conf_env \<Rightarrow> jdoc \<Rightarrow> u16 option" where
  "set_of_doc env d = (case d of
      D_str s \<Rightarrow> let idx = env_ip_set_get_byname env s in if idx = IPSET_INVALID_ID then None else Some idx
    | _ \<Rightarrow> None)"

definition sets_of_doc :: "conf_env \<Rightarrow> jdoc \<Rightarrow> u16 list" where
  "sets_of_doc env d = (case member ''IPSets'' d of
      D_arr ss \<Rightarrow> List.map_filter (set_of_doc env) (up_to_null ss) | _ \<Rightarrow> [])"

definition rule_of_doc :: "conf_env \<Rightarrow> u32 \<Rightarrow> jdoc \<Rightarrow> auth_rule_t" where
  "rule_of_doc env jiffies d = (let ids = sets_of_doc env d in
     \<lparr>rule_num_idx = length ids,
      rule_flags = (case member ''Flags'' d of D_int i \<Rightarrow> of_int i | _ \<Rightarrow> 0),
      rule_magic = jiffies,
      rule_uset_idx = ids @ replicate (MAX_USR_SET - length ids) 0,
      rule_name = pad RULE_NAME_SIZE (case member ''Name'' d of D_str s \<Rightarrow> s | _ \<Rightarrow> [])\<rparr>)"

definition rules_of :: "conf_env \<Rightarrow> u32 \<Rightarrow> jdoc list \<Rightarrow> auth_rule_t list" where
  "rules_of env jiffies ds = [rule_of_doc env jiffies d. d \<leftarrow> up_to_null ds, sets_of_doc env d \<noteq> []]"

definition refs_of :: "conf_env \<Rightarrow> jdoc list \<Rightarrow> u16 list" where
  "refs_of env ds = concat (map (sets_of_doc env) (up_to_null ds))"

definition rules_fit :: "conf_env \<Rightarrow> jdoc list \<Rightarrow> bool" where
  "rules_fit env ds \<longleftrightarrow> (\<forall>d \<in> set (up_to_null ds). length (sets_of_doc env d) \<le> MAX_USR_SET)
     \<and> length (filter (\<lambda>d. sets_of_doc env d \<noteq> []) (up_to_null ds)) \<le> MAX_URL_RULES"

subsection \<open>The tree of a document\<close>

lemma doc_of_type:
  "doc_of b t = D_null \<longleftrightarrow> jt_type t = NX_JSON_NULL"
  "(\<exists>i. doc_of b t = D_int i) \<longleftrightarrow> jt_type t = NX_JSON_INTEGER"
  "(\<exists>s. doc_of b t = D_str s) \<longleftrightarrow> jt_type t = NX_JSON_STRING"
  "(\<exists>ds. doc_of b t = D_arr ds) \<longleftrightarrow> jt_type t = NX_JSON_ARRAY"
  "(\<exists>kds. doc_of b t = D_obj kds) \<longleftrightarrow> jt_type t = NX_JSON_OBJECT"
  by (cases t; simp split: nx_json_type.split)+

lemma doc_of_field:
  "doc_of b t = D_int i \<Longrightarrow> jt_int t = i"
  "doc_of b t = D_str s \<Longrightarrow> cstr_of b (jt_text t) = s"
  "doc_of b t = D_arr ds \<Longrightarrow> map (doc_of b) (kids t) = ds"
  "doc_of b t = D_obj kds \<Longrightarrow> map (\<lambda>t. (cstr_of b (jt_key t), doc_of b t)) (kids t) = kds"
  by (cases t; simp split: nx_json_type.splits)+

lemma live_items_doc: "map (doc_of b) (live_items ts) = up_to_null (map (doc_of b) ts)"
  by (simp add: live_items_def up_to_null_def takeWhile_map comp_def doc_of_type)

lemma has_key_doc: "key \<noteq> [] \<Longrightarrow> has_key b key t \<longleftrightarrow> cstr_of b (jt_key t) = key"
  by (cases "jt_key t") (auto simp: has_key_def cstr_of_def)

lemma find_map: "find P (map f xs) = map_option f (find (P \<circ> f) xs)"
  by (induction xs) auto

lemma kid_named_doc:
  assumes "key \<noteq> []" "jt_type t = NX_JSON_OBJECT"
  shows "doc_of b (kid_named b key t) = member key (doc_of b t)"
proof -
  obtain kds where k: "doc_of b t = D_obj kds" using assms(2) doc_of_type(5) by blast
  have "has_key b key = (\<lambda>t. cstr_of b (jt_key t) = key)" using has_key_doc [OF assms(1)] by blast
  then show ?thesis
    using doc_of_field(4) [OF k] k
    by (auto simp: kid_named_def member_def find_map comp_def split: option.split)
qed

lemma set_id_doc:
  assumes "doc_tree b t"
  shows "set_id env b t = set_of_doc env (doc_of b t)"
proof (cases "jt_type t = NX_JSON_STRING")
  case True
  then obtain k where "jt_text t = Some k" using assms by (cases t) auto
  then show ?thesis using True by (cases t) (simp add: set_id_def set_of_doc_def cstr_of_def)
next
  case False
  then show ?thesis by (cases t) (auto simp: set_id_def set_of_doc_def split: nx_json_type.split)
qed

lemma doc_tree_named: "doc_tree b t \<Longrightarrow> doc_tree b (kid_named b key t)"
proof -
  assume d: "doc_tree b t"
  show ?thesis
  proof (cases "find (has_key b key) (kids t)")
    case None
    then show ?thesis by (simp add: kid_named_def terminated_def)
  next
    case (Some c)
    then have "c \<in> set (kids t)" by (auto simp: find_Some_iff)
    then show ?thesis using doc_tree_kids [OF d] Some by (simp add: kid_named_def)
  qed
qed

lemma map_filter_doc:
  "\<forall>t \<in> set ts. f t = g (h t) \<Longrightarrow> List.map_filter f ts = List.map_filter g (map h ts)"
  by (induction ts) (auto simp: List.map_filter_def)

lemma item_ids_doc:
  assumes "doc_tree b t"
  shows "item_ids env b t = sets_of_doc env (doc_of b t)"
proof (cases "jt_type t = NX_JSON_OBJECT")
  case False
  then have "member ''IPSets'' (doc_of b t) = D_null"
    using doc_of_type(5) [of b t] by (auto simp: member_def split: jdoc.split)
  then show ?thesis using False by (simp add: item_ids_def sets_of_doc_def)
next
  case True
  let ?c = "kid_named b ''IPSets'' t"
  have m: "member ''IPSets'' (doc_of b t) = doc_of b ?c" using kid_named_doc [of "''IPSets''" t b] True by simp
  show ?thesis
  proof (cases "jt_type ?c = NX_JSON_ARRAY")
    case False
    then have "\<nexists>ds. doc_of b ?c = D_arr ds" using doc_of_type(4) [of b ?c] by blast
    then show ?thesis using False m by (auto simp: item_ids_def sets_of_doc_def split: jdoc.split)
  next
    case arr: True
    then obtain ds where ds: "doc_of b ?c = D_arr ds" using doc_of_type(4) by blast
    have "\<forall>u \<in> set (live_items (kids ?c)). set_id env b u = set_of_doc env (doc_of b u)"
      using doc_tree_kids [OF doc_tree_named [OF assms]] set_id_doc by (auto simp: live_items_def dest: set_takeWhileD)
    then have "List.map_filter (set_id env b) (live_items (kids ?c))
        = List.map_filter (set_of_doc env) (map (doc_of b) (live_items (kids ?c)))"
      by (rule map_filter_doc)
    then show ?thesis
      using True arr m ds doc_of_field(3) [OF ds] by (simp add: item_ids_def sets_of_doc_def live_items_doc)
  qed
qed

lemma item_rule_doc:
  assumes "doc_tree b t" "jt_type t = NX_JSON_OBJECT"
  shows "item_rule env jf b t = rule_of_doc env jf (doc_of b t)"
proof -
  let ?f = "kid_named b ''Flags'' t" and ?n = "kid_named b ''Name'' t"
  have f: "member ''Flags'' (doc_of b t) = doc_of b ?f" and n: "member ''Name'' (doc_of b t) = doc_of b ?n"
    using kid_named_doc [of _ t b] assms(2) by simp_all
  have "item_flags b t = (case doc_of b ?f of D_int i \<Rightarrow> of_int i | _ \<Rightarrow> 0)"
    using doc_of_type(2) [of b ?f] doc_of_field(1) [of b ?f]
    by (auto simp: item_flags_def Let_def split: jdoc.split)
  moreover have "item_name b t = pad RULE_NAME_SIZE (case doc_of b ?n of D_str s \<Rightarrow> s | _ \<Rightarrow> [])"
  proof (cases "jt_type ?n = NX_JSON_STRING")
    case True
    then obtain k where "jt_text ?n = Some k" using doc_tree_named [OF assms(1), of "''Name''"] by (cases ?n) auto
    moreover obtain s where s: "doc_of b ?n = D_str s" using True doc_of_type(3) by blast
    ultimately show ?thesis using True doc_of_field(2) [OF s] by (simp add: item_name_def cstr_of_def)
  next
    case False
    then have "\<nexists>s. doc_of b ?n = D_str s" using doc_of_type(3) [of b ?n] by blast
    then show ?thesis using False by (auto simp: item_name_def Let_def split: jdoc.split nx_json_type.split)
  qed
  ultimately show ?thesis using item_ids_doc [OF assms(1)] f n by (simp add: item_rule_def rule_of_doc_def Let_def)
qed

lemma rules_of_list:
  assumes "\<forall>t \<in> set ts. doc_tree b t"
  shows "[item_rule env jf b t. t \<leftarrow> ts, item_ids env b t \<noteq> []]
      = [rule_of_doc env jf d. d \<leftarrow> map (doc_of b) ts, sets_of_doc env d \<noteq> []]"
  using assms
proof (induction ts)
  case (Cons t ts)
  have "item_rule env jf b t = rule_of_doc env jf (doc_of b t)" if "item_ids env b t \<noteq> []"
  proof (rule item_rule_doc)
    show "jt_type t = NX_JSON_OBJECT" using that by (auto simp: item_ids_def split: if_splits)
  qed (use Cons.prems in simp)
  then show ?case using Cons item_ids_doc [of b t env] by simp
qed simp

lemma doc_rules_doc:
  assumes "doc_tree b t"
  shows "doc_rules env jf b (kids t) = rules_of env jf (map (doc_of b) (kids t))"
    "doc_refs env b (kids t) = refs_of env (map (doc_of b) (kids t))"
    "doc_fits env b (kids t) = rules_fit env (map (doc_of b) (kids t))"
proof -
  have d: "\<forall>u \<in> set (live_items (kids t)). doc_tree b u"
    using doc_tree_kids [OF assms] by (auto simp: live_items_def dest: set_takeWhileD)
  then have ids: "\<forall>u \<in> set (live_items (kids t)). item_ids env b u = sets_of_doc env (doc_of b u)"
    using item_ids_doc by blast
  show "doc_rules env jf b (kids t) = rules_of env jf (map (doc_of b) (kids t))"
    using rules_of_list [OF d, of env jf] by (simp add: doc_rules_def rules_of_def live_items_doc)
  show "doc_refs env b (kids t) = refs_of env (map (doc_of b) (kids t))"
    using ids by (simp add: doc_refs_def refs_of_def live_items_doc [symmetric] comp_def cong: map_cong)
  show "doc_fits env b (kids t) = rules_fit env (map (doc_of b) (kids t))"
    using ids by (simp add: doc_fits_def rules_fit_def live_items_doc [symmetric] filter_map comp_def cong: filter_cong)
qed

subsection \<open>Texts of a configuration\<close>

text \<open>What is known of the kernel's \<open>simple_strtol\<close>.\<close>

definition strtol_fine :: "conf_env \<Rightarrow> bool" where
  "strtol_fine env \<longleftrightarrow> strtol_ok (env_strtol env) \<and> strtol_reads (env_strtol env)"

definition with_rules :: "conf_env \<Rightarrow> u32 \<Rightarrow> jdoc list \<Rightarrow> conf_state \<Rightarrow> conf_state" where
  "with_rules env jiffies ds cs =
     cs\<lparr>G_AuthConf := Some (conf_of (rules_of env jiffies ds)),
        vm_blocks := (if G_AuthConf cs = None then vm_blocks cs + 1 else vm_blocks cs),
        set_refs := set_refs cs @ refs_of env ds\<rparr>"

lemma ntrack_conf_sync_reads:
  assumes "strtol_fine env" "gap g" "json_value (Some unicode_to_utf8) xs d" "number_stops d rest"
    "NUL \<notin> set (g @ xs @ rest)" "dsize d \<le> mem"
  shows "\<exists>h. ntrack_conf_sync env jiffies True mem (g @ xs @ rest @ [NUL]) cs =
    (case d of
       D_arr ds \<Rightarrow> if rules_fit env ds then Inr (0, with_rules env jiffies ds cs, \<lambda>_. None) else Inl Out_of_bounds
     | _ \<Rightarrow> Inr (- EINVAL, cs\<lparr>vm_blocks := vm_blocks cs + 1\<rparr>, h))"
proof -
  obtain st t where t: "nx_json_parse_utf8 (env_strtol env) mem (g @ xs @ rest @ [NUL]) = Inr (Some 1, st)"
    "tree_at st (J_at 1) t" "whole_tree st 1 t" "doc_of (buf st) t = d"
    using nx_json_parse_text [OF unicode_to_utf8_fits _ _ assms(2-6), of "env_strtol env" "[]"] assms(1)
    by (auto simp: nx_json_parse_utf8_def strtol_fine_def)
  note sync = ntrack_conf_sync_tree [OF t(1-3), of jiffies cs]
  show ?thesis
  proof (cases "jt_type t = NX_JSON_ARRAY")
    case False
    then have "\<nexists>ds. d = D_arr ds" using doc_of_type(4) [of "buf st" t] t(4) by blast
    then show ?thesis using sync False by (auto split: jdoc.split)
  next
    case True
    then obtain ds where ds: "d = D_arr ds" using doc_of_type(4) [of "buf st" t] t(4) by blast
    have "doc_tree (buf st) t" using t(2) by (simp add: tree_at_def)
    note doc = doc_rules_doc [OF this, of env]
    show ?thesis
      using sync True doc_of_field(3) [of "buf st" t ds] t(4) ds doc by (auto simp: installed_def with_rules_def)
  qed
qed

text \<open>
  C12.  \<open>ntrack_conf_sync\<close> at the level of documents.  Whatever text of a JSON array the module
  receives - any blanks, comments, escapes and order of the members - it installs exactly the
  rules of the array's elements and takes exactly their references to IP sets; a document
  that is not an array is refused with \<open>-EINVAL\<close> and leaves the rules as they are; an array
  that asks for more than 64 rules, or for more than 4 known sets in one, is written outside
  the tables.
\<close>

theorem ntrack_conf_sync_text:
  assumes "strtol_ok (env_strtol env)" "strtol_reads (env_strtol env)"
    and "gap g" "json_value (Some unicode_to_utf8) xs d" "number_stops d rest"
      "NUL \<notin> set (g @ xs @ rest)" "dsize d \<le> mem"
  shows "\<exists>h. ntrack_conf_sync env jiffies True mem (g @ xs @ rest @ [NUL]) cs =
    (case d of
       D_arr ds \<Rightarrow>
         if rules_fit env ds then
           Inr (0, cs\<lparr>G_AuthConf := Some (conf_of (rules_of env jiffies ds)),
               vm_blocks := (if G_AuthConf cs = None then vm_blocks cs + 1 else vm_blocks cs),
               set_refs := set_refs cs @ refs_of env ds\<rparr>, \<lambda>_. None)
         else Inl Out_of_bounds
     | _ \<Rightarrow> Inr (- EINVAL, cs\<lparr>vm_blocks := vm_blocks cs + 1\<rparr>, h))"
proof -
  have "strtol_fine env" using assms(1,2) by (simp add: strtol_fine_def)
  from ntrack_conf_sync_reads [OF this assms(3-7), of jiffies cs] show ?thesis unfolding with_rules_def .
qed

text \<open>A kernel with three IP sets.\<close>

definition three_sets :: "string \<Rightarrow> u16" where
  "three_sets s = (if s = ''WebAuth'' then 1 else if s = ''Default'' then 2 else if s = ''AutoAuth'' then 3 else 0xffff)"

definition kernel_env :: conf_env where
  "kernel_env = demo_env\<lparr>env_strtol := dec_strtol, env_ip_set_get_byname := three_sets\<rparr>"

lemma kernel_env_fine: "strtol_fine kernel_env"
  by (simp add: strtol_fine_def kernel_env_def dec_strtol_ok dec_strtol_reads)

theorem ntrack_conf_sync_text_witness:
  "ntrack_conf_sync kernel_env 5 True 9 (''// x'' @ [CHR 0x0A] @ render (D_arr [D_obj [(''IPSets'', D_arr [D_str ''AutoAuth'', D_str ''no''])]])
      @ ''junk'' @ [NUL]) demo_cs
   = Inr (0, demo_cs\<lparr>G_AuthConf := Some (conf_of [\<lparr>rule_num_idx = 1, rule_flags = 0, rule_magic = 5,
        rule_uset_idx = [3, 0, 0, 0], rule_name = pad RULE_NAME_SIZE []\<rparr>]), vm_blocks := 1, set_refs := [3]\<rparr>, \<lambda>_. None)"
proof -
  let ?ds = "[D_obj [(''IPSets'', D_arr [D_str ''AutoAuth'', D_str ''no''])]]"
  have ids: "sets_of_doc kernel_env (hd ?ds) = [3]"
    by (simp add: sets_of_doc_def member_def up_to_null_def set_of_doc_def kernel_env_def three_sets_def List.map_filter_def Let_def)
  have f: "rules_fit kernel_env ?ds" "refs_of kernel_env ?ds = [3]"
    "rules_of kernel_env 5 ?ds = [\<lparr>rule_num_idx = 1, rule_flags = 0, rule_magic = 5,
        rule_uset_idx = [3, 0, 0, 0], rule_name = pad RULE_NAME_SIZE []\<rparr>]"
    using ids by (simp_all add: rules_fit_def refs_of_def rules_of_def up_to_null_def rule_of_doc_def member_def numeral_eq_Suc)
  have g: "gap (''// x'' @ [CHR 0x0A])" using gap_line [OF _ gap_nil, of "'' x''"] by simp
  have ok: "doc_ok (D_arr ?ds)" by simp
  have s: "strtol_ok (env_strtol kernel_env)" "strtol_reads (env_strtol kernel_env)"
    using kernel_env_fine by (simp_all add: strtol_fine_def)
  from ntrack_conf_sync_text [OF s g render_json [OF ok], of "''junk''" 9 5 demo_cs] f render_no_NUL [OF ok]
  show ?thesis by (simp add: demo_cs_def number_stops_def)
qed

subsection \<open>A list of rules as a document\<close>

text \<open>A rule as its author writes it: name, flags and the names of its sets.\<close>

type_synonym rule_spec = "string \<times> int \<times> string list"

definition rule_doc :: "rule_spec \<Rightarrow> jdoc" where
  "rule_doc = (\<lambda>(name, flags, sets). D_obj [(''Name'', D_str name), (''Flags'', D_int flags), (''IPSets'', D_arr (map D_str sets))])"

definition conf_doc :: "rule_spec list \<Rightarrow> jdoc" where
  "conf_doc rs = D_arr (map rule_doc rs)"

definition spec_rule :: "conf_env \<Rightarrow> u32 \<Rightarrow> rule_spec \<Rightarrow> auth_rule_t" where
  "spec_rule env jiffies = (\<lambda>(name, flags, sets).
     \<lparr>rule_num_idx = length sets, rule_flags = of_int flags, rule_magic = jiffies,
      rule_uset_idx = map (env_ip_set_get_byname env) sets @ replicate (MAX_USR_SET - length sets) 0,
      rule_name = pad RULE_NAME_SIZE name\<rparr>)"

text \<open>One to four sets, all of which exist; no terminators; flags of an \<open>int\<close>.\<close>

definition spec_ok :: "conf_env \<Rightarrow> rule_spec \<Rightarrow> bool" where
  "spec_ok env = (\<lambda>(name, flags, sets). NUL \<notin> set name \<and> - (2 ^ 31) \<le> flags \<and> flags < 2 ^ 31 \<and> sets \<noteq> []
     \<and> length sets \<le> MAX_USR_SET \<and> (\<forall>s \<in> set sets. NUL \<notin> set s \<and> env_ip_set_get_byname env s \<noteq> IPSET_INVALID_ID))"

lemma up_to_null_id: "D_null \<notin> set ds \<Longrightarrow> up_to_null ds = ds"
  by (auto simp: up_to_null_def takeWhile_eq_all_conv)

lemma rule_doc_sets: "spec_ok env r \<Longrightarrow> sets_of_doc env (rule_doc r) = map (env_ip_set_get_byname env) (snd (snd r))"
proof -
  assume r: "spec_ok env r"
  obtain name flags sets where n: "r = (name, flags, sets)" by (cases r)
  have "List.map_filter (set_of_doc env) (map D_str ss) = map (env_ip_set_get_byname env) ss"
    if "\<forall>s \<in> set ss. env_ip_set_get_byname env s \<noteq> IPSET_INVALID_ID" for ss
    using that by (induction ss) (simp_all add: List.map_filter_def set_of_doc_def Let_def)
  moreover have "up_to_null (map D_str sets) = map D_str sets" by (rule up_to_null_id) auto
  ultimately show ?thesis using r n by (simp add: spec_ok_def rule_doc_def sets_of_doc_def member_def)
qed

lemma rule_doc_rule: "spec_ok env r \<Longrightarrow> rule_of_doc env jf (rule_doc r) = spec_rule env jf r"
  using rule_doc_sets [of env r]
  by (cases r) (simp add: rule_of_doc_def spec_rule_def rule_doc_def member_def Let_def)

lemma conf_doc_rules:
  assumes "\<forall>r \<in> set rs. spec_ok env r"
  shows "rules_of env jf (map rule_doc rs) = map (spec_rule env jf) rs"
    "length rs \<le> MAX_URL_RULES \<Longrightarrow> rules_fit env (map rule_doc rs)" "doc_ok (conf_doc rs)"
proof -
  have u: "up_to_null (map rule_doc rs) = map rule_doc rs"
    by (rule up_to_null_id) (auto simp: rule_doc_def split: prod.splits)
  have n: "sets_of_doc env (rule_doc r) \<noteq> []" "length (sets_of_doc env (rule_doc r)) \<le> MAX_USR_SET"
    if "r \<in> set rs" for r
    using rule_doc_sets [of env r] assms that by (auto simp: spec_ok_def)
  have "[rule_of_doc env jf d. d \<leftarrow> map rule_doc xs, sets_of_doc env d \<noteq> []] = map (spec_rule env jf) xs"
    if "set xs \<subseteq> set rs" for xs
    using that n(1) rule_doc_rule assms by (induction xs) auto
  then show "rules_of env jf (map rule_doc rs) = map (spec_rule env jf) rs" by (simp add: rules_of_def u)
  show "rules_fit env (map rule_doc rs)" if "length rs \<le> MAX_URL_RULES"
    unfolding rules_fit_def u
  proof
    show "\<forall>d \<in> set (map rule_doc rs). length (sets_of_doc env d) \<le> MAX_USR_SET" using n(2) by auto
    show "length (filter (\<lambda>d. sets_of_doc env d \<noteq> []) (map rule_doc rs)) \<le> MAX_URL_RULES"
      using that by (intro order_trans [OF length_filter_le]) simp
  qed
  show "doc_ok (conf_doc rs)" using assms by (force simp: conf_doc_def rule_doc_def spec_ok_def)
qed

end
