(* ===== verification/Daemon.thy ===== *)
theory Daemon
  imports NtMessage NtrackHooks ConfText
begin

text \<open>
  The two user-space programs: \<open>ntrackd\<close> (\<open>apps/ntrackd/src/main.c\<close>), which sends the rule
  configuration to the kernel and listens to its messages, and \<open>nquery\<close>
  (\<open>apps/nquery/src/main.c\<close>), which lists the nodes and sets the status of a user.  What is
  printed is a list of the nodes and messages that the code prints; the layout of the lines is
  not modelled.
\<close>

subsection \<open>Sending the configuration\<close>

text \<open>\<open>struct nlmsghdr\<close> in memory: length, type, flags, sequence number, sender.\<close>

definition nlmsghdr_bytes :: "endian \<Rightarrow> u32 \<Rightarrow> u32 \<Rightarrow> bytes" where
  "nlmsghdr_bytes en len pid = enc32 en len @ enc16 en 0 @ enc16 en 0 @ enc32 en 0 @ enc32 en pid"

abbreviation (input) M2K_DATA_SIZE :: nat where "M2K_DATA_SIZE \<equiv> 4096"

text \<open>
  \<open>xmit\<close>: \<open>ret\<close> is what \<open>sendto\<close> returns.  The result is the return value and the bytes that
  are handed to \<open>sendto\<close>, if it is reached.  \<open>data\<close> is the text without its terminator.
\<close>

definition xmit :: "endian \<Rightarrow> int \<Rightarrow> u32 \<Rightarrow> int \<Rightarrow> string option \<Rightarrow> (int \<times> bytes option) result" where
  "xmit en nl_sock pid ret data =
     (if nl_sock < 0 then Inr (- 1, None)
      else case data of
          None \<Rightarrow> Inr (- 1, None)
        | Some s \<Rightarrow>
            let nlmsg_len = NLMSG_HDRLEN + length s;
                message = replicate (NLMSG_HDRLEN + M2K_DATA_SIZE) 0
            in bindR (mem_write 0 (nlmsghdr_bytes en (of_nat nlmsg_len) pid) message) (\<lambda>m1.
               bindR (mem_write NLMSG_HDRLEN (bytes_of s) m1) (\<lambda>m2.
               bindR (mem_read 0 nlmsg_len m2) (\<lambda>sent.
                 if ret = 0 then Inr (- 1, Some sent) else Inr (0, Some sent)))))"

subsection \<open>Dispatching messages\<close>

datatype disp = Show_user nat | User_not_found u32 u32 | Unknown_message u16

definition fn_message_disp :: "endian \<Rightarrow> nat \<Rightarrow> ntrack_t \<Rightarrow> bytes \<Rightarrow> disp list \<Rightarrow> disp list result" where
  "fn_message_disp en user_max nt p out =
     bindR (field16 en 0 p) (\<lambda>type'.
     if type' = 1 then Inr out
     else if type' = 2 then Inr out
     else if type' = 3 then
       let auth = nmsg_data p in
       bindR (field32 en 0 auth) (\<lambda>magic.
       bindR (field32 en 4 auth) (\<lambda>uid.
       bindR (nt_get_user_by_id user_max nt uid magic) (\<lambda>ui. case ui of
           Some i \<Rightarrow> Inr (out @ [Show_user i])
         | None \<Rightarrow> Inr (out @ [User_not_found uid magic]))))
     else Inr (out @ [Unknown_message type']))"

text \<open>The built-in configuration; \<open>Q\<close> is a quotation mark and \<open>TAB\<close> a tabulator.\<close>

abbreviation (input) Q :: string where "Q \<equiv> [CHR 0x22]"
abbreviation (input) TAB :: string where "TAB \<equiv> [CHR 0x09]"

definition conf_str :: string where
  "conf_str = '' '' @ TAB @ ''[{''
     @ TAB @ TAB @ Q @ ''Name'' @ Q @ '': '' @ Q @ ''Web'' @ Q @ '', ''
     @ TAB @ TAB @ Q @ ''IPSets'' @ Q @ '': ['' @ Q @ ''WebAuth'' @ Q @ '', '' @ Q @ ''Default'' @ Q @ ''], ''
     @ TAB @ TAB @ Q @ ''Flags'' @ Q @ '': 1 ''
     @ TAB @ ''}, ''
     @ TAB @ ''{ ''
     @ TAB @ TAB @ Q @ ''Name'' @ Q @ '': '' @ Q @ ''Auto'' @ Q @ '', ''
     @ TAB @ TAB @ Q @ ''IPSets'' @ Q @ '': ['' @ Q @ ''AutoAuth'' @ Q @ ''], ''
     @ TAB @ TAB @ Q @ ''Flags'' @ Q @ '': 0 ''
     @ TAB @ ''}]''"

subsection \<open>The daemon's main function\<close>

abbreviation (input) CPU_SETSIZE :: nat where "CPU_SETSIZE \<equiv> 1024"

text \<open>
  \<open>CPU_SET\<close> ignores an index outside the mask.  A successful \<open>sched_setaffinity\<close> makes
  \<open>sched_getaffinity\<close> return the mask.
\<close>

definition CPU_SET :: "int \<Rightarrow> bool list" where
  "CPU_SET core = (if 0 \<le> core \<and> core < int CPU_SETSIZE then bound_to (nat core) CPU_SETSIZE else replicate CPU_SETSIZE False)"

record ntrackd_env =
  de_sys :: sys_env
  de_setaffinity :: bool
  de_socket :: int
  de_setsockopt :: int
  de_bind :: int
  de_pid :: u32
  de_sendto :: int

datatype 'a run = Exited int | Ran 'a

text \<open>\<open>nl_init\<close>, with what \<open>socket\<close>, \<open>setsockopt\<close> and \<open>bind\<close> return.\<close>

definition nl_init :: "int \<Rightarrow> int \<Rightarrow> int \<Rightarrow> int run" where
  "nl_init sock setsockopt_ret bind_ret =
     (if sock < 0 then Exited (- 1)
      else if setsockopt_ret < 0 then Exited (- 1)
      else if bind_ret \<noteq> 0 then Exited (- 1) else Ran sock)"

text \<open>
  \<open>main\<close>: the arguments are those of the process with its name first, \<open>n\<close> is the number of
  rounds of the message loop.  The result has the bytes sent and what was printed.
\<close>

definition ntrackd_main ::
  "endian \<Rightarrow> nat \<Rightarrow> ntrackd_env \<Rightarrow> string list \<Rightarrow> nat \<Rightarrow> nt_lib \<Rightarrow> shm_area \<Rightarrow> (bytes list \<times> disp list \<times> shm_area) run result" where
  "ntrackd_main en user_max env argv n lib area =
     (if length argv < 2 then Inr (Exited 0)
      else bindR (atoi (argv ! 1 @ [CHR 0x00])) (\<lambda>core.
        if \<not> de_setaffinity env then Inr (Exited 1)
        else bindR (nt_message_init ((de_sys env)\<lparr>sys_affinity := Some (CPU_SET core)\<rparr>) lib area
            \<lparr>nt_flows = [], nt_users = []\<rparr>) (\<lambda>(res, lib1, area1, nt).
          if res \<noteq> 0 then Inr (Ran ([], [], area1))
          else case nl_init (de_socket env) (de_setsockopt env) (de_bind env) of
              Exited c \<Rightarrow> Inr (Exited c)
            | Ran nl_sock \<Rightarrow>
                bindR (xmit en nl_sock (de_pid env) (de_sendto env) (Some conf_str)) (\<lambda>(_, sent).
                bindR (nt_message_process n (Some (fn_message_disp en user_max nt)) lib1 area1 []) (\<lambda>(area2, out).
                  Inr (Ran (case sent of None \<Rightarrow> [] | Some b \<Rightarrow> [b], out, area2)))))))"

subsection \<open>The query tool\<close>

definition set_user_status :: "nat \<Rightarrow> u32 \<Rightarrow> u32 \<Rightarrow> u32 \<Rightarrow> ntrack_t \<Rightarrow> (int \<times> ntrack_t) result" where
  "set_user_status user_max uid magic status nt =
     bindR (nt_get_user_by_id user_max nt uid magic) (\<lambda>ui. case ui of
        None \<Rightarrow> Inr (- EINVAL, nt)
      | Some i \<Rightarrow> Inr (0, nt\<lparr>nt_users := (nt_users nt)[i := snd (nt_auth_set_status (nt_users nt ! i) status)]\<rparr>))"

text \<open>The flows that are listed, each with its user.  A flow is looked up by its own identifier.\<close>

fun dump_flow_loop :: "nat \<Rightarrow> nat \<Rightarrow> ntrack_t \<Rightarrow> flow_info_t list \<Rightarrow> (nat \<times> nat) list result" where
  "dump_flow_loop flow_max user_max nt [] = Inr []"
| "dump_flow_loop flow_max user_max nt (fi # fis) =
     (if \<not> magic_valid (fi_magic fi) then dump_flow_loop flow_max user_max nt fis
      else bindR (nt_get_flow_by_id flow_max nt (fi_id fi) (fi_magic fi)) (\<lambda>f. case f of
          None \<Rightarrow> dump_flow_loop flow_max user_max nt fis
        | Some j \<Rightarrow> bindR (nt_get_user_by_flow user_max nt (nt_flows nt ! j)) (\<lambda>u.
            bindR (dump_flow_loop flow_max user_max nt fis) (\<lambda>rest. Inr ((j, u) # rest)))))"

definition dump_flowinfo :: "nat \<Rightarrow> nat \<Rightarrow> ntrack_t \<Rightarrow> (nat \<times> nat) list result" where
  "dump_flowinfo flow_max user_max nt = dump_flow_loop flow_max user_max nt (nt_flows nt)"

definition dump_userinfo :: "ntrack_t \<Rightarrow> nat list" where
  "dump_userinfo nt = filter (\<lambda>i. magic_valid (ui_magic (nt_users nt ! i))) [0..<length (nt_users nt)]"

record query_out =
  q_flows :: "(nat \<times> nat) list"
  q_users :: "nat list"
  q_table :: ntrack_t

definition nquery_main ::
  "nat \<Rightarrow> nat \<Rightarrow> sys_env \<Rightarrow> string list \<Rightarrow> nt_lib \<Rightarrow> shm_area \<Rightarrow> query_out run result" where
  "nquery_main flow_max user_max sys argv lib area =
     (if length argv < 2 then Inr (Exited 0)
      else bindR (nt_message_init sys lib area \<lparr>nt_flows = [], nt_users = []\<rparr>) (\<lambda>(res, lib1, area1, nt).
        if res \<noteq> 0 then Inr (Ran \<lparr>q_flows = [], q_users = [], q_table = nt\<rparr>)
        else bindR (if argv ! 1 = ''flow'' then dump_flowinfo flow_max user_max nt else Inr []) (\<lambda>flows.
          let users = (if argv ! 1 = ''user'' then dump_userinfo nt else []) in
          if argv ! 1 = ''set'' then
            if length argv < 5 then Inr (Exited 0)
            else bindR (atoi (argv ! 2 @ [CHR 0x00])) (\<lambda>uid.
              bindR (atoi (argv ! 3 @ [CHR 0x00])) (\<lambda>magic.
              bindR (atoi (argv ! 4 @ [CHR 0x00])) (\<lambda>status.
              bindR (set_user_status user_max (of_int uid) (of_int magic) (of_int status) nt) (\<lambda>(_, nt').
                Inr (Ran \<lparr>q_flows = flows, q_users = users, q_table = nt'\<rparr>)))))
          else Inr (Ran \<lparr>q_flows = flows, q_users = users, q_table = nt\<rparr>))))"

subsection \<open>From the daemon to the rule table\<close>

lemma chars_of_bytes_of: "chars_of (bytes_of s) = s"
proof -
  have "char_of (unat (of_nat (of_char c) :: u8)) = c" for c :: char
    by (simp add: unat_of_nat take_bit_nat_eq_self)
  then show ?thesis by (simp add: chars_of_def bytes_of_def comp_def map_idI)
qed

lemma length_bytes_of [simp]: "length (bytes_of s) = length s"
  by (simp add: bytes_of_def)

lemma length_nlmsghdr [simp]: "length (nlmsghdr_bytes en n pid) = NLMSG_HDRLEN"
  by (simp add: nlmsghdr_bytes_def)

lemma xmit_sends:
  assumes "0 \<le> sock" "length s \<le> M2K_DATA_SIZE"
  shows "xmit en sock pid ret (Some s) = Inr (if ret = 0 then - 1 else 0,
    Some (nlmsghdr_bytes en (of_nat (NLMSG_HDRLEN + length s)) pid @ bytes_of s))"
  using assms by (simp add: xmit_def Let_def mem_write_def mem_read_def overlay_def window_def)

lemma nl_recv_of_xmit:
  assumes "length s \<le> M2K_DATA_SIZE"
  shows "nl_recv en env jiffies True vm mem (nlmsghdr_bytes en (of_nat (NLMSG_HDRLEN + length s)) pid @ bytes_of s) cs
    = bindR (ntrack_conf_sync env jiffies vm mem (s @ [NUL]) (cs\<lparr>user_process_pid := pid\<rparr>)) (\<lambda>(_, cs2, _). Inr cs2)"
proof -
  let ?n = "of_nat (NLMSG_HDRLEN + length s) :: u32" and ?skb = "nlmsghdr_bytes en (of_nat (NLMSG_HDRLEN + length s)) pid @ bytes_of s"
  have n: "unat ?n = NLMSG_HDRLEN + length s" using assms by (intro unat_of_nat32) simp
  have h: "dec32 en (window 0 4 ?skb) = ?n" "dec32 en (window 12 4 ?skb) = pid"
    by (simp_all add: nlmsghdr_bytes_def window_def)
  have "nl_text en ?skb = s @ [NUL]" unfolding nl_text_def h(1) n by (simp add: window_def chars_of_bytes_of)
  moreover have "NLMSG_OK (unat (dec32 en (window 0 4 ?skb))) (length ?skb)"
    by (simp add: h(1) n NLMSG_OK_def del: of_nat_add)
  ultimately show ?thesis
    using nl_recv_eq [of ?skb en env jiffies vm mem cs] unfolding h(2) by simp
qed

text \<open>
  The daemon and the kernel agree on the configuration message.  What \<open>xmit\<close> sends for a
  text of at most 4096 bytes is accepted by \<open>nl_recv\<close>, which hands exactly that text, with a
  terminator, to \<open>ntrack_conf_sync\<close> and records the sender; a longer text is written behind the
  message buffer.
\<close>

theorem xmit_reaches_conf_sync:
  assumes "0 \<le> sock" "ret \<noteq> 0"
  shows "if length s \<le> M2K_DATA_SIZE then
      \<exists>msg. xmit en sock pid ret (Some s) = Inr (0, Some msg)
        \<and> nl_recv en env jiffies True vm mem msg cs =
          bindR (ntrack_conf_sync env jiffies vm mem (s @ [NUL]) (cs\<lparr>user_process_pid := pid\<rparr>)) (\<lambda>(_, cs2, _). Inr cs2)
    else xmit en sock pid ret (Some s) = Inl Out_of_bounds"
proof (cases "length s \<le> M2K_DATA_SIZE")
  case True
  then show ?thesis using assms xmit_sends nl_recv_of_xmit by simp
next
  case False
  then show ?thesis using assms(1) by (simp add: xmit_def Let_def mem_write_def)
qed

definition rule_is :: "G_AUTHCONF_t \<Rightarrow> nat \<Rightarrow> string \<Rightarrow> u16 list \<Rightarrow> u32 \<Rightarrow> bool" where
  "rule_is conf i name sets flags \<longleftrightarrow> i < conf_num_rules conf \<and> take (length name) (rule_name (conf_rules conf ! i)) = name
     \<and> take (rule_num_idx (conf_rules conf ! i)) (rule_uset_idx (conf_rules conf ! i)) = sets
     \<and> rule_flags (conf_rules conf ! i) = flags"

lemma conf_str_sync:
  "case ntrack_conf_sync kernel_env 5 True 99 (conf_str @ [NUL]) demo_cs of
     Inl _ \<Rightarrow> False
   | Inr (r, cs, _) \<Rightarrow> r = 0 \<and> (case G_AuthConf cs of None \<Rightarrow> False | Some conf \<Rightarrow> conf_num_rules conf = 2
       \<and> rule_is conf 0 ''Web'' [1, 2] 1 \<and> rule_is conf 1 ''Auto'' [3] 0)"
  by code_simp

theorem xmit_reaches_conf_sync_witness:
  "\<exists>msg. xmit Little 3 77 1 (Some conf_str) = Inr (0, Some msg)
     \<and> nl_recv Little kernel_env 5 True True 99 msg demo_cs =
       bindR (ntrack_conf_sync kernel_env 5 True 99 (conf_str @ [NUL]) (demo_cs\<lparr>user_process_pid := 77\<rparr>)) (\<lambda>(_, cs2, _). Inr cs2)"
proof -
  have "length conf_str \<le> M2K_DATA_SIZE" by (simp add: conf_str_def)
  then show ?thesis
    using xmit_reaches_conf_sync [of 3 1 conf_str Little 77 kernel_env 5 True 99 demo_cs] by simp
qed

text \<open>
  The built-in configuration takes effect.  In a kernel in which the sets \<open>WebAuth\<close>,
  \<open>Default\<close> and \<open>AutoAuth\<close> exist, the message that the daemon sends at its start leaves exactly
  two rules behind: \<open>Web\<close> on the first two sets, which asks for a redirection, and \<open>Auto\<close> on
  the third, which does not.
\<close>

theorem conf_str_takes_effect:
  "\<exists>msg cs conf. xmit Little 3 0 1 (Some conf_str) = Inr (0, Some msg)
     \<and> nl_recv Little kernel_env 5 True True 99 msg demo_cs = Inr cs \<and> G_AuthConf cs = Some conf
     \<and> conf_num_rules conf = 2 \<and> rule_is conf 0 ''Web'' [1, 2] 1 \<and> rule_is conf 1 ''Auto'' [3] 0"
proof -
  have len: "length conf_str \<le> M2K_DATA_SIZE" by (simp add: conf_str_def)
  have pid: "demo_cs\<lparr>user_process_pid := 0\<rparr> = demo_cs" by (simp add: demo_cs_def)
  obtain cs h where cs: "ntrack_conf_sync kernel_env 5 True 99 (conf_str @ [NUL]) demo_cs = Inr (0, cs, h)"
    "case G_AuthConf cs of None \<Rightarrow> False | Some conf \<Rightarrow> conf_num_rules conf = 2
       \<and> rule_is conf 0 ''Web'' [1, 2] 1 \<and> rule_is conf 1 ''Auto'' [3] 0"
    using conf_str_sync by (auto split: sum.splits)
  then show ?thesis
    using xmit_sends [of 3 conf_str Little 0 1] nl_recv_of_xmit [OF len, of Little kernel_env 5 True 99 0 demo_cs] len pid
    by (auto split: option.splits)
qed

text \<open>
  C5.  A list of rules goes from user space into the kernel.  When the daemon sends the JSON
  text of up to 64 rules, each with one to four IP sets that exist, and the text fits the
  message, the module ends up with exactly these rules, in this order, under their names and
  with their flags and sets, and the references to the sets are added to those taken before.
\<close>

theorem conf_rules_take_effect:
  assumes "0 \<le> sock" "ret \<noteq> 0" "strtol_ok (env_strtol env)" "strtol_reads (env_strtol env)"
    and "\<forall>r \<in> set rs. spec_ok env r" "length rs \<le> MAX_URL_RULES"
    and "length (render (conf_doc rs)) \<le> M2K_DATA_SIZE" "dsize (conf_doc rs) \<le> mem"
  shows "\<exists>msg cs'. xmit en sock pid ret (Some (render (conf_doc rs))) = Inr (0, Some msg)
    \<and> nl_recv en env jiffies True True mem msg cs = Inr cs'
    \<and> G_AuthConf cs' = Some (conf_of (map (spec_rule env jiffies) rs))
    \<and> set_refs cs' = set_refs cs @ concat (map (\<lambda>(_, _, sets). map (env_ip_set_get_byname env) sets) rs)"
proof -
  let ?cs = "cs\<lparr>user_process_pid := pid\<rparr>" and ?ds = "map rule_doc rs"
  note doc = conf_doc_rules [OF assms(5)]
  have refs: "refs_of env ?ds = concat (map (\<lambda>(_, _, sets). map (env_ip_set_get_byname env) sets) rs)"
  proof -
    have "D_null \<notin> set ?ds" by (auto simp: rule_doc_def split: prod.splits)
    then have "refs_of env ?ds = concat (map (sets_of_doc env \<circ> rule_doc) rs)" by (simp add: refs_of_def up_to_null_id)
    moreover have "map (sets_of_doc env \<circ> rule_doc) rs = map (\<lambda>(_, _, sets). map (env_ip_set_get_byname env) sets) rs"
      using assms(5) rule_doc_sets by (auto split: prod.splits)
    ultimately show ?thesis by simp
  qed
  have fine: "strtol_fine env" using assms(3,4) by (simp add: strtol_fine_def)
  have "ntrack_conf_sync env jiffies True mem (render (conf_doc rs) @ [NUL]) ?cs = Inr (0, with_rules env jiffies ?ds ?cs, \<lambda>_. None)"
    using ntrack_conf_sync_reads [OF fine gap_nil render_json [OF doc(3)], of "[]" mem jiffies ?cs]
      render_no_NUL [OF doc(3)] assms(6,8) doc(2) by (simp add: conf_doc_def)
  then show ?thesis
    using xmit_sends [OF assms(1,7), of en pid ret] assms(2) nl_recv_of_xmit [OF assms(7), of en env jiffies True mem pid cs]
    by (simp add: with_rules_def doc(1) refs)
qed

theorem conf_rules_take_effect_witness:
  "\<exists>msg cs'. xmit Little 3 77 1 (Some (render (conf_doc [(''Web'', 1, [''WebAuth'', ''Default'']), (''Auto'', 0, [''AutoAuth''])]))) = Inr (0, Some msg)
    \<and> nl_recv Little kernel_env 5 True True 13 msg demo_cs = Inr cs'
    \<and> G_AuthConf cs' = Some (conf_of (map (spec_rule kernel_env 5) [(''Web'', 1, [''WebAuth'', ''Default'']), (''Auto'', 0, [''AutoAuth''])]))
    \<and> set_refs cs' = [1, 2, 3]"
proof -
  let ?rs = "[(''Web'', 1, [''WebAuth'', ''Default'']), (''Auto'', 0, [''AutoAuth''])]"
  have "length (render (conf_doc ?rs)) \<le> M2K_DATA_SIZE"
    by (simp add: conf_doc_def rule_doc_def int_text_def dec_str.simps)
  moreover have "\<forall>r \<in> set ?rs. spec_ok kernel_env r" by (simp add: spec_ok_def kernel_env_def three_sets_def)
  moreover have "dsize (conf_doc ?rs) \<le> 13" by (simp add: conf_doc_def rule_doc_def)
  moreover have "strtol_ok (env_strtol kernel_env)" "strtol_reads (env_strtol kernel_env)"
    using kernel_env_fine by (simp_all add: strtol_fine_def)
  ultimately show ?thesis
    using conf_rules_take_effect [of 3 1 kernel_env ?rs 13 Little 77 5 demo_cs]
    by (simp add: kernel_env_def three_sets_def demo_cs_def)
qed

subsection \<open>The query tool\<close>

lemma get_user_by_id_ok:
  "length (nt_users nt) = user_max \<Longrightarrow> unat uid < user_max \<Longrightarrow>
   nt_get_user_by_id user_max nt uid magic = Inr (if ui_magic (nt_users nt ! unat uid) = magic then Some (unat uid) else None)"
  by (simp add: nt_get_user_by_id_def)

text \<open>
  \<open>nquery set\<close>.  With three decimal arguments below \<open>2 ^ 31\<close>, an identifier inside the
  table and the memory attached, the tool gives the user of that identifier the status, and
  nothing else of the table changes, exactly when the magic number is still that of the user;
  otherwise the table is left alone.
\<close>

theorem nquery_set_status:
  fixes uid :: u32
  assumes "nt_message_init sys lib area \<lparr>nt_flows = [], nt_users = []\<rparr> = Inr (0, lib1, area1, nt)"
    and "length (nt_users nt) = user_max" "unat uid < user_max"
    and "unat uid < 2147483648" "unat magic < 2147483648" "unat status < 2147483648"
    and "argv = [name, ''set'', dec_str (unat uid), dec_str (unat magic), dec_str (unat status)]"
  shows "nquery_main flow_max user_max sys argv lib area = Inr (Ran \<lparr>q_flows = [], q_users = [], q_table =
      (if ui_magic (nt_users nt ! unat uid) = magic
       then nt\<lparr>nt_users := (nt_users nt)[unat uid := snd (nt_auth_set_status (nt_users nt ! unat uid) status)]\<rparr>
       else nt)\<rparr>)"
proof -
  have d: "\<not> is_digit (CHR 0x00)" by (simp add: is_digit_def)
  have "atoi (dec_str (unat x) @ [CHR 0x00]) = Inr (int (unat x))" for x :: u32 by (rule atoi_dec_str [OF d])
  moreover have "(of_int (int (unat x)) :: u32) = x" for x :: u32 by simp
  ultimately show ?thesis
    using assms by (simp add: nquery_main_def set_user_status_def get_user_by_id_ok Let_def del: of_int_of_nat_eq)
qed

lemma dump_flow_loop_ok:
  assumes "length (nt_flows nt) \<le> flow_max" "length (nt_users nt) = user_max"
    and "\<forall>i \<in> set is. i < length (nt_flows nt) \<and> (magic_valid (fi_magic (nt_flows nt ! i)) \<longrightarrow>
      unat (fi_id (nt_flows nt ! i)) = i \<and> unat (fi_user_id (nt_flows nt ! i)) < user_max)"
  shows "dump_flow_loop flow_max user_max nt (map ((!) (nt_flows nt)) is) =
    Inr (map (\<lambda>i. (i, unat (fi_user_id (nt_flows nt ! i)))) (filter (\<lambda>i. magic_valid (fi_magic (nt_flows nt ! i))) is))"
  using assms(3)
proof (induction "is")
  case Nil
  then show ?case by simp
next
  case (Cons i "is")
  then have "i < flow_max" using assms(1) by auto
  then show ?case
    using Cons assms(2) by (auto simp: nt_get_flow_by_id_def nt_get_user_by_flow_def)
qed

text \<open>
  \<open>nquery flow\<close> lists what it should.  When every flow in use carries its own index as
  identifier and the identifier of a user of the table, the tool lists exactly the flows in
  use, in the order of the table, each with its user, and no assertion fails.
\<close>

theorem dump_flowinfo_lists:
  assumes "length (nt_flows nt) \<le> flow_max" "length (nt_users nt) = user_max"
    and "\<And>i. i < length (nt_flows nt) \<Longrightarrow> magic_valid (fi_magic (nt_flows nt ! i)) \<Longrightarrow>
      unat (fi_id (nt_flows nt ! i)) = i \<and> unat (fi_user_id (nt_flows nt ! i)) < user_max"
  shows "dump_flowinfo flow_max user_max nt = Inr (map (\<lambda>i. (i, unat (fi_user_id (nt_flows nt ! i))))
      (filter (\<lambda>i. magic_valid (fi_magic (nt_flows nt ! i))) [0..<length (nt_flows nt)]))"
  using dump_flow_loop_ok [OF assms(1,2), of "[0..<length (nt_flows nt)]"] assms(3)
  by (simp add: dump_flowinfo_def map_nth)

definition demo_nt :: ntrack_t where
  "demo_nt = \<lparr>nt_flows = [\<lparr>fi_id = 0, fi_magic = 4, fi_user_id = 1\<rparr>, \<lparr>fi_id = 9, fi_magic = 3, fi_user_id = 9\<rparr>],
     nt_users = [demo_user, demo_user\<lparr>ui_id := 1, ui_magic := 6\<rparr>]\<rparr>"

theorem dump_flowinfo_lists_witness: "dump_flowinfo 2 2 demo_nt = Inr [(0, 1)]"
proof -
  have "dump_flowinfo 2 2 demo_nt = Inr (map (\<lambda>i. (i, unat (fi_user_id (nt_flows demo_nt ! i))))
      (filter (\<lambda>i. magic_valid (fi_magic (nt_flows demo_nt ! i))) [0..<length (nt_flows demo_nt)]))"
    by (rule dump_flowinfo_lists) (auto simp: demo_nt_def less_Suc_eq magic_valid_def numeral_2_eq_2 split: if_splits)
  also have "\<dots> = Inr [(0, 1)]" by (simp add: demo_nt_def magic_valid_def)
  finally show ?thesis .
qed

definition demo_shm :: shm_area where
  "demo_shm = \<lparr>area_blocks = [rbf_init ring3 6156, rbf_init ring3 6156], area_users = \<lambda>_. nt_users demo_nt,
     area_flows = \<lambda>_. []\<rparr>"

lemma demo_shm_init:
  "nt_message_init demo_sys demo_lib demo_shm \<lparr>nt_flows = [], nt_users = []\<rparr> =
    Inr (0, \<lparr>shm_base_addr = Shm_mapped, shm_user_offset = 4096, shm_flow_offset = 8192, nt_cap_block = 6156,
             nt_message_rbf = Some 1\<rparr>, demo_shm, \<lparr>nt_flows = [], nt_users = nt_users demo_nt\<rparr>)"
proof -
  have "attach_ring 1 (mapped_lib 6156 4096 8192 demo_lib) demo_shm
      = Inr ((mapped_lib 6156 4096 8192 demo_lib)\<lparr>nt_message_rbf := Some 1\<rparr>, demo_shm)"
    by (rule attach_ring_same [where blk = ring3]) (simp_all add: demo_shm_def mapped_lib_def)
  moreover have "shows_layout (sys_proc demo_sys) 6156 4096 8192" "sys_mem demo_sys" "sys_mmap demo_sys = Shm_mapped"
    "sys_affinity demo_sys = Some (bound_to 1 4)" by (simp_all add: demo_sys_def shows_layout_def)
  note nt_message_init_runs [OF this, of demo_lib demo_shm "\<lparr>nt_flows = [], nt_users = []\<rparr>"]
  moreover have "area_users demo_shm 4096 = nt_users demo_nt" "area_flows demo_shm 8192 = []" by (simp_all add: demo_shm_def)
  ultimately show ?thesis by (simp add: mapped_lib_def demo_lib_def)
qed

theorem nquery_set_status_witness:
  "\<exists>nt. nquery_main 2 2 demo_sys [''nquery'', ''set'', dec_str 1, dec_str 6, dec_str 3] demo_lib demo_shm
      = Inr (Ran \<lparr>q_flows = [], q_users = [], q_table = nt\<rparr>) \<and> nt_auth_status (nt_users nt ! 1) = 3"
proof -
  have n: "length (nt_users \<lparr>nt_flows = [], nt_users = nt_users demo_nt\<rparr>) = 2" "unat (1 :: u32) < 2"
    by (simp_all add: demo_nt_def)
  have v: "unat (1 :: u32) = 1" "unat (6 :: u32) = 6" "unat (3 :: u32) = 3" by simp_all
  have m: "ui_magic (nt_users demo_nt ! 1) = 6" "1 < length (nt_users demo_nt)" by (simp_all add: demo_nt_def)
  show ?thesis
    by (subst nquery_set_status [OF demo_shm_init n, of 6 3 _ "''nquery''"]) (simp_all add: v m del: One_nat_def)
qed

subsection \<open>The daemon as a whole\<close>

text \<open>
  What the daemon prints for a keep-alive message of the identity \<open>uid\<close>: the user, if the slot of the
  table still has the magic number of the message, and that there is no such user otherwise.
\<close>

definition shown_for :: "user_info_t list \<Rightarrow> u32 \<times> u32 \<Rightarrow> disp" where
  "shown_for users msg = (case msg of (magic, uid) \<Rightarrow>
     if ui_magic (users ! unat uid) = magic then Show_user (unat uid) else User_not_found uid magic)"

definition auth_frame :: "endian \<Rightarrow> u32 \<times> u32 \<Rightarrow> bytes" where
  "auth_frame en msg = nmsg_hdr_bytes en (nmsg_hdr_init 3 8) @ auth_msg_bytes en (fst msg) (snd msg)"

lemma fn_message_disp_frame:
  assumes "carries slot (auth_frame en (magic, uid))" "unat uid < user_max" "unat uid < length (nt_users nt)"
  shows "fn_message_disp en user_max nt slot out = Inr (out @ [shown_for (nt_users nt) (magic, uid)])"
proof -
  let ?h = "nmsg_hdr_bytes en (nmsg_hdr_init 3 8)" and ?b = "auth_msg_bytes en magic uid"
  have "carries slot (?h @ ?b)" using assms(1) by (simp add: auth_frame_def)
  then obtain rest where slot: "slot = ?h @ ?b @ rest"
    using append_take_drop_id [of "length (?h @ ?b)" slot] unfolding carries_def by (metis append_assoc)
  have t: "field16 en 0 slot = Inr 3"
    using field16_at [of 0 "[]" en 3] by (simp add: slot nmsg_hdr_bytes_def nmsg_hdr_init_def)
  have d: "nmsg_data slot = ?b @ rest" by (simp add: slot nmsg_data_def)
  have "field32 en 0 (?b @ rest) = Inr magic" "field32 en 4 (?b @ rest) = Inr uid"
    using auth_msg_roundtrip [of en magic uid]
    by (auto simp: field32_def bindR_eq_Inr mem_read_def window_def auth_msg_bytes_def)
  then show ?thesis
    using assms(2,3) t d by (simp add: fn_message_disp_def nt_get_user_by_id_def shown_for_def)
qed

lemma fn_message_disp_auth:
  assumes "carries slot (nmsg_hdr_bytes en (nmsg_hdr_init 3 8) @ auth_msg_bytes en magic uid)"
    and "unat uid < user_max" "unat uid < length (nt_users nt)" "ui_magic (nt_users nt ! unat uid) = magic"
  shows "fn_message_disp en user_max nt slot out = Inr (out @ [Show_user (unat uid)])"
  using fn_message_disp_frame [of slot en magic uid user_max nt out] assms by (simp add: auth_frame_def shown_for_def)

lemma dispatch_frames:
  assumes "list_all2 (\<lambda>slot msg. carries slot (auth_frame en msg)) slots msgs"
    and "\<forall>(magic, uid) \<in> set msgs. unat uid < user_max \<and> unat uid < length (nt_users nt)"
  shows "foldR (fn_message_disp en user_max nt) slots out = Inr (out @ map (shown_for (nt_users nt)) msgs)"
  using assms
proof (induction arbitrary: out rule: list_all2_induct)
  case (Cons slot slots msg msgs)
  obtain magic uid where m: "msg = (magic, uid)" by fastforce
  have "fn_message_disp en user_max nt slot out = Inr (out @ [shown_for (nt_users nt) msg])"
    using fn_message_disp_frame [of slot en magic uid user_max nt out] Cons.hyps(1) Cons.prems m by auto
  then show ?case using Cons by simp
qed simp

lemma ntrackd_main_runs:
  assumes "shows_layout (sys_proc (de_sys env)) sz uoff foff" "sys_mem (de_sys env)" "sys_mmap (de_sys env) = Shm_mapped"
    and "de_setaffinity env" "nl_init (de_socket env) (de_setsockopt env) (de_bind env) = Ran sock" "core \<le> 1" "argv = [name, dec_str core]"
    and "core < length (area_blocks area)" "area_blocks area ! core = rbf_init blk sz" "rbf_ok (area_blocks area ! core)"
    and "foldR (fn_message_disp en user_max \<lparr>nt_flows = area_flows area foff, nt_users = area_users area uoff\<rparr>)
           (take n (rbf_contents (area_blocks area ! core))) [] = Inr out"
  shows "\<exists>msg rb'. xmit en sock (de_pid env) (de_sendto env) (Some conf_str) = Inr (if de_sendto env = 0 then - 1 else 0, Some msg)
    \<and> ntrackd_main en user_max env argv n lib area
      = Inr (Ran ([msg], out, area\<lparr>area_blocks := (area_blocks area)[core := rb']\<rparr>))
    \<and> rbf_contents rb' = drop n (rbf_contents (area_blocks area ! core))"
proof -
  let ?sys = "(de_sys env)\<lparr>sys_affinity := Some (CPU_SET (int core))\<rparr>"
  let ?lib = "(mapped_lib sz uoff foff lib)\<lparr>nt_message_rbf := Some core\<rparr>"
  let ?nt = "\<lparr>nt_flows = area_flows area foff, nt_users = area_users area uoff\<rparr>"
  have "\<not> is_digit (CHR 0x00)" by (simp add: is_digit_def)
  then have core: "atoi (dec_str core @ [CHR 0x00]) = Inr (int core)" by (rule atoi_dec_str)
  have "attach_ring core (mapped_lib sz uoff foff lib) area = Inr (?lib, area)"
    using assms(8,9) by (intro attach_ring_same) (simp_all add: mapped_lib_def)
  moreover have "sys_affinity ?sys = Some (bound_to core CPU_SETSIZE)" using assms(6) by (simp add: CPU_SET_def)
  note nt_message_init_runs [of ?sys sz uoff foff core CPU_SETSIZE lib area "\<lparr>nt_flows = [], nt_users = []\<rparr>", OF _ _ _ this]
  ultimately have init: "nt_message_init ?sys lib area \<lparr>nt_flows = [], nt_users = []\<rparr> = Inr (0, ?lib, area, ?nt)"
    using assms(1-3,6) by simp
  have "0 \<le> sock" using assms(5) by (auto simp: nl_init_def split: if_splits)
  have "length conf_str \<le> M2K_DATA_SIZE" by (simp add: conf_str_def)
  note x = xmit_sends [of sock, OF _ this, of en "de_pid env" "de_sendto env"]
  obtain rb' where "nt_message_process n (Some (fn_message_disp en user_max ?nt)) ?lib area [] =
      Inr (area\<lparr>area_blocks := (area_blocks area)[core := rb']\<rparr>, out)"
    "rbf_contents rb' = drop n (rbf_contents (area_blocks area ! core))"
    by (rule nt_message_process_runs [of ?lib core area "fn_message_disp en user_max ?nt" n "[]" out])
      (use assms(8,10,11) in simp_all)
  then show ?thesis using assms(4,5,7) \<open>0 \<le> sock\<close> core init x by (intro exI conjI) (auto simp: ntrackd_main_def)
qed

text \<open>
  C31.  The daemon as a whole, started for core 0 or core 1.  When the memory can be attached and the
  netlink socket opened, and keep-alive messages of identities of the table wait in the ring of
  that core, \<open>main\<close> sends the built-in configuration once, and \<open>n\<close> rounds of its loop print, for
  the first \<open>n\<close> messages in their order, the user of the message, or that the slot of the table
  is no longer that user's; these messages are gone from the ring afterwards and the others stay.
\<close>

theorem ntrackd_main_serves:
  assumes "shows_layout (sys_proc (de_sys env)) sz uoff foff" "sys_mem (de_sys env)" "sys_mmap (de_sys env) = Shm_mapped"
    and "de_setaffinity env" "nl_init (de_socket env) (de_setsockopt env) (de_bind env) = Ran sock" "core \<le> 1" "argv = [name, dec_str core]"
    and "core < length (area_blocks area)" "area_blocks area ! core = rbf_init blk sz" "rbf_ok (area_blocks area ! core)"
    and "list_all2 (\<lambda>slot msg. carries slot (auth_frame en msg)) (rbf_contents (area_blocks area ! core)) msgs"
    and "\<forall>(magic, uid) \<in> set msgs. unat uid < user_max \<and> unat uid < length (area_users area uoff)"
  shows "\<exists>conf rb'. xmit en sock (de_pid env) (de_sendto env) (Some conf_str) = Inr (if de_sendto env = 0 then - 1 else 0, Some conf)
    \<and> ntrackd_main en user_max env argv n lib area
      = Inr (Ran ([conf], map (shown_for (area_users area uoff)) (take n msgs), area\<lparr>area_blocks := (area_blocks area)[core := rb']\<rparr>))
    \<and> rbf_contents rb' = drop n (rbf_contents (area_blocks area ! core))"
proof (rule ntrackd_main_runs [OF assms(1-10)])
  have "\<forall>(magic, uid) \<in> set (take n msgs). unat uid < user_max \<and> unat uid < length (area_users area uoff)"
    using assms(12) set_take_subset [of n msgs] by blast
  then show "foldR (fn_message_disp en user_max \<lparr>nt_flows = area_flows area foff, nt_users = area_users area uoff\<rparr>)
      (take n (rbf_contents (area_blocks area ! core))) [] = Inr (map (shown_for (area_users area uoff)) (take n msgs))"
    using dispatch_frames [OF list_all2_takeI [OF assms(11)], where n1 = n and user_max = user_max
        and nt = "\<lparr>nt_flows = area_flows area foff, nt_users = area_users area uoff\<rparr>" and out = "[]"] by simp
qed

abbreviation demo_daemon :: ntrackd_env where
  "demo_daemon \<equiv> \<lparr>de_sys = demo_sys, de_setaffinity = True, de_socket = 3, de_setsockopt = 0, de_bind = 0, de_pid = 77, de_sendto = 1\<rparr>"

text \<open>A ring of three nodes in which the keep-alive message of the user 1 waits.\<close>

definition alive_ring :: rbf_t where
  "alive_ring = \<lparr>hdr = \<lparr>hdr_r = 0, hdr_w = 1, hdr_size = 6144, hdr_count = 3, hdr_pad = 0\<rparr>,
     buffer = auth_frame Little (6, 1) @ replicate 6128 0\<rparr>"

lemma alive_ring_ok: "rbf_ok alive_ring" "rbf_init alive_ring 6156 = alive_ring" "rbf_contents alive_ring = [rbf_slot alive_ring 0]"
    "carries (rbf_slot alive_ring 0) (auth_frame Little (6, 1))"
proof -
  have l: "length (auth_frame Little (6, 1)) = 16" by (simp add: auth_frame_def auth_msg_bytes_def)
  show "rbf_ok alive_ring" using l by (simp add: rbf_ok_def alive_ring_def)
  show "rbf_init alive_ring 6156 = alive_ring" by (simp add: rbf_init_def alive_ring_def Let_def)
  have "rbf_used alive_ring = 1" "ring_r alive_ring = 0" "ring_count alive_ring = 3"
    by (simp_all add: rbf_used_def ring_dist_def alive_ring_def)
  then show "rbf_contents alive_ring = [rbf_slot alive_ring 0]" by (simp add: rbf_contents_def)
  show "carries (rbf_slot alive_ring 0) (auth_frame Little (6, 1))"
    using l by (simp add: carries_def rbf_slot_def chunk_def window_def alive_ring_def)
qed

theorem ntrackd_main_serves_witness:
  "\<exists>conf area'. ntrackd_main Little 2 demo_daemon [''ntrackd'', dec_str 0] 1 demo_lib (demo_shm\<lparr>area_blocks := [alive_ring]\<rparr>)
     = Inr (Ran ([conf], [Show_user 1], area')) \<and> rbf_contents (area_blocks area' ! 0) = []"
proof -
  let ?area = "demo_shm\<lparr>area_blocks := [alive_ring]\<rparr>"
  have l: "shows_layout (sys_proc demo_sys) 6156 4096 8192" "sys_mem demo_sys" "sys_mmap demo_sys = Shm_mapped"
    by (simp_all add: demo_sys_def shows_layout_def)
  have u: "area_users ?area 4096 = nt_users demo_nt" "length (nt_users demo_nt) = 2" "ui_magic (nt_users demo_nt ! 1) = 6"
    by (simp_all add: demo_shm_def demo_nt_def)
  then have s: "map (shown_for (area_users ?area 4096)) (take 1 [(6, 1)]) = [Show_user 1]" by (simp add: shown_for_def)
  from ntrackd_main_serves [where env = demo_daemon and sz = 6156 and uoff = 4096 and foff = 8192 and sock = 3 and core = 0
      and argv = "[''ntrackd'', dec_str 0]" and name = "''ntrackd''" and area = ?area and blk = alive_ring and en = Little
      and user_max = 2 and n = 1 and msgs = "[(6, 1)]" and lib = demo_lib]
  show ?thesis using l u s alive_ring_ok by (auto simp: nl_init_def)
qed

end
