(* ===== verification/System.thy ===== *)
theory System
  imports NtrackHooks Daemon "HOL-Library.Multiset"
begin

text \<open>
  The parts of the system running beside each other: packets that pass the forward hook, the
  work function of each CPU, the daemon reading the ring of CPU 0 and the user table through
  the shared memory, and configurations arriving over netlink.  \<open>sys_step\<close> is the step
  relation, with an event as its label, and \<open>sys_run\<close> its runs.  \<open>nmsg_enqueue\<close> links its node
  before it writes the message into it, outside of the lock; so the hook is two steps, up to the
  release of the lock and after it, and everything else can happen in between, also that the
  work function takes a node whose message is not written yet (\<open>sys_early\<close>).  A configuration
  may arrive at any time and have any number of rules, whatever rules the users carry.
  The invariant says where the keep-alive messages are: on the list of CPU 0, in its ring, or
  printed by the daemon.
\<close>

subsection \<open>Steps\<close>

text \<open>
  \<open>sys_filling\<close>: the messages of the hooks that have linked their node on CPU 0 and not filled it.
  A node is known by the number of nodes behind it; nodes come and go at the front of the list,
  so that number stays.
\<close>

record sys_state =
  sys_kern :: nt_state
  sys_filling :: "nat \<rightharpoonup> bytes"
  sys_early :: bool
  sys_shown :: "disp list"

text \<open>
  \<open>E_packet i\<close>: a packet of the user \<open>i\<close> passes the hook, up to the release of the lock in
  \<open>nmsg_enqueue\<close>; \<open>E_fill p\<close>: the rest of the hook that linked the node \<open>p\<close>; \<open>E_work c\<close>: the work item
  of CPU \<open>c\<close> runs to its end; \<open>E_round c\<close>: one turn of its loop, one call of \<open>nmsg_dequeue\<close>.
\<close>

datatype event = E_packet nat | E_fill nat | E_work nat | E_round nat | E_read | E_conf

abbreviation cpu0 :: "nt_state \<Rightarrow> nmsg_cpu_t" where
  "cpu0 k \<equiv> nmsg_cpus (st_msg k) ! 0"

abbreviation list0 :: "nt_state \<Rightarrow> nmsg_node_t list" where
  "list0 k \<equiv> cpu_list (cpu0 k)"

abbreviation ring0 :: "nt_state \<Rightarrow> rbf_t" where
  "ring0 k \<equiv> cpu_rbfp (cpu0 k)"

definition put_ring0 :: "rbf_t \<Rightarrow> nt_state \<Rightarrow> nt_state" where
  "put_ring0 rb k = k\<lparr>st_msg := set_cpu (st_msg k) 0 ((cpu0 k)\<lparr>cpu_rbfp := rb\<rparr>)\<rparr>"

definition daemon_cb :: "hook_env \<Rightarrow> flow_info_t list \<Rightarrow> nt_state \<Rightarrow> bytes \<Rightarrow> disp list \<Rightarrow> disp list result" where
  "daemon_cb env flows k = fn_message_disp (he_endian env) (he_user_max env) \<lparr>nt_flows = flows, nt_users = st_users k\<rparr>"

definition with_ring0 :: "shm_area \<Rightarrow> nt_state \<Rightarrow> shm_area" where
  "with_ring0 area k = area\<lparr>area_blocks := (area_blocks area)[0 := ring0 k]\<rparr>"

abbreviation (input) fill_step :: "hook_env \<Rightarrow> bytes \<Rightarrow> nat \<Rightarrow> nt_state \<Rightarrow> nmsg_state result" where
  "fill_step env auth p k \<equiv> nmsg_enqueue_fill (he_endian env) (nmsg_hdr_init 3 8) auth 0 p (st_msg k)"

inductive sys_step :: "hook_env \<Rightarrow> sys_state \<Rightarrow> event \<Rightarrow> sys_state \<Rightarrow> bool" for env :: hook_env where
  packet: "linear_packet skb \<Longrightarrow> length (dev_name in_dev) < IFNAMSIZ
    \<Longrightarrow> (\<forall>n. al_node al = Some n \<longrightarrow> length (node_buff n) = RBF_NODE_SIZE)
    \<Longrightarrow> ct_nos ct = Some nos \<Longrightarrow> trk_user nos = Some i \<Longrightarrow> i < length (st_users k)
    \<Longrightarrow> ntrack_hook_link env al jiffies (Some ct) skb in_dev out_dev k = Inr (due, k')
    \<Longrightarrow> sys_step env \<lparr>sys_kern = k, sys_filling = f, sys_early = early, sys_shown = out\<rparr> (E_packet i)
          \<lparr>sys_kern = k', sys_filling = (case due of None \<Rightarrow> f | Some auth \<Rightarrow> f(length (list0 k) \<mapsto> auth)),
           sys_early = early, sys_shown = out\<rparr>"
| fill: "f p = Some auth \<Longrightarrow> fill_step env auth p k = Inr m
    \<Longrightarrow> sys_step env \<lparr>sys_kern = k, sys_filling = f, sys_early = early, sys_shown = out\<rparr> (E_fill p)
          \<lparr>sys_kern = k\<lparr>st_msg := m\<rparr>, sys_filling = f(p := None), sys_early = early, sys_shown = out\<rparr>"
| work: "cpu < he_nr_cpu_ids env \<Longrightarrow> nmsg_wq_dequeue_func cpu (st_msg k) = Inr m
    \<Longrightarrow> sys_step env \<lparr>sys_kern = k, sys_filling = f, sys_early = early, sys_shown = out\<rparr> (E_work cpu)
          \<lparr>sys_kern = k\<lparr>st_msg := m\<rparr>, sys_filling = (if cpu = 0 then Map.empty else f),
           sys_early = (early \<or> cpu = 0 \<and> f \<noteq> Map.empty), sys_shown = out\<rparr>"
| round: "cpu < he_nr_cpu_ids env \<Longrightarrow> nmsg_dequeue (nmsg_cpus (st_msg k) ! cpu) = Inr (ret, q)
    \<Longrightarrow> sys_step env \<lparr>sys_kern = k, sys_filling = f, sys_early = early, sys_shown = out\<rparr> (E_round cpu)
          \<lparr>sys_kern = k\<lparr>st_msg := set_cpu (st_msg k) cpu q\<rparr>,
           sys_filling = (if cpu = 0 then f(length (list0 k) - 1 := None) else f),
           sys_early = (early \<or> cpu = 0 \<and> f (length (list0 k) - 1) \<noteq> None), sys_shown = out\<rparr>"
| read: "nt_message_rbf lib = Some 0 \<Longrightarrow> area_blocks area \<noteq> []
    \<Longrightarrow> nt_message_process 1 (Some (daemon_cb env flows k)) lib (with_ring0 area k) out = Inr (area', out')
    \<Longrightarrow> sys_step env \<lparr>sys_kern = k, sys_filling = f, sys_early = early, sys_shown = out\<rparr> E_read
          \<lparr>sys_kern = put_ring0 (area_blocks area' ! 0) k, sys_filling = f, sys_early = early, sys_shown = out'\<rparr>"
| conf: "nl_recv (he_endian env) (he_conf env) jiffies kz True mem skb (st_conf k) = Inr cs
    \<Longrightarrow> sys_step env \<lparr>sys_kern = k, sys_filling = f, sys_early = early, sys_shown = out\<rparr> E_conf
          \<lparr>sys_kern = k\<lparr>st_conf := cs\<rparr>, sys_filling = f, sys_early = early, sys_shown = out\<rparr>"

inductive sys_run :: "hook_env \<Rightarrow> sys_state \<Rightarrow> event list \<Rightarrow> sys_state \<Rightarrow> bool" for env s0 where
  none: "sys_run env s0 [] s0"
| more: "sys_run env s0 es s \<Longrightarrow> sys_step env s e s' \<Longrightarrow> sys_run env s0 (es @ [e]) s'"

text \<open>The users whose packets were seen.\<close>

definition packet_users :: "event list \<Rightarrow> nat list" where
  "packet_users es = List.map_filter (\<lambda>e. case e of E_packet i \<Rightarrow> Some i | _ \<Rightarrow> None) es"

subsection \<open>Where the messages are\<close>

definition auth_body :: "hook_env \<Rightarrow> (u32 \<times> u32) list \<Rightarrow> nat \<Rightarrow> bytes" where
  "auth_body env ids j = auth_msg_bytes (he_endian env) (snd (ids ! j)) (fst (ids ! j))"

definition keep_alive :: "hook_env \<Rightarrow> (u32 \<times> u32) list \<Rightarrow> nat \<Rightarrow> bytes" where
  "keep_alive env ids j = nmsg_hdr_bytes (he_endian env) (nmsg_hdr_init 3 8) @ auth_body env ids j"

text \<open>Identity and magic number of every user, in the order of the table.\<close>

definition identities :: "nt_state \<Rightarrow> (u32 \<times> u32) list" where
  "identities k = map (\<lambda>u. (ui_id u, ui_magic u)) (st_users k)"

definition numbered :: "nat \<Rightarrow> (u32 \<times> u32) list \<Rightarrow> bool" where
  "numbered user_max ids \<longleftrightarrow> length ids \<le> user_max \<and> (\<forall>j < length ids. unat (fst (ids ! j)) = j)"

text \<open>The queues, without what is in the nodes of CPU 0.\<close>

definition nmsg_shape :: "nmsg_cpu_t \<Rightarrow> bool" where
  "nmsg_shape q \<longleftrightarrow> rbf_ok (cpu_rbfp q) \<and> unat (cpu_count q) = length (cpu_list q) \<and> length (cpu_list q) \<le> NCAP_MAX_COUNT + 1"

definition queues_ok :: "nat \<Rightarrow> nmsg_state \<Rightarrow> bool" where
  "queues_ok nr m \<longleftrightarrow> 0 < nr \<and> nr \<le> length (nmsg_cpus m) \<and> nmsg_wq m = Wq_live \<and> nmsg_shape (nmsg_cpus m ! 0)
     \<and> (\<forall>i < nr. 0 < i \<longrightarrow> nmsg_cpu_ok (nmsg_cpus m ! i))"

definition kern_ok :: "hook_env \<Rightarrow> nt_state \<Rightarrow> bool" where
  "kern_ok env k \<longleftrightarrow> conf_state_ok (st_conf k) \<and> (\<forall>u \<in> set (st_users k). users_ok env u) \<and> queues_ok (he_nr_cpu_ids env) (st_msg k)"

text \<open>
  The nodes of CPU 0: a node that is written holds the message of the user beside it, and of the
  others this message is still to be written.
\<close>

fun nodes_hold :: "hook_env \<Rightarrow> (u32 \<times> u32) list \<Rightarrow> (nat \<rightharpoonup> bytes) \<Rightarrow> nmsg_node_t list \<Rightarrow> nat list \<Rightarrow> bool" where
  "nodes_hold env ids f [] [] = True"
| "nodes_hold env ids f (n # ns) (j # js) = (nodes_hold env ids f ns js \<and>
     (case f (length ns) of
        None \<Rightarrow> node_ok n \<and> node_bytes n = keep_alive env ids j
      | Some b \<Rightarrow> length (node_buff n) = RBF_NODE_SIZE \<and> b = auth_body env ids j))"
| "nodes_hold env ids f _ _ = False"

abbreviation in_ring :: "hook_env \<Rightarrow> (u32 \<times> u32) list \<Rightarrow> nt_state \<Rightarrow> nat list \<Rightarrow> bool" where
  "in_ring env ids k waiting \<equiv> list_all2 (\<lambda>slot j. carries slot (keep_alive env ids j)) (rbf_contents (ring0 k)) waiting"

definition sys_inv :: "hook_env \<Rightarrow> (u32 \<times> u32) list \<Rightarrow> nat list \<Rightarrow> sys_state \<Rightarrow> bool" where
  "sys_inv env ids seen s \<longleftrightarrow> kern_ok env (sys_kern s) \<and> identities (sys_kern s) = ids
     \<and> dom (sys_filling s) \<subseteq> {..<length (list0 (sys_kern s))}
     \<and> (\<exists>queued waiting printed. nodes_hold env ids (sys_filling s) (list0 (sys_kern s)) queued
        \<and> in_ring env ids (sys_kern s) waiting
        \<and> sys_shown s = map Show_user printed \<and> set (queued @ waiting @ printed) \<subseteq> {..<length ids}
        \<and> mset queued + mset waiting + mset printed \<subseteq># mset seen)"

subsection \<open>The nodes of a list\<close>

lemma nodes_hold_length: "nodes_hold env ids f ns js \<Longrightarrow> length ns = length js"
  by (induction env ids f ns js rule: nodes_hold.induct) auto

lemma nodes_hold_cong:
  "(\<And>p. p < length ns \<Longrightarrow> f p = g p) \<Longrightarrow> nodes_hold env ids f ns js \<longleftrightarrow> nodes_hold env ids g ns js"
  by (induction env ids f ns js rule: nodes_hold.induct) simp_all

lemma nodes_hold_empty:
  "nodes_hold env ids Map.empty ns js \<longleftrightarrow> (\<forall>n \<in> set ns. node_ok n) \<and> list_all2 (\<lambda>n j. node_bytes n = keep_alive env ids j) ns js"
  by (induction env ids "Map.empty :: nat \<rightharpoonup> bytes" ns js rule: nodes_hold.induct) auto

lemma nodes_hold_cut:
  assumes "nodes_hold env ids f (n # ns) js"
  obtains j js' where "js = j # js'" "nodes_hold env ids (f(length ns := None)) ns js'"
    "f (length ns) = None \<Longrightarrow> node_ok n \<and> node_bytes n = keep_alive env ids j"
proof (cases js)
  case (Cons j js')
  have "nodes_hold env ids (f(length ns := None)) ns js'"
    using assms Cons nodes_hold_cong [of ns f "f(length ns := None)"] by simp
  then show thesis using that [OF Cons] assms Cons by (cases "f (length ns)") auto
qed (use assms in simp)

lemma nodes_hold_link:
  assumes "nodes_hold env ids f ns js" "length (node_buff n) = RBF_NODE_SIZE"
  shows "nodes_hold env ids (f(length ns \<mapsto> auth_body env ids j)) (n # ns) (j # js)"
  using assms nodes_hold_cong [of ns f "f(length ns \<mapsto> auth_body env ids j)"] by simp

text \<open>Filling the node \<open>p\<close>.\<close>

lemma nmsg_fill_keep_alive:
  assumes "length (node_buff n) = RBF_NODE_SIZE"
  obtains n' where "nmsg_fill_node (he_endian env) n (nmsg_hdr_init 3 8) (auth_body env ids j) = Inr n'"
    "node_ok n'" "node_bytes n' = keep_alive env ids j"
proof -
  have h: "unat (msg_data_len (nmsg_hdr_init 3 8)) = 8" "length (auth_body env ids j) = 8"
    by (simp_all add: nmsg_hdr_init_def auth_body_def auth_msg_bytes_def)
  show thesis
    by (rule nmsg_fill_node_ok [OF assms, of "nmsg_hdr_init 3 8" "auth_body env ids j" "he_endian env"])
      (use h that in \<open>simp_all add: keep_alive_def\<close>)
qed

lemma nodes_hold_fill:
  assumes "nodes_hold env ids f ns js" "f p = Some b" "p < length ns"
  shows "\<exists>n'. nmsg_fill_node (he_endian env) (ns ! (length ns - Suc p)) (nmsg_hdr_init 3 8) b = Inr n'
    \<and> nodes_hold env ids (f(p := None)) (ns[length ns - Suc p := n']) js"
  using assms
proof (induction env ids f ns js rule: nodes_hold.induct)
  case (2 env ids f n ns j js)
  show ?case
  proof (cases "p = length ns")
    case True
    obtain n' where "nmsg_fill_node (he_endian env) n (nmsg_hdr_init 3 8) b = Inr n'" "node_ok n'" "node_bytes n' = keep_alive env ids j"
      using nmsg_fill_keep_alive [of n env ids j] 2(2,3) True by auto
    then show ?thesis using True 2(2) nodes_hold_cong [of ns f "f(p := None)" env ids js]
      by (intro exI [of _ n']) (simp add: fun_upd_def)
  next
    case False
    then have p: "p < length ns" using 2(4) by simp
    then have i: "length (n # ns) - Suc p = Suc (length ns - Suc p)" by simp
    have "nodes_hold env ids f ns js" using 2(2) by simp
    then obtain n' where "nmsg_fill_node (he_endian env) (ns ! (length ns - Suc p)) (nmsg_hdr_init 3 8) b = Inr n'"
      "nodes_hold env ids (f(p := None)) (ns[length ns - Suc p := n']) js" using 2(1) [OF _ 2(3) p] by blast
    then show ?thesis using 2(2) False unfolding i by (intro exI [of _ n']) (simp add: fun_upd_def)
  qed
qed simp_all

subsection \<open>The queues\<close>

lemma nmsg_shape_ok: "nmsg_cpu_ok q \<longleftrightarrow> nmsg_shape q \<and> (\<forall>n \<in> set (cpu_list q). node_ok n)"
  by (auto simp: nmsg_cpu_ok_def nmsg_shape_def)

lemma queues_ok_filled:
  "nmsg_ok nr m \<longleftrightarrow> queues_ok nr m \<and> (\<forall>n \<in> set (cpu_list (nmsg_cpus m ! 0)). node_ok n)"
  by (auto simp: nmsg_ok_def queues_ok_def nmsg_shape_ok gr0_conv_Suc) (metis not0_implies_Suc)+

lemma queues_ok_set:
  assumes "queues_ok nr m" "nmsg_shape q" "0 < cpu \<Longrightarrow> nmsg_cpu_ok q"
  shows "queues_ok nr (set_cpu m cpu q)"
proof -
  have "nmsg_cpu_ok ((nmsg_cpus m)[cpu := q] ! i)" if "i < nr" "0 < i" for i
    using that assms by (cases "i = cpu") (auto simp: queues_ok_def)
  moreover have "0 < length (nmsg_cpus m)" using assms(1) by (auto simp: queues_ok_def)
  then have "nmsg_shape ((nmsg_cpus m)[cpu := q] ! 0)" using assms by (cases "cpu = 0") (simp_all add: queues_ok_def)
  ultimately show ?thesis using assms(1) by (simp add: queues_ok_def set_cpu_def)
qed

text \<open>One call of \<open>nmsg_dequeue\<close>: the first node is copied to the ring, if that has room, and is gone.\<close>

lemma nmsg_dequeue_ok:
  assumes "nmsg_shape q" "cpu_list q = n # ns" "node_ok n"
  shows "\<exists>q' slots. nmsg_dequeue q = Inr (0, q') \<and> nmsg_shape q' \<and> cpu_list q' = ns
    \<and> rbf_contents (cpu_rbfp q') = rbf_contents (cpu_rbfp q) @ slots
    \<and> (slots = [] \<or> (\<exists>slot. slots = [slot] \<and> carries slot (node_bytes n)))"
proof -
  have rb: "rbf_ok (cpu_rbfp q)" and c: "unat (cpu_count q) = Suc (length ns)" "length ns \<le> NCAP_MAX_COUNT"
    using assms(1,2) by (simp_all add: nmsg_shape_def)
  have "\<forall>m \<in> set [node_bytes n]. length m \<le> RBF_NODE_SIZE" using node_bytes_le [OF assms(3)] by simp
  from rbf.send_all_ok [OF rb this] obtain rb' slots where r: "rbf.send_all (cpu_rbfp q) [node_bytes n] = Inr rb'" "rbf_ok rb'"
    "rbf_contents rb' = rbf_contents (cpu_rbfp q) @ slots"
    "list_all2 carries slots (take (rbf_capacity (cpu_rbfp q) - length (rbf_contents (cpu_rbfp q))) [node_bytes n])" by blast
  have "nmsg_dequeue q = Inr (0, q\<lparr>cpu_rbfp := rb', cpu_count := cpu_count q - 1, cpu_list := ns\<rparr>)"
    using r(1) assms(2,3)
    by (cases "rbf.send (cpu_rbfp q) (node_bytes n)") (auto simp: nmsg_dequeue_def nmsg_fill_buffer_send split: option.splits)
  moreover have "slots = [] \<or> (\<exists>slot. slots = [slot] \<and> carries slot (node_bytes n))"
    using r(4) by (cases "rbf_capacity (cpu_rbfp q) - length (rbf_contents (cpu_rbfp q))") (auto simp: list_all2_Cons2)
  ultimately show ?thesis using r(2,3) c by (auto simp: nmsg_shape_def unat_count_dec)
qed

lemma nmsg_dequeue_other:
  assumes "nmsg_cpu_ok q"
  shows "\<exists>r q'. nmsg_dequeue q = Inr (r, q') \<and> nmsg_cpu_ok q'"
proof (cases "cpu_list q")
  case Nil
  then show ?thesis using assms by (simp add: nmsg_dequeue_def)
next
  case (Cons n ns)
  then show ?thesis using nmsg_dequeue_ok [of q n ns] assms by (fastforce simp: nmsg_shape_ok)
qed

lemma nmsg_work_other:
  assumes "queues_ok nr m" "cpu < nr" "0 < cpu"
  shows "\<exists>q'. nmsg_wq_dequeue_func cpu m = Inr (set_cpu m cpu q') \<and> nmsg_cpu_ok q'"
proof -
  let ?q = "(nmsg_cpus m ! cpu)\<lparr>cpu_wq_msg := False\<rparr>"
  have c: "cpu < length (nmsg_cpus m)" "nmsg_cpu_ok (nmsg_cpus m ! cpu)" using assms by (auto simp: queues_ok_def)
  then have "nmsg_cpu_ok ?q" by (simp add: nmsg_cpu_ok_def)
  from nmsg_drain_ok [OF this, of 0] obtain q' where "nmsg_wq_dequeue_loop 0 ?q = Inr (0 + length (cpu_list ?q), q')" "nmsg_cpu_ok q'" by blast
  then show ?thesis using c(1) by (auto simp: nmsg_wq_dequeue_func_def nmsg_target_cpu_def)
qed

text \<open>Linking a node on CPU 0.\<close>

lemma nmsg_link_cpu0:
  assumes "queues_ok nr m" "\<forall>n. node = Some n \<longrightarrow> length (node_buff n) = RBF_NODE_SIZE"
  shows "\<exists>r m'. nmsg_enqueue_link nr node (nmsg_hdr_init 3 8) 0 m = Inr (r, m') \<and> queues_ok nr m'
    \<and> cpu_rbfp (nmsg_cpus m' ! 0) = cpu_rbfp (nmsg_cpus m ! 0)
    \<and> (if r = 0 then \<exists>n. cpu_list (nmsg_cpus m' ! 0) = n # cpu_list (nmsg_cpus m ! 0) \<and> length (node_buff n) = RBF_NODE_SIZE
       else m' = m)"
proof -
  let ?q = "nmsg_cpus m ! 0"
  have q: "nmsg_shape ?q" "0 < length (nmsg_cpus m)" "0 < nr" using assms(1) by (auto simp: queues_ok_def)
  have t: "KEY_TO_CORE nr 0 = Inr 0" "nmsg_target_cpu m 0 = Inr ?q" using q by (simp_all add: KEY_TO_CORE_def nmsg_target_cpu_def)
  show ?thesis
  proof (cases "node = None \<or> NCAP_MAX_COUNT < unat (cpu_count ?q)")
    case True
    then have "nmsg_enqueue_link nr node (nmsg_hdr_init 3 8) 0 m = Inr (- ENOMEM, m)"
      using t by (auto simp: nmsg_enqueue_link_def nmsg_hdr_init_def)
    then show ?thesis using assms(1) by simp
  next
    case False
    then obtain n where n: "node = Some n" "unat (cpu_count ?q) \<le> NCAP_MAX_COUNT" by auto
    then have "nmsg_shape (nmsg_link ?q n)" using q(1) by (simp add: nmsg_shape_def nmsg_link_def unat_count_inc)
    then show ?thesis using t n q(2) assms queues_ok_set [OF assms(1), of "nmsg_link ?q n" 0]
      by (auto simp: nmsg_enqueue_link_def nmsg_hdr_init_def nmsg_link_def)
  qed
qed

lemma nmsg_fill_cpu0:
  assumes "queues_ok nr m" "nodes_hold env ids f (cpu_list (nmsg_cpus m ! 0)) js" "f p = Some b" "p < length (cpu_list (nmsg_cpus m ! 0))"
  shows "\<exists>m'. nmsg_enqueue_fill (he_endian env) (nmsg_hdr_init 3 8) b 0 p m = Inr m' \<and> queues_ok nr m'
    \<and> cpu_rbfp (nmsg_cpus m' ! 0) = cpu_rbfp (nmsg_cpus m ! 0)
    \<and> length (cpu_list (nmsg_cpus m' ! 0)) = length (cpu_list (nmsg_cpus m ! 0))
    \<and> nodes_hold env ids (f(p := None)) (cpu_list (nmsg_cpus m' ! 0)) js"
proof -
  let ?q = "nmsg_cpus m ! 0"
  let ?i = "length (cpu_list ?q) - Suc p"
  have q: "nmsg_shape ?q" "0 < length (nmsg_cpus m)" "nmsg_wq m = Wq_live" using assms(1) by (auto simp: queues_ok_def)
  obtain n where n: "nmsg_fill_node (he_endian env) (cpu_list ?q ! ?i) (nmsg_hdr_init 3 8) b = Inr n"
    "nodes_hold env ids (f(p := None)) ((cpu_list ?q)[?i := n]) js" using nodes_hold_fill [OF assms(2-4)] by blast
  let ?q' = "?q\<lparr>cpu_list := (cpu_list ?q)[?i := n], cpu_wq_msg := True\<rparr>"
  have "nmsg_shape ?q'" using q(1) by (simp add: nmsg_shape_def)
  then have "queues_ok nr (set_cpu m 0 ?q')" using queues_ok_set [OF assms(1)] by blast
  moreover have "nmsg_enqueue_fill (he_endian env) (nmsg_hdr_init 3 8) b 0 p m = Inr (set_cpu m 0 ?q')"
    using n(1) q assms(4) by (simp add: nmsg_enqueue_fill_def nmsg_target_cpu_def Let_def)
  ultimately show ?thesis using n(2) q(2) by simp
qed

subsection \<open>What each step does to the messages\<close>

lemma identities_set_user:
  assumes "ui_id u = ui_id (st_users k ! i)" "ui_magic u = ui_magic (st_users k ! i)"
  shows "identities (set_user k i u) = identities k"
proof (rule nth_equalityI)
  show "identities (set_user k i u) ! j = identities k ! j" if "j < length (identities (set_user k i u))" for j
    using assms that by (cases "i = j") (simp_all add: identities_def set_user_def)
qed (simp add: identities_def set_user_def)

text \<open>
  What the hook leaves behind at the release of the lock: at most one node more on CPU 0, in
  front, whose message is that of the user.
\<close>

definition link_effect :: "hook_env \<Rightarrow> nat \<Rightarrow> nt_state \<Rightarrow> bytes option \<Rightarrow> nt_state \<Rightarrow> bool" where
  "link_effect env i k due k' \<longleftrightarrow> kern_ok env k' \<and> identities k' = identities k \<and> ring0 k' = ring0 k
     \<and> (case due of
          None \<Rightarrow> list0 k' = list0 k
        | Some auth \<Rightarrow> auth = auth_body env (identities k) i
            \<and> (\<exists>n. list0 k' = n # list0 k \<and> length (node_buff n) = RBF_NODE_SIZE))"

lemma report_due_keeps:
  assumes "report_due env j i ui k = (due, k')" "kern_ok env k" "i < length (st_users k)"
    and "ui_id ui = ui_id (st_users k ! i)" "ui_magic ui = ui_magic (st_users k ! i)"
  shows "kern_ok env k' \<and> identities k' = identities k \<and> st_msg k' = st_msg k
    \<and> (\<forall>auth. due = Some auth \<longrightarrow> auth = auth_body env (identities k) i)"
proof -
  let ?u = "snd (user_update_timestamp j ui)"
  have u: "ui_id ?u = ui_id (st_users k ! i)" "ui_magic ?u = ui_magic (st_users k ! i)"
    using assms(4,5) by (simp_all add: user_update_timestamp_def)
  have "users_ok env ?u" using u assms(2,3) by (simp add: kern_ok_def users_ok_def)
  then have "kern_ok env (set_user k i ?u)"
    using assms(2) users_ok_set [of "st_users k" env ?u i] by (simp add: kern_ok_def set_user_def)
  moreover have "auth_msg_bytes (he_endian env) (ui_magic ?u) (ui_id ?u) = auth_body env (identities k) i"
    using u assms(3) by (simp add: auth_body_def identities_def)
  ultimately show ?thesis using assms(1,2) identities_set_user [OF u]
    by (auto simp: report_due_def Let_def set_user_def split: if_splits)
qed

lemma hook_link_queues:
  assumes "kern_ok env k" "linear_packet skb" "length (dev_name in_dev) < IFNAMSIZ"
    and "\<forall>n. al_node al = Some n \<longrightarrow> length (node_buff n) = RBF_NODE_SIZE"
    and "ct_nos ct = Some nos" "trk_user nos = Some i" "i < length (st_users k)"
  shows "\<exists>iph. ip_hdr skb = Inr iph \<and> (case ntrack_hook_link env al jiffies (Some ct) skb in_dev out_dev k of
      Inl fault \<Rightarrow> \<not> ct_untracked ct \<and> \<not> l3filter (env_ipv4 (he_conf env)) iph \<and> stale_user (st_conf k) (st_users k ! i)
    | Inr (due, k') \<Rightarrow> (ct_untracked ct \<or> l3filter (env_ipv4 (he_conf env)) iph \<or> \<not> stale_user (st_conf k) (st_users k ! i))
        \<and> link_effect env i k due k')"
proof -
  have "conf_state_ok (st_conf k) \<and> (\<forall>u \<in> set (st_users k). users_ok env u)" using assms(1) by (simp add: kern_ok_def)
  from hook_decide_steps [OF this assms(2,3,5-7), of al out_dev] obtain iph where iph: "ip_hdr skb = Inr iph"
    and d: "(ct_untracked ct \<or> l3filter (env_ipv4 (he_conf env)) iph) \<and> hook_decide env al (Some ct) skb in_dev out_dev k = Inr None
     \<or> \<not> ct_untracked ct \<and> \<not> l3filter (env_ipv4 (he_conf env)) iph \<and> stale_user (st_conf k) (st_users k ! i)
         \<and> (\<exists>f. hook_decide env al (Some ct) skb in_dev out_dev k = Inl f)
     \<or> \<not> stale_user (st_conf k) (st_users k ! i) \<and> (\<exists>ui tx. ui_id ui = ui_id (st_users k ! i) \<and> ui_magic ui = ui_magic (st_users k ! i)
         \<and> hook_decide env al (Some ct) skb in_dev out_dev k = Inr (Some (i, ui, (set_user k i ui)\<lparr>st_xmit := st_xmit k @ tx\<rparr>)))"
    by (elim exE conjE) (erule that, simp only: split: if_splits sum.splits prod.splits; metis)
  have eff: "\<exists>due k'. ntrack_hook_link env al jiffies (Some ct) skb in_dev out_dev k = Inr (due, k') \<and> link_effect env i k due k'"
    if u: "ui_id ui = ui_id (st_users k ! i)" "ui_magic ui = ui_magic (st_users k ! i)"
      and dec: "hook_decide env al (Some ct) skb in_dev out_dev k = Inr (Some (i, ui, (set_user k i ui)\<lparr>st_xmit := st_xmit k @ tx\<rparr>))" for ui tx
  proof -
    let ?k = "(set_user k i ui)\<lparr>st_xmit := st_xmit k @ tx\<rparr>"
    have "users_ok env ui" using u assms(1,7) by (simp add: kern_ok_def users_ok_def)
    then have k: "kern_ok env ?k" using assms(1) users_ok_set [of "st_users k" env ui i] by (simp add: kern_ok_def set_user_def)
    have ids: "identities ?k = identities k" using identities_set_user [OF u] by (simp add: identities_def)
    obtain due k1 where r: "report_due env jiffies i ui ?k = (due, k1)" by fastforce
    from report_due_keeps [OF r k] assms(7) ids have k1: "kern_ok env k1" "identities k1 = identities k" "st_msg k1 = st_msg k"
      "\<And>auth. due = Some auth \<Longrightarrow> auth = auth_body env (identities k) i" by (simp_all add: set_user_def)
    show ?thesis
    proof (cases due)
      case None
      then show ?thesis using dec r k1 by (simp add: ntrack_hook_link_def link_effect_def)
    next
      case (Some auth)
      have "queues_ok (he_nr_cpu_ids env) (st_msg k1)" using k1(1) by (simp add: kern_ok_def)
      from nmsg_link_cpu0 [OF this assms(4)] obtain ret m where
        "nmsg_enqueue_link (he_nr_cpu_ids env) (al_node al) (nmsg_hdr_init 3 8) 0 (st_msg k1) = Inr (ret, m)"
        "queues_ok (he_nr_cpu_ids env) m" "cpu_rbfp (nmsg_cpus m ! 0) = ring0 k"
        "if ret = 0 then \<exists>n. cpu_list (nmsg_cpus m ! 0) = n # list0 k \<and> length (node_buff n) = RBF_NODE_SIZE else m = st_msg k"
        unfolding k1(3) by blast
      moreover have "kern_ok env (k1\<lparr>st_msg := m\<rparr>)" if "queues_ok (he_nr_cpu_ids env) m" for m
        using k1(1) that by (simp add: kern_ok_def)
      moreover have "identities (k1\<lparr>st_msg := m\<rparr>) = identities k" for m using k1(2) by (simp add: identities_def)
      ultimately show ?thesis using dec r Some k1(4) by (auto simp: ntrack_hook_link_def link_effect_def split: if_splits)
    qed
  qed
  have n: "link_effect env i k None k" using assms(1) by (simp add: link_effect_def)
  from d consider "ct_untracked ct \<or> l3filter (env_ipv4 (he_conf env)) iph" "hook_decide env al (Some ct) skb in_dev out_dev k = Inr None"
    | f where "\<not> ct_untracked ct" "\<not> l3filter (env_ipv4 (he_conf env)) iph" "stale_user (st_conf k) (st_users k ! i)"
      "hook_decide env al (Some ct) skb in_dev out_dev k = Inl f"
    | due k' where "\<not> stale_user (st_conf k) (st_users k ! i)"
      "ntrack_hook_link env al jiffies (Some ct) skb in_dev out_dev k = Inr (due, k')" "link_effect env i k due k'"
    using eff by blast
  then show ?thesis by cases (use iph n in \<open>auto simp: ntrack_hook_link_def\<close>)
qed

lemma daemon_cb_shows:
  assumes "identities k = ids" "numbered (he_user_max env) ids" "j < length ids" "carries slot (keep_alive env ids j)"
  shows "daemon_cb env flows k slot out = Inr (out @ [Show_user j])"
proof -
  have j: "ids ! j = (ui_id (st_users k ! j), ui_magic (st_users k ! j))" "j < length (st_users k)" "unat (ui_id (st_users k ! j)) = j"
    "j < he_user_max env" using assms(1-3) by (auto simp: identities_def numbered_def)
  have "carries slot (nmsg_hdr_bytes (he_endian env) (nmsg_hdr_init 3 8)
      @ auth_msg_bytes (he_endian env) (ui_magic (st_users k ! j)) (ui_id (st_users k ! j)))"
    using assms(4) j(1) by (simp add: keep_alive_def auth_body_def)
  from fn_message_disp_auth [OF this, of "he_user_max env" "\<lparr>nt_flows = flows, nt_users = st_users k\<rparr>" out] j
  show ?thesis by (simp add: daemon_cb_def)
qed

text \<open>The work item of CPU 0, when every node is written.\<close>

lemma nmsg_work_cpu0:
  assumes "kern_ok env k" "nodes_hold env ids Map.empty (list0 k) queued"
  obtains q slots where "nmsg_wq_dequeue_func 0 (st_msg k) = Inr (set_cpu (st_msg k) 0 q)" "nmsg_shape q" "cpu_list q = []"
    "rbf_contents (cpu_rbfp q) = rbf_contents (ring0 k) @ slots"
    "list_all2 (\<lambda>slot j. carries slot (keep_alive env ids j)) slots (take (rbf_capacity (ring0 k) - length (rbf_contents (ring0 k))) queued)"
proof -
  let ?r = "rbf_capacity (ring0 k) - length (rbf_contents (ring0 k))"
  have ok: "nmsg_ok (he_nr_cpu_ids env) (st_msg k)" and nr: "0 < he_nr_cpu_ids env"
    using assms by (auto simp: queues_ok_filled kern_ok_def nodes_hold_empty queues_ok_def)
  obtain m' q slots where d: "nmsg_wq_dequeue_func 0 (st_msg k) = Inr m'" "m' = set_cpu (st_msg k) 0 q" "nmsg_cpu_ok q" "cpu_list q = []"
    "rbf_contents (cpu_rbfp q) = rbf_contents (ring0 k) @ slots" "list_all2 carries slots (take ?r (map node_bytes (list0 k)))"
    by (rule nmsg_wq_dequeue_func_ok [OF ok nr])
  have "list_all2 (\<lambda>b j. b = keep_alive env ids j) (take ?r (map node_bytes (list0 k))) (take ?r queued)"
    using assms(2) by (intro list_all2_takeI) (simp add: list_all2_map1 nodes_hold_empty)
  from list_all2_trans [OF _ d(6) this, of "\<lambda>slot j. carries slot (keep_alive env ids j)"]
  show thesis using that [of q slots] d(1-5) by (simp add: nmsg_shape_ok)
qed

subsection \<open>The invariant\<close>

lemma sys_invE:
  assumes "sys_inv env ids seen \<lparr>sys_kern = k, sys_filling = f, sys_early = early, sys_shown = out\<rparr>"
  obtains queued waiting printed where "kern_ok env k" "identities k = ids" "dom f \<subseteq> {..<length (list0 k)}"
    "nodes_hold env ids f (list0 k) queued" "in_ring env ids k waiting"
    "out = map Show_user printed" "set (queued @ waiting @ printed) \<subseteq> {..<length ids}"
    "mset queued + mset waiting + mset printed \<subseteq># mset seen"
  using assms by (auto simp: sys_inv_def)

lemma sys_invI:
  assumes "kern_ok env k" "identities k = ids" "dom f \<subseteq> {..<length (list0 k)}"
    and "nodes_hold env ids f (list0 k) queued" "in_ring env ids k waiting"
    and "set (queued @ waiting @ printed) \<subseteq> {..<length ids}" "mset queued + mset waiting + mset printed \<subseteq># mset seen"
  shows "sys_inv env ids seen \<lparr>sys_kern = k, sys_filling = f, sys_early = early, sys_shown = map Show_user printed\<rparr>"
  unfolding sys_inv_def sys_state.simps using assms by blast

lemma kern_ok_set_cpu:
  assumes "kern_ok env k" "nmsg_shape q" "0 < cpu \<Longrightarrow> nmsg_cpu_ok q"
  shows "kern_ok env (k\<lparr>st_msg := set_cpu (st_msg k) cpu q\<rparr>)" "identities (k\<lparr>st_msg := set_cpu (st_msg k) cpu q\<rparr>) = identities k"
    "cpu0 (k\<lparr>st_msg := set_cpu (st_msg k) cpu q\<rparr>) = (if cpu = 0 then q else cpu0 k)"
proof -
  have ok: "queues_ok (he_nr_cpu_ids env) (st_msg k)" using assms(1) by (simp add: kern_ok_def)
  then have "0 < length (nmsg_cpus (st_msg k))" by (auto simp: queues_ok_def)
  then show "kern_ok env (k\<lparr>st_msg := set_cpu (st_msg k) cpu q\<rparr>)" "identities (k\<lparr>st_msg := set_cpu (st_msg k) cpu q\<rparr>) = identities k"
    "cpu0 (k\<lparr>st_msg := set_cpu (st_msg k) cpu q\<rparr>) = (if cpu = 0 then q else cpu0 k)"
    using assms queues_ok_set [OF ok assms(2,3)] by (simp_all add: kern_ok_def identities_def)
qed

lemma inv_packet:
  assumes "sys_inv env ids seen s" "sys_step env s (E_packet i) s'"
  shows "sys_inv env ids (seen @ [i]) s'"
  using assms(2)
proof cases
  case 1: (packet skb in_dev al ct nos k jiffies out_dev due k' f early out)
  from assms(1) obtain queued waiting printed where inv: "kern_ok env k" "identities k = ids" "dom f \<subseteq> {..<length (list0 k)}"
    "nodes_hold env ids f (list0 k) queued" "in_ring env ids k waiting" "out = map Show_user printed"
    "set (queued @ waiting @ printed) \<subseteq> {..<length ids}" "mset queued + mset waiting + mset printed \<subseteq># mset seen"
    unfolding 1(1) by (rule sys_invE)
  from hook_link_queues [OF inv(1) 1(3-8), of jiffies out_dev] 1(9) have e: "link_effect env i k due k'" by auto
  have i: "i < length ids" using 1(8) inv(2) by (auto simp: identities_def)
  have more: "mset queued + mset waiting + mset printed \<subseteq># mset (seen @ [i])"
    by (rule subset_mset.order_trans [OF inv(8)]) simp
  show ?thesis
  proof (cases due)
    case None
    then show ?thesis unfolding 1(2) inv(6) using e inv more
      by (intro sys_invI [where queued = queued and waiting = waiting]) (simp_all add: link_effect_def)
  next
    case (Some auth)
    then obtain n where n: "auth = auth_body env ids i" "list0 k' = n # list0 k" "length (node_buff n) = RBF_NODE_SIZE"
      using e inv(2) by (auto simp: link_effect_def)
    show ?thesis unfolding 1(2) inv(6) using e inv i Some n nodes_hold_link [OF inv(4) n(3), of i]
      by (intro sys_invI [where queued = "i # queued" and waiting = waiting])
        (auto simp: link_effect_def add.assoc simp del: nodes_hold.simps)
  qed
qed

lemma inv_fill:
  assumes "sys_inv env ids seen s" "sys_step env s (E_fill p) s'"
  shows "sys_inv env ids seen s'"
  using assms(2)
proof cases
  case 1: (fill f auth k m early out)
  from assms(1) obtain queued waiting printed where inv: "kern_ok env k" "identities k = ids" "dom f \<subseteq> {..<length (list0 k)}"
    "nodes_hold env ids f (list0 k) queued" "in_ring env ids k waiting" "out = map Show_user printed"
    "set (queued @ waiting @ printed) \<subseteq> {..<length ids}" "mset queued + mset waiting + mset printed \<subseteq># mset seen"
    unfolding 1(1) by (rule sys_invE)
  have q: "queues_ok (he_nr_cpu_ids env) (st_msg k)" and p: "p < length (list0 k)" using inv(1,3) 1(3) by (auto simp: kern_ok_def)
  from nmsg_fill_cpu0 [OF q inv(4) 1(3) p] 1(4)
  have m: "queues_ok (he_nr_cpu_ids env) m" "cpu_rbfp (nmsg_cpus m ! 0) = ring0 k" "length (cpu_list (nmsg_cpus m ! 0)) = length (list0 k)"
    "nodes_hold env ids (f(p := None)) (cpu_list (nmsg_cpus m ! 0)) queued" by auto
  have "kern_ok env (k\<lparr>st_msg := m\<rparr>)" "identities (k\<lparr>st_msg := m\<rparr>) = ids" using inv(1,2) m(1) by (simp_all add: kern_ok_def identities_def)
  then show ?thesis unfolding 1(2) inv(6) using m inv
    by (intro sys_invI [where queued = queued and waiting = waiting]) auto
qed

lemma inv_work:
  assumes "sys_inv env ids seen s" "sys_step env s (E_work cpu) s'" "\<not> sys_early s'"
  shows "sys_inv env ids seen s'"
  using assms(2)
proof cases
  case 1: (work k m f early out)
  from assms(1) obtain queued waiting printed where inv: "kern_ok env k" "identities k = ids" "dom f \<subseteq> {..<length (list0 k)}"
    "nodes_hold env ids f (list0 k) queued" "in_ring env ids k waiting" "out = map Show_user printed"
    "set (queued @ waiting @ printed) \<subseteq> {..<length ids}" "mset queued + mset waiting + mset printed \<subseteq># mset seen"
    unfolding 1(1) by (rule sys_invE)
  show ?thesis
  proof (cases "cpu = 0")
    case False
    have "queues_ok (he_nr_cpu_ids env) (st_msg k)" using inv(1) by (simp add: kern_ok_def)
    from nmsg_work_other [OF this 1(3)] False 1(4) obtain q where q: "m = set_cpu (st_msg k) cpu q" "nmsg_cpu_ok q" by auto
    have "nmsg_shape q" using q(2) by (simp add: nmsg_shape_ok)
    note k' = kern_ok_set_cpu [OF inv(1) this q(2), of cpu, folded q(1)]
    show ?thesis unfolding 1(2) inv(6) using k' inv False
      by (intro sys_invI [where queued = queued and waiting = waiting]) simp_all
  next
    case True
    then have f: "f = Map.empty" using assms(3) 1(2) by simp
    let ?r = "rbf_capacity (ring0 k) - length (rbf_contents (ring0 k))"
    obtain q slots where "nmsg_wq_dequeue_func 0 (st_msg k) = Inr (set_cpu (st_msg k) 0 q)"
      and q: "nmsg_shape q" "cpu_list q = []" "rbf_contents (cpu_rbfp q) = rbf_contents (ring0 k) @ slots"
      "list_all2 (\<lambda>slot j. carries slot (keep_alive env ids j)) slots (take ?r queued)"
      by (rule nmsg_work_cpu0 [OF inv(1) inv(4) [unfolded f]])
    then have m: "m = set_cpu (st_msg k) 0 q" using 1(4) True by simp
    note k' = kern_ok_set_cpu [OF inv(1) q(1), of 0, folded m, simplified]
    have "mset (take ?r queued) \<subseteq># mset queued" using append_take_drop_id [of ?r queued] mset_append [of "take ?r queued" "drop ?r queued"]
      by (metis mset_subset_eq_add_left)
    then have "mset [] + mset (waiting @ take ?r queued) + mset printed \<subseteq># mset seen"
      by (intro subset_mset.order_trans [OF _ inv(8)]) (simp add: subset_mset.add_mono ac_simps)
    moreover have "set (take ?r queued) \<subseteq> {..<length ids}" using inv(7) set_take_subset [of ?r queued] by auto
    ultimately show ?thesis unfolding 1(2) inv(6) using k' inv q True
      by (intro sys_invI [where queued = "[]" and waiting = "waiting @ take ?r queued"]) (simp_all add: list_all2_appendI)
  qed
qed

lemma inv_round:
  assumes "sys_inv env ids seen s" "sys_step env s (E_round cpu) s'" "\<not> sys_early s'"
  shows "sys_inv env ids seen s'"
  using assms(2)
proof cases
  case 1: (round k ret q f early out)
  from assms(1) obtain queued waiting printed where inv: "kern_ok env k" "identities k = ids" "dom f \<subseteq> {..<length (list0 k)}"
    "nodes_hold env ids f (list0 k) queued" "in_ring env ids k waiting" "out = map Show_user printed"
    "set (queued @ waiting @ printed) \<subseteq> {..<length ids}" "mset queued + mset waiting + mset printed \<subseteq># mset seen"
    unfolding 1(1) by (rule sys_invE)
  have ok: "queues_ok (he_nr_cpu_ids env) (st_msg k)" using inv(1) by (simp add: kern_ok_def)
  show ?thesis
  proof (cases "cpu = 0")
    case False
    then have q: "nmsg_cpu_ok q" using nmsg_dequeue_other [of "nmsg_cpus (st_msg k) ! cpu"] ok 1(3,4) by (auto simp: queues_ok_def)
    then have "nmsg_shape q" by (simp add: nmsg_shape_ok)
    note k' = kern_ok_set_cpu [OF inv(1) this q, of cpu]
    show ?thesis unfolding 1(2) inv(6) using k' inv False
      by (intro sys_invI [where queued = queued and waiting = waiting]) simp_all
  next
    case True
    have sh: "nmsg_shape (cpu0 k)" using ok by (simp add: queues_ok_def)
    show ?thesis
    proof (cases "list0 k")
      case Nil
      then have "q = cpu0 k" "f = Map.empty" using 1(4) True inv(3) by (simp_all add: nmsg_dequeue_def)
      then show ?thesis unfolding 1(2) inv(6) using kern_ok_set_cpu [OF inv(1) sh, of 0] inv True Nil
        by (intro sys_invI [where queued = queued and waiting = waiting]) simp_all
    next
      case (Cons n ns)
      have "f (length ns) = None" using assms(3) 1(2) True Cons by simp
      then obtain j js where j: "queued = j # js" "nodes_hold env ids (f(length ns := None)) ns js" "node_ok n" "node_bytes n = keep_alive env ids j"
        using nodes_hold_cut [OF inv(4) [unfolded Cons]] by metis
      from nmsg_dequeue_ok [OF sh Cons j(3)] 1(4) True obtain slots where q: "nmsg_shape q" "cpu_list q = ns"
        "rbf_contents (cpu_rbfp q) = rbf_contents (ring0 k) @ slots" "slots = [] \<or> (\<exists>slot. slots = [slot] \<and> carries slot (keep_alive env ids j))"
        using j(4) by auto
      note k' = kern_ok_set_cpu [OF inv(1) q(1), of 0, simplified]
      have d: "dom (f(length ns := None)) \<subseteq> {..<length ns}" using inv(3) Cons by (auto simp: less_Suc_eq)
      obtain more where more: "list_all2 (\<lambda>slot j. carries slot (keep_alive env ids j)) slots more" "more = [] \<or> more = [j]"
        using q(4) that [of "[]"] that [of "[j]"] by auto
      have "mset more \<subseteq># {#j#}" using more(2) by auto
      then have m: "mset js + mset (waiting @ more) + mset printed \<subseteq># mset seen"
        by (intro subset_mset.order_trans [OF _ inv(8)]) (simp add: j(1) subset_mset.add_mono ac_simps)
      have st: "set (js @ (waiting @ more) @ printed) \<subseteq> {..<length ids}" using inv(7) j(1) more(2) by auto
      have w: "in_ring env ids (k\<lparr>st_msg := set_cpu (st_msg k) 0 q\<rparr>) (waiting @ more)"
        using k'(3) q(3) list_all2_appendI [OF inv(5) more(1)] by simp
      have "sys_inv env ids seen \<lparr>sys_kern = k\<lparr>st_msg := set_cpu (st_msg k) 0 q\<rparr>, sys_filling = f(length ns := None),
          sys_early = e, sys_shown = map Show_user printed\<rparr>" for e
        by (rule sys_invI [OF _ _ _ _ w st m]) (use k' q(2) j(2) d inv(2) in \<open>simp_all del: fun_upd_apply\<close>)
      then show ?thesis unfolding 1(2) inv(6) using True Cons by simp
    qed
  qed
qed

lemma process_one:
  assumes "nt_message_rbf lib = Some 0" "area_blocks area \<noteq> []" "rbf_ok (ring0 k)"
    and "foldR (daemon_cb env flows k) (take 1 (rbf_contents (ring0 k))) out = Inr out'"
  obtains area' where "nt_message_process 1 (Some (daemon_cb env flows k)) lib (with_ring0 area k) out = Inr (area', out')"
    "rbf_ok (area_blocks area' ! 0)" "rbf_contents (area_blocks area' ! 0) = drop 1 (rbf_contents (ring0 k))"
proof -
  have a: "0 < length (area_blocks (with_ring0 area k))" "area_blocks (with_ring0 area k) ! 0 = ring0 k"
    using assms(2) by (simp_all add: with_ring0_def)
  from nt_message_process_runs [OF assms(1) a(1), of "daemon_cb env flows k" 1 out out'] assms(3,4) a(2)
  obtain rb' where "nt_message_process 1 (Some (daemon_cb env flows k)) lib (with_ring0 area k) out
      = Inr ((with_ring0 area k)\<lparr>area_blocks := (area_blocks (with_ring0 area k))[0 := rb']\<rparr>, out')"
    "rbf_ok rb'" "rbf_contents rb' = drop 1 (rbf_contents (ring0 k))" by metis
  then show thesis using a(1) that by simp
qed

lemma kern_ok_put_ring:
  assumes "kern_ok env k" "rbf_ok rb"
  shows "kern_ok env (put_ring0 rb k)" "identities (put_ring0 rb k) = identities k"
    "cpu0 (put_ring0 rb k) = (cpu0 k)\<lparr>cpu_rbfp := rb\<rparr>"
proof -
  have "nmsg_shape ((cpu0 k)\<lparr>cpu_rbfp := rb\<rparr>)" using assms by (simp add: kern_ok_def queues_ok_def nmsg_shape_def)
  from kern_ok_set_cpu [OF assms(1) this, of 0]
  show "kern_ok env (put_ring0 rb k)" "identities (put_ring0 rb k) = identities k" "cpu0 (put_ring0 rb k) = (cpu0 k)\<lparr>cpu_rbfp := rb\<rparr>"
    by (simp_all add: put_ring0_def)
qed

text \<open>One round of the daemon: the oldest message, if there is one, is printed.\<close>

lemma daemon_round:
  assumes "identities k = ids" "numbered (he_user_max env) ids" "set waiting \<subseteq> {..<length ids}" "in_ring env ids k waiting"
  shows "foldR (daemon_cb env flows k) (take 1 (rbf_contents (ring0 k))) out = Inr (out @ map Show_user (take 1 waiting))"
  using assms(4)
proof cases
  case (Cons slot slots j js)
  have "j < length ids" using assms(3) Cons by auto
  then show ?thesis using daemon_cb_shows [OF assms(1,2) _ Cons(3), of flows out] Cons by simp
qed simp

lemma inv_read_step:
  assumes "sys_inv env ids seen s" "numbered (he_user_max env) ids" "sys_step env s E_read s'"
  shows "sys_inv env ids seen s'"
  using assms(3)
proof cases
  case 1: (read lib area flows k out area' out' f early)
  from assms(1) obtain queued waiting printed where inv: "kern_ok env k" "identities k = ids" "dom f \<subseteq> {..<length (list0 k)}"
    "nodes_hold env ids f (list0 k) queued" "in_ring env ids k waiting" "out = map Show_user printed"
    "set (queued @ waiting @ printed) \<subseteq> {..<length ids}" "mset queued + mset waiting + mset printed \<subseteq># mset seen"
    unfolding 1(1) by (rule sys_invE)
  have rb: "rbf_ok (ring0 k)" using inv(1) by (simp add: kern_ok_def queues_ok_def nmsg_shape_def)
  have w: "set waiting \<subseteq> {..<length ids}" using inv(7) by simp
  let ?j = "take 1 waiting"
  from process_one [OF 1(3,4) rb daemon_round [OF inv(2) assms(2) w inv(5), of flows out]] 1(5)
  have r: "out' = out @ map Show_user ?j" "rbf_ok (area_blocks area' ! 0)"
    "rbf_contents (area_blocks area' ! 0) = drop 1 (rbf_contents (ring0 k))" by auto
  note k' = kern_ok_put_ring [OF inv(1) r(2)]
  have d: "in_ring env ids (put_ring0 (area_blocks area' ! 0) k) (drop 1 waiting)"
    unfolding k'(3) using list_all2_dropI [OF inv(5), of 1] r(3) by simp
  have m: "mset queued + mset (drop 1 waiting) + mset (printed @ ?j) \<subseteq># mset seen"
    using inv(8) by (cases waiting) (simp_all add: ac_simps)
  have s: "set (queued @ drop 1 waiting @ printed @ ?j) \<subseteq> {..<length ids}"
    using inv(7) by (cases waiting) auto
  have o: "out' = map Show_user (printed @ ?j)" using r(1) inv(6) by simp
  show ?thesis unfolding 1(2) o
    by (rule sys_invI [OF k'(1) _ _ _ d s m]) (use k' inv in simp_all)
qed

lemma inv_conf:
  assumes "sys_inv env ids seen s" "strtol_ok (env_strtol (he_conf env))" "sys_step env s E_conf s'"
  shows "sys_inv env ids seen s'"
  using assms(3)
proof cases
  case 1: (conf jiffies kz mem skb k cs f early out)
  from assms(1) obtain queued waiting printed where inv: "kern_ok env k" "identities k = ids" "dom f \<subseteq> {..<length (list0 k)}"
    "nodes_hold env ids f (list0 k) queued" "in_ring env ids k waiting" "out = map Show_user printed"
    "set (queued @ waiting @ printed) \<subseteq> {..<length ids}" "mset queued + mset waiting + mset printed \<subseteq># mset seen"
    unfolding 1(1) by (rule sys_invE)
  have "conf_state_ok (st_conf k)" using inv(1) by (simp add: kern_ok_def)
  from nl_recv_outcome [OF assms(2) this, where en = "he_endian env" and jiffies = jiffies and kz = kz and mem = mem and skb = skb] 1(3)
  have "conf_state_ok cs" by simp
  then have "kern_ok env (k\<lparr>st_conf := cs\<rparr>)" using inv(1) by (simp add: kern_ok_def)
  moreover have "identities (k\<lparr>st_conf := cs\<rparr>) = ids" using inv(2) by (simp add: identities_def)
  ultimately show ?thesis unfolding 1(2) inv(6)
    by (rule sys_invI [where queued = queued and waiting = waiting]) (use inv in simp_all)
qed

text \<open>What holds before the first packet.\<close>

definition sys_start :: "hook_env \<Rightarrow> sys_state \<Rightarrow> bool" where
  "sys_start env s \<longleftrightarrow> hook_ok env (sys_kern s) \<and> numbered (he_user_max env) (identities (sys_kern s))
     \<and> list0 (sys_kern s) = [] \<and> rbf_contents (ring0 (sys_kern s)) = [] \<and> sys_filling s = Map.empty \<and> sys_shown s = []"

lemma packet_users_snoc:
  "packet_users (es @ [e]) = packet_users es @ (case e of E_packet i \<Rightarrow> [i] | _ \<Rightarrow> [])"
  by (cases e) (simp_all add: packet_users_def List.map_filter_def)

lemma sys_step_early: "sys_step env s e s' \<Longrightarrow> sys_early s \<Longrightarrow> sys_early s'"
  by (erule sys_step.cases) simp_all

lemma inv_start:
  assumes "sys_start env s"
  shows "sys_inv env (identities (sys_kern s)) [] s"
proof -
  have "kern_ok env (sys_kern s)" using assms by (simp add: sys_start_def hook_ok_def kern_ok_def queues_ok_filled)
  then show ?thesis using assms by (simp add: sys_start_def sys_inv_def)
qed

lemma sys_run_inv:
  assumes "sys_run env s0 es s" "sys_start env s0" "strtol_ok (env_strtol (he_conf env))" "\<not> sys_early s"
  shows "sys_inv env (identities (sys_kern s0)) (packet_users es) s"
  using assms
proof (induction rule: sys_run.induct)
  case none
  then show ?case using inv_start by (simp add: packet_users_def List.map_filter_def)
next
  case (more es s e s')
  have n: "numbered (he_user_max env) (identities (sys_kern s0))" using more.prems(1) by (simp add: sys_start_def)
  have i: "sys_inv env (identities (sys_kern s0)) (packet_users es) s" using more sys_step_early by blast
  show ?case
  proof (cases e)
    case (E_packet u)
    then show ?thesis using inv_packet [OF i] more.hyps(2) by (simp add: packet_users_snoc)
  next
    case (E_fill p)
    then show ?thesis using inv_fill [OF i] more.hyps(2) by (simp add: packet_users_snoc)
  next
    case (E_work cpu)
    then show ?thesis using inv_work [OF i] more.hyps(2) more.prems(3) by (simp add: packet_users_snoc)
  next
    case (E_round cpu)
    then show ?thesis using inv_round [OF i] more.hyps(2) more.prems(3) by (simp add: packet_users_snoc)
  next
    case E_read
    then show ?thesis using inv_read_step [OF i n] more.hyps(2) by (simp add: packet_users_snoc)
  next
    case E_conf
    then show ?thesis using inv_conf [OF i more.prems(2)] more.hyps(2) by (simp add: packet_users_snoc)
  qed
qed

subsection \<open>Progress\<close>

lemma sys_run_append:
  assumes "sys_run env s es s'" "sys_run env s' fs s''"
  shows "sys_run env s (es @ fs) s''"
  using assms(2)
proof (induction rule: sys_run.induct)
  case none
  then show ?case using assms(1) by simp
next
  case (more fs t e t')
  then show ?case using sys_run.more [of env s "es @ fs" t e t'] by simp
qed

lemma sys_run_step: "sys_step env s e s' \<Longrightarrow> sys_run env s [e] s'"
  using sys_run.more [OF sys_run.none] by force

text \<open>Two states with as many nodes on CPU 0, the same ring and the same output.\<close>

definition same_work :: "sys_state \<Rightarrow> sys_state \<Rightarrow> bool" where
  "same_work s s' \<longleftrightarrow> length (list0 (sys_kern s')) = length (list0 (sys_kern s)) \<and> ring0 (sys_kern s') = ring0 (sys_kern s)
     \<and> sys_shown s' = sys_shown s \<and> sys_early s' = sys_early s"

lemma fill_one:
  assumes "sys_inv env ids seen s" "sys_filling s p = Some auth"
  shows "\<exists>m s'. fill_step env auth p (sys_kern s) = Inr m \<and> sys_step env s (E_fill p) s' \<and> same_work s s'
    \<and> sys_filling s' = (sys_filling s)(p := None)"
proof -
  obtain k f early out where s: "s = \<lparr>sys_kern = k, sys_filling = f, sys_early = early, sys_shown = out\<rparr>" by (cases s)
  from assms(1) [unfolded s] obtain queued where inv: "kern_ok env k" "dom f \<subseteq> {..<length (list0 k)}" "nodes_hold env ids f (list0 k) queued"
    by (rule sys_invE)
  have q: "queues_ok (he_nr_cpu_ids env) (st_msg k)" and p: "f p = Some auth" "p < length (list0 k)"
    using inv(1,2) assms(2) s by (auto simp: kern_ok_def)
  from nmsg_fill_cpu0 [OF q inv(3) p] obtain m where m: "fill_step env auth p k = Inr m" "cpu_rbfp (nmsg_cpus m ! 0) = ring0 k"
    "length (cpu_list (nmsg_cpus m ! 0)) = length (list0 k)" by blast
  from sys_step.fill [where f = f and p = p, OF p(1) m(1), of early out] m show ?thesis
    unfolding s by (intro exI [of _ m] exI conjI) (auto simp: same_work_def)
qed

lemma fill_all:
  assumes "sys_inv env ids seen s" "distinct ps" "set ps = dom (sys_filling s)"
  shows "\<exists>s'. sys_run env s (map E_fill ps) s' \<and> sys_inv env ids seen s' \<and> same_work s s' \<and> sys_filling s' = Map.empty"
  using assms
proof (induction ps arbitrary: s)
  case Nil
  then show ?case by (auto intro: sys_run.none simp: same_work_def)
next
  case (Cons p ps)
  then obtain auth where "sys_filling s p = Some auth" by auto
  from fill_one [OF Cons.prems(1) this] obtain s1 where s1: "sys_step env s (E_fill p) s1" "same_work s s1"
    "sys_filling s1 = (sys_filling s)(p := None)" by blast
  have "set ps = dom (sys_filling s1)" using Cons.prems(2,3) s1(3) by auto
  with Cons.IH [OF inv_fill [OF Cons.prems(1) s1(1)]] Cons.prems(2) obtain s' where s': "sys_run env s1 (map E_fill ps) s'"
    "sys_inv env ids seen s'" "same_work s1 s'" "sys_filling s' = Map.empty" by auto
  have "sys_run env s ([E_fill p] @ map E_fill ps) s'" by (rule sys_run_append [OF sys_run_step [OF s1(1)] s'(1)])
  then show ?case using s'(2-4) s1(2) by (auto simp: same_work_def)
qed

lemma work_step:
  assumes "sys_inv env ids seen s" "sys_filling s = Map.empty"
  obtains s' where "sys_step env s (E_work 0) s'" "sys_shown s' = sys_shown s" "sys_early s' = sys_early s" "list0 (sys_kern s') = []"
    "length (rbf_contents (ring0 (sys_kern s'))) = length (rbf_contents (ring0 (sys_kern s)))
       + min (rbf_capacity (ring0 (sys_kern s)) - length (rbf_contents (ring0 (sys_kern s)))) (length (list0 (sys_kern s)))"
proof -
  obtain k f early out where s: "s = \<lparr>sys_kern = k, sys_filling = f, sys_early = early, sys_shown = out\<rparr>" by (cases s)
  have f: "f = Map.empty" using assms(2) s by simp
  from assms(1) [unfolded s] obtain queued where inv: "kern_ok env k" "nodes_hold env ids f (list0 k) queued" by (rule sys_invE)
  have nr: "0 < he_nr_cpu_ids env" using inv(1) by (simp add: kern_ok_def queues_ok_def)
  let ?r = "rbf_capacity (ring0 k) - length (rbf_contents (ring0 k))"
  obtain q slots where w: "nmsg_wq_dequeue_func 0 (st_msg k) = Inr (set_cpu (st_msg k) 0 q)"
    and q: "nmsg_shape q" "cpu_list q = []" "rbf_contents (cpu_rbfp q) = rbf_contents (ring0 k) @ slots"
    "list_all2 (\<lambda>slot j. carries slot (keep_alive env ids j)) slots (take ?r queued)"
    by (rule nmsg_work_cpu0 [OF inv(1) inv(2) [unfolded f]])
  show thesis
    by (rule that [OF sys_step.work [OF nr w, where f = f and early = early and out = out, folded s]])
      (use kern_ok_set_cpu [OF inv(1) q(1), of 0] q(2,3) list_all2_lengthD [OF q(4)] nodes_hold_length [OF inv(2)] s f
        in \<open>simp_all add: min.commute\<close>)
qed

lemma read_step:
  assumes "sys_inv env ids seen s" "numbered (he_user_max env) ids"
    and "nt_message_rbf lib = Some 0" "area_blocks area \<noteq> []"
  obtains area' out' s' where
    "nt_message_process 1 (Some (daemon_cb env flows (sys_kern s))) lib (with_ring0 area (sys_kern s)) (sys_shown s) = Inr (area', out')"
    "sys_step env s E_read s'" "list0 (sys_kern s') = list0 (sys_kern s)" "sys_early s' = sys_early s"
    "rbf_contents (ring0 (sys_kern s')) = drop 1 (rbf_contents (ring0 (sys_kern s)))"
    "length (sys_shown s') = length (sys_shown s) + min 1 (length (rbf_contents (ring0 (sys_kern s))))"
proof -
  obtain k f early out where s: "s = \<lparr>sys_kern = k, sys_filling = f, sys_early = early, sys_shown = out\<rparr>" by (cases s)
  from assms(1) [unfolded s] obtain queued waiting printed where inv: "kern_ok env k" "identities k = ids"
    "in_ring env ids k waiting" "set (queued @ waiting @ printed) \<subseteq> {..<length ids}"
    by (rule sys_invE)
  have w: "set waiting \<subseteq> {..<length ids}" using inv(4) by simp
  have rb: "rbf_ok (ring0 k)" using inv(1) by (auto simp: kern_ok_def queues_ok_def nmsg_shape_def)
  obtain area' where r: "nt_message_process 1 (Some (daemon_cb env flows k)) lib (with_ring0 area k) out
      = Inr (area', out @ map Show_user (take 1 waiting))" "rbf_ok (area_blocks area' ! 0)"
    "rbf_contents (area_blocks area' ! 0) = drop 1 (rbf_contents (ring0 k))"
    by (rule process_one [OF assms(3,4) rb daemon_round [OF inv(2) assms(2) w inv(3)]])
  note k' = kern_ok_put_ring [OF inv(1) r(2)]
  show thesis
    by (rule that [OF _ sys_step.read [OF assms(3,4) r(1), where f = f and early = early, folded s]])
      (use r k' list_all2_lengthD [OF inv(3)] s in \<open>simp_all add: min.commute\<close>)
qed

lemma sys_run_reads:
  assumes "sys_inv env ids seen s" "numbered (he_user_max env) ids"
  shows "\<exists>s'. sys_run env s (replicate n E_read) s' \<and> sys_inv env ids seen s'
    \<and> list0 (sys_kern s') = list0 (sys_kern s) \<and> sys_early s' = sys_early s
    \<and> rbf_contents (ring0 (sys_kern s')) = drop n (rbf_contents (ring0 (sys_kern s)))
    \<and> length (sys_shown s') = length (sys_shown s) + min n (length (rbf_contents (ring0 (sys_kern s))))"
proof (induction n)
  case 0
  then show ?case using assms(1) by (auto intro: sys_run.none)
next
  case (Suc n)
  then obtain s1 where s1: "sys_run env s (replicate n E_read) s1" "sys_inv env ids seen s1"
    "list0 (sys_kern s1) = list0 (sys_kern s)" "sys_early s1 = sys_early s"
    "rbf_contents (ring0 (sys_kern s1)) = drop n (rbf_contents (ring0 (sys_kern s)))"
    "length (sys_shown s1) = length (sys_shown s) + min n (length (rbf_contents (ring0 (sys_kern s))))" by blast
  obtain lib :: nt_lib where lib: "nt_message_rbf lib = Some 0" using that [of "undefined\<lparr>nt_message_rbf := Some 0\<rparr>"] by simp
  obtain area :: shm_area where area: "area_blocks area \<noteq> []" using that [of "undefined\<lparr>area_blocks := [undefined]\<rparr>"] by simp
  obtain s' where r: "sys_step env s1 E_read s'" "list0 (sys_kern s') = list0 (sys_kern s1)" "sys_early s' = sys_early s1"
    "rbf_contents (ring0 (sys_kern s')) = drop 1 (rbf_contents (ring0 (sys_kern s1)))"
    "length (sys_shown s') = length (sys_shown s1) + min 1 (length (rbf_contents (ring0 (sys_kern s1))))"
    by (rule read_step [OF s1(2) assms(2) lib area])
  have "sys_run env s (replicate n E_read @ [E_read]) s'" by (rule sys_run.more [OF s1(1) r(1)])
  then have "sys_run env s (replicate (Suc n) E_read) s'" by (simp add: replicate_append_same)
  then show ?case using inv_read_step [OF s1(2) assms(2) r(1)] r(2-5) s1(3-6) by (intro exI [of _ s']) auto
qed

text \<open>Filling, working and reading, in this order.\<close>

lemma sys_drains:
  assumes "sys_inv env ids seen s" "numbered (he_user_max env) ids" "\<not> sys_early s"
    and "distinct ps" "set ps = dom (sys_filling s)" "rbf_capacity (ring0 (sys_kern s)) \<le> n"
  shows "\<exists>s'. sys_run env s (map E_fill ps @ E_work 0 # replicate n E_read) s' \<and> \<not> sys_early s'
    \<and> list0 (sys_kern s') = [] \<and> rbf_contents (ring0 (sys_kern s')) = []
    \<and> length (sys_shown s') = length (sys_shown s) + min (rbf_capacity (ring0 (sys_kern s)))
        (length (rbf_contents (ring0 (sys_kern s))) + length (list0 (sys_kern s)))"
proof -
  let ?rb = "ring0 (sys_kern s)"
  have "rbf_ok ?rb" using assms(1) by (simp add: sys_inv_def kern_ok_def queues_ok_def nmsg_shape_def)
  then have cap: "length (rbf_contents ?rb) \<le> rbf_capacity ?rb" by (simp add: rbf_used_le)
  obtain s1 where s1: "sys_run env s (map E_fill ps) s1" "sys_inv env ids seen s1" "same_work s s1" "sys_filling s1 = Map.empty"
    using fill_all [OF assms(1,4,5)] by blast
  obtain s2 where s2: "sys_step env s1 (E_work 0) s2" "sys_shown s2 = sys_shown s" "\<not> sys_early s2" "list0 (sys_kern s2) = []"
    "length (rbf_contents (ring0 (sys_kern s2))) = length (rbf_contents ?rb)
       + min (rbf_capacity ?rb - length (rbf_contents ?rb)) (length (list0 (sys_kern s)))"
    by (rule work_step [OF s1(2,4)]) (use s1(3) assms(3) in \<open>simp add: same_work_def\<close>)
  from sys_run_reads [OF inv_work [OF s1(2) s2(1,3)] assms(2), of n] obtain s' where s': "sys_run env s2 (replicate n E_read) s'"
    "list0 (sys_kern s') = []" "\<not> sys_early s'" "rbf_contents (ring0 (sys_kern s')) = drop n (rbf_contents (ring0 (sys_kern s2)))"
    "length (sys_shown s') = length (sys_shown s2) + min n (length (rbf_contents (ring0 (sys_kern s2))))"
    using s2(3,4) by auto
  have "sys_run env s (map E_fill ps @ [E_work 0] @ replicate n E_read) s'"
    by (intro sys_run_append [OF s1(1)] sys_run_append [OF sys_run_step [OF s2(1)] s'(1)])
  then show ?thesis using s'(2-5) s2(2,5) cap assms(6) by (intro exI [of _ s']) (auto simp: min_def)
qed

subsection \<open>A run\<close>

definition demo_online :: nt_state where
  "demo_online = demo_hook_state\<lparr>st_users := [demo_user\<lparr>ui_id := 0, ui_hdr := (ui_hdr demo_user)\<lparr>hdr_flags := 3\<rparr>\<rparr>]\<rparr>"

lemma demo_online_ok: "hook_ok demo_hook_env demo_online"
  using demo_hook_ok by (simp add: hook_ok_def demo_online_def demo_hook_state_def users_ok_def demo_hook_env_def)

abbreviation demo_sys_state :: sys_state where
  "demo_sys_state \<equiv> \<lparr>sys_kern = demo_online, sys_filling = Map.empty, sys_early = False, sys_shown = []\<rparr>"

lemma demo_cpu0: "cpu0 demo_online = demo_cpu" "cpu_list demo_cpu = []"
  by (simp_all add: demo_online_def demo_hook_state_def demo_state_def demo_cpu_def)

lemma demo_sys_start: "sys_start demo_hook_env demo_sys_state" "strtol_ok (env_strtol (he_conf demo_hook_env))"
proof -
  have "numbered (he_user_max demo_hook_env) (identities demo_online)"
    by (simp add: numbered_def identities_def demo_online_def demo_hook_env_def)
  then show "sys_start demo_hook_env demo_sys_state" using demo_online_ok demo_ok demo_cpu0 by (simp add: sys_start_def)
  show "strtol_ok (env_strtol (he_conf demo_hook_env))"
    by (auto simp: demo_hook_env_def demo_env_def strtol_ok_def Suc_le_eq)
qed

text \<open>One packet of the user, up to the release of the lock.\<close>

lemma demo_sys_packet:
  "\<exists>k auth. sys_run demo_hook_env demo_sys_state [E_packet 0] \<lparr>sys_kern = k, sys_filling = [0 \<mapsto> auth], sys_early = False, sys_shown = []\<rparr>
     \<and> length (list0 k) = 1 \<and> ring0 k = cpu_rbfp demo_cpu"
proof -
  let ?dev = "\<lparr>dev_index = 1, dev_name = ''br-lan''\<rparr>"
  let ?link = "ntrack_hook_link demo_hook_env demo_alloc 9000 (Some demo_conn) demo_fw ?dev None demo_online"
  have a: "length (dev_name ?dev) < IFNAMSIZ" "\<forall>n. al_node demo_alloc = Some n \<longrightarrow> length (node_buff n) = RBF_NODE_SIZE"
    "ct_nos demo_conn = Some \<lparr>trk_flow = None, trk_user = Some 0, trk_peer = None\<rparr>"
    "trk_user \<lparr>trk_flow = None, trk_user = Some 0, trk_peer = None\<rparr> = Some 0" "0 < length (st_users demo_online)"
    using demo_ok(2) by (simp_all add: demo_online_def)
  have ok: "kern_ok demo_hook_env demo_online" using demo_online_ok by (simp add: hook_ok_def kern_ok_def queues_ok_filled)
  have "case user_need_redirect (he_conf demo_hook_env) (st_conf demo_online) (st_users demo_online ! 0) demo_fw of
      Inl _ \<Rightarrow> False | Inr (r, u) \<Rightarrow> user_timeout (he_HZ demo_hook_env) 9000 u \<and> AUTH_OK \<le> nt_auth_status (snd (user_update_timestamp 9000 u))"
    by code_simp
  then obtain r u where u: "user_need_redirect (he_conf demo_hook_env) (st_conf demo_online) (st_users demo_online ! 0) demo_fw = Inr (r, u)"
    "user_timeout (he_HZ demo_hook_env) 9000 u" "AUTH_OK \<le> nt_auth_status (snd (user_update_timestamp 9000 u))"
    by (auto split: sum.splits)
  have nf: "\<not> ct_untracked demo_conn" "\<not> l3filter (env_ipv4 (he_conf demo_hook_env))
      \<lparr>ip_ihl = 5, ip_version = 4, ip_tot_len = 44, ip_protocol = 6, ip_saddr = 0xc0a80102, ip_daddr = 0x08080808\<rparr>"
    by simp code_simp
  have n: "\<exists>m. nmsg_enqueue_link (he_nr_cpu_ids demo_hook_env) (al_node demo_alloc) (nmsg_hdr_init 3 8) 0 (st_msg demo_online) = Inr (0, m)"
    by (simp add: nmsg_enqueue_link_def KEY_TO_CORE_def nmsg_target_cpu_def demo_hook_env_def demo_online_def demo_hook_state_def
        demo_state_def demo_cpu_def nmsg_hdr_init_def)
  obtain auth k where l: "?link = Inr (Some auth, k)"
    by (rule hook_decided [OF demo_online_ok demo_fw_linear a(1,3-5) nf(1) demo_fw_hdr nf(2) u(1), of demo_alloc None])
      (use n u(2,3) that in \<open>auto simp: ntrack_hook_link_def report_due_def Let_def set_user_def\<close>)
  have e: "link_effect demo_hook_env 0 demo_online (Some auth) k"
    using hook_link_queues [OF ok demo_fw_linear a, of 9000 None] l by auto
  from sys_step.packet [OF demo_fw_linear a l, of Map.empty False "[]"]
  have "sys_run demo_hook_env demo_sys_state [E_packet 0] \<lparr>sys_kern = k, sys_filling = [0 \<mapsto> auth], sys_early = False, sys_shown = []\<rparr>"
    using demo_cpu0 by (intro sys_run_step) simp
  then show ?thesis using e demo_cpu0 by (auto simp: link_effect_def)
qed

text \<open>The same, and then filled, handed over and read.\<close>

lemma demo_sys_shown:
  "\<exists>s. sys_run demo_hook_env demo_sys_state ([E_packet 0] @ map E_fill [0] @ E_work 0 # replicate 3 E_read) s
     \<and> \<not> sys_early s \<and> length (sys_shown s) = 1"
proof -
  obtain k auth where k: "sys_run demo_hook_env demo_sys_state [E_packet 0]
      \<lparr>sys_kern = k, sys_filling = [0 \<mapsto> auth], sys_early = False, sys_shown = []\<rparr>" "length (list0 k) = 1" "ring0 k = cpu_rbfp demo_cpu"
    using demo_sys_packet by blast
  have num: "numbered (he_user_max demo_hook_env) (identities (sys_kern demo_sys_state))" using demo_sys_start(1) by (simp add: sys_start_def)
  from sys_drains [OF sys_run_inv [OF k(1) demo_sys_start] num, of "[0]" 3] k(2,3) demo_ok(4,5)
  obtain s where s: "sys_run demo_hook_env \<lparr>sys_kern = k, sys_filling = [0 \<mapsto> auth], sys_early = False, sys_shown = []\<rparr>
      (map E_fill [0] @ E_work 0 # replicate 3 E_read) s" "\<not> sys_early s" "length (sys_shown s) = 1" by auto
  show ?thesis by (intro exI [of _ s] conjI sys_run_append [OF k(1) s(1)] s(2,3))
qed

subsection \<open>Properties\<close>

text \<open>
  C4.  The daemon never shows a user that did not send.  In every run of the system - the two
  halves of the hook, work items and their single rounds, reading rounds and configurations in
  any order - in which no worker took a node from the list of CPU 0 before its message was
  written into it, everything the daemon prints is a user of the table (never an unknown message
  or a user that is not found), and no user is shown more often than packets of that user were
  seen; the identities and magic numbers of the table are those of the start.
\<close>

theorem sys_shows_senders:
  assumes "sys_start env s0" "strtol_ok (env_strtol (he_conf env))" "sys_run env s0 es s" "\<not> sys_early s"
  shows "\<exists>users. sys_shown s = map Show_user users \<and> mset users \<subseteq># mset (packet_users es)
    \<and> set users \<subseteq> {..<length (st_users (sys_kern s))} \<and> identities (sys_kern s) = identities (sys_kern s0)"
proof -
  from sys_run_inv [OF assms(3,1,2,4)] obtain queued waiting printed where inv: "identities (sys_kern s) = identities (sys_kern s0)"
    "sys_shown s = map Show_user printed" "set (queued @ waiting @ printed) \<subseteq> {..<length (identities (sys_kern s0))}"
    "mset queued + mset waiting + mset printed \<subseteq># mset (packet_users es)"
    unfolding sys_inv_def by blast
  have "length (identities (sys_kern s0)) = length (st_users (sys_kern s))"
    using arg_cong [OF inv(1), of length] by (simp add: identities_def)
  then show ?thesis
    using inv subset_mset.order_trans [OF mset_subset_eq_add_right inv(4)] by (intro exI [of _ printed]) simp
qed

theorem sys_shows_senders_witness:
  "\<exists>s. sys_run demo_hook_env demo_sys_state [E_packet 0, E_fill 0, E_work 0, E_read, E_read, E_read] s \<and> \<not> sys_early s
     \<and> sys_shown s = [Show_user 0] \<and> identities (sys_kern s) = identities demo_online"
proof -
  obtain s where s: "sys_run demo_hook_env demo_sys_state ([E_packet 0] @ map E_fill [0] @ E_work 0 # replicate 3 E_read) s"
    "\<not> sys_early s" "length (sys_shown s) = 1" using demo_sys_shown by blast
  have "packet_users ([E_packet 0] @ map E_fill [0] @ E_work 0 # replicate 3 E_read) = [0]"
    by (simp add: packet_users_def List.map_filter_def numeral_3_eq_3)
  with sys_shows_senders [OF demo_sys_start s(1,2)] obtain users where u: "sys_shown s = map Show_user users" "mset users \<subseteq># {#0#}"
    "identities (sys_kern s) = identities demo_online" by auto
  then have "users = [0]" using s(3) by (cases users) (auto simp: subseteq_mset_def split: if_splits)
  then show ?thesis using s(1,2) u by (intro exI [of _ s]) (simp add: numeral_3_eq_3)
qed



text \<open>
  C11.  Whatever is under way gets through, up to the size of the ring.  From every state that a
  run reaches in which no worker took an unwritten node, when the hooks that have linked a node
  fill it, in any order, the work item of CPU 0 then runs and the daemon reads as many rounds as
  the ring has room for, the list and the ring are empty, and the daemon has shown exactly as
  many more users as there were messages in both, but not more than the ring holds: what did
  not fit is lost.
\<close>

theorem sys_delivers:
  assumes "sys_start env s0" "strtol_ok (env_strtol (he_conf env))" "sys_run env s0 es s" "\<not> sys_early s"
    and "distinct ps" "set ps = dom (sys_filling s)" "rbf_capacity (ring0 (sys_kern s)) \<le> n"
  shows "\<exists>s'. sys_run env s (map E_fill ps @ E_work 0 # replicate n E_read) s'
    \<and> list0 (sys_kern s') = [] \<and> rbf_contents (ring0 (sys_kern s')) = []
    \<and> length (sys_shown s') = length (sys_shown s) + min (rbf_capacity (ring0 (sys_kern s)))
        (length (rbf_contents (ring0 (sys_kern s))) + length (list0 (sys_kern s)))"
proof -
  have num: "numbered (he_user_max env) (identities (sys_kern s0))" using assms(1) by (simp add: sys_start_def)
  from sys_drains [OF sys_run_inv [OF assms(3,1,2,4)] num assms(4-7)] show ?thesis by blast
qed

theorem sys_delivers_witness:
  "\<exists>k auth s'. sys_run demo_hook_env demo_sys_state [E_packet 0] \<lparr>sys_kern = k, sys_filling = [0 \<mapsto> auth], sys_early = False, sys_shown = []\<rparr>
     \<and> sys_run demo_hook_env \<lparr>sys_kern = k, sys_filling = [0 \<mapsto> auth], sys_early = False, sys_shown = []\<rparr>
         (E_fill 0 # E_work 0 # replicate 3 E_read) s'
     \<and> list0 (sys_kern s') = [] \<and> length (sys_shown s') = 1"
proof -
  obtain k auth where k: "sys_run demo_hook_env demo_sys_state [E_packet 0]
      \<lparr>sys_kern = k, sys_filling = [0 \<mapsto> auth], sys_early = False, sys_shown = []\<rparr>" "length (list0 k) = 1" "ring0 k = cpu_rbfp demo_cpu"
    using demo_sys_packet by blast
  from sys_delivers [OF demo_sys_start k(1), of "[0]" 3] k demo_ok(4,5) show ?thesis by auto
qed

end
