(* ===== verification/NosUsers.thy ===== *)
theory NosUsers
  imports Bytes
begin

text \<open>
  The user table of the \<open>nos\<close> driver, \<open>drivers/nos/src/nos_config.c\<close> and \<open>nos.h\<close>: a hash table
  keyed by hardware addresses, with the global state around it (status, timer, configuration).
  A bucket is the list of its nodes, first one first; a pointer to a node is its bucket and its
  position there.  The hash function \<open>jhash\<close> of the kernel is an argument.  The theory shows that
  the table is a finite map (interface \<open>mac_table\<close>).
\<close>

subsection \<open>Data\<close>

abbreviation (input) ETH_ALEN :: nat where "ETH_ALEN \<equiv> 6"
abbreviation (input) NOS_MAX_USER :: nat where "NOS_MAX_USER \<equiv> 32768"
abbreviation (input) NOS_TIMER_INTERVAL :: u32 where "NOS_TIMER_INTERVAL \<equiv> 1000"

record user_node =
  un_ip :: u32
  un_jf :: u32
  un_status :: u32
  un_mac :: bytes

datatype nos_status = NOS_STATUS_STOP | NOS_STATUS_RUN

text \<open>The timer: the time of its initialisation and, while it is pending, when it expires.\<close>

record nos_timer =
  tm_jiffies :: u32
  tm_expires :: "u32 option"

record nos_global =
  g_timer :: nos_timer
  g_status :: nos_status
  g_users :: "nat \<Rightarrow> user_node list"

subsection \<open>The hash table\<close>

definition hash_num :: "(bytes \<Rightarrow> u32) \<Rightarrow> bytes \<Rightarrow> nat" where
  "hash_num jhash mac = unat (jhash mac) mod NOS_MAX_USER"

definition user_hash_init :: "nos_global \<Rightarrow> nos_global" where
  "user_hash_init g = g\<lparr>g_users := \<lambda>i. if i < NOS_MAX_USER then [] else g_users g i\<rparr>"

fun bucket_find :: "bytes \<Rightarrow> user_node list \<Rightarrow> nat option" where
  "bucket_find mac [] = None"
| "bucket_find mac (p # ps) = (if un_mac p = mac then Some 0 else map_option Suc (bucket_find mac ps))"

definition user_hash_find :: "(bytes \<Rightarrow> u32) \<Rightarrow> nos_global \<Rightarrow> bytes \<Rightarrow> (nat \<times> nat) option" where
  "user_hash_find jhash g mac =
     (let bkt = hash_num jhash mac in map_option (Pair bkt) (bucket_find mac (g_users g bkt)))"

definition user_hash_add :: "(bytes \<Rightarrow> u32) \<Rightarrow> user_node \<Rightarrow> nos_global \<Rightarrow> int \<times> nos_global" where
  "user_hash_add jhash n g =
     (if user_hash_find jhash g (un_mac n) \<noteq> None then (0, g)
      else let bkt = hash_num jhash (un_mac n)
           in (1, g\<lparr>g_users := (g_users g)(bkt := n # g_users g bkt)\<rparr>))"

text \<open>The loop of \<open>user_hash_del\<close>: unlink and free the first match.\<close>

fun bucket_del :: "bytes \<Rightarrow> user_node list \<Rightarrow> user_node list option" where
  "bucket_del mac [] = None"
| "bucket_del mac (p # ps) = (if un_mac p = mac then Some ps else map_option ((#) p) (bucket_del mac ps))"

definition user_hash_del :: "(bytes \<Rightarrow> u32) \<Rightarrow> bytes \<Rightarrow> nos_global \<Rightarrow> (int \<times> nos_global) result" where
  "user_hash_del jhash mac g =
     (if user_hash_find jhash g mac = None then Inr (0, g)
      else let bkt = hash_num jhash mac
           in case bucket_del mac (g_users g bkt) of
                Some ps \<Rightarrow> Inr (1, g\<lparr>g_users := (g_users g)(bkt := ps)\<rparr>)
              | None \<Rightarrow> Inl Assert_failed)"

text \<open>\<open>user_hash_fini\<close> frees all nodes; the second component is what it frees, in order.\<close>

definition user_hash_fini :: "nos_global \<Rightarrow> nos_global \<times> user_node list" where
  "user_hash_fini g = (g\<lparr>g_users := \<lambda>i. if i < NOS_MAX_USER then [] else g_users g i\<rparr>,
     concat (map (g_users g) [0..<NOS_MAX_USER]))"

text \<open>\<open>user_hash_show\<close>: the nodes it prints, in the order of the buckets.\<close>

definition user_hash_show :: "nos_global \<Rightarrow> user_node list" where
  "user_hash_show g = concat (map (g_users g) [0..<NOS_MAX_USER])"

text \<open>The node behind a pointer, and storing to it.\<close>

definition node_at :: "nos_global \<Rightarrow> nat \<times> nat \<Rightarrow> user_node" where
  "node_at g p = g_users g (fst p) ! snd p"

definition set_node :: "nat \<times> nat \<Rightarrow> user_node \<Rightarrow> nos_global \<Rightarrow> nos_global" where
  "set_node p n g = g\<lparr>g_users := (g_users g)(fst p := (g_users g (fst p))[snd p := n])\<rparr>"

subsection \<open>Timer and global state\<close>

definition nos_status_set :: "nos_status \<Rightarrow> nos_global \<Rightarrow> nos_global" where
  "nos_status_set st g = g\<lparr>g_status := st\<rparr>"

definition nos_status_is :: "nos_status \<Rightarrow> nos_global \<Rightarrow> bool" where
  "nos_status_is st g \<longleftrightarrow> g_status g = st"

definition nos_timer_init :: "u32 \<Rightarrow> nos_timer \<Rightarrow> nos_timer" where
  "nos_timer_init jiffies t = t\<lparr>tm_jiffies := jiffies, tm_expires := Some (jiffies + NOS_TIMER_INTERVAL)\<rparr>"

text \<open>The timer function runs when the timer expires and starts it again.\<close>

definition nos_timer_func :: "u32 \<Rightarrow> nos_global \<Rightarrow> nos_global" where
  "nos_timer_func jiffies g = g\<lparr>g_timer := (g_timer g)\<lparr>tm_expires := Some (jiffies + 30 * NOS_TIMER_INTERVAL)\<rparr>\<rparr>"

definition nos_timer_cleanup :: "nos_timer \<Rightarrow> nos_timer" where
  "nos_timer_cleanup t = t\<lparr>tm_expires := None\<rparr>"

definition zero_global :: nos_global where
  "zero_global = \<lparr>g_timer = \<lparr>tm_jiffies = 0, tm_expires = None\<rparr>, g_status = NOS_STATUS_STOP, g_users = \<lambda>_. []\<rparr>"

definition nos_global_init :: "u32 \<Rightarrow> nos_global \<Rightarrow> nos_global" where
  "nos_global_init jiffies g =
     (let g0 = zero_global;
          g1 = g0\<lparr>g_timer := nos_timer_init jiffies (g_timer g0)\<rparr>
      in nos_status_set NOS_STATUS_RUN (user_hash_init g1))"

text \<open>\<open>nos_global_set_config\<close> and \<open>nos_config_cleanup\<close> change nothing.\<close>

definition nos_global_cleanup :: "nos_global \<Rightarrow> nos_global \<times> user_node list" where
  "nos_global_cleanup g =
     (let g1 = nos_status_set NOS_STATUS_STOP g;
          g2 = g1\<lparr>g_timer := nos_timer_cleanup (g_timer g1)\<rparr>
      in user_hash_fini g2)"

definition check_dir :: "string option \<Rightarrow> string option \<Rightarrow> bool" where
  "check_dir inname outname = (case (inname, outname) of
      (Some i, Some out) \<Rightarrow> take 6 i = ''br-lan'' \<and> take 6 out = ''eth0.5''
    | _ \<Rightarrow> False)"

text \<open>
  Writing the \<open>sysfs\<close> attribute does nothing and then tests a variable that was never set.
\<close>

definition nos_sysfs_attr_store :: "nat \<Rightarrow> int result" where
  "nos_sysfs_attr_store count = bindR (Inl Uninit_read) (\<lambda>ret. Inr (if ret < 0 then ret else int count))"

subsection \<open>The table as a map\<close>

definition user_lookup :: "(bytes \<Rightarrow> u32) \<Rightarrow> nos_global \<Rightarrow> bytes \<rightharpoonup> user_node" where
  "user_lookup jhash g mac = map_option (node_at g) (user_hash_find jhash g mac)"

definition user_hash_ok :: "(bytes \<Rightarrow> u32) \<Rightarrow> nos_global \<Rightarrow> bool" where
  "user_hash_ok jhash g \<longleftrightarrow>
     (\<forall>b. distinct (map un_mac (g_users g b)) \<and> (\<forall>n \<in> set (g_users g b). hash_num jhash (un_mac n) = b))"

lemma hash_num_less: "hash_num jhash mac < NOS_MAX_USER"
  by (simp add: hash_num_def)

lemma bucket_find_Some: "bucket_find mac ps = Some k \<Longrightarrow> k < length ps \<and> un_mac (ps ! k) = mac"
  by (induction ps arbitrary: k) (auto split: if_splits)

lemma bucket_find_None: "bucket_find mac ps = None \<longleftrightarrow> mac \<notin> un_mac ` set ps"
  by (induction ps) auto

lemma bucket_map_of:
  "map_option ((!) ps) (bucket_find mac ps) = map_of (map (\<lambda>n. (un_mac n, n)) ps) mac"
  by (induction ps) (auto simp: option.map_comp comp_def)

lemma user_lookup_map_of: "user_lookup jhash g mac = map_of (map (\<lambda>n. (un_mac n, n)) (g_users g (hash_num jhash mac))) mac"
proof -
  have "user_lookup jhash g mac = map_option ((!) (g_users g (hash_num jhash mac))) (bucket_find mac (g_users g (hash_num jhash mac)))"
    by (cases "bucket_find mac (g_users g (hash_num jhash mac))") (simp_all add: user_lookup_def user_hash_find_def node_at_def Let_def)
  then show ?thesis by (simp add: bucket_map_of)
qed

lemma user_hash_find_None: "user_hash_find jhash g mac = None \<longleftrightarrow> user_lookup jhash g mac = None"
  by (simp add: user_lookup_def)

text \<open>A node that is found is a node of the table with that address.\<close>

lemma user_hash_find_Some:
  assumes "user_hash_find jhash g mac = Some p"
  shows "fst p = hash_num jhash mac" "snd p < length (g_users g (fst p))" "un_mac (node_at g p) = mac"
    "user_lookup jhash g mac = Some (node_at g p)"
  using assms bucket_find_Some by (auto simp: user_hash_find_def node_at_def user_lookup_def Let_def)

text \<open>\<open>user_hash_show\<close> prints every user of the table and nobody else.\<close>

lemma user_hash_show_users:
  assumes "user_hash_ok jhash g"
  shows "set (user_hash_show g) = ran (user_lookup jhash g)"
proof -
  have 1: "n \<in> ran (user_lookup jhash g)" if "n \<in> set (g_users g b)" for n b
  proof -
    have b: "hash_num jhash (un_mac n) = b" "distinct (map un_mac (g_users g b))"
      using assms that by (auto simp: user_hash_ok_def)
    have "map_of (map (\<lambda>n. (un_mac n, n)) (g_users g b)) (un_mac n) = Some n"
      using that b(2) by (intro map_of_is_SomeI) (auto simp: comp_def)
    then show ?thesis using b(1) by (auto simp: ran_def user_lookup_map_of)
  qed
  have 2: "\<exists>b \<in> {0..<NOS_MAX_USER}. n \<in> set (g_users g b)" if n: "n \<in> ran (user_lookup jhash g)" for n
  proof -
    obtain mac where "user_lookup jhash g mac = Some n" using n by (auto simp: ran_def)
    then have "n \<in> set (g_users g (hash_num jhash mac))"
      by (auto simp: user_lookup_map_of dest: map_of_SomeD)
    moreover have "hash_num jhash mac \<in> {0..<NOS_MAX_USER}" using hash_num_less by simp
    ultimately show ?thesis by blast
  qed
  have "set (user_hash_show g) = (\<Union>b \<in> {0..<NOS_MAX_USER}. set (g_users g b))"
    unfolding user_hash_show_def set_concat set_map set_upt image_image by (rule refl)
  then show ?thesis using 1 2 by (metis (no_types, lifting) UN_iff subsetI subset_antisym)
qed

lemma bucket_del_filter:
  "distinct (map un_mac ps) \<Longrightarrow> mac \<in> un_mac ` set ps \<Longrightarrow> bucket_del mac ps = Some (filter (\<lambda>n. un_mac n \<noteq> mac) ps)"
proof (induction ps)
  case (Cons p ps)
  show ?case
  proof (cases "un_mac p = mac")
    case True
    then have "filter (\<lambda>n. un_mac n \<noteq> mac) ps = ps" using Cons.prems(1) by (auto simp: image_iff intro!: filter_True)
    then show ?thesis using True by simp
  qed (use Cons in auto)
qed simp

lemma map_of_filter_mac:
  "map_of (map (\<lambda>n. (un_mac n, n)) (filter (\<lambda>n. un_mac n \<noteq> mac) ps)) = (map_of (map (\<lambda>n. (un_mac n, n)) ps))(mac := None)"
  by (induction ps) auto

lemma user_hash_add_lookup:
  "user_lookup jhash (snd (user_hash_add jhash n g)) =
     (if user_lookup jhash g (un_mac n) = None then (user_lookup jhash g)(un_mac n \<mapsto> n) else user_lookup jhash g)"
  by (auto simp: user_hash_add_def user_hash_find_None user_lookup_map_of Let_def)

lemma user_hash_add_ok: "user_hash_ok jhash g \<Longrightarrow> user_hash_ok jhash (snd (user_hash_add jhash n g))"
  by (auto simp: user_hash_add_def user_hash_ok_def user_hash_find_def bucket_find_None Let_def)

lemma user_hash_del_runs:
  assumes "user_hash_ok jhash g"
  shows "user_hash_del jhash mac g = Inr (if user_lookup jhash g mac = None then (0, g)
    else (1, g\<lparr>g_users := (g_users g)(hash_num jhash mac := filter (\<lambda>n. un_mac n \<noteq> mac) (g_users g (hash_num jhash mac)))\<rparr>))"
proof (cases "user_lookup jhash g mac")
  case None
  then show ?thesis by (simp add: user_hash_del_def user_hash_find_None)
next
  case (Some n)
  have "distinct (map un_mac (g_users g (hash_num jhash mac)))" using assms by (simp add: user_hash_ok_def)
  moreover have "mac \<in> un_mac ` set (g_users g (hash_num jhash mac))"
    using Some by (force simp: user_lookup_map_of dest: map_of_SomeD)
  ultimately have "bucket_del mac (g_users g (hash_num jhash mac)) = Some (filter (\<lambda>n. un_mac n \<noteq> mac) (g_users g (hash_num jhash mac)))"
    by (rule bucket_del_filter)
  then show ?thesis using Some by (simp add: user_hash_del_def user_hash_find_None Let_def)
qed

definition user_hash_drop :: "(bytes \<Rightarrow> u32) \<Rightarrow> bytes \<Rightarrow> nos_global \<Rightarrow> nos_global" where
  "user_hash_drop jhash mac g = (case user_hash_del jhash mac g of Inr (_, g') \<Rightarrow> g' | Inl _ \<Rightarrow> g)"

lemma user_hash_drop_lookup:
  assumes "user_hash_ok jhash g"
  shows "user_lookup jhash (user_hash_drop jhash mac g) = (user_lookup jhash g)(mac := None)"
  using user_hash_del_runs [OF assms, of mac]
  by (auto simp: user_hash_drop_def user_lookup_map_of map_of_filter_mac)

lemma user_hash_drop_ok:
  assumes "user_hash_ok jhash g"
  shows "user_hash_ok jhash (user_hash_drop jhash mac g)"
  using user_hash_del_runs [OF assms, of mac] assms
  by (auto simp: user_hash_drop_def user_hash_ok_def distinct_map_filter)

lemma user_hash_empty: "user_hash_ok jhash (nos_global_init jiffies g)" "user_lookup jhash (nos_global_init jiffies g) = Map.empty"
  by (auto simp: user_hash_ok_def nos_global_init_def nos_status_set_def user_hash_init_def zero_global_def user_lookup_map_of)

text \<open>
  The interface of a table keyed by hardware addresses, and what a client that records every
  address it sees can rely on: the address is known afterwards, under a node that says so,
  and no other entry changes.
\<close>

locale mac_table =
  fixes invar :: "'t \<Rightarrow> bool"
    and lookup :: "'t \<Rightarrow> 'k \<rightharpoonup> 'v"
    and key :: "'v \<Rightarrow> 'k"
    and add :: "'v \<Rightarrow> 't \<Rightarrow> 't"
    and store :: "'k \<Rightarrow> 'v \<Rightarrow> 't \<Rightarrow> 't"
    and drop' :: "'k \<Rightarrow> 't \<Rightarrow> 't"
  assumes lookup_key: "invar t \<Longrightarrow> lookup t k = Some v \<Longrightarrow> key v = k"
    and lookup_add: "invar t \<Longrightarrow> lookup t (key v) = None \<Longrightarrow> lookup (add v t) = (lookup t)(key v \<mapsto> v)"
    and invar_add: "invar t \<Longrightarrow> invar (add v t)"
    and lookup_store: "invar t \<Longrightarrow> lookup t k \<noteq> None \<Longrightarrow> key v = k \<Longrightarrow> lookup (store k v t) = (lookup t)(k \<mapsto> v)"
    and invar_store: "invar t \<Longrightarrow> lookup t k \<noteq> None \<Longrightarrow> key v = k \<Longrightarrow> invar (store k v t)"
    and lookup_drop: "invar t \<Longrightarrow> lookup (drop' k t) = (lookup t)(k := None)"
    and invar_drop: "invar t \<Longrightarrow> invar (drop' k t)"
begin

text \<open>Update the entry of a key, or make one.\<close>

definition visit :: "'k \<Rightarrow> ('v \<Rightarrow> 'v) \<Rightarrow> 'v \<Rightarrow> 't \<Rightarrow> 't" where
  "visit k f new t = (case lookup t k of Some v \<Rightarrow> store k (f v) t | None \<Rightarrow> add new t)"

lemma visit_lookup:
  assumes "invar t" "key new = k" "\<And>v. key v = k \<Longrightarrow> key (f v) = k"
  shows "lookup (visit k f new t) = (lookup t)(k \<mapsto> (case lookup t k of Some v \<Rightarrow> f v | None \<Rightarrow> new))"
    and "invar (visit k f new t)"
  using assms lookup_key [OF assms(1)] lookup_add [OF assms(1), of new] lookup_store [OF assms(1)]
    invar_add [OF assms(1)] invar_store [OF assms(1)]
  by (auto simp: visit_def split: option.split)

lemma drop_after_visit:
  assumes "invar t" "key new = k" "\<And>v. key v = k \<Longrightarrow> key (f v) = k"
  shows "lookup (drop' k (visit k f new t)) = (lookup t)(k := None)"
  using visit_lookup [OF assms] lookup_drop by simp

end

definition user_store :: "(bytes \<Rightarrow> u32) \<Rightarrow> bytes \<Rightarrow> user_node \<Rightarrow> nos_global \<Rightarrow> nos_global" where
  "user_store jhash mac n g = (case user_hash_find jhash g mac of Some p \<Rightarrow> set_node p n g | None \<Rightarrow> g)"

lemma map_of_update_same:
  "distinct (map un_mac ps) \<Longrightarrow> k < length ps \<Longrightarrow> un_mac (ps ! k) = un_mac n \<Longrightarrow>
   map_of (map (\<lambda>n. (un_mac n, n)) (ps[k := n])) = (map_of (map (\<lambda>n. (un_mac n, n)) ps))(un_mac n \<mapsto> n)"
proof (induction ps arbitrary: k)
  case (Cons p ps)
  show ?case
  proof (cases k)
    case 0
    then show ?thesis using Cons.prems by (auto simp: fun_eq_iff)
  next
    case (Suc j)
    then have "un_mac n \<in> un_mac ` set ps" using Cons.prems(2,3) by (metis Suc_less_eq imageI length_Cons nth_Cons_Suc nth_mem)
    then have "un_mac p \<noteq> un_mac n" using Cons.prems(1) by auto
    then show ?thesis using Suc Cons by (auto simp: fun_eq_iff)
  qed
qed simp

lemma map_mac_update: "k < length ps \<Longrightarrow> un_mac (ps ! k) = un_mac n \<Longrightarrow> map un_mac (ps[k := n]) = map un_mac ps"
  by (metis list_update_id map_update nth_map)

lemma set_node_keeps:
  assumes "user_hash_ok jhash g" "user_hash_find jhash g mac = Some p" "un_mac n = mac"
  shows "user_lookup jhash (set_node p n g) = (user_lookup jhash g)(mac \<mapsto> n)" "user_hash_ok jhash (set_node p n g)"
proof -
  note p = user_hash_find_Some [OF assms(2)]
  have d: "distinct (map un_mac (g_users g (fst p)))" using assms(1) by (simp add: user_hash_ok_def)
  have mac: "un_mac (g_users g (fst p) ! snd p) = un_mac n" using p(3) assms(3) by (simp add: node_at_def)
  show "user_lookup jhash (set_node p n g) = (user_lookup jhash g)(mac \<mapsto> n)"
    using map_of_update_same [OF d p(2) mac] p(1) assms(3)
    by (auto simp: fun_eq_iff user_lookup_map_of set_node_def)
  have "\<forall>m \<in> set ((g_users g (fst p))[snd p := n]). hash_num jhash (un_mac m) = fst p"
    using assms p(1) set_update_subset_insert [of "g_users g (fst p)" "snd p" n] by (auto simp: user_hash_ok_def)
  then show "user_hash_ok jhash (set_node p n g)"
    using assms(1) map_mac_update [OF p(2) mac] by (auto simp: user_hash_ok_def set_node_def)
qed

interpretation users: mac_table "user_hash_ok jhash" "user_lookup jhash" un_mac
  "\<lambda>n g. snd (user_hash_add jhash n g)" "user_store jhash" "user_hash_drop jhash"
  for jhash :: "bytes \<Rightarrow> u32"
proof (unfold_locales, goal_cases)
  case (1 t k v)
  then show ?case by (auto simp: user_lookup_map_of dest!: map_of_SomeD)
next
  case 2 then show ?case by (simp add: user_hash_add_lookup)
next
  case 3 then show ?case by (rule user_hash_add_ok)
next
  case (4 t k v)
  then show ?case using set_node_keeps(1) [of jhash t k _ v] by (auto simp: user_store_def user_lookup_def split: option.split)
next
  case (5 t k v)
  then show ?case using set_node_keeps(2) [of jhash t k _ v] by (auto simp: user_store_def user_lookup_def split: option.split)
next
  case 6 then show ?case by (rule user_hash_drop_lookup)
next
  case 7 then show ?case by (rule user_hash_drop_ok)
qed

lemma user_lookup_mem:
  assumes "user_hash_ok jhash g"
  shows "user_lookup jhash g (un_mac m) = Some m \<longleftrightarrow> m \<in> set (g_users g (hash_num jhash (un_mac m)))"
proof -
  have "distinct (map fst (map (\<lambda>n. (un_mac n, n)) (g_users g (hash_num jhash (un_mac m)))))"
    using assms by (simp add: user_hash_ok_def comp_def)
  then show ?thesis by (auto simp: user_lookup_map_of map_of_eq_Some_iff)
qed

lemma set_concat_buckets: "m \<in> set (concat (map f [0..<n])) \<longleftrightarrow> (\<exists>b < n. m \<in> set (f b))"
  by auto

lemma user_hash_fini_all:
  assumes "user_hash_ok jhash g"
  shows "m \<in> set (snd (user_hash_fini g)) \<longleftrightarrow> user_lookup jhash g (un_mac m) = Some m"
proof -
  have "m \<in> set (g_users g b) \<Longrightarrow> b = hash_num jhash (un_mac m)" for b using assms by (auto simp: user_hash_ok_def)
  then show ?thesis
    unfolding user_hash_fini_def snd_conv set_concat_buckets user_lookup_mem [OF assms]
    using hash_num_less [of jhash "un_mac m"] by blast
qed

lemma distinct_concat_buckets:
  assumes "\<And>i. distinct (f i)" "\<And>i j. i \<noteq> j \<Longrightarrow> set (f i) \<inter> set (f j) = {}"
  shows "distinct (concat (map f [0..<n]))"
proof (induction n)
  case (Suc n)
  have "set (concat (map f [0..<n])) \<inter> set (f n) = {}"
  proof -
    have "x \<notin> set (f n)" if "i < n" "x \<in> set (f i)" for i x using assms(2) [of i n] that by auto
    then show ?thesis by (auto simp: set_concat_buckets simp del: set_concat)
  qed
  then show ?case using Suc assms(1) by simp
qed simp

lemma user_hash_fini_distinct:
  assumes "user_hash_ok jhash g"
  shows "distinct (snd (user_hash_fini g))"
proof -
  have "distinct (g_users g b)" for b using assms distinct_map by (auto simp: user_hash_ok_def)
  moreover have "b \<noteq> c \<Longrightarrow> set (g_users g b) \<inter> set (g_users g c) = {}" for b c
    using assms unfolding user_hash_ok_def by (metis disjoint_iff)
  ultimately show ?thesis unfolding user_hash_fini_def snd_conv by (rule distinct_concat_buckets)
qed

text \<open>
  C32.  The hash table is a map from hardware addresses to users, whatever the hash function.
  The start leaves it empty; adding a user returns 1 and binds its address when that is new,
  and returns 0 without a change otherwise; deleting removes exactly the address, returns 1
  when it was there and 0 otherwise, and never reaches the \<open>BUG_ON\<close> at its end; the end of the
  module frees every node once.  All of them keep the table well-formed.
\<close>

theorem user_hash_refines_map:
  assumes "user_hash_ok jhash g"
  shows "user_lookup jhash (nos_global_init jiffies g) = Map.empty \<and> user_hash_ok jhash (nos_global_init jiffies g)
    \<and> (\<exists>ret g'. user_hash_add jhash n g = (ret, g') \<and> user_hash_ok jhash g'
        \<and> (if user_lookup jhash g (un_mac n) = None
            then ret = 1 \<and> user_lookup jhash g' = (user_lookup jhash g)(un_mac n \<mapsto> n) else ret = 0 \<and> g' = g))
    \<and> (\<exists>ret g'. user_hash_del jhash mac g = Inr (ret, g') \<and> user_hash_ok jhash g'
        \<and> user_lookup jhash g' = (user_lookup jhash g)(mac := None)
        \<and> ret = (if user_lookup jhash g mac = None then 0 else 1))
    \<and> (user_lookup jhash (fst (user_hash_fini g)) = Map.empty
        \<and> distinct (snd (user_hash_fini g))
        \<and> (\<forall>m. m \<in> set (snd (user_hash_fini g)) \<longleftrightarrow> user_lookup jhash g (un_mac m) = Some m))"
proof (intro conjI)
  show "user_lookup jhash (nos_global_init jiffies g) = Map.empty" "user_hash_ok jhash (nos_global_init jiffies g)"
    by (simp_all add: user_hash_empty)
  show "\<exists>ret g'. user_hash_add jhash n g = (ret, g') \<and> user_hash_ok jhash g'
        \<and> (if user_lookup jhash g (un_mac n) = None
            then ret = 1 \<and> user_lookup jhash g' = (user_lookup jhash g)(un_mac n \<mapsto> n) else ret = 0 \<and> g' = g)"
    using users.lookup_add [OF assms, of n] users.invar_add [OF assms, of n]
    by (auto simp: user_hash_add_def user_hash_find_None Let_def)
  show "\<exists>ret g'. user_hash_del jhash mac g = Inr (ret, g') \<and> user_hash_ok jhash g'
        \<and> user_lookup jhash g' = (user_lookup jhash g)(mac := None)
        \<and> ret = (if user_lookup jhash g mac = None then 0 else 1)"
    using users.lookup_drop [OF assms, of mac] users.invar_drop [OF assms, of mac] user_hash_del_runs [OF assms, of mac]
    by (auto simp: user_hash_drop_def split: if_splits)
  show "user_lookup jhash (fst (user_hash_fini g)) = Map.empty"
    by (auto simp: user_hash_fini_def user_lookup_map_of hash_num_less)
  show "distinct (snd (user_hash_fini g))" by (rule user_hash_fini_distinct [OF assms])
  show "\<forall>m. m \<in> set (snd (user_hash_fini g)) \<longleftrightarrow> user_lookup jhash g (un_mac m) = Some m"
    using user_hash_fini_all [OF assms] by blast
qed

definition demo_node1 :: user_node where
  "demo_node1 = \<lparr>un_ip = 1, un_jf = 2, un_status = 0, un_mac = [2, 0, 0, 0, 0, 1]\<rparr>"

theorem user_hash_refines_map_witness:
  "\<exists>g'. user_hash_add (\<lambda>m. 7) demo_node1 (nos_global_init 0 zero_global) = (1, g')
     \<and> user_lookup (\<lambda>m. 7) g' (un_mac demo_node1) = Some demo_node1"
  using user_hash_refines_map [OF user_hash_empty(1), of "\<lambda>m. 7" 0 0 zero_global demo_node1 "[]"] user_hash_empty(2)
  by (auto simp: user_hash_empty(2))

end
