(* ===== verification/NosHooks.thy ===== *)
theory NosHooks
  imports NosUsers Redirect HexText
begin

text \<open>
  The forwarding hook of the older driver, \<open>drivers/nos/src/nos_hooks.c\<close>: every hardware address
  that sends from the bridge to the uplink is recorded; packets of users that are not online
  are dropped, apart from name resolution and the packets that open and close connections, and
  an HTTP request is answered with a redirection.  The kernel's \<open>csum_partial\<close>, \<open>csum_fold\<close>,
  \<open>ip_send_check\<close> and \<open>skb_copy\<close> are arguments.
\<close>

subsection \<open>Checksums and packets\<close>

record nos_csum =
  csum_partial :: "bytes \<Rightarrow> u32 \<Rightarrow> u32"
  csum_fold :: "u32 \<Rightarrow> u16"
  ip_send_check :: "bytes \<Rightarrow> u16"

text \<open>\<open>pse_hdr_st\<close> in memory.\<close>

definition pse_hdr :: "u32 \<Rightarrow> u32 \<Rightarrow> u16 \<Rightarrow> bytes" where
  "pse_hdr saddr daddr len = enc32 Big saddr @ enc32 Big daddr @ [0, IPPROTO_TCP] @ enc16 Big len"

definition tcp_v4_check :: "nos_csum \<Rightarrow> nat \<Rightarrow> u32 \<Rightarrow> u32 \<Rightarrow> u32 \<Rightarrow> u16" where
  "tcp_v4_check k len saddr daddr base = csum_fold k (csum_partial k (pse_hdr saddr daddr (of_nat len)) base)"

text \<open>
  The checksum of a segment as it is stored: in the byte order of the machine.
\<close>

definition nos_csum_env :: "endian \<Rightarrow> nos_csum \<Rightarrow> csum_env" where
  "nos_csum_env en k = \<lparr>ip_csum = ip_send_check k,
     tcp_csum = \<lambda>sa da seg. dec16 Big (enc16 en (tcp_v4_check k (length seg) sa da (csum_partial k seg 0)))\<rparr>"

text \<open>
  \<open>auth_reset\<close> and \<open>auth_URL\<close> have the same statements as \<open>auth_reset\<close> and \<open>auth_http\<close> of
  \<open>redirect.c\<close>, with this file's \<open>tcp_v4_check\<close>; the offset that \<open>skb_reset_network_header\<close> stores
  there is not part of the bytes.
\<close>

definition nos_auth_reset :: "endian \<Rightarrow> nos_csum \<Rightarrow> bool \<Rightarrow> sk_buff \<Rightarrow> (int \<times> bytes option) result" where
  "nos_auth_reset en k ok skb = auth_reset en (nos_csum_env en k) ok skb"

definition auth_URL :: "endian \<Rightarrow> nos_csum \<Rightarrow> bool \<Rightarrow> bytes \<Rightarrow> sk_buff \<Rightarrow> (int \<times> bytes option) result" where
  "auth_URL en k ok url skb = auth_http en (nos_csum_env en k) ok url skb"

definition mac_source :: "sk_buff \<Rightarrow> bytes result" where
  "mac_source skb = mem_read 6 ETH_ALEN (skb_mac skb)"

subsection \<open>The redirection text\<close>

text \<open>
  The format in pieces; here \<open>Str\<close> stands for \<open>%02x\<close> six times and then for \<open>%u\<close> four times.
\<close>

definition URLFMT :: "fmt list" where
  "URLFMT = [Lit (''HTTP/1.1 302 Moved Temporarily'' @ CRLF @ ''Location: http://10.10.10.10/index.html?mac=''),
     Str, Lit '':'', Str, Lit '':'', Str, Lit '':'', Str, Lit '':'', Str, Lit '':'', Str, Lit ''&ip='',
     Str, Lit ''.'', Str, Lit ''.'', Str, Lit ''.'', Str,
     Lit (CRLF @ ''Content-Type: text/html;'' @ CRLF @ ''Cache-Control: no-cache'' @ CRLF @ ''Content-Length: 0''
       @ CRLF @ CRLF)]"

text \<open>\<open>%02x\<close> has two characters more than \<open>%u\<close>.\<close>

definition URLFMT_SIZE :: nat where
  "URLFMT_SIZE = (fmt_length URLFMT + 6 * 2 + 1) + (length ''00:00:00:00:00:00'' + 1)
     + (length ''255.255.255.255'' + 1) + 1"

definition url_args :: "bytes \<Rightarrow> u32 \<Rightarrow> string list" where
  "url_args mac saddr = map hex2 mac @ map (\<lambda>b. dec_str (unat b)) (enc32 Big saddr)"

definition auth_redirect ::
  "endian \<Rightarrow> nos_csum \<Rightarrow> bool \<Rightarrow> bool \<Rightarrow> bytes \<Rightarrow> sk_buff \<Rightarrow> net_device \<Rightarrow> net_device option
   \<Rightarrow> (int \<times> (nat \<times> bytes) list) result" where
  "auth_redirect en k ok1 ok2 url skb in_dev out_dev =
     bindR (auth_URL en k ok1 url skb) (\<lambda>(ret, p1).
       let tx1 = (case p1 of None \<Rightarrow> [] | Some b \<Rightarrow> [(dev_index in_dev, b)]) in
       if ret \<noteq> 0 then Inr (- 1, tx1)
       else case out_dev of
           None \<Rightarrow> Inr (0, tx1)
         | Some o' \<Rightarrow> bindR (nos_auth_reset en k ok2 skb) (\<lambda>(_, p2).
             Inr (0, tx1 @ (case p2 of None \<Rightarrow> [] | Some b \<Rightarrow> [(dev_index o', b)]))))"

subsection \<open>The hook\<close>

abbreviation (input) NF_DROP :: nat where "NF_DROP \<equiv> 0"
abbreviation (input) NF_ACCEPT :: nat where "NF_ACCEPT \<equiv> 1"

record nos_env =
  ne_endian :: endian
  ne_csum :: nos_csum
  ne_jhash :: "bytes \<Rightarrow> u32"
  ne_ipv4 :: ipv4_preds

text \<open>The outcomes of the allocations during one call.\<close>

record nos_alloc =
  na_node :: bool
  na_skb1 :: bool
  na_skb2 :: bool
  na_copy :: "sk_buff option"

text \<open>The first part of \<open>nos_do\<close>: the sender is recorded.  The result says whether it is online.\<close>

definition see_user ::
  "(bytes \<Rightarrow> u32) \<Rightarrow> bool \<Rightarrow> u32 \<Rightarrow> bytes \<Rightarrow> u32 \<Rightarrow> nos_global \<Rightarrow> (bool \<times> nos_global) result" where
  "see_user jhash alloc jiffies mac saddr g =
     (case user_hash_find jhash g mac of
        Some p \<Rightarrow>
          let g1 = set_node p ((node_at g p)\<lparr>un_jf := jiffies, un_ip := saddr\<rparr>) g
          in Inr (un_status (node_at g1 p) = 1, g1)
      | None \<Rightarrow>
          bindR (assertR alloc) (\<lambda>_.
          let n = \<lparr>un_ip = saddr, un_jf = jiffies, un_status = 0, un_mac = mac\<rparr>;
              (ret, g1) = user_hash_add jhash n g
          in bindR (assertR (ret = 1)) (\<lambda>_. Inr (False, g1))))"

text \<open>
  \<open>buff[ret] = 0\<close> behind the text that \<open>snprintf\<close> stored, and the bytes that are sent.
\<close>

definition redirect_url :: "bytes \<Rightarrow> u32 \<Rightarrow> bytes result" where
  "redirect_url mac saddr =
     (let (s, ret) = snprintf URLFMT_SIZE URLFMT (url_args mac saddr)
      in bindR (mem_write ret [0] (overlay 0 (bytes_of s @ [0]) (replicate URLFMT_SIZE 0))) (mem_read 0 ret))"

text \<open>\<open>out->name\<close> is the start of the structure, so that it is null when \<open>out\<close> is.\<close>

definition nos_do ::
  "nos_env \<Rightarrow> nos_alloc \<Rightarrow> u32 \<Rightarrow> sk_buff \<Rightarrow> net_device \<Rightarrow> net_device option \<Rightarrow> nos_global
   \<Rightarrow> (nat \<times> (nat \<times> bytes) list \<times> nos_global) result" where
  "nos_do env al jiffies skb in_dev out_dev g =
     (if \<not> check_dir (Some (dev_name in_dev)) (map_option dev_name out_dev) then Inr (NF_ACCEPT, [], g)
      else bindR (mac_source skb) (\<lambda>mac.
        bindR (ip_hdr skb) (\<lambda>iph.
        bindR (see_user (ne_jhash env) (na_node al) jiffies mac (ip_saddr iph) g) (\<lambda>(online, g1).
        if online then Inr (NF_ACCEPT, [], g1)
        else if ip_protocol iph = IPPROTO_UDP then
          bindR (field16 Big (4 * ip_ihl iph + 2) (skb_data skb)) (\<lambda>dest.
            if dest = 53 then Inr (NF_ACCEPT, [], g1) else Inr (NF_DROP, [], g1))
        else bindR (rdb (skb_data skb) (4 * ip_ihl iph + 13)) (\<lambda>flags.
          if flags AND 7 \<noteq> 0 then Inr (NF_ACCEPT, [], g1)
          else bindR (rdb (skb_data skb) (4 * ip_ihl iph + 12)) (\<lambda>d.
            let doff = unat (drop_bit 4 d);
                paylen = int (unat (skb_len skb)) - 4 * int (ip_ihl iph) + 4 * int doff;
                payload = 4 * ip_ihl iph + 4 * doff
            in bindR (if paylen \<le> 0 then Inr False else strncasecmp_eq (skb_data skb) payload GET_bytes) (\<lambda>get.
               if \<not> get then Inr (NF_DROP, [], g1)
               else bindR (redirect_url mac (ip_saddr iph)) (\<lambda>url.
                 bindR (auth_redirect (ne_endian env) (ne_csum env) (na_skb1 al) (na_skb2 al) url skb in_dev out_dev)
                   (\<lambda>(_, tx). Inr (NF_DROP, tx, g1))))))))))"

definition skb_is_nonlinear :: "sk_buff \<Rightarrow> bool" where
  "skb_is_nonlinear skb \<longleftrightarrow> length (skb_data skb) < unat (skb_len skb)"

text \<open>
  \<open>nos_hook_fw\<close>: \<open>conn\<close> is \<open>None\<close> without a connection and otherwise says whether it is untracked.
  \<open>nos_track_get\<close> returns the address of a member, which is never null.
\<close>

definition nos_hook_fw ::
  "nos_env \<Rightarrow> nos_alloc \<Rightarrow> u32 \<Rightarrow> bool option \<Rightarrow> sk_buff \<Rightarrow> net_device \<Rightarrow> net_device option \<Rightarrow> nos_global
   \<Rightarrow> (nat \<times> (nat \<times> bytes) list \<times> nos_global) result" where
  "nos_hook_fw env al jiffies conn skb in_dev out_dev g =
     (case conn of
        None \<Rightarrow> Inr (NF_ACCEPT, [], g)
      | Some untracked \<Rightarrow>
          if untracked then Inr (NF_ACCEPT, [], g)
          else bindR (ip_hdr skb) (\<lambda>iph.
            if l3filter (ne_ipv4 env) iph then Inr (NF_ACCEPT, [], g)
            else if skb_is_nonlinear skb then
              (case na_copy al of
                 None \<Rightarrow> Inr (NF_ACCEPT, [], g)
               | Some use_skb \<Rightarrow> nos_do env al jiffies use_skb in_dev out_dev g)
            else nos_do env al jiffies skb in_dev out_dev g))"

subsection \<open>The module\<close>

record nos_mod =
  nm_global :: nos_global
  nm_sysfs :: bool
  nm_hooks :: bool

definition nos_module_init :: "u32 \<Rightarrow> int \<Rightarrow> int \<Rightarrow> nos_mod \<Rightarrow> int \<times> nos_mod" where
  "nos_module_init jiffies sysfs_ret hooks_ret m =
     (let m1 = m\<lparr>nm_global := nos_global_init jiffies (nm_global m)\<rparr> in
      if sysfs_ret \<noteq> 0 then (sysfs_ret, m1\<lparr>nm_global := fst (nos_global_cleanup (nm_global m1))\<rparr>)
      else
        let m2 = m1\<lparr>nm_sysfs := True\<rparr> in
        if hooks_ret \<noteq> 0 then
          (hooks_ret, m2\<lparr>nm_sysfs := False, nm_global := fst (nos_global_cleanup (nm_global m2))\<rparr>)
        else (0, m2\<lparr>nm_hooks := True\<rparr>))"

definition nos_module_fini :: "nos_mod \<Rightarrow> nos_mod \<times> user_node list" where
  "nos_module_fini m =
     (let m1 = m\<lparr>nm_sysfs := False, nm_hooks := False\<rparr>;
          (g, freed) = nos_global_cleanup (nm_global m1)
      in (m1\<lparr>nm_global := g\<rparr>, freed))"

subsection \<open>Recording the sender\<close>

definition seen :: "u32 \<Rightarrow> bytes \<Rightarrow> u32 \<Rightarrow> user_node option \<Rightarrow> user_node" where
  "seen jiffies mac saddr old = (case old of
      Some n \<Rightarrow> n\<lparr>un_jf := jiffies, un_ip := saddr\<rparr>
    | None \<Rightarrow> \<lparr>un_ip = saddr, un_jf = jiffies, un_status = 0, un_mac = mac\<rparr>)"

text \<open>
  The code's find, change and add is the interface's \<open>visit\<close>.
\<close>

lemma see_user_visit:
  assumes "user_hash_ok jhash g" "alloc \<or> user_lookup jhash g mac \<noteq> None"
  shows "see_user jhash alloc jiffies mac saddr g =
    Inr ((case user_lookup jhash g mac of Some n \<Rightarrow> un_status n = 1 | None \<Rightarrow> False),
      users.visit jhash mac (\<lambda>n. n\<lparr>un_jf := jiffies, un_ip := saddr\<rparr>) (seen jiffies mac saddr None) g)"
proof (cases "user_hash_find jhash g mac")
  case None
  then show ?thesis
    unfolding users.visit_def
    using assms by (simp add: see_user_def user_lookup_def seen_def user_hash_add_def Let_def)
next
  case (Some p)
  note p = user_hash_find_Some [OF Some]
  have "node_at (set_node p n g) p = n" for n using p(2) by (simp add: node_at_def set_node_def)
  then show ?thesis
    using Some p by (simp add: see_user_def users.visit_def user_store_def Let_def)
qed

lemma see_user_ok:
  assumes "user_hash_ok jhash g" "alloc \<or> user_lookup jhash g mac \<noteq> None"
  obtains g' where "see_user jhash alloc jiffies mac saddr g =
      Inr ((case user_lookup jhash g mac of Some n \<Rightarrow> un_status n = 1 | None \<Rightarrow> False), g')"
    "user_hash_ok jhash g'" "user_lookup jhash g' = (user_lookup jhash g)(mac \<mapsto> seen jiffies mac saddr (user_lookup jhash g mac))"
proof -
  let ?f = "\<lambda>n. n\<lparr>un_jf := jiffies, un_ip := saddr\<rparr>" and ?new = "seen jiffies mac saddr None"
  have k: "un_mac ?new = mac" "\<And>n. un_mac n = mac \<Longrightarrow> un_mac (?f n) = mac" by (simp_all add: seen_def)
  have "(case user_lookup jhash g mac of Some v \<Rightarrow> ?f v | None \<Rightarrow> ?new) = seen jiffies mac saddr (user_lookup jhash g mac)"
    by (simp add: seen_def split: option.split)
  then show thesis
    using that see_user_visit [OF assms, of jiffies saddr] users.visit_lookup [OF assms(1) k] by simp
qed

subsection \<open>The text fits its buffer\<close>

lemma dec_str_u8: "length (dec_str (unat (b :: u8))) \<le> 3"
  using dec_str_length [of "unat b" 2] unat_less_size(1) [of b] by simp

lemma url_fits:
  assumes "length mac = ETH_ALEN"
  shows "length (sprint URLFMT (url_args mac saddr)) < URLFMT_SIZE" "length (sprint URLFMT (url_args mac saddr)) < 1000"
proof -
  obtain a b c d e f where mac: "mac = [a, b, c, d, e, f]"
    using assms by (auto simp: numeral_eq_Suc length_Suc_conv)
  have "length (enc32 Big saddr) = 4" by simp
  then obtain w x y z where addr: "enc32 Big saddr = [w, x, y, z]"
    by (auto simp: numeral_eq_Suc length_Suc_conv simp del: length_enc)
  show "length (sprint URLFMT (url_args mac saddr)) < URLFMT_SIZE" "length (sprint URLFMT (url_args mac saddr)) < 1000"
    using dec_str_u8 [of w] dec_str_u8 [of x] dec_str_u8 [of y] dec_str_u8 [of z]
    by (simp_all add: URLFMT_def URLFMT_SIZE_def url_args_def mac addr)
qed

lemma redirect_url_ok:
  assumes "length mac = ETH_ALEN"
  shows "redirect_url mac saddr = Inr (bytes_of (sprint URLFMT (url_args mac saddr)))"
proof -
  let ?s = "sprint URLFMT (url_args mac saddr)"
  have f: "length ?s < URLFMT_SIZE" by (rule url_fits(1) [OF assms])
  then have "snprintf URLFMT_SIZE URLFMT (url_args mac saddr) = (?s, length ?s)"
    by (simp add: snprintf_def Let_def)
  then show ?thesis
    using f by (simp add: redirect_url_def mem_write_def mem_read_def overlay_def window_def bytes_of_def)
qed

subsection \<open>Verdicts\<close>

definition tcp_flags :: "sk_buff \<Rightarrow> iphdr \<Rightarrow> byte" where
  "tcp_flags skb iph = skb_data skb ! (4 * ip_ihl iph + 13)"

definition udp_dest :: "sk_buff \<Rightarrow> iphdr \<Rightarrow> u16" where
  "udp_dest skb iph = dec16 Big (window (4 * ip_ihl iph + 2) 2 (skb_data skb))"

text \<open>A text that ends before it differs from \<open>xs\<close>, in any letter case.\<close>

definition cut_short :: "bytes \<Rightarrow> bytes \<Rightarrow> bool" where
  "cut_short xs b \<longleftrightarrow> length b < length xs \<and> map to_lower b = map to_lower (take (length b) xs)"

text \<open>What is to happen with a packet in one piece, given whether its sender is online.\<close>

datatype nos_action = Pass | Block | Answer | Overread

definition nos_action :: "bool \<Rightarrow> sk_buff \<Rightarrow> iphdr \<Rightarrow> nos_action" where
  "nos_action online skb iph =
     (if online then Pass
      else if ip_protocol iph = IPPROTO_UDP then
        (if length (skb_data skb) < 4 * ip_ihl iph + 4 then Overread
         else if udp_dest skb iph = 53 then Pass else Block)
      else if length (skb_data skb) < 4 * ip_ihl iph + 14 then Overread
      else if tcp_flags skb iph AND 7 \<noteq> 0 then Pass
      else if cut_short GET_bytes (tcp_payload iph skb) then Overread
      else if has_prefix_ci GET_bytes (tcp_payload iph skb) then Answer else Block)"

lemma strncasecmp_eq_cases:
  "strncasecmp_eq b i xs = (if cut_short xs (drop i b) then Inl Out_of_bounds else Inr (has_prefix_ci xs (drop i b)))"
proof (induction xs arbitrary: i)
  case Nil
  then show ?case by (simp add: cut_short_def has_prefix_ci_def)
next
  case (Cons x xs)
  show ?case
  proof (cases "i < length b")
    case True
    then have d: "drop i b = b ! i # drop (Suc i) b" by (simp add: Cons_nth_drop_Suc)
    show ?thesis using True Cons [of "Suc i"] unfolding d by (simp add: rdb_def cut_short_def has_prefix_ci_def)
  qed (simp add: rdb_def cut_short_def)
qed

text \<open>
  The answer: what leaves on which interface, for every outcome of the two allocations.
\<close>

definition answers :: "nos_alloc \<Rightarrow> sk_buff \<Rightarrow> iphdr \<Rightarrow> bytes \<Rightarrow> net_device \<Rightarrow> net_device \<Rightarrow> (nat \<times> bytes) list \<Rightarrow> bool" where
  "answers al skb h url in_dev out tx \<longleftrightarrow> (\<exists>t p1 p2. tcp_hdr_at (skb_data skb) (4 * ip_ihl h) = Inr t
     \<and> tx = (if \<not> na_skb1 al then [] else (dev_index in_dev, p1) # (if na_skb2 al then [(dev_index out, p2)] else []))
     \<and> packet_reads p1 (eth_source (skb_mac skb) @ eth_dest (skb_mac skb) @ enc16 Big 0x0800)
         \<lparr>ip_ihl = 5, ip_version = ip_version h, ip_tot_len = of_nat (40 + length url), ip_protocol = ip_protocol h,
          ip_saddr = ip_daddr h, ip_daddr = ip_saddr h\<rparr>
         \<lparr>th_source = th_dest t, th_dest = th_source t, th_seq = th_ack_seq t,
          th_ack_seq = th_seq t + of_nat (unat (ip_tot_len h)) - of_nat (4 * ip_ihl h) - of_nat (4 * th_doff t),
          th_doff = 5, th_flags = 0x19, th_window = 65535\<rparr> url
     \<and> packet_reads p2 (take 14 (skb_mac skb))
         \<lparr>ip_ihl = 5, ip_version = ip_version h, ip_tot_len = 40, ip_protocol = ip_protocol h,
          ip_saddr = ip_saddr h, ip_daddr = ip_daddr h\<rparr>
         \<lparr>th_source = th_source t, th_dest = th_dest t, th_seq = th_seq t, th_ack_seq = th_ack_seq t,
          th_doff = 5, th_flags = 4 OR (th_flags t AND 16), th_window = 0\<rparr> [])"

lemma auth_redirect_answers:
  assumes h: "ip_hdr skb = Inr h" "14 \<le> length (skb_mac skb)" and "4 * ip_ihl h + 16 \<le> length (skb_data skb)" "40 + length url < 65536"
  shows "\<exists>ret tx. auth_redirect en k (na_skb1 al) (na_skb2 al) url skb in_dev (Some out) = Inr (ret, tx) \<and> answers al skb h url in_dev out tx"
proof -
  obtain t where t: "tcp_hdr_at (skb_data skb) (4 * ip_ihl h) = Inr t"
    using assms(3) by (auto simp: tcp_hdr_at_def rdb_def field16_def field32_def mem_read_def)
  note p1 = auth_http_packet [OF h(1) t h(2) assms(4), of en "nos_csum_env en k"]
  note p2 = auth_reset_packet [OF h(1) t h(2), of en "nos_csum_env en k"]
  have n: "auth_URL en k False url skb = Inr (- 1, None)" "nos_auth_reset en k False skb = Inr (- 1, None)"
    using h(1) by (simp_all add: auth_URL_def auth_http_def nos_auth_reset_def auth_reset_def)
  show ?thesis unfolding answers_def using p1 p2 t n
    by (cases "na_skb1 al"; cases "na_skb2 al") (auto simp: auth_redirect_def auth_URL_def nos_auth_reset_def)
qed

text \<open>
  A packet with its hardware and IP header, in one piece.
\<close>

definition nos_packet :: "sk_buff \<Rightarrow> iphdr \<Rightarrow> bool" where
  "nos_packet skb iph \<longleftrightarrow> ip_hdr skb = Inr iph \<and> 14 \<le> length (skb_mac skb) \<and> unat (skb_len skb) = length (skb_data skb)"

text \<open>The part of \<open>nos_do\<close> behind the table: what happens to the packet.\<close>

lemma nos_do_action:
  assumes p: "nos_packet skb iph" and dir: "check_dir (Some (dev_name in_dev)) (map_option dev_name out_dev)"
    and mac: "mac = window 6 6 (skb_mac skb)"
    and see: "see_user (ne_jhash env) (na_node al) jiffies mac (ip_saddr iph) g = Inr (online, g')"
  shows "nos_do env al jiffies skb in_dev out_dev g = (case nos_action online skb iph of
      Pass \<Rightarrow> Inr (NF_ACCEPT, [], g') | Block \<Rightarrow> Inr (NF_DROP, [], g') | Overread \<Rightarrow> Inl Out_of_bounds
    | Answer \<Rightarrow> bindR (auth_redirect (ne_endian env) (ne_csum env) (na_skb1 al) (na_skb2 al)
        (bytes_of (sprint URLFMT (url_args mac (ip_saddr iph)))) skb in_dev out_dev) (\<lambda>(_, tx). Inr (NF_DROP, tx, g')))"
proof -
  let ?d = "skb_data skb" and ?l = "4 * ip_ihl iph"
  let ?doff = "unat (drop_bit 4 (?d ! (?l + 12)))"
  have h: "ip_hdr skb = Inr iph" and src: "mac_source skb = Inr mac" and len: "unat (skb_len skb) = length ?d" and m6: "length mac = ETH_ALEN"
    using p mac by (simp_all add: nos_packet_def mac_source_def mem_read_def)
  note url = redirect_url_ok [OF m6, of "ip_saddr iph"]
  have start: "nos_do env al jiffies skb in_dev out_dev g =
      (if online then Inr (NF_ACCEPT, [], g')
        else if ip_protocol iph = IPPROTO_UDP then
          bindR (field16 Big (?l + 2) ?d) (\<lambda>dest. if dest = 53 then Inr (NF_ACCEPT, [], g') else Inr (NF_DROP, [], g'))
        else bindR (rdb ?d (?l + 13)) (\<lambda>flags.
          if flags AND 7 \<noteq> 0 then Inr (NF_ACCEPT, [], g')
          else bindR (rdb ?d (?l + 12)) (\<lambda>d.
            bindR (if int (length ?d) - 4 * int (ip_ihl iph) + 4 * int (unat (drop_bit 4 d)) \<le> 0 then Inr False
                else strncasecmp_eq ?d (?l + 4 * unat (drop_bit 4 d)) GET_bytes) (\<lambda>get.
               if \<not> get then Inr (NF_DROP, [], g')
               else bindR (auth_redirect (ne_endian env) (ne_csum env) (na_skb1 al) (na_skb2 al)
                   (bytes_of (sprint URLFMT (url_args mac (ip_saddr iph)))) skb in_dev out_dev)
                   (\<lambda>(_, tx). Inr (NF_DROP, tx, g'))))))"
    using dir src h see url len by (simp add: nos_do_def Let_def cong: if_cong)
  have u: "field16 Big (?l + 2) ?d = (if length ?d < ?l + 4 then Inl Out_of_bounds else Inr (udp_dest skb iph))"
    by (auto simp: field16_def mem_read_def udp_dest_def)
  have f: "rdb ?d (?l + 13) = (if length ?d < ?l + 14 then Inl Out_of_bounds else Inr (tcp_flags skb iph))"
    "?l + 14 \<le> length ?d \<Longrightarrow> rdb ?d (?l + 12) = Inr (?d ! (?l + 12))"
    by (auto simp: rdb_def tcp_flags_def)
  have pos: "?l + 14 \<le> length ?d \<Longrightarrow> \<not> int (length ?d) - 4 * int (ip_ihl iph) + 4 * int ?doff \<le> 0" by linarith
  have g: "strncasecmp_eq ?d (?l + 4 * ?doff) GET_bytes =
      (if cut_short GET_bytes (tcp_payload iph skb) then Inl Out_of_bounds else Inr (has_prefix_ci GET_bytes (tcp_payload iph skb)))"
    by (simp only: strncasecmp_eq_cases tcp_payload_def)
  show ?thesis
  proof (cases "online \<or> ip_protocol iph = IPPROTO_UDP \<or> length ?d < ?l + 14")
    case True
    then show ?thesis unfolding start u f(1) by (auto simp: nos_action_def)
  next
    case False
    then show ?thesis unfolding start f(1) using f(2) pos g by (simp add: nos_action_def del: strncasecmp_eq.simps)
  qed
qed

text \<open>Without memory for a new entry the table cannot be extended, and \<open>BUG_ON\<close> stops the kernel.\<close>

lemma see_user_outcome:
  assumes "user_hash_ok jhash g"
  obtains g' where "user_hash_ok jhash g'"
    "user_lookup jhash g' = (user_lookup jhash g)(mac \<mapsto> seen jiffies mac saddr (user_lookup jhash g mac))"
    "see_user jhash alloc jiffies mac saddr g = (if \<not> alloc \<and> user_lookup jhash g mac = None then Inl Assert_failed
      else Inr ((case user_lookup jhash g mac of Some n \<Rightarrow> un_status n = 1 | None \<Rightarrow> False), g'))"
proof -
  obtain g' where g': "see_user jhash True jiffies mac saddr g = Inr ((case user_lookup jhash g mac of Some n \<Rightarrow> un_status n = 1 | None \<Rightarrow> False), g')"
    "user_hash_ok jhash g'" "user_lookup jhash g' = (user_lookup jhash g)(mac \<mapsto> seen jiffies mac saddr (user_lookup jhash g mac))"
    using see_user_ok [OF assms, of True mac jiffies saddr] by blast
  have "see_user jhash alloc jiffies mac saddr g = (if \<not> alloc \<and> user_lookup jhash g mac = None then Inl Assert_failed
      else see_user jhash True jiffies mac saddr g)"
    by (auto simp: see_user_def user_lookup_def assertR_def split: option.split)
  then show thesis using that [OF g'(2,3)] g'(1) by simp
qed

text \<open>
  \<open>skb_copy\<close>: the copy has the headers of the packet and all of it in one piece.
\<close>

definition copies :: "sk_buff \<Rightarrow> sk_buff \<Rightarrow> bool" where
  "copies skb c \<longleftrightarrow> skb_mac c = skb_mac skb \<and> skb_len c = skb_len skb \<and> ip_hdr c = ip_hdr skb \<and> unat (skb_len c) = length (skb_data c)"

text \<open>The packet that is looked at: the packet itself, or its copy if there is memory for it.\<close>

definition looked_at :: "nos_alloc \<Rightarrow> sk_buff \<Rightarrow> sk_buff option" where
  "looked_at al skb = (if skb_is_nonlinear skb then na_copy al else Some skb)"

lemma looked_at_packet:
  assumes "ip_hdr skb = Inr iph" "14 \<le> length (skb_mac skb)" "length (skb_data skb) \<le> unat (skb_len skb)"
    and "\<And>c. na_copy al = Some c \<Longrightarrow> copies skb c" "looked_at al skb = Some use_skb"
  shows "nos_packet use_skb iph" "skb_mac use_skb = skb_mac skb" "ip_hdr use_skb = ip_hdr skb"
proof -
  consider "skb_is_nonlinear skb" "copies skb use_skb" | "use_skb = skb" "unat (skb_len skb) = length (skb_data skb)"
    using assms(3-5) by (cases "skb_is_nonlinear skb") (simp_all add: looked_at_def skb_is_nonlinear_def)
  then show "nos_packet use_skb iph" "skb_mac use_skb = skb_mac skb" "ip_hdr use_skb = ip_hdr skb"
    by (cases; use assms(1,2) in \<open>simp_all add: nos_packet_def copies_def\<close>)+
qed

text \<open>
  C33.  What the hook of the \<open>nos\<close> driver does with a packet that has its hardware and IP header.
  Packets without a tracked connection, filtered ones, those in another direction than from the
  bridge to the uplink, and those that are in pieces and cannot be copied pass, and nothing
  changes.  Otherwise the sender is recorded with its address and the time, keeping its status
  and every other entry; a new sender for which there is no memory stops the kernel.  The
  packet then passes when the sender is online, when it is a name query, and when it opens or
  closes a connection; a UDP packet without its destination port, any other packet without its
  14th transport byte, and one whose payload ends within \<open>GET\<close> - with none at all, every bare
  acknowledgement - is read out of bounds; a payload that starts with \<open>GET\<close> is dropped and
  answered with the redirection, and with a reset behind it, as far as there is memory for the
  two (provided that the packet has 16 transport bytes); everything else is dropped.
\<close>

theorem nos_do_verdict:
  assumes "user_hash_ok (ne_jhash env) g" "ip_hdr skb = Inr iph" "14 \<le> length (skb_mac skb)"
    and "length (skb_data skb) \<le> unat (skb_len skb)" "\<And>c. na_copy al = Some c \<Longrightarrow> copies skb c"
  defines "mac \<equiv> window 6 6 (skb_mac skb)"
  defines "online \<equiv> (case user_lookup (ne_jhash env) g mac of Some n \<Rightarrow> un_status n = 1 | None \<Rightarrow> False)"
  shows "\<exists>g'. user_hash_ok (ne_jhash env) g'
    \<and> user_lookup (ne_jhash env) g' =
        (user_lookup (ne_jhash env) g)(mac \<mapsto> seen jiffies mac (ip_saddr iph) (user_lookup (ne_jhash env) g mac))
    \<and> (if conn \<noteq> Some False \<or> l3filter (ne_ipv4 env) iph \<or> looked_at al skb = None
          \<or> \<not> check_dir (Some (dev_name in_dev)) (map_option dev_name out_dev)
        then nos_hook_fw env al jiffies conn skb in_dev out_dev g = Inr (NF_ACCEPT, [], g)
        else if \<not> na_node al \<and> user_lookup (ne_jhash env) g mac = None
        then nos_hook_fw env al jiffies conn skb in_dev out_dev g = Inl Assert_failed
        else \<exists>use_skb. looked_at al skb = Some use_skb \<and> (case nos_action online use_skb iph of
            Pass \<Rightarrow> nos_hook_fw env al jiffies conn skb in_dev out_dev g = Inr (NF_ACCEPT, [], g')
          | Block \<Rightarrow> nos_hook_fw env al jiffies conn skb in_dev out_dev g = Inr (NF_DROP, [], g')
          | Overread \<Rightarrow> nos_hook_fw env al jiffies conn skb in_dev out_dev g = Inl Out_of_bounds
          | Answer \<Rightarrow> 4 * ip_ihl iph + 16 \<le> length (skb_data use_skb) \<longrightarrow>
              (\<exists>out tx. out_dev = Some out \<and> nos_hook_fw env al jiffies conn skb in_dev out_dev g = Inr (NF_DROP, tx, g')
                \<and> answers al use_skb iph (bytes_of (sprint URLFMT (url_args mac (ip_saddr iph)))) in_dev out tx)))"
proof -
  let ?url = "bytes_of (sprint URLFMT (url_args mac (ip_saddr iph)))"
  have m6: "length mac = ETH_ALEN" using assms(3) by (simp add: mac_def)
  obtain g' where g': "user_hash_ok (ne_jhash env) g'" "user_lookup (ne_jhash env) g' =
        (user_lookup (ne_jhash env) g)(mac \<mapsto> seen jiffies mac (ip_saddr iph) (user_lookup (ne_jhash env) g mac))"
    and see: "see_user (ne_jhash env) (na_node al) jiffies mac (ip_saddr iph) g =
      (if \<not> na_node al \<and> user_lookup (ne_jhash env) g mac = None then Inl Assert_failed else Inr (online, g'))"
    unfolding online_def by (rule see_user_outcome [OF assms(1)])
  let ?pass = "conn \<noteq> Some False \<or> l3filter (ne_ipv4 env) iph \<or> looked_at al skb = None
      \<or> \<not> check_dir (Some (dev_name in_dev)) (map_option dev_name out_dev)"
  show ?thesis
  proof (cases ?pass)
    case True
    then have "nos_hook_fw env al jiffies conn skb in_dev out_dev g = Inr (NF_ACCEPT, [], g)"
      using assms(2) by (auto simp: nos_hook_fw_def nos_do_def looked_at_def split: option.split if_splits)
    then show ?thesis using True g' by (intro exI [of _ g']) simp
  next
    case False
    then obtain use_skb where use: "looked_at al skb = Some use_skb" by (cases "looked_at al skb") auto
    note p = looked_at_packet [OF assms(2-5) use]
    have hook: "nos_hook_fw env al jiffies conn skb in_dev out_dev g = nos_do env al jiffies use_skb in_dev out_dev g"
      using False use assms(2) by (auto simp: nos_hook_fw_def looked_at_def split: if_splits)
    have mac: "mac = window 6 6 (skb_mac use_skb)" using p(2) by (simp add: mac_def)
    have dir: "check_dir (Some (dev_name in_dev)) (map_option dev_name out_dev)" using False by blast
    then obtain out where out: "out_dev = Some out" by (cases out_dev) (auto simp: check_dir_def)
    show ?thesis
    proof (cases "\<not> na_node al \<and> user_lookup (ne_jhash env) g mac = None")
      case True
      have "nos_do env al jiffies use_skb in_dev out_dev g = Inl Assert_failed"
        using True see p dir mac assms(2,3) by (simp add: nos_do_def mac_source_def mem_read_def)
      then show ?thesis using True False hook g' by (intro exI [of _ g']) simp
    next
      case alloc: False
      then have s: "see_user (ne_jhash env) (na_node al) jiffies mac (ip_saddr iph) g = Inr (online, g')" using see by simp
      note act = nos_do_action [OF p(1) dir mac s]
      have "ip_hdr use_skb = Inr iph" "14 \<le> length (skb_mac use_skb)" using p(1) by (simp_all add: nos_packet_def)
      note ans = auth_redirect_answers [OF this, where url = ?url and en = "ne_endian env" and k = "ne_csum env" and al = al
          and in_dev = in_dev and out = out]
      have "40 + length ?url < 65536" using url_fits(2) [OF m6, of "ip_saddr iph"] by (simp add: bytes_of_def)
      then show ?thesis using False alloc hook use act g' out ans
        by (intro exI [of _ g']) (fastforce split: nos_action.split)
    qed
  qed
qed

definition demo_uplink :: "net_device \<times> net_device" where
  "demo_uplink = (\<lparr>dev_index = 1, dev_name = ''br-lan''\<rparr>, \<lparr>dev_index = 2, dev_name = ''eth0.5''\<rparr>)"

definition demo_nos :: nos_env where
  "demo_nos = \<lparr>ne_endian = Little, ne_csum = \<lparr>csum_partial = \<lambda>_ s. s, csum_fold = \<lambda>_. 0, ip_send_check = \<lambda>_. 0\<rparr>,
     ne_jhash = \<lambda>_. 7, ne_ipv4 = \<lparr>ipv4_is_lbcast = \<lambda>_. False, ipv4_is_loopback = \<lambda>_. False,
       ipv4_is_multicast = \<lambda>_. False, ipv4_is_zeronet = \<lambda>_. False\<rparr>\<rparr>"

abbreviation demo_nos_alloc :: nos_alloc where
  "demo_nos_alloc \<equiv> \<lparr>na_node = True, na_skb1 = True, na_skb2 = True, na_copy = None\<rparr>"

lemma demo_get_packet: "ip_hdr demo_get = Inr \<lparr>ip_ihl = 5, ip_version = 4, ip_tot_len = 0, ip_protocol = 6, ip_saddr = 0, ip_daddr = 0\<rparr>"
  by code_simp

text \<open>A request is answered; a bare acknowledgement of the same sender is read out of bounds.\<close>

theorem nos_do_verdict_witness:
  "(\<exists>g' tx. nos_hook_fw demo_nos demo_nos_alloc 5 (Some False) demo_get (fst demo_uplink) (Some (snd demo_uplink)) (nos_global_init 0 zero_global)
     = Inr (0, tx, g') \<and> length tx = 2)
   \<and> nos_hook_fw demo_nos demo_nos_alloc 5 (Some False) ((demo_tcp [])\<lparr>skb_mac := replicate 14 0\<rparr>) (fst demo_uplink) (Some (snd demo_uplink))
     (nos_global_init 0 zero_global) = Inl Out_of_bounds"
proof -
  let ?h = "\<lparr>ip_ihl = 5, ip_version = 4, ip_tot_len = 0, ip_protocol = 6, ip_saddr = 0, ip_daddr = 0\<rparr>"
    and ?g = "nos_global_init 0 zero_global" and ?ack = "(demo_tcp [])\<lparr>skb_mac := replicate 14 0\<rparr>"
  have ok: "user_hash_ok (ne_jhash demo_nos) ?g" "user_lookup (ne_jhash demo_nos) ?g = Map.empty" by (simp_all add: user_hash_empty)
  have d: "check_dir (Some (dev_name (fst demo_uplink))) (map_option dev_name (Some (snd demo_uplink)))"
    by (simp add: check_dir_def demo_uplink_def)
  have f: "\<not> l3filter (ne_ipv4 demo_nos) ?h" by code_simp
  have get: "looked_at demo_nos_alloc demo_get = Some demo_get" "nos_action False demo_get ?h = Answer"
    "4 * ip_ihl ?h + 16 \<le> length (skb_data demo_get)" "14 \<le> length (skb_mac demo_get)" "length (skb_data demo_get) \<le> unat (skb_len demo_get)"
    by code_simp+
  have ack: "looked_at demo_nos_alloc ?ack = Some ?ack" "nos_action False ?ack ?h = Overread" "ip_hdr ?ack = Inr ?h"
    "14 \<le> length (skb_mac ?ack)" "length (skb_data ?ack) \<le> unat (skb_len ?ack)"
    by code_simp+
  have a: "\<And>c. na_copy demo_nos_alloc = Some c \<Longrightarrow> copies skb c" for skb by simp
  show ?thesis
    using nos_do_verdict [OF ok(1) demo_get_packet get(4,5), of demo_nos_alloc 5 "Some False" "fst demo_uplink" "Some (snd demo_uplink)"]
      nos_do_verdict [OF ok(1) ack(3-5), of demo_nos_alloc 5 "Some False" "fst demo_uplink" "Some (snd demo_uplink)"]
      ok(2) d f get(1-3) ack(1,2) by (fastforce simp: answers_def)
qed

subsection \<open>The life of the table\<close>

text \<open>
  The states the driver can be in while it runs: every packet the hook handles without a fault
  and every expiry of the timer is a step.
\<close>

inductive nos_reach :: "nos_env \<Rightarrow> nos_global \<Rightarrow> bool" for env where
  start: "nos_reach env (nos_global_init jiffies g0)"
| packet: "nos_reach env g \<Longrightarrow> nos_hook_fw env al jiffies conn skb in_dev out_dev g = Inr (v, tx, g') \<Longrightarrow> nos_reach env g'"
| tick: "nos_reach env g \<Longrightarrow> nos_reach env (nos_timer_func jiffies g)"

lemma nos_do_state:
  assumes "nos_do env al jiffies skb in_dev out_dev g = Inr (v, tx, g')"
  shows "g' = g \<or> (\<exists>mac saddr online. see_user (ne_jhash env) (na_node al) jiffies mac saddr g = Inr (online, g'))"
  using assms
  by (auto simp: nos_do_def bindR_eq_Inr Let_def split: option.splits if_splits prod.splits)

lemma nos_hook_fw_state:
  assumes "nos_hook_fw env al jiffies conn skb in_dev out_dev g = Inr (v, tx, g')"
  shows "g' = g \<or> (\<exists>mac saddr online. see_user (ne_jhash env) (na_node al) jiffies mac saddr g = Inr (online, g'))"
  using assms
  by (auto simp: nos_hook_fw_def bindR_eq_Inr split: option.splits if_splits dest!: nos_do_state)

lemma see_user_alloc:
  "see_user jhash alloc jiffies mac saddr g = Inr (online, g') \<Longrightarrow> alloc \<or> user_lookup jhash g mac \<noteq> None"
  by (auto simp: see_user_def user_lookup_def bindR_eq_Inr assertR_def split: option.splits if_splits)

definition nobody_online :: "(bytes \<Rightarrow> u32) \<Rightarrow> nos_global \<Rightarrow> bool" where
  "nobody_online jhash g \<longleftrightarrow> user_hash_ok jhash g \<and> (\<forall>mac n. user_lookup jhash g mac = Some n \<longrightarrow> un_status n = 0)"

lemma see_user_nobody:
  assumes "nobody_online jhash g" "see_user jhash alloc jiffies mac saddr g = Inr (online, g')"
  shows "nobody_online jhash g'"
proof -
  have ok: "user_hash_ok jhash g" "alloc \<or> user_lookup jhash g mac \<noteq> None"
    using assms see_user_alloc by (auto simp: nobody_online_def)
  obtain g1 on where "see_user jhash alloc jiffies mac saddr g = Inr (on, g1)" "user_hash_ok jhash g1"
    "user_lookup jhash g1 = (user_lookup jhash g)(mac \<mapsto> seen jiffies mac saddr (user_lookup jhash g mac))"
    using see_user_ok [OF ok, of jiffies saddr] by metis
  moreover have "un_status (seen jiffies mac saddr (user_lookup jhash g mac)) = 0"
    using assms(1) by (auto simp: seen_def nobody_online_def split: option.split)
  ultimately show ?thesis using assms by (auto simp: nobody_online_def)
qed

text \<open>
  C35.  No user ever comes online.  In every state that the driver reaches, the table is
  well-formed and every user in it has the status 0: the source has no place that sets the
  status 1, which the hook asks for.
\<close>

theorem nos_nobody_online:
  assumes "nos_reach env g"
  shows "user_hash_ok (ne_jhash env) g \<and> (\<forall>mac n. user_lookup (ne_jhash env) g mac = Some n \<longrightarrow> un_status n = 0)"
  unfolding nobody_online_def [symmetric]
  using assms
proof induction
  case (start jiffies g0)
  then show ?case by (simp add: nobody_online_def user_hash_empty)
next
  case (packet g al jiffies conn skb in_dev out_dev v tx g')
  then show ?case using nos_hook_fw_state see_user_nobody by blast
next
  case (tick g jiffies)
  have "user_lookup (ne_jhash env) (nos_timer_func jiffies g) = user_lookup (ne_jhash env) g"
    by (simp add: fun_eq_iff user_lookup_map_of nos_timer_func_def)
  then show ?case using tick.IH by (simp add: nobody_online_def user_hash_ok_def nos_timer_func_def)
qed

definition demo_dns :: sk_buff where
  "demo_dns = \<lparr>skb_mac = replicate 14 0, skb_data = 0x45 # replicate 8 0 @ [17] @ replicate 10 0 @ [0, 0, 0, 53, 0, 0, 0, 0],
     skb_len = 28, skb_dev = Some 1, skb_iif = 1\<rparr>"

theorem nos_nobody_online_witness:
  "\<exists>g. nos_reach demo_nos g \<and> user_lookup (ne_jhash demo_nos) g (replicate 6 0) \<noteq> None
     \<and> user_hash_ok (ne_jhash demo_nos) g \<and> (\<forall>mac n. user_lookup (ne_jhash demo_nos) g mac = Some n \<longrightarrow> un_status n = 0)"
proof -
  let ?h = "\<lparr>ip_ihl = 5, ip_version = 4, ip_tot_len = 0, ip_protocol = 17, ip_saddr = 0, ip_daddr = 0\<rparr>"
    and ?g = "nos_global_init 0 zero_global"
  have h: "ip_hdr demo_dns = Inr ?h" by code_simp
  have d: "check_dir (Some (dev_name (fst demo_uplink))) (map_option dev_name (Some (snd demo_uplink)))"
    by (simp add: check_dir_def demo_uplink_def)
  have mac: "mac_source demo_dns = Inr (replicate 6 0)" by (simp add: demo_dns_def mac_source_def mem_read_def window_def)
  obtain g' where s: "see_user (ne_jhash demo_nos) True 5 (replicate 6 0) 0 ?g = Inr (False, g')"
    "user_lookup (ne_jhash demo_nos) g' = [replicate 6 0 \<mapsto> seen 5 (replicate 6 0) 0 None]"
    using see_user_ok [where alloc = True and mac = "replicate 6 0" and jiffies = 5 and saddr = 0,
        OF user_hash_empty(1) [of "ne_jhash demo_nos" 0 zero_global]] by (auto simp: user_hash_empty(2))
  have f: "\<not> l3filter (ne_ipv4 demo_nos) ?h" "\<not> skb_is_nonlinear demo_dns" "field16 Big 22 (skb_data demo_dns) = Inr 53"
    by code_simp+
  have "nos_hook_fw demo_nos demo_nos_alloc 5 (Some False) demo_dns (fst demo_uplink) (Some (snd demo_uplink)) ?g = Inr (1, [], g')"
    using h d mac s(1) f by (simp add: nos_hook_fw_def nos_do_def)
  then have "nos_reach demo_nos g'" by (rule nos_reach.packet [OF nos_reach.start])
  then show ?thesis using s(2) nos_nobody_online by (intro exI [of _ g']) simp
qed

subsection \<open>Checksums\<close>

text \<open>The sum of the 16-bit words of a byte string, in the machine's byte order.\<close>

fun words_sum :: "endian \<Rightarrow> bytes \<Rightarrow> nat" where
  "words_sum en [] = 0"
| "words_sum en [a] = unat (dec16 en [a, 0])"
| "words_sum en (a # b # bs) = unat (dec16 en [a, b]) + words_sum en bs"

lemma words_sum_append: "even (length xs) \<Longrightarrow> words_sum en (xs @ ys) = words_sum en xs + words_sum en ys"
  by (induction en xs rule: words_sum.induct) auto

text \<open>
  What the kernel documents of its checksum functions: \<open>csum_partial\<close> adds the words of a buffer
  to a sum in ones' complement arithmetic, and \<open>csum_fold\<close> returns the complement of a sum, folded
  to 16 bits.  In ones' complement arithmetic sums are equal when they agree modulo 65535.
\<close>

definition csum_adds :: "endian \<Rightarrow> nos_csum \<Rightarrow> bool" where
  "csum_adds en k \<longleftrightarrow> (\<forall>b s. unat (csum_partial k b s) mod 65535 = (unat s + words_sum en b) mod 65535)"

definition csum_folds :: "nos_csum \<Rightarrow> bool" where
  "csum_folds k \<longleftrightarrow> (\<forall>s. (unat (csum_fold k s) + unat s) mod 65535 = 0)"

lemma words_sum_enc16: "words_sum en (enc16 en x) = unat x"
proof -
  obtain a b where ab: "enc16 en x = [a, b]" by (cases en) (simp_all add: enc16_def byte_order_def)
  then have "words_sum en (enc16 en x) = unat (dec16 en (enc16 en x))" by simp
  then show ?thesis by simp
qed

lemma enc_dec16: "length b = 2 \<Longrightarrow> enc16 Big (dec16 Big b) = b"
proof -
  assume "length b = 2"
  then obtain x y where b: "b = [x, y]" by (auto simp: numeral_2_eq_2 length_Suc_conv)
  have "drop_bit 8 (push_bit 8 (ucast x) OR ucast y :: u16) = ucast x" "ucast (ucast x :: u16) = x"
    "ucast (push_bit 8 (ucast x) OR ucast y :: u16) = y"
    by (rule bit_word_eqI; auto simp: bit_simps dest: bit_imp_le_length)+
  then show ?thesis by (simp add: b enc16_def dec16_def byte_order_def)
qed

lemma words_sum_tcp: "words_sum en (tcp_bytes t c @ rest) = words_sum en (tcp_bytes t 0 @ rest) + words_sum en (enc16 Big c)"
proof -
  define a where "a = enc16 Big (th_source t) @ enc16 Big (th_dest t) @ enc32 Big (th_seq t)
     @ enc32 Big (th_ack_seq t) @ [push_bit 4 (of_nat (th_doff t)), th_flags t] @ enc16 Big (th_window t)"
  have a: "even (length a)" by (simp add: a_def)
  have split: "tcp_bytes t x @ rest = a @ enc16 Big x @ [0, 0] @ rest" for x by (simp add: tcp_bytes_def a_def)
  have "words_sum en (enc16 Big x @ [0, 0] @ rest) = words_sum en (enc16 Big x) + words_sum en ([0, 0] @ rest)" for x
    by (rule words_sum_append) simp
  moreover have "words_sum en (enc16 Big 0) = 0" by (cases en) (simp_all add: enc16_def byte_order_def dec16_def)
  ultimately show ?thesis by (simp only: split words_sum_append [OF a])
qed

text \<open>The segment with its checksum, under the pseudo header that the code has built.\<close>

lemma segment_sum:
  fixes t :: tcphdr and payload :: bytes
  assumes "csum_adds en k" "csum_folds k"
  defines "seg \<equiv> \<lambda>chk. tcp_bytes t chk @ payload"
  shows "words_sum en (pse_hdr sa da (of_nat (length (seg 0))) @ seg (tcp_csum (nos_csum_env en k) sa da (seg 0))) mod 65535 = 0"
proof -
  let ?p = "pse_hdr sa da (of_nat (length (seg 0)))" and ?s0 = "csum_partial k (seg 0) 0"
  let ?s1 = "csum_partial k ?p ?s0"
  have p: "even (length ?p)" by (simp add: pse_hdr_def)
  have chk: "words_sum en (enc16 Big (tcp_csum (nos_csum_env en k) sa da (seg 0))) = unat (csum_fold k ?s1)"
    by (simp add: nos_csum_env_def enc_dec16 words_sum_enc16 tcp_v4_check_def)
  have "unat ?s1 mod 65535 = (unat ?s0 + words_sum en ?p) mod 65535" using assms(1) by (simp add: csum_adds_def)
  also have "\<dots> = (unat ?s0 mod 65535 + words_sum en ?p) mod 65535" by (simp add: mod_simps)
  also have "unat ?s0 mod 65535 = words_sum en (seg 0) mod 65535" using assms(1) by (simp add: csum_adds_def)
  finally have s1: "unat ?s1 mod 65535 = (words_sum en (seg 0) + words_sum en ?p) mod 65535" by (simp add: mod_simps)
  have "words_sum en (?p @ seg (tcp_csum (nos_csum_env en k) sa da (seg 0)))
      = words_sum en ?p + (words_sum en (seg 0) + unat (csum_fold k ?s1))"
    using words_sum_append [OF p, of en "seg (tcp_csum (nos_csum_env en k) sa da (seg 0))"]
      words_sum_tcp [of en t "tcp_csum (nos_csum_env en k) sa da (seg 0)" payload] chk by (simp add: seg_def)
  also have "\<dots> mod 65535 = (unat (csum_fold k ?s1) + (words_sum en (seg 0) + words_sum en ?p) mod 65535) mod 65535"
    by (simp add: mod_simps add_ac)
  also have "\<dots> = (unat (csum_fold k ?s1) + unat ?s1) mod 65535" unfolding s1 [symmetric] by (simp add: mod_simps)
  also have "\<dots> = 0" using assms(2) by (simp add: csum_folds_def)
  finally show ?thesis .
qed

text \<open>
  What a receiver computes, from the bytes of the frame alone: the words of source and
  destination address, protocol, length of the segment and the segment add up to zero in ones'
  complement arithmetic.  The byte order in which the words are read does not matter.
\<close>

definition tcp_sum_ok :: "endian \<Rightarrow> bytes \<Rightarrow> bool" where
  "tcp_sum_ok en frame \<longleftrightarrow> words_sum en (window 26 8 frame @ [0, frame ! 23] @ enc16 Big (of_nat (length frame - 34)) @ drop 34 frame) mod 65535 = 0"

lemma dec16_value:
  "unat (dec16 Big [x, y]) = 256 * unat x + unat y" "unat (dec16 Little [x, y]) = 256 * unat y + unat x"
proof -
  have v: "unat (push_bit 8 (ucast a) OR ucast b :: u16) = 256 * unat a + unat b" for a b :: byte
  proof -
    have "push_bit 8 (ucast a) OR ucast b = push_bit 8 (ucast a :: u16) + ucast b"
      by (rule disjunctive_add_eq_or [symmetric]) (auto simp: bit_eq_iff bit_simps dest: bit_imp_le_length)
    also have "\<dots> = of_nat (256 * unat a + unat b)" by (simp add: push_bit_eq_mult mult.commute)
    finally show ?thesis using unat_less_size(1) [of a] unat_less_size(1) [of b] by (simp add: unat_of_nat16 del: of_nat_add of_nat_mult)
  qed
  show "unat (dec16 Big [x, y]) = 256 * unat x + unat y" "unat (dec16 Little [x, y]) = 256 * unat y + unat x"
    by (simp_all add: dec16_def byte_order_def v)
qed

lemma words_sum_swap: "words_sum Little b mod 65535 = (256 * words_sum Big b) mod 65535"
proof (induction Big b rule: words_sum.induct)
  case (2 a)
  have "words_sum Little [a] = unat a" by (simp add: dec16_value)
  then have "words_sum Little [a] mod 65535 = (unat a + 65535 * unat a) mod 65535" by (simp only: mod_mult_self2)
  also have "unat a + 65535 * unat a = 256 * words_sum Big [a]" by (simp add: dec16_value)
  finally show ?case .
next
  case (3 a b bs)
  have "words_sum Little (a # b # bs) mod 65535 = (256 * unat b + unat a + words_sum Little bs mod 65535) mod 65535"
    by (simp add: dec16_value mod_simps)
  also have "\<dots> = (256 * unat b + unat a + 256 * words_sum Big bs) mod 65535" using 3 by (simp add: mod_simps)
  also have "\<dots> = (256 * unat b + unat a + 256 * words_sum Big bs + 65535 * unat a) mod 65535" by (simp only: mod_mult_self2)
  also have "256 * unat b + unat a + 256 * words_sum Big bs + 65535 * unat a = 256 * words_sum Big (a # b # bs)"
    by (simp add: dec16_value)
  finally show ?case .
qed simp

lemma words_sum_order: "words_sum en b mod 65535 = 0 \<longleftrightarrow> words_sum Big b mod 65535 = 0"
proof (cases en)
  case Little
  have "65535 dvd w" if "65535 dvd 256 * w" for w :: nat
  proof -
    have "65535 dvd 256 * (256 * w)" using that by (rule dvd_mult)
    also have "256 * (256 * w) = w + 65535 * w" by simp
    finally show ?thesis using dvd_add_left_iff [of 65535 "65535 * w" w, OF dvd_triv_left] by blast
  qed
  then have "65535 dvd 256 * words_sum Big b \<longleftrightarrow> 65535 dvd words_sum Big b" using dvd_mult by blast
  then show ?thesis using words_sum_swap [of b] Little by (simp add: dvd_eq_mod_eq_0)
qed simp

text \<open>The frames that the two functions make.\<close>

definition checked_frame :: "endian \<Rightarrow> csum_env \<Rightarrow> u8 \<Rightarrow> bytes \<Rightarrow> bool" where
  "checked_frame en k proto p \<longleftrightarrow> (\<exists>eth h ident c t payload. p = eth @ ip_bytes en h ident 0x0040 c
      @ tcp_bytes t (tcp_csum k (ip_saddr h) (ip_daddr h) (tcp_bytes t 0 @ payload)) @ payload \<and> length eth = 14 \<and> ip_protocol h = proto)"

lemma push_headers_checked:
  assumes "push_headers en k t h ident eth s = Inr s'" "unat (ip_tot_len h) = 40 + length (nb_bytes s)" "length eth = 14"
  shows "checked_frame en k (ip_protocol h) (nb_bytes s')"
proof -
  have "nb_bytes s' = eth @ ip_bytes en h ident 0x0040 (ip_csum k (ip_bytes en h ident 0x0040 0))
      @ tcp_bytes t (tcp_csum k (ip_saddr h) (ip_daddr h) (tcp_bytes t 0 @ nb_bytes s)) @ nb_bytes s"
    using assms(1,2) by (auto simp: push_headers_def skb_push_def Let_def bindR_eq_Inr split: if_splits)
  then show ?thesis using assms(3) unfolding checked_frame_def by blast
qed

lemma auth_http_checked:
  assumes "auth_http en k ok url skb = Inr (r, Some p)" "ip_hdr skb = Inr h" "40 + length url < 65536"
  shows "checked_frame en k (ip_protocol h) p"
proof -
  let ?h = "\<lparr>ip_ihl = 5, ip_version = ip_version h, ip_tot_len = of_nat (40 + length url), ip_protocol = ip_protocol h,
      ip_saddr = ip_daddr h, ip_daddr = ip_saddr h\<rparr>"
  from assms(1,2) obtain s s' t oeth where "skb_put url (skb_reserve 54 (alloc_skb (54 + length url))) = Inr s"
    and e: "mem_read 0 12 (skb_mac skb) = Inr oeth"
    and p: "push_headers en k t ?h 0x2658 (eth_source oeth @ eth_dest oeth @ enc16 Big 0x0800) s = Inr s'" "p = nb_bytes s'"
    by (auto simp: auth_http_def Let_def bindR_eq_Inr split: if_splits)
  then have s: "nb_bytes s = url" by (auto simp: skb_put_def skb_reserve_def alloc_skb_def)
  have "unat (of_nat (40 + length url) :: u16) = 40 + length url" using assms(3) by (rule unat_of_nat16)
  then have n: "unat (ip_tot_len ?h) = 40 + length (nb_bytes s)" using s by simp
  have "length (eth_source oeth @ eth_dest oeth @ enc16 Big 0x0800) = 14"
    using e by (auto simp: mem_read_def window_def eth_source_def eth_dest_def split: if_splits)
  from push_headers_checked [OF p(1) n this] p(2) show ?thesis by simp
qed

lemma auth_reset_checked:
  assumes "auth_reset en k ok skb = Inr (r, Some p)" "ip_hdr skb = Inr h"
  shows "checked_frame en k (ip_protocol h) p"
proof -
  let ?h = "\<lparr>ip_ihl = 5, ip_version = ip_version h, ip_tot_len = 40, ip_protocol = ip_protocol h,
      ip_saddr = ip_saddr h, ip_daddr = ip_daddr h\<rparr>"
  from assms obtain s' t oeth where e: "mem_read 0 14 (skb_mac skb) = Inr oeth"
    and p: "push_headers en k t ?h 0 oeth (skb_reserve 54 (alloc_skb 54)) = Inr s'" "p = nb_bytes s'"
    by (auto simp: auth_reset_def Let_def bindR_eq_Inr split: if_splits)
  have n: "unat (ip_tot_len ?h) = 40 + length (nb_bytes (skb_reserve 54 (alloc_skb 54)))" by (simp add: skb_reserve_def alloc_skb_def)
  have "length oeth = 14" using e by (auto simp: mem_read_def window_def split: if_splits)
  from push_headers_checked [OF p(1) n this] p(2) show ?thesis by simp
qed

lemma checked_frame_sum:
  assumes "csum_adds en k" "csum_folds k" "checked_frame en (nos_csum_env en k) IPPROTO_TCP p"
  shows "tcp_sum_ok en' p"
proof -
  obtain eth h ident c t payload where p: "p = eth @ ip_bytes en h ident 0x0040 c
      @ tcp_bytes t (tcp_csum (nos_csum_env en k) (ip_saddr h) (ip_daddr h) (tcp_bytes t 0 @ payload)) @ payload"
    and h: "length eth = 14" "ip_protocol h = IPPROTO_TCP"
    using assms(3) by (auto simp: checked_frame_def)
  let ?seg = "tcp_bytes t (tcp_csum (nos_csum_env en k) (ip_saddr h) (ip_daddr h) (tcp_bytes t 0 @ payload)) @ payload"
  have "drop 34 p = ?seg" "length p - 34 = length (tcp_bytes t 0 @ payload)" using h(1) by (simp_all add: p)
  moreover have "p ! 23 = 6" using h by (simp add: p ip_bytes_def nth_append)
  moreover have "window 26 8 p = enc32 Big (ip_saddr h) @ enc32 Big (ip_daddr h)" using h(1) by (simp add: p window_def ip_bytes_def)
  ultimately have "window 26 8 p @ [0, p ! 23] @ enc16 Big (of_nat (length p - 34)) @ drop 34 p
      = pse_hdr (ip_saddr h) (ip_daddr h) (of_nat (length (tcp_bytes t 0 @ payload))) @ ?seg"
    by (simp add: pse_hdr_def)
  then have "tcp_sum_ok en p" unfolding tcp_sum_ok_def using segment_sum [OF assms(1,2), of "ip_saddr h" "ip_daddr h" t payload] by simp
  then show ?thesis using words_sum_order unfolding tcp_sum_ok_def by metis
qed

lemma nos_do_sends:
  assumes "nos_do env al jiffies skb in_dev out_dev g = Inr (v, tx, g')" "ip_hdr skb = Inr iph" "(dev, p) \<in> set tx"
  shows "checked_frame (ne_endian env) (nos_csum_env (ne_endian env) (ne_csum env)) (ip_protocol iph) p"
proof -
  from assms obtain mac url ret where m: "mac_source skb = Inr mac" "redirect_url mac (ip_saddr iph) = Inr url"
    and r: "auth_redirect (ne_endian env) (ne_csum env) (na_skb1 al) (na_skb2 al) url skb in_dev out_dev = Inr (ret, tx)"
    by (auto simp: nos_do_def bindR_eq_Inr Let_def split: option.splits if_splits prod.splits)
  have "length mac = ETH_ALEN" using m(1) by (auto simp: mac_source_def mem_read_def split: if_splits)
  then have "40 + length url < 65536" using m(2) redirect_url_ok [of mac "ip_saddr iph"] url_fits(2) [of mac "ip_saddr iph"]
    by (auto simp: bytes_of_def)
  then show ?thesis using r assms(2,3) auth_http_checked auth_reset_checked
    by (auto simp: auth_redirect_def auth_URL_def nos_auth_reset_def bindR_eq_Inr Let_def split: if_splits option.splits)
qed

text \<open>
  C34.  Every TCP packet that the driver sends carries a correct checksum.  When \<open>csum_partial\<close> and
  \<open>csum_fold\<close> do what the kernel documents and a copy of a packet has its IP header, then in every
  frame that \<open>nos_hook_fw\<close> sends in answer to a TCP packet - the redirection and the reset - the
  words of the addresses, the protocol, the length and the segment, read off the frame, add up
  to zero in ones' complement arithmetic, which is what a receiver tests, whatever the byte
  orders of the two machines.
\<close>

theorem nos_tcp_checksum:
  assumes "csum_adds (ne_endian env) (ne_csum env)" "csum_folds (ne_csum env)"
    and "ip_hdr skb = Inr iph" "ip_protocol iph = IPPROTO_TCP" "\<And>c. na_copy al = Some c \<Longrightarrow> ip_hdr c = Inr iph"
    and "nos_hook_fw env al jiffies conn skb in_dev out_dev g = Inr (v, tx, g')" "(dev, p) \<in> set tx"
  shows "tcp_sum_ok en p"
proof -
  obtain use_skb where u: "nos_do env al jiffies use_skb in_dev out_dev g = Inr (v, tx, g')" "use_skb = skb \<or> na_copy al = Some use_skb"
    using assms(6,7) by (auto simp: nos_hook_fw_def bindR_eq_Inr split: option.splits if_splits)
  then have "ip_hdr use_skb = Inr iph" using assms(3,5) by blast
  from nos_do_sends [OF u(1) this assms(7)] show ?thesis unfolding assms(4) by (rule checked_frame_sum [OF assms(1,2)])
qed

text \<open>Checksum functions that do what is documented.\<close>

definition demo_csum :: nos_csum where
  "demo_csum = \<lparr>csum_partial = \<lambda>b s. of_nat ((unat s + words_sum Little b) mod 65535),
     csum_fold = \<lambda>s. of_nat (65535 - unat s mod 65535), ip_send_check = \<lambda>_. 0\<rparr>"

lemma demo_csum_ok: "csum_adds Little demo_csum" "csum_folds demo_csum"
proof -
  have "unat (of_nat (n mod 65535) :: u32) = n mod 65535" for n
    by (rule unat_of_nat32) (rule less_trans [OF mod_less_divisor], simp_all)
  then show "csum_adds Little demo_csum" by (simp add: csum_adds_def demo_csum_def)
  have "unat (of_nat (65535 - n mod 65535) :: u16) = 65535 - n mod 65535" for n by (rule unat_of_nat16) simp
  moreover have "(65535 - n mod 65535 + n) mod 65535 = 0" for n :: nat
  proof -
    have "65535 - r + m = 65535 * (1 + q)" if "m = q * 65535 + r" "r \<le> 65535" for q r m :: nat using that by simp
    moreover have "n mod 65535 \<le> 65535" by (rule less_imp_le) simp
    ultimately have "65535 - n mod 65535 + n = 65535 * (1 + n div 65535)" using div_mult_mod_eq [of n 65535] by metis
    then show ?thesis by (metis mod_mult_self1_is_0)
  qed
  ultimately show "csum_folds demo_csum" by (simp add: csum_folds_def demo_csum_def)
qed


text \<open>The answer to a request, on a machine with these functions.\<close>

abbreviation demo_sum_nos :: nos_env where
  "demo_sum_nos \<equiv> demo_nos\<lparr>ne_csum := demo_csum\<rparr>"

theorem nos_tcp_checksum_witness:
  "\<exists>g' d1 p1 d2 p2. nos_hook_fw demo_sum_nos demo_nos_alloc 5 (Some False) demo_get (fst demo_uplink) (Some (snd demo_uplink))
      (nos_global_init 0 zero_global) = Inr (0, [(d1, p1), (d2, p2)], g') \<and> tcp_sum_ok Big p1 \<and> tcp_sum_ok Little p2"
proof -
  let ?h = "\<lparr>ip_ihl = 5, ip_version = 4, ip_tot_len = 0, ip_protocol = 6, ip_saddr = 0, ip_daddr = 0\<rparr>"
    and ?g = "nos_global_init 0 zero_global" and ?mac = "window 6 6 (skb_mac demo_get)"
  have c: "csum_adds (ne_endian demo_sum_nos) (ne_csum demo_sum_nos)" "csum_folds (ne_csum demo_sum_nos)"
    using demo_csum_ok by (simp_all add: demo_nos_def)
  have d: "check_dir (Some (dev_name (fst demo_uplink))) (map_option dev_name (Some (snd demo_uplink)))"
    by (simp add: check_dir_def demo_uplink_def)
  have f: "\<not> l3filter (ne_ipv4 demo_nos) ?h" "\<not> skb_is_nonlinear demo_get" "nos_action False demo_get ?h = Answer"
    "4 * ip_ihl ?h + 16 \<le> length (skb_data demo_get)" "14 \<le> length (skb_mac demo_get)" "unat (skb_len demo_get) = length (skb_data demo_get)"
    by code_simp+
  have p: "nos_packet demo_get ?h" using demo_get_packet f(5,6) by (simp add: nos_packet_def)
  obtain g' where see: "see_user (ne_jhash demo_sum_nos) (na_node demo_nos_alloc) 5 ?mac (ip_saddr ?h) ?g = Inr (False, g')"
    using see_user_ok [where alloc = True and mac = ?mac and jiffies = 5 and saddr = 0,
        OF user_hash_empty(1) [of "ne_jhash demo_sum_nos" 0 zero_global]] by (auto simp: user_hash_empty(2))
  let ?url = "bytes_of (sprint URLFMT (url_args ?mac (ip_saddr ?h)))"
  have "length ?mac = ETH_ALEN" using f(5) by simp
  then have l: "40 + length ?url < 65536" using url_fits(2) [of ?mac "ip_saddr ?h"] by (simp add: bytes_of_def)
  from auth_redirect_answers [OF demo_get_packet f(5,4) l, of "ne_endian demo_sum_nos" "ne_csum demo_sum_nos" demo_nos_alloc "fst demo_uplink" "snd demo_uplink"]
  obtain ret d1 p1 d2 p2 where a: "auth_redirect (ne_endian demo_sum_nos) (ne_csum demo_sum_nos) True True ?url demo_get (fst demo_uplink)
      (Some (snd demo_uplink)) = Inr (ret, [(d1, p1), (d2, p2)])" by (auto simp: answers_def)
  have r: "nos_hook_fw demo_sum_nos demo_nos_alloc 5 (Some False) demo_get (fst demo_uplink) (Some (snd demo_uplink)) ?g
      = Inr (0, [(d1, p1), (d2, p2)], g')"
    using nos_do_action [OF p d refl see] a f(1-3) demo_get_packet by (simp add: nos_hook_fw_def)
  note ok = nos_tcp_checksum [OF c demo_get_packet _ _ r]
  have "tcp_sum_ok Big p1" by (rule ok [of d1]) simp_all
  moreover have "tcp_sum_ok Little p2" by (rule ok [of d2]) simp_all
  ultimately show ?thesis using r by blast
qed

subsection \<open>Loading and unloading\<close>

lemma nos_global_init_fields [simp]:
  "g_status (nos_global_init j g) = NOS_STATUS_RUN" "tm_expires (g_timer (nos_global_init j g)) = Some (j + 1000)"
  by (simp_all add: nos_global_init_def nos_status_set_def user_hash_init_def nos_timer_init_def Let_def)

text \<open>
  Loading and unloading the driver.  Loading either succeeds, with an empty well-formed
  table, the timer running and the hook in place, or returns the error of the step that failed
  with the timer stopped and nothing registered; unloading, from whatever the table holds then,
  leaves nothing registered, stops the timer and frees every user once.
\<close>

theorem nos_module_lifecycle:
  assumes "\<not> nm_sysfs m" "\<not> nm_hooks m"
  shows "(case nos_module_init jiffies sysfs_ret hooks_ret m of (ret, m') \<Rightarrow>
      ret = (if sysfs_ret \<noteq> 0 then sysfs_ret else hooks_ret)
      \<and> (if ret = 0 then nm_sysfs m' \<and> nm_hooks m' \<and> nos_status_is NOS_STATUS_RUN (nm_global m')
            \<and> tm_expires (g_timer (nm_global m')) = Some (jiffies + 1000)
            \<and> user_hash_ok jhash (nm_global m') \<and> user_lookup jhash (nm_global m') = Map.empty
          else \<not> nm_sysfs m' \<and> \<not> nm_hooks m' \<and> tm_expires (g_timer (nm_global m')) = None
            \<and> nos_status_is NOS_STATUS_STOP (nm_global m')))
    \<and> (user_hash_ok jhash (nm_global m2) \<longrightarrow> (case nos_module_fini m2 of (m', freed) \<Rightarrow>
      \<not> nm_sysfs m' \<and> \<not> nm_hooks m' \<and> tm_expires (g_timer (nm_global m')) = None
      \<and> nos_status_is NOS_STATUS_STOP (nm_global m') \<and> user_lookup jhash (nm_global m') = Map.empty
      \<and> distinct freed \<and> (\<forall>n. n \<in> set freed \<longleftrightarrow> user_lookup jhash (nm_global m2) (un_mac n) = Some n)))"
proof (intro conjI impI)
  show "case nos_module_init jiffies sysfs_ret hooks_ret m of (ret, m') \<Rightarrow>
      ret = (if sysfs_ret \<noteq> 0 then sysfs_ret else hooks_ret)
      \<and> (if ret = 0 then nm_sysfs m' \<and> nm_hooks m' \<and> nos_status_is NOS_STATUS_RUN (nm_global m')
            \<and> tm_expires (g_timer (nm_global m')) = Some (jiffies + 1000)
            \<and> user_hash_ok jhash (nm_global m') \<and> user_lookup jhash (nm_global m') = Map.empty
          else \<not> nm_sysfs m' \<and> \<not> nm_hooks m' \<and> tm_expires (g_timer (nm_global m')) = None
            \<and> nos_status_is NOS_STATUS_STOP (nm_global m'))"
    using assms by (auto simp: nos_module_init_def Let_def user_hash_empty nos_global_cleanup_def user_hash_fini_def
        nos_status_is_def nos_status_set_def nos_timer_cleanup_def)
next
  assume ok: "user_hash_ok jhash (nm_global m2)"
  let ?g = "(nm_global m2)\<lparr>g_status := NOS_STATUS_STOP, g_timer := nos_timer_cleanup (g_timer (nm_global m2))\<rparr>"
  have same: "user_lookup jhash ?g = user_lookup jhash (nm_global m2)" by (simp add: fun_eq_iff user_lookup_map_of)
  have g: "user_hash_ok jhash ?g" using ok by (simp add: user_hash_ok_def)
  have "nos_module_fini m2 = (m2\<lparr>nm_sysfs := False, nm_hooks := False, nm_global := fst (user_hash_fini ?g)\<rparr>, snd (user_hash_fini ?g))"
    by (simp add: nos_module_fini_def nos_global_cleanup_def nos_status_set_def Let_def split: prod.split)
  moreover have "user_lookup jhash (fst (user_hash_fini ?g)) = Map.empty"
    by (auto simp: user_hash_fini_def user_lookup_map_of hash_num_less)
  moreover have "g_status (fst (user_hash_fini ?g)) = NOS_STATUS_STOP" "tm_expires (g_timer (fst (user_hash_fini ?g))) = None"
    by (simp_all add: user_hash_fini_def nos_timer_cleanup_def)
  ultimately show "case nos_module_fini m2 of (m', freed) \<Rightarrow>
      \<not> nm_sysfs m' \<and> \<not> nm_hooks m' \<and> tm_expires (g_timer (nm_global m')) = None
      \<and> nos_status_is NOS_STATUS_STOP (nm_global m') \<and> user_lookup jhash (nm_global m') = Map.empty
      \<and> distinct freed \<and> (\<forall>n. n \<in> set freed \<longleftrightarrow> user_lookup jhash (nm_global m2) (un_mac n) = Some n)"
    using user_hash_fini_distinct [OF g] user_hash_fini_all [OF g] same by (simp add: nos_status_is_def)
qed

theorem nos_module_lifecycle_witness:
  "fst (nos_module_init 0 0 (- 12) \<lparr>nm_global = zero_global, nm_sysfs = False, nm_hooks = False\<rparr>) = - 12
   \<and> \<not> nm_sysfs (snd (nos_module_init 0 0 (- 12) \<lparr>nm_global = zero_global, nm_sysfs = False, nm_hooks = False\<rparr>))
   \<and> distinct (snd (nos_module_fini \<lparr>nm_global = nos_global_init 0 zero_global, nm_sysfs = True, nm_hooks = True\<rparr>))"
  using nos_module_lifecycle [where m = "\<lparr>nm_global = zero_global, nm_sysfs = False, nm_hooks = False\<rparr>" and jiffies = 0
      and sysfs_ret = 0 and hooks_ret = "- 12" and jhash = "\<lambda>_. 7"
      and ?m2.0 = "\<lparr>nm_global = nos_global_init 0 zero_global, nm_sysfs = True, nm_hooks = True\<rparr>"] user_hash_empty(1)
  by (auto split: prod.splits)

end
