(* ===== verification/HookTables.thy ===== *)
theory HookTables
  imports NtrackHooks NosHooks "HOL-Library.Multiset"
begin

text \<open>
  The two drivers side by side: the tables with which \<open>drivers/nos_track/src/ntrack_hooks.c\<close> and
  \<open>drivers/nos/src/nos_hooks.c\<close> register their hooks, and what becomes of a packet when both are
  loaded.  How netfilter orders the registered hooks is an argument; it is only assumed to call
  each of them, in ascending order of priority.  Both drivers register for the forwarding of IPv4
  packets with the same priority, so the order between them is open.
\<close>

subsection \<open>The tables\<close>

datatype hook_fn = Ntrack_hook_fw | Ntrack_hook_test | Nos_hook_fw

record nf_hook_ops =
  op_hook :: hook_fn
  op_pf :: nat
  op_hooknum :: nat
  op_priority :: int

abbreviation (input) NFPROTO_IPV4 :: nat where "NFPROTO_IPV4 \<equiv> 2"
abbreviation (input) NF_INET_PRE_ROUTING :: nat where "NF_INET_PRE_ROUTING \<equiv> 0"
abbreviation (input) NF_INET_FORWARD :: nat where "NF_INET_FORWARD \<equiv> 2"
abbreviation (input) NF_IP_PRI_FILTER :: int where "NF_IP_PRI_FILTER \<equiv> 0"
abbreviation (input) NF_IP_PRI_LAST :: int where "NF_IP_PRI_LAST \<equiv> 2147483647"

definition ntrack_nf_hook_ops :: "nf_hook_ops list" where
  "ntrack_nf_hook_ops =
    [\<lparr>op_hook = Ntrack_hook_fw, op_pf = NFPROTO_IPV4, op_hooknum = NF_INET_FORWARD, op_priority = NF_IP_PRI_LAST\<rparr>,
     \<lparr>op_hook = Ntrack_hook_test, op_pf = NFPROTO_IPV4, op_hooknum = NF_INET_PRE_ROUTING, op_priority = NF_IP_PRI_FILTER + 1\<rparr>]"

definition nos_nf_hook_ops :: "nf_hook_ops list" where
  "nos_nf_hook_ops =
    [\<lparr>op_hook = Nos_hook_fw, op_pf = NFPROTO_IPV4, op_hooknum = NF_INET_FORWARD, op_priority = NF_IP_PRI_LAST\<rparr>]"

subsection \<open>A host with both drivers\<close>

record host =
  h_nt :: nt_state
  h_nos :: nos_global
  h_sent :: "(nat \<times> bytes) list"

record host_env =
  hx_nt :: hook_env
  hx_nt_al :: hook_alloc
  hx_nos :: nos_env
  hx_nos_al :: nos_alloc
  hx_jiffies :: u32

record packet =
  pk_ct :: "nf_conn option"
  pk_skb :: sk_buff
  pk_in :: net_device
  pk_out :: "net_device option"

fun call_hook :: "host_env \<Rightarrow> packet \<Rightarrow> hook_fn \<Rightarrow> host \<Rightarrow> (nat \<times> host) result" where
  "call_hook x p Ntrack_hook_fw h =
     bindR (ntrack_hook_fw (hx_nt x) (hx_nt_al x) (hx_jiffies x) (pk_ct p) (pk_skb p) (pk_in p) (pk_out p) (h_nt h)) (\<lambda>(v, st).
       Inr (v, h\<lparr>h_nt := st\<rparr>))"
| "call_hook x p Ntrack_hook_test h = Inr (ntrack_hook_test (pk_ct p), h)"
| "call_hook x p Nos_hook_fw h =
     bindR (nos_hook_fw (hx_nos x) (hx_nos_al x) (hx_jiffies x) (map_option ct_untracked (pk_ct p)) (pk_skb p) (pk_in p) (pk_out p) (h_nos h))
       (\<lambda>(v, tx, g). Inr (v, h\<lparr>h_nos := g, h_sent := h_sent h @ tx\<rparr>))"

text \<open>Every registered hook is called until one does not accept the packet.\<close>

fun call_hooks :: "host_env \<Rightarrow> packet \<Rightarrow> nf_hook_ops list \<Rightarrow> host \<Rightarrow> (nat \<times> host) result" where
  "call_hooks x p [] h = Inr (NF_ACCEPT, h)"
| "call_hooks x p (op # ops) h = bindR (call_hook x p (op_hook op) h) (\<lambda>(v, h').
     if v = NF_ACCEPT then call_hooks x p ops h' else Inr (v, h'))"

definition at_point :: "nat \<Rightarrow> nf_hook_ops list \<Rightarrow> nf_hook_ops list" where
  "at_point n ops = filter (\<lambda>op. op_pf op = NFPROTO_IPV4 \<and> op_hooknum op = n) ops"

definition netfilter_order :: "(nf_hook_ops list \<Rightarrow> nf_hook_ops list) \<Rightarrow> bool" where
  "netfilter_order order \<longleftrightarrow> (\<forall>ops. mset (order ops) = mset ops \<and> sorted (map op_priority (order ops)))"

subsection \<open>The verdict on a forwarded packet\<close>

lemma two_orders:
  assumes "mset xs = {#a, b#}" shows "xs = [a, b] \<or> xs = [b, a]"
proof -
  have "size (mset xs) = 2" using assms by simp
  then obtain x y where xs: "xs = [x, y]" by (auto simp: length_Suc_conv numeral_2_eq_2)
  then show ?thesis using assms by (auto simp: add_eq_conv_diff split: if_splits)
qed

text \<open>The hooks of \<open>nos_track\<close> accept every packet.\<close>

lemma report_accepts: "report_online env al j i ui st = Inr r \<Longrightarrow> fst r = NF_ACCEPT"
  by (auto simp: report_online_def bindR_eq_Inr split: prod.splits option.splits)

lemma ntrack_accepts: "ntrack_hook_fw env al j ct skb d out st = Inr r \<Longrightarrow> fst r = NF_ACCEPT"
  unfolding ntrack_hook_fw_def
  by (auto simp: bindR_eq_Inr intro: report_accepts [simplified] split: option.splits)

text \<open>
  The older driver decides: whatever the order, the verdict on a forwarded packet is the verdict
  of \<open>nos_hook_fw\<close>, which sees every packet; a packet it accepts is also seen by \<open>ntrack_hook_fw\<close>, and
  one it drops is or is not, as the order has it.
\<close>

theorem forward_verdict:
  assumes "netfilter_order order" "tables = [ntrack_nf_hook_ops, nos_nf_hook_ops] \<or> tables = [nos_nf_hook_ops, ntrack_nf_hook_ops]"
    and "ntrack_hook_fw (hx_nt x) (hx_nt_al x) (hx_jiffies x) (pk_ct p) (pk_skb p) (pk_in p) (pk_out p) (h_nt h) = Inr (a, st)"
    and "nos_hook_fw (hx_nos x) (hx_nos_al x) (hx_jiffies x) (map_option ct_untracked (pk_ct p)) (pk_skb p) (pk_in p) (pk_out p) (h_nos h)
      = Inr (v, tx, g)"
  shows "\<exists>nt. call_hooks x p (order (at_point NF_INET_FORWARD (concat tables))) h
      = Inr (v, h\<lparr>h_nt := nt, h_nos := g, h_sent := h_sent h @ tx\<rparr>)
    \<and> (nt = st \<or> v \<noteq> NF_ACCEPT \<and> nt = h_nt h)"
proof -
  have "mset (at_point NF_INET_FORWARD (concat tables)) = {#ntrack_nf_hook_ops ! 0, nos_nf_hook_ops ! 0#}"
    using assms(2) by (auto simp: at_point_def ntrack_nf_hook_ops_def nos_nf_hook_ops_def add_mset_commute)
  then have "mset (order (at_point NF_INET_FORWARD (concat tables))) = {#ntrack_nf_hook_ops ! 0, nos_nf_hook_ops ! 0#}"
    using assms(1) by (simp add: netfilter_order_def)
  note m = this
  from two_orders [OF m] consider "order (at_point NF_INET_FORWARD (concat tables)) = [ntrack_nf_hook_ops ! 0, nos_nf_hook_ops ! 0]"
    | "order (at_point NF_INET_FORWARD (concat tables)) = [nos_nf_hook_ops ! 0, ntrack_nf_hook_ops ! 0]"
    by blast
  moreover have hooks: "op_hook (ntrack_nf_hook_ops ! 0) = Ntrack_hook_fw" "op_hook (nos_nf_hook_ops ! 0) = Nos_hook_fw"
    by (simp_all add: ntrack_nf_hook_ops_def nos_nf_hook_ops_def)
  moreover have "a = NF_ACCEPT" using ntrack_accepts [OF assms(3)] by simp
  ultimately show ?thesis
    using assms(3,4)
  proof cases
    case 1
    then show ?thesis using hooks assms(3,4) \<open>a = NF_ACCEPT\<close> by (intro exI [of _ st]) (cases "v = NF_ACCEPT"; simp)
  next
    case 2
    show ?thesis
    proof (cases "v = NF_ACCEPT")
      case True
      then show ?thesis using 2 hooks assms(3,4) \<open>a = NF_ACCEPT\<close> by (intro exI [of _ st]) simp
    next
      case False
      then show ?thesis using 2 hooks assms(3,4) by (intro exI [of _ "h_nt h"]) simp
    qed
  qed
qed

text \<open>In front of the routing decision only \<open>nos_track\<close> is called, and it lets everything pass unchanged.\<close>

lemma pre_routing_accepts:
  assumes "netfilter_order order"
  shows "call_hooks x p (order (at_point NF_INET_PRE_ROUTING (ntrack_nf_hook_ops @ nos_nf_hook_ops))) h = Inr (NF_ACCEPT, h)"
proof -
  let ?ops = "at_point NF_INET_PRE_ROUTING (ntrack_nf_hook_ops @ nos_nf_hook_ops)"
  have ops: "?ops = [ntrack_nf_hook_ops ! 1]" by (simp add: at_point_def ntrack_nf_hook_ops_def nos_nf_hook_ops_def)
  have "mset (order ?ops) = mset ?ops" using assms by (simp add: netfilter_order_def)
  then have "mset (order ?ops) = {#ntrack_nf_hook_ops ! 1#}" by (simp only: ops mset.simps)
  then have o1: "order ?ops = [ntrack_nf_hook_ops ! 1]" by simp
  show ?thesis unfolding o1 by (simp add: ntrack_nf_hook_ops_def ntrack_hook_test_def split: option.split)
qed

end
