(* ===== verification/Klog.thy ===== *)
theory Klog
  imports Bytes Decimal
begin

text \<open>
  The logging module \<open>drivers/klog/src/klog_linux.c\<close>: a list of log items, each with the set of
  message kinds it lets through, the kinds that are rate-limited, and a timer that undoes a
  temporary change.  An item is an address in a heap; a pending timer is the address of its
  item in a list of its own, because freeing an item does not stop its timer.  The kernel's
  \<open>__ratelimit\<close>, the clock (of 32 bits) and its rate are arguments, as are the contents of fresh
  memory.
\<close>

subsection \<open>Items\<close>

record ratelimit_state =
  rl_interval :: int
  rl_burst :: int
  rl_printed :: int
  rl_begin :: u32

record klog_item =
  it_magic :: u32
  it_verbose :: u32
  it_original_verbose :: u32
  it_ratelimit :: ratelimit_state
  it_expires :: u32
  it_name :: string

record klog_state =
  kl_heap :: "nat \<rightharpoonup> klog_item"
  g_klog_list :: "nat list"
  kl_timers :: "nat list"

abbreviation (input) KLOG_ITEM_MAGIC :: u32 where "KLOG_ITEM_MAGIC \<equiv> 0x2233abcd"

definition item_at :: "klog_state \<Rightarrow> nat \<Rightarrow> klog_item result" where
  "item_at st a = (case kl_heap st a of Some i \<Rightarrow> Inr i | None \<Rightarrow> Inl Use_after_free)"

definition set_item :: "nat \<Rightarrow> klog_item \<Rightarrow> klog_state \<Rightarrow> klog_state" where
  "set_item a i st = st\<lparr>kl_heap := (kl_heap st)(a \<mapsto> i)\<rparr>"

definition set_item_verbose :: "klog_item \<Rightarrow> u16 \<Rightarrow> u16 \<Rightarrow> klog_item" where
  "set_item_verbose i verbose limit = i\<lparr>it_verbose := push_bit 16 (ucast limit) OR ucast verbose\<rparr>"

text \<open>\<open>del_timer\<close> and \<open>mod_timer\<close>.\<close>

definition del_timer :: "nat \<Rightarrow> klog_state \<Rightarrow> klog_state" where
  "del_timer a st = st\<lparr>kl_timers := removeAll a (kl_timers st)\<rparr>"

definition mod_timer :: "nat \<Rightarrow> u32 \<Rightarrow> klog_state \<Rightarrow> klog_state result" where
  "mod_timer a expires st = bindR (item_at st a) (\<lambda>i.
     Inr ((set_item a (i\<lparr>it_expires := expires\<rparr>) st)\<lparr>kl_timers := a # removeAll a (kl_timers st)\<rparr>))"

definition clear_item_timer :: "nat \<Rightarrow> klog_state \<Rightarrow> klog_state result" where
  "clear_item_timer a st = bindR (item_at st a) (\<lambda>i.
     Inr (del_timer a (set_item a (i\<lparr>it_original_verbose := 0\<rparr>) st)))"

text \<open>
  The timer of an item fires: it is no longer pending, and \<open>restore_verbose\<close> runs.  The two are one
  step: that the item is freed on another CPU while \<open>restore_verbose\<close> is running is not represented.
\<close>

definition restore_verbose :: "nat \<Rightarrow> klog_state \<Rightarrow> klog_state result" where
  "restore_verbose a st = bindR (item_at st a) (\<lambda>i.
     Inr (set_item a (i\<lparr>it_verbose := it_original_verbose i, it_original_verbose := 0\<rparr>) st))"

definition timer_fires :: "nat \<Rightarrow> klog_state \<Rightarrow> klog_state result" where
  "timer_fires a st = restore_verbose a (del_timer a st)"

subsection \<open>Creating, removing and changing items\<close>

text \<open>
  \<open>klog_init\<close>: \<open>mem\<close> is the address of the fresh memory and what it contains.
\<close>

definition klog_init :: "u32 \<Rightarrow> (nat \<times> klog_item) option \<Rightarrow> string option \<Rightarrow> u16 \<Rightarrow> u16 \<Rightarrow> klog_state \<Rightarrow> nat option \<times> klog_state" where
  "klog_init HZ mem name verbose limit_flag st =
     (case mem of
        None \<Rightarrow> (None, st)
      | Some (a, fresh) \<Rightarrow>
          let i1 = set_item_verbose (fresh\<lparr>it_magic := KLOG_ITEM_MAGIC\<rparr>) verbose limit_flag;
              i2 = i1\<lparr>it_name := take 31 (case name of Some n \<Rightarrow> n | None \<Rightarrow> ''undefined'')\<rparr>;
              i3 = i2\<lparr>it_ratelimit := \<lparr>rl_interval = 10 * int (unat HZ), rl_burst = 5, rl_printed = 0, rl_begin = 0\<rparr>\<rparr>
          in (Some a, (set_item a i3 st)\<lparr>g_klog_list := a # g_klog_list st\<rparr>))"

definition klog_fini :: "nat \<Rightarrow> klog_state \<Rightarrow> (int \<times> klog_state) result" where
  "klog_fini logfd st = bindR (item_at st logfd) (\<lambda>i.
     if it_magic i \<noteq> KLOG_ITEM_MAGIC then Inr (- 1, st)
     else Inr (0, st\<lparr>g_klog_list := remove1 logfd (g_klog_list st), kl_heap := (kl_heap st)(logfd := None)\<rparr>))"

definition klog_set_ratelimit :: "u32 \<Rightarrow> nat \<Rightarrow> int \<Rightarrow> int \<Rightarrow> klog_state \<Rightarrow> (int \<times> klog_state) result" where
  "klog_set_ratelimit HZ logfd interval burst st = bindR (item_at st logfd) (\<lambda>i.
     if it_magic i \<noteq> KLOG_ITEM_MAGIC then Inr (- 1, st)
     else Inr (0, set_item logfd (i\<lparr>it_ratelimit := (it_ratelimit i)\<lparr>rl_interval := sint (of_int (interval * int (unat HZ)) :: u32), rl_burst := burst\<rparr>\<rparr>) st))"

definition klog_set_verbose ::
  "u32 \<Rightarrow> u32 \<Rightarrow> nat \<Rightarrow> u16 \<Rightarrow> u16 \<Rightarrow> u32 \<Rightarrow> klog_state \<Rightarrow> (int \<times> klog_state) result" where
  "klog_set_verbose HZ jiffies logfd verbose ratelimit how_long st = bindR (item_at st logfd) (\<lambda>i.
     if it_magic i \<noteq> KLOG_ITEM_MAGIC then Inr (- 1, st)
     else if how_long = 0 then Inr (0, st)
     else if how_long \<noteq> - 1 then
       let st1 = del_timer logfd st;
           i1 = (if it_original_verbose i = 0 then i\<lparr>it_original_verbose := it_verbose i\<rparr> else i);
           st2 = set_item logfd (set_item_verbose i1 verbose ratelimit) st1
       in bindR (mod_timer logfd (jiffies + how_long * HZ) st2) (\<lambda>st3. Inr (0, st3))
     else
       bindR (clear_item_timer logfd st) (\<lambda>st1.
       bindR (item_at st1 logfd) (\<lambda>i1. Inr (0, set_item logfd (set_item_verbose i1 verbose ratelimit) st1))))"

text \<open>\<open>klog_get_verbose\<close> returns -1 or the three values it stores.\<close>

definition klog_get_verbose :: "u32 \<Rightarrow> u32 \<Rightarrow> nat \<Rightarrow> klog_state \<Rightarrow> (int \<times> (u32 \<times> u32 \<times> u32) option) result" where
  "klog_get_verbose HZ jiffies logfd st = bindR (item_at st logfd) (\<lambda>i.
     if it_magic i \<noteq> KLOG_ITEM_MAGIC then Inr (- 1, None)
     else if HZ = 0 then Inl Div_by_zero
     else Inr (0, Some (it_verbose i, it_original_verbose i, (it_expires i - jiffies) div HZ)))"

text \<open>The two loops over the list, for the items of a name.\<close>

fun set_verbose_loop :: "string \<Rightarrow> u16 \<Rightarrow> u16 \<Rightarrow> nat list \<Rightarrow> int \<Rightarrow> klog_state \<Rightarrow> (int \<times> klog_state) result" where
  "set_verbose_loop name verbose ratelimit [] ret st = Inr (ret, st)"
| "set_verbose_loop name verbose ratelimit (a # as) ret st = bindR (item_at st a) (\<lambda>i.
     if it_name i = name then
       bindR (clear_item_timer a st) (\<lambda>st1.
       bindR (item_at st1 a) (\<lambda>i1.
         set_verbose_loop name verbose ratelimit as (ret + 1) (set_item a (set_item_verbose i1 verbose ratelimit) st1)))
     else set_verbose_loop name verbose ratelimit as ret st)"

definition klog_set_verbose_by_name :: "string \<Rightarrow> u16 \<Rightarrow> u16 \<Rightarrow> klog_state \<Rightarrow> (int \<times> klog_state) result" where
  "klog_set_verbose_by_name name verbose ratelimit st =
     bindR (set_verbose_loop name verbose ratelimit (g_klog_list st) 0 st) (\<lambda>(ret, st').
       Inr (if ret = 0 then - 1 else ret, st'))"

fun set_ratelimit_loop :: "string \<Rightarrow> int \<Rightarrow> int \<Rightarrow> nat list \<Rightarrow> int \<Rightarrow> klog_state \<Rightarrow> (int \<times> klog_state) result" where
  "set_ratelimit_loop name interval burst [] ret st = Inr (ret, st)"
| "set_ratelimit_loop name interval burst (a # as) ret st = bindR (item_at st a) (\<lambda>i.
     if it_name i = name then
       set_ratelimit_loop name interval burst as (ret + 1)
         (set_item a (i\<lparr>it_ratelimit := (it_ratelimit i)\<lparr>rl_interval := interval, rl_burst := burst\<rparr>\<rparr>) st)
     else set_ratelimit_loop name interval burst as ret st)"

definition klog_set_ratelimit_by_name :: "string \<Rightarrow> int \<Rightarrow> int \<Rightarrow> klog_state \<Rightarrow> (int \<times> klog_state) result" where
  "klog_set_ratelimit_by_name name interval burst st =
     bindR (set_ratelimit_loop name interval burst (g_klog_list st) 0 st) (\<lambda>(ret, st').
       Inr (if ret = 0 then - 1 else ret, st'))"

subsection \<open>Whether a message is printed\<close>

text \<open>The kernel's \<open>__ratelimit\<close>: whether one more message may pass, and the new state.\<close>

type_synonym ratelimit_fn = "ratelimit_state \<Rightarrow> bool \<times> ratelimit_state"

definition klog_ratelimit :: "ratelimit_fn \<Rightarrow> nat \<Rightarrow> klog_state \<Rightarrow> (bool \<times> klog_state) result" where
  "klog_ratelimit rl a st = bindR (item_at st a) (\<lambda>i.
     let (ok, s) = rl (it_ratelimit i) in Inr (ok, set_item a (i\<lparr>it_ratelimit := s\<rparr>) st))"

definition verbose_value :: "nat \<Rightarrow> u32" where
  "verbose_value n = push_bit n 1"

definition limit_value :: "nat \<Rightarrow> u32" where
  "limit_value n = push_bit (n + 16) 1"

definition klog_verbose_check :: "ratelimit_fn \<Rightarrow> nat \<Rightarrow> nat \<Rightarrow> klog_state \<Rightarrow> (bool \<times> klog_state) result" where
  "klog_verbose_check rl logfd bit' st = bindR (item_at st logfd) (\<lambda>i.
     if it_verbose i AND verbose_value bit' \<noteq> 0 then
       if it_verbose i AND limit_value bit' = 0 then Inr (True, st) else klog_ratelimit rl logfd st
     else Inr (False, st))"

text \<open>The level of a trace is an \<open>int\<close> in the source and a natural number here; no code of the repository traces.\<close>

abbreviation (input) KLOG_VERBOSE_TRACE_BASE :: nat where "KLOG_VERBOSE_TRACE_BASE \<equiv> 5"

definition klog_debug_check :: "ratelimit_fn \<Rightarrow> nat \<Rightarrow> klog_state \<Rightarrow> (bool \<times> klog_state) result" where
  "klog_debug_check rl logfd = klog_verbose_check rl logfd 0"
definition klog_info_check :: "ratelimit_fn \<Rightarrow> nat \<Rightarrow> klog_state \<Rightarrow> (bool \<times> klog_state) result" where
  "klog_info_check rl logfd = klog_verbose_check rl logfd 1"
definition klog_warn_check :: "ratelimit_fn \<Rightarrow> nat \<Rightarrow> klog_state \<Rightarrow> (bool \<times> klog_state) result" where
  "klog_warn_check rl logfd = klog_verbose_check rl logfd 2"
definition klog_error_check :: "ratelimit_fn \<Rightarrow> nat \<Rightarrow> klog_state \<Rightarrow> (bool \<times> klog_state) result" where
  "klog_error_check rl logfd = klog_verbose_check rl logfd 3"
definition klog_dumpbuf_check :: "ratelimit_fn \<Rightarrow> nat \<Rightarrow> klog_state \<Rightarrow> (bool \<times> klog_state) result" where
  "klog_dumpbuf_check rl logfd = klog_verbose_check rl logfd 4"
definition klog_trace_check :: "ratelimit_fn \<Rightarrow> nat \<Rightarrow> nat \<Rightarrow> klog_state \<Rightarrow> (bool \<times> klog_state) result" where
  "klog_trace_check rl logfd level = klog_verbose_check rl logfd (KLOG_VERBOSE_TRACE_BASE + level)"

subsection \<open>Well-formed states\<close>

definition klog_ok :: "klog_state \<Rightarrow> bool" where
  "klog_ok st \<longleftrightarrow> distinct (g_klog_list st) \<and> set (g_klog_list st) = dom (kl_heap st)
     \<and> (\<forall>a i. kl_heap st a = Some i \<longrightarrow> it_magic i = KLOG_ITEM_MAGIC \<and> length (it_name i) < 32)"

lemma item_at_set [simp]: "item_at (set_item a i st) b = (if a = b then Inr i else item_at st b)"
  by (simp add: item_at_def set_item_def)

lemma item_at_del_timer [simp]: "item_at (del_timer a st) b = item_at st b"
  by (simp add: item_at_def del_timer_def)

lemma item_at_Some: "kl_heap st a = Some i \<Longrightarrow> item_at st a = Inr i"
  by (simp add: item_at_def)

lemma kl_heap_ops [simp]:
  "kl_heap (set_item a i st) = (kl_heap st)(a \<mapsto> i)" "g_klog_list (set_item a i st) = g_klog_list st"
  "kl_timers (set_item a i st) = kl_timers st" "kl_heap (del_timer a st) = kl_heap st"
  "g_klog_list (del_timer a st) = g_klog_list st" "kl_timers (del_timer a st) = removeAll a (kl_timers st)"
  by (simp_all add: set_item_def del_timer_def)

lemma set_item_verbose_value [simp]: "it_verbose (set_item_verbose i v l) = push_bit 16 (ucast l) OR ucast v"
  by (simp add: set_item_verbose_def)

lemma set_item_verbose_fields [simp]:
  "it_magic (set_item_verbose i v l) = it_magic i" "it_name (set_item_verbose i v l) = it_name i"
  "it_original_verbose (set_item_verbose i v l) = it_original_verbose i"
  by (simp_all add: set_item_verbose_def)

lemma klog_ok_set: "klog_ok st \<Longrightarrow> a \<in> dom (kl_heap st) \<Longrightarrow> it_magic i = KLOG_ITEM_MAGIC \<Longrightarrow> length (it_name i) < 32
   \<Longrightarrow> klog_ok (set_item a i st)"
  by (auto simp: klog_ok_def)

subsection \<open>Temporary changes\<close>

text \<open>One temporary change, on an item with its magic number.\<close>

lemma klog_set_verbose_temporary:
  assumes "kl_heap st a = Some i" "it_magic i = KLOG_ITEM_MAGIC" "how_long \<noteq> 0" "how_long \<noteq> - 1"
  shows "klog_set_verbose HZ jiffies a verbose limit how_long st =
    Inr (0, (set_item a ((set_item_verbose
        (if it_original_verbose i = 0 then i\<lparr>it_original_verbose := it_verbose i\<rparr> else i) verbose limit)
        \<lparr>it_expires := jiffies + how_long * HZ\<rparr>) st)\<lparr>kl_timers := a # removeAll a (kl_timers st)\<rparr>)"
  using assms by (simp add: klog_set_verbose_def item_at_def mod_timer_def Let_def set_item_def del_timer_def)

lemma timer_runs:
  "kl_heap st a = Some i \<Longrightarrow> timer_fires a st =
     Inr (set_item a (i\<lparr>it_verbose := it_original_verbose i, it_original_verbose := 0\<rparr>) (del_timer a st))"
  by (simp add: timer_fires_def restore_verbose_def item_at_def)

text \<open>A sequence of temporary changes: when, what, and for how long.\<close>

fun klog_temporaries :: "u32 \<Rightarrow> nat \<Rightarrow> (u32 \<times> u16 \<times> u16 \<times> u32) list \<Rightarrow> klog_state \<Rightarrow> klog_state result" where
  "klog_temporaries HZ a [] st = Inr st"
| "klog_temporaries HZ a ((jiffies, v, l, h) # cs) st =
     bindR (klog_set_verbose HZ jiffies a v l h st) (\<lambda>(_, st1). klog_temporaries HZ a cs st1)"

lemma klog_temporaries_keep:
  assumes "kl_heap st a = Some i" "it_magic i = KLOG_ITEM_MAGIC" "it_original_verbose i \<noteq> 0"
    and "\<forall>(j, v, l, h) \<in> set cs. h \<noteq> 0 \<and> h \<noteq> - 1"
  obtains st' i' where "klog_temporaries HZ a cs st = Inr st'" "kl_heap st' a = Some i'"
    "it_original_verbose i' = it_original_verbose i" "it_name i' = it_name i" "it_magic i' = it_magic i"
  using assms
proof (induction cs arbitrary: st i thesis)
  case Nil
  then show ?case by simp
next
  case (Cons c cs)
  obtain j v l h where c: "c = (j, v, l, h)" by (cases c)
  have h: "h \<noteq> 0" "h \<noteq> - 1" using Cons.prems(5) c by auto
  let ?i = "(set_item_verbose i v l)\<lparr>it_expires := j + h * HZ\<rparr>"
  let ?st = "(set_item a ?i st)\<lparr>kl_timers := a # removeAll a (kl_timers st)\<rparr>"
  have step: "klog_temporaries HZ a (c # cs) st = klog_temporaries HZ a cs ?st"
    using klog_set_verbose_temporary [OF Cons.prems(2,3) h] Cons.prems(4) by (simp add: c)
  show ?case
    by (rule Cons.IH [of ?st ?i]) (use Cons.prems step in auto)
qed

text \<open>
  Temporary changes are undone.  On an item without a temporary change that lets some kind
  of message through, any number of temporary changes followed by the expiry of the timer
  leaves the item with the kinds and limits it had before the first of them, and ready for the
  next.
\<close>

theorem klog_temporary_restores:
  assumes "kl_heap st a = Some i" "it_magic i = KLOG_ITEM_MAGIC" "it_original_verbose i = 0" "it_verbose i \<noteq> 0"
    and "cs \<noteq> []" "\<forall>(j, v, l, h) \<in> set cs. h \<noteq> 0 \<and> h \<noteq> - 1"
  shows "\<exists>st' i'. bindR (klog_temporaries HZ a cs st) (timer_fires a) = Inr st' \<and> kl_heap st' a = Some i'
    \<and> it_verbose i' = it_verbose i \<and> it_original_verbose i' = 0 \<and> a \<notin> set (kl_timers st')"
proof -
  obtain j v l h cs' where cs: "cs = (j, v, l, h) # cs'" using assms(5) by (cases cs) auto
  have h: "h \<noteq> 0" "h \<noteq> - 1" using assms(6) cs by auto
  let ?i = "(set_item_verbose (i\<lparr>it_original_verbose := it_verbose i\<rparr>) v l)\<lparr>it_expires := j + h * HZ\<rparr>"
  let ?st = "(set_item a ?i st)\<lparr>kl_timers := a # removeAll a (kl_timers st)\<rparr>"
  have step: "klog_temporaries HZ a cs st = klog_temporaries HZ a cs' ?st"
    using klog_set_verbose_temporary [OF assms(1,2) h] assms(3) by (simp add: cs)
  obtain st' i' where "klog_temporaries HZ a cs' ?st = Inr st'" "kl_heap st' a = Some i'" "it_original_verbose i' = it_verbose i"
    by (rule klog_temporaries_keep [of ?st a ?i cs' HZ]) (use assms cs in auto)
  then show ?thesis
    using step by (simp add: timer_fires_def restore_verbose_def item_at_def)
qed

definition demo_item :: klog_item where
  "demo_item = \<lparr>it_magic = KLOG_ITEM_MAGIC, it_verbose = 0x0e, it_original_verbose = 0,
     it_ratelimit = \<lparr>rl_interval = 1000, rl_burst = 5, rl_printed = 0, rl_begin = 0\<rparr>, it_expires = 0, it_name = ''ntrack''\<rparr>"

definition demo_klog :: klog_state where
  "demo_klog = \<lparr>kl_heap = [5 \<mapsto> demo_item], g_klog_list = [5], kl_timers = []\<rparr>"

theorem klog_temporary_restores_witness:
  "\<exists>st' i'. bindR (klog_temporaries 100 5 [(0, 0xff, 0, 10), (7, 0x1, 0, 10)] demo_klog) (timer_fires 5) = Inr st'
     \<and> kl_heap st' 5 = Some i' \<and> it_verbose i' = 0x0e"
  using klog_temporary_restores [of demo_klog 5 demo_item "[(0, 0xff, 0, 10), (7, 0x1, 0, 10)]" 100]
  by (auto simp: demo_klog_def demo_item_def)

text \<open>
  Three ways in which undoing fails.  An item that lets nothing through is left, after two
  temporary changes, with the first of them for good, because 0 also stands for no change; a
  fresh item takes the contents of its memory for a change that is to be undone; and an item
  that is removed during a temporary change is written to after it was freed.
\<close>

theorem klog_temporary_fails:
  assumes "h1 \<noteq> 0" "h1 \<noteq> - 1" "h2 \<noteq> 0" "h2 \<noteq> - 1"
    and "kl_heap st a = Some i" "it_magic i = KLOG_ITEM_MAGIC"
  shows "(it_verbose i = 0 \<and> it_original_verbose i = 0 \<longrightarrow>
      (\<exists>st'. bindR (klog_temporaries HZ a [(j1, v1, l1, h1), (j2, v2, l2, h2)] st) (timer_fires a) = Inr st'
        \<and> map_option it_verbose (kl_heap st' a) = Some (push_bit 16 (ucast l1) OR ucast v1)))
    \<and> (it_original_verbose fresh \<noteq> 0 \<longrightarrow>
      (\<exists>st'. bindR (klog_temporaries HZ b [(j1, v1, l1, h1)] (snd (klog_init HZ (Some (b, fresh)) name verbose limit st))) (timer_fires b)
          = Inr st' \<and> map_option it_verbose (kl_heap st' b) = Some (it_original_verbose fresh)))
    \<and> bindR (klog_temporaries HZ a [(j1, v1, l1, h1)] st) (\<lambda>st1. bindR (klog_fini a st1) (\<lambda>(_, st2). timer_fires a st2))
      = Inl Use_after_free"
proof (intro conjI impI)
  show "\<exists>st'. bindR (klog_temporaries HZ a [(j1, v1, l1, h1), (j2, v2, l2, h2)] st) (timer_fires a) = Inr st'
      \<and> map_option it_verbose (kl_heap st' a) = Some (push_bit 16 (ucast l1) OR ucast v1)"
    if "it_verbose i = 0 \<and> it_original_verbose i = 0"
    using that assms by (simp add: klog_set_verbose_temporary timer_runs)
  show "\<exists>st'. bindR (klog_temporaries HZ b [(j1, v1, l1, h1)] (snd (klog_init HZ (Some (b, fresh)) name verbose limit st))) (timer_fires b)
      = Inr st' \<and> map_option it_verbose (kl_heap st' b) = Some (it_original_verbose fresh)"
    if "it_original_verbose fresh \<noteq> 0"
    using that assms by (simp add: klog_set_verbose_temporary timer_runs klog_init_def Let_def)
  show "bindR (klog_temporaries HZ a [(j1, v1, l1, h1)] st) (\<lambda>st1. bindR (klog_fini a st1) (\<lambda>(_, st2). timer_fires a st2))
      = Inl Use_after_free"
    using assms
    by (simp add: klog_set_verbose_temporary klog_fini_def item_at_def timer_fires_def restore_verbose_def)
qed

theorem klog_temporary_fails_witness:
  "map_option it_verbose (kl_heap (demo_klog\<lparr>kl_heap := [5 \<mapsto> demo_item\<lparr>it_verbose := 0\<rparr>]\<rparr>) 5) = Some 0
   \<and> (\<exists>st'. bindR (klog_temporaries 100 5 [(0, 0xff, 0, 10), (7, 1, 0, 10)] (demo_klog\<lparr>kl_heap := [5 \<mapsto> demo_item\<lparr>it_verbose := 0\<rparr>]\<rparr>))
        (timer_fires 5) = Inr st' \<and> map_option it_verbose (kl_heap st' 5) = Some 0xff)"
  using klog_temporary_fails [of 10 10 "demo_klog\<lparr>kl_heap := [5 \<mapsto> demo_item\<lparr>it_verbose := 0\<rparr>]\<rparr>" 5
      "demo_item\<lparr>it_verbose := 0\<rparr>" 100 0 "0xff" 0 7 1 0 demo_item 6 None 0 0]
  by (simp add: demo_klog_def demo_item_def)

subsection \<open>Every operation keeps the list and the items in step\<close>

lemma klog_init_ok:
  assumes "klog_ok st" "a \<notin> dom (kl_heap st)"
  shows "klog_ok (snd (klog_init HZ (Some (a, fresh)) name verbose limit st))"
  using assms by (auto simp: klog_ok_def klog_init_def Let_def)

lemma klog_fini_ok:
  assumes "klog_ok st" "klog_fini a st = Inr (r, st')"
  shows "klog_ok st'"
  using assms by (auto simp: klog_ok_def klog_fini_def bindR_eq_Inr item_at_def split: if_splits option.splits)

lemma klog_set_verbose_ok:
  assumes "klog_ok st" "klog_set_verbose HZ jiffies a v l h st = Inr (r, st')"
  shows "klog_ok st'"
  using assms
  by (auto simp: klog_ok_def klog_set_verbose_def bindR_eq_Inr item_at_def mod_timer_def clear_item_timer_def Let_def
      split: if_splits option.splits)

lemma klog_set_ratelimit_ok:
  assumes "klog_ok st" "klog_set_ratelimit HZ a interval burst st = Inr (r, st')"
  shows "klog_ok st'"
  using assms by (auto simp: klog_ok_def klog_set_ratelimit_def bindR_eq_Inr item_at_def split: if_splits option.splits)

subsection \<open>What is set is what is checked\<close>

lemma verbose_value_bit: "w AND verbose_value n \<noteq> 0 \<longleftrightarrow> bit w n"
  by (simp add: verbose_value_def bit_iff_and_push_bit_not_eq_0)

lemma limit_value_bit: "w AND limit_value n = 0 \<longleftrightarrow> \<not> bit w (n + 16)"
  by (simp add: limit_value_def bit_iff_and_push_bit_not_eq_0)

lemma klog_verbose_check_bits:
  "kl_heap st a = Some i \<Longrightarrow> klog_verbose_check rl a n st =
    (if \<not> bit (it_verbose i) n then Inr (False, st)
     else if \<not> bit (it_verbose i) (n + 16) then Inr (True, st) else klog_ratelimit rl a st)"
  by (simp add: klog_verbose_check_def item_at_def verbose_value_bit limit_value_bit)

lemma item_verbose_bits:
  assumes "n < 16"
  shows "bit (push_bit 16 (ucast (l :: u16)) OR ucast (v :: u16) :: u32) n \<longleftrightarrow> bit v n"
    and "bit (push_bit 16 (ucast (l :: u16)) OR ucast (v :: u16) :: u32) (n + 16) \<longleftrightarrow> bit l n"
  using assms by (auto simp: bit_simps dest: bit_imp_le_length)

text \<open>
  C39.  What is set is what is checked.  A permanent change with the kinds \<open>v\<close> and the limits \<open>l\<close>
  is accepted by every live item, keeps the state well-formed, stops a pending restore, and from
  then on each of the sixteen kinds passes without limit when its bit of \<open>v\<close> is set and that of
  \<open>l\<close> is not, asks the rate limiter when both are, and is dropped otherwise.
\<close>

theorem klog_set_check:
  assumes "klog_ok st" "a \<in> dom (kl_heap st)" "n < 16"
  shows "\<exists>st'. klog_set_verbose HZ jiffies a v l (- 1) st = Inr (0, st') \<and> klog_ok st' \<and> a \<notin> set (kl_timers st')
    \<and> klog_verbose_check rl a n st' =
        (if \<not> bit v n then Inr (False, st') else if \<not> bit l n then Inr (True, st') else klog_ratelimit rl a st')"
proof -
  obtain i where i: "kl_heap st a = Some i" "it_magic i = KLOG_ITEM_MAGIC"
    using assms(1,2) by (auto simp: klog_ok_def)
  let ?st = "set_item a (set_item_verbose (i\<lparr>it_original_verbose := 0\<rparr>) v l) (del_timer a (set_item a (i\<lparr>it_original_verbose := 0\<rparr>) st))"
  have run: "klog_set_verbose HZ jiffies a v l (- 1) st = Inr (0, ?st)"
    using i by (simp add: klog_set_verbose_def item_at_Some clear_item_timer_def)
  have "klog_verbose_check rl a n ?st =
      (if \<not> bit v n then Inr (False, ?st) else if \<not> bit l n then Inr (True, ?st) else klog_ratelimit rl a ?st)"
    using klog_verbose_check_bits [of ?st a _ rl n] by (simp only: kl_heap_ops fun_upd_same set_item_verbose_value item_verbose_bits [OF assms(3)])
  then show ?thesis using run klog_set_verbose_ok [OF assms(1) run] by simp
qed

definition named :: "klog_state \<Rightarrow> string \<Rightarrow> nat \<Rightarrow> bool" where
  "named st name a = (case kl_heap st a of Some i \<Rightarrow> it_name i = name | None \<Rightarrow> False)"

lemma demo_klog_ok: "klog_ok demo_klog" "kl_heap demo_klog 5 = Some demo_item" "kl_timers demo_klog = []"
  "named demo_klog ''ntrack'' a \<longleftrightarrow> a = 5"
  by (auto simp: klog_ok_def demo_klog_def demo_item_def named_def split: if_splits)

theorem klog_set_check_witness:
  "\<exists>st'. klog_set_verbose 100 0 5 0x6 0x4 (- 1) demo_klog = Inr (0, st')
     \<and> klog_verbose_check (\<lambda>s. (False, s)) 5 1 st' = Inr (True, st')"
proof -
  have "bit (0x6 :: u16) 1" "\<not> bit (0x4 :: u16) 1" by code_simp+
  then show ?thesis
    using klog_set_check [of demo_klog 5 1 100 0 "0x6" "0x4" "\<lambda>s. (False, s)"] demo_klog_ok by auto
qed

subsection \<open>All items of a name\<close>

lemma set_verbose_loop_runs:
  assumes "distinct as" "set as \<subseteq> dom (kl_heap st)"
  shows "set_verbose_loop name v l as r st =
    Inr (r + int (length (filter (named st name) as)),
      st\<lparr>kl_heap := (\<lambda>b. if b \<in> set as \<and> named st name b
           then map_option (\<lambda>i. set_item_verbose (i\<lparr>it_original_verbose := 0\<rparr>) v l) (kl_heap st b) else kl_heap st b),
         kl_timers := filter (\<lambda>b. \<not> (b \<in> set as \<and> named st name b)) (kl_timers st)\<rparr>)"
  using assms
proof (induction as arbitrary: r st)
  case Nil
  then show ?case by simp
next
  case (Cons a as)
  obtain i where i: "kl_heap st a = Some i" using Cons.prems(2) by auto
  show ?case
  proof (cases "it_name i = name")
    case False
    then have "\<not> named st name a" using i by (simp add: named_def)
    moreover have "(\<lambda>b. (b = a \<or> b \<in> set as) \<and> named st name b) = (\<lambda>b. b \<in> set as \<and> named st name b)"
      using calculation by auto
    ultimately show ?thesis using False Cons i
      by (simp add: item_at_Some fun_eq_iff)
  next
    case True
    let ?st = "set_item a (set_item_verbose (i\<lparr>it_original_verbose := 0\<rparr>) v l) (del_timer a (set_item a (i\<lparr>it_original_verbose := 0\<rparr>) st))"
    have step: "set_verbose_loop name v l (a # as) r st = set_verbose_loop name v l as (r + 1) ?st"
      using True i by (simp add: item_at_Some clear_item_timer_def)
    have n: "named ?st name = named st name" and na': "a \<notin> set as"
      using True i Cons.prems(1) by (auto simp: named_def fun_eq_iff)
    have na: "named st name a" using True i by (simp add: named_def)
    have sub: "set as \<subseteq> dom (kl_heap ?st)" using Cons.prems(2) by auto
    have d: "distinct as" using Cons.prems(1) by simp
    show ?thesis unfolding step Cons.IH [OF d sub] n using na na' i
      by (auto simp: fun_eq_iff removeAll_filter_not_eq intro!: klog_state.equality filter_cong)
  qed
qed

lemma set_ratelimit_loop_runs:
  assumes "distinct as" "set as \<subseteq> dom (kl_heap st)"
  shows "set_ratelimit_loop name interval burst as r st =
    Inr (r + int (length (filter (named st name) as)),
      st\<lparr>kl_heap := (\<lambda>b. if b \<in> set as \<and> named st name b
           then map_option (\<lambda>i. i\<lparr>it_ratelimit := (it_ratelimit i)\<lparr>rl_interval := interval, rl_burst := burst\<rparr>\<rparr>) (kl_heap st b)
           else kl_heap st b)\<rparr>)"
  using assms
proof (induction as arbitrary: r st)
  case Nil
  then show ?case by simp
next
  case (Cons a as)
  obtain i where i: "kl_heap st a = Some i" using Cons.prems(2) by auto
  let ?st = "if named st name a
    then set_item a (i\<lparr>it_ratelimit := (it_ratelimit i)\<lparr>rl_interval := interval, rl_burst := burst\<rparr>\<rparr>) st else st"
  have step: "set_ratelimit_loop name interval burst (a # as) r st =
      set_ratelimit_loop name interval burst as (if named st name a then r + 1 else r) ?st"
    using i by (simp add: item_at_Some named_def)
  have n: "named ?st name = named st name" and na': "a \<notin> set as"
    using i Cons.prems(1) by (auto simp: named_def fun_eq_iff)
  have sub: "set as \<subseteq> dom (kl_heap ?st)" using Cons.prems(2) by auto
  have d: "distinct as" using Cons.prems(1) by simp
  show ?case unfolding step Cons.IH [OF d sub] n using na' i
    by (auto simp: fun_eq_iff intro!: klog_state.equality)
qed

lemma named_in_heap: "klog_ok st \<Longrightarrow> named st name b \<Longrightarrow> b \<in> set (g_klog_list st)"
  by (auto simp: klog_ok_def named_def split: option.splits)

text \<open>
  A change by name reaches every item of the name and no other.  On a well-formed state the
  walk over the list returns the number of items with the name, or -1 when there is none; each
  of them gets the new kinds and limits and forgets a pending restore, whose timer is stopped,
  and the list, the other items and their timers are as before.
\<close>

theorem klog_set_verbose_by_name_spec:
  assumes "klog_ok st"
  shows "\<exists>st'. klog_set_verbose_by_name name v l st =
      Inr (if \<exists>a. named st name a then int (card (Collect (named st name))) else - 1, st')
    \<and> (\<forall>a. kl_heap st' a = (if named st name a
          then map_option (\<lambda>i. set_item_verbose (i\<lparr>it_original_verbose := 0\<rparr>) v l) (kl_heap st a) else kl_heap st a))
    \<and> kl_timers st' = filter (\<lambda>a. \<not> named st name a) (kl_timers st)
    \<and> g_klog_list st' = g_klog_list st \<and> klog_ok st'"
proof -
  let ?as = "g_klog_list st"
  have d: "distinct ?as" "set ?as \<subseteq> dom (kl_heap st)" using assms by (simp_all add: klog_ok_def)
  let ?st = "st\<lparr>kl_heap := (\<lambda>b. if b \<in> set ?as \<and> named st name b
      then map_option (\<lambda>i. set_item_verbose (i\<lparr>it_original_verbose := 0\<rparr>) v l) (kl_heap st b) else kl_heap st b),
    kl_timers := filter (\<lambda>b. \<not> (b \<in> set ?as \<and> named st name b)) (kl_timers st)\<rparr>"
  note [simp] = named_in_heap [OF assms]
  have eq: "Collect (named st name) = set (filter (named st name) ?as)" by auto
  have card: "card (Collect (named st name)) = length (filter (named st name) ?as)"
    unfolding eq by (rule distinct_card) (simp add: d(1))
  have none: "(\<exists>a. named st name a) \<longleftrightarrow> filter (named st name) ?as \<noteq> []"
    by (auto simp: filter_empty_conv)
  have run: "klog_set_verbose_by_name name v l st =
      Inr (if \<exists>a. named st name a then int (card (Collect (named st name))) else - 1, ?st)"
    unfolding klog_set_verbose_by_name_def set_verbose_loop_runs [OF d] card none by simp
  have "klog_ok ?st"
    using assms by (auto simp: klog_ok_def dom_def split: if_splits)
  then show ?thesis using run by (intro exI [of _ ?st] conjI) (auto intro!: filter_cong)
qed

theorem klog_set_verbose_by_name_spec_witness:
  "\<exists>st'. klog_set_verbose_by_name ''ntrack'' 1 0 demo_klog = Inr (1, st')
     \<and> map_option it_verbose (kl_heap st' 5) = Some 1 \<and> kl_timers st' = []"
  using klog_set_verbose_by_name_spec [of demo_klog "''ntrack''" 1 0] demo_klog_ok
  by (auto simp: demo_klog_ok(4) [abs_def])

subsection \<open>Timers and removed items\<close>

text \<open>
  The operations on the items in any order, with the timers in between, as long as an item is
  removed only while its timer is not pending.
\<close>

inductive klog_step :: "klog_state \<Rightarrow> klog_state \<Rightarrow> bool" where
  init: "a \<notin> dom (kl_heap st) \<Longrightarrow> klog_step st (snd (klog_init HZ (Some (a, fresh)) name v l st))"
| fini: "a \<notin> set (kl_timers st) \<Longrightarrow> klog_fini a st = Inr (r, st') \<Longrightarrow> klog_step st st'"
| set_verbose: "klog_set_verbose HZ jiffies a v l h st = Inr (r, st') \<Longrightarrow> klog_step st st'"
| set_ratelimit: "klog_set_ratelimit HZ a interval burst st = Inr (r, st') \<Longrightarrow> klog_step st st'"
| verbose_by_name: "klog_set_verbose_by_name name v l st = Inr (r, st') \<Longrightarrow> klog_step st st'"
| ratelimit_by_name: "klog_set_ratelimit_by_name name interval burst st = Inr (r, st') \<Longrightarrow> klog_step st st'"
| check: "klog_verbose_check rl a n st = Inr (b, st') \<Longrightarrow> klog_step st st'"
| timer: "a \<in> set (kl_timers st) \<Longrightarrow> timer_fires a st = Inr st' \<Longrightarrow> klog_step st st'"

inductive klog_reach :: "klog_state \<Rightarrow> bool" where
  start: "klog_reach \<lparr>kl_heap = Map.empty, g_klog_list = [], kl_timers = []\<rparr>"
| step: "klog_reach st \<Longrightarrow> klog_step st st' \<Longrightarrow> klog_reach st'"

definition klog_inv :: "klog_state \<Rightarrow> bool" where
  "klog_inv st \<longleftrightarrow> klog_ok st \<and> set (kl_timers st) \<subseteq> dom (kl_heap st)"

lemma klog_invD: "klog_inv st \<Longrightarrow> klog_ok st" "klog_inv st \<Longrightarrow> a \<in> set (kl_timers st) \<Longrightarrow> a \<in> dom (kl_heap st)"
  by (auto simp: klog_inv_def)

text \<open>Storing to a live item, with timers of live items.\<close>

lemma klog_inv_set:
  assumes "klog_inv st" "kl_heap st a = Some i" "it_magic i' = it_magic i" "it_name i' = it_name i" "set ts \<subseteq> insert a (set (kl_timers st))"
  shows "klog_inv ((set_item a i' st)\<lparr>kl_timers := ts\<rparr>)"
  using assms by (auto simp: klog_inv_def klog_ok_def)

lemma klog_inv_step: "klog_step st st' \<Longrightarrow> klog_inv st \<Longrightarrow> klog_inv st'"
proof (induction rule: klog_step.induct)
  case (init a st HZ fresh name v l)
  then show ?case using klog_init_ok [of st a HZ fresh name v l]
    by (auto simp: klog_inv_def klog_init_def Let_def)
next
  case (fini a st r st')
  then show ?case using klog_fini_ok [of st a r st']
    by (auto simp: klog_inv_def klog_fini_def bindR_eq_Inr item_at_def split: if_splits option.splits)
next
  case (set_verbose HZ jiffies a v l h st r st')
  then show ?case using klog_set_verbose_ok [of st HZ jiffies a v l h r st']
    by (auto simp: klog_inv_def klog_set_verbose_def bindR_eq_Inr item_at_def mod_timer_def clear_item_timer_def Let_def
        split: if_splits option.splits)
next
  case (set_ratelimit HZ a interval burst st r st')
  then show ?case using klog_set_ratelimit_ok [of st HZ a interval burst r st']
    by (auto simp: klog_inv_def klog_set_ratelimit_def bindR_eq_Inr item_at_def split: if_splits option.splits)
next
  case (verbose_by_name name v l st r st')
  then have "distinct (g_klog_list st)" "set (g_klog_list st) \<subseteq> dom (kl_heap st)" by (auto simp: klog_inv_def klog_ok_def)
  note run = set_verbose_loop_runs [OF this, of name v l 0]
  show ?case using verbose_by_name
    by (auto simp: klog_inv_def klog_ok_def klog_set_verbose_by_name_def run dom_def split: if_splits)
next
  case (ratelimit_by_name name interval burst st r st')
  then have "distinct (g_klog_list st)" "set (g_klog_list st) \<subseteq> dom (kl_heap st)" by (auto simp: klog_inv_def klog_ok_def)
  note run = set_ratelimit_loop_runs [OF this, of name interval burst 0]
  show ?case using ratelimit_by_name
    by (auto simp: klog_inv_def klog_ok_def klog_set_ratelimit_by_name_def run dom_def split: if_splits)
next
  case (check rl a n st b st')
  then show ?case
    by (auto simp: klog_inv_def klog_ok_def klog_verbose_check_def klog_ratelimit_def bindR_eq_Inr item_at_def
        split: if_splits option.splits prod.splits)
next
  case (timer a st st')
  then obtain i where i: "kl_heap st a = Some i" using klog_invD(2) by blast
  let ?i = "i\<lparr>it_verbose := it_original_verbose i, it_original_verbose := 0\<rparr>"
  have "st' = (set_item a ?i st)\<lparr>kl_timers := removeAll a (kl_timers st)\<rparr>"
    using timer(2) timer_runs [OF i] by (auto intro!: klog_state.equality)
  then show ?case using klog_inv_set [OF timer(3) i, of ?i "removeAll a (kl_timers st)"] by auto
qed

lemma klog_reach_inv: "klog_reach st \<Longrightarrow> klog_inv st"
proof (induction rule: klog_reach.induct)
  case start
  then show ?case by (simp add: klog_inv_def klog_ok_def)
next
  case (step st st')
  then show ?case by (blast intro: klog_inv_step)
qed

text \<open>
  C36.  Timers never touch freed memory when items are removed only while their timer is not
  pending.  In every state that the operations reach under this discipline the list and
  the items agree, every pending timer belongs to a live item, and its expiry succeeds.
\<close>

theorem klog_timers_safe:
  assumes "klog_reach st"
  shows "klog_ok st \<and> (\<forall>a. a \<in> set (kl_timers st) \<longrightarrow> (\<exists>st'. timer_fires a st = Inr st' \<and> klog_reach st'))"
proof (intro conjI allI impI)
  note inv = klog_reach_inv [OF assms]
  show "klog_ok st" by (rule klog_invD(1) [OF inv])
  fix a assume a: "a \<in> set (kl_timers st)"
  then obtain i where "kl_heap st a = Some i" using klog_invD(2) [OF inv] by blast
  note run = timer_runs [OF this]
  from klog_reach.step [OF assms klog_step.timer [OF a run]] run
  show "\<exists>st'. timer_fires a st = Inr st' \<and> klog_reach st'" by blast
qed

theorem klog_timers_safe_witness:
  "\<exists>st1 st2. klog_set_verbose 100 0 5 0xff 0 10
      (snd (klog_init 100 (Some (5, demo_item)) (Some ''ntrack'') 0xe 0 \<lparr>kl_heap = Map.empty, g_klog_list = [], kl_timers = []\<rparr>)) = Inr (0, st1)
    \<and> kl_timers st1 = [5] \<and> timer_fires 5 st1 = Inr st2 \<and> map_option it_verbose (kl_heap st2 5) = Some 0xe"
proof -
  let ?st0 = "\<lparr>kl_heap = Map.empty, g_klog_list = [], kl_timers = []\<rparr>"
  let ?st = "snd (klog_init 100 (Some (5, demo_item)) (Some ''ntrack'') 0xe 0 ?st0)"
  have "klog_reach ?st" by (rule klog_reach.step [OF klog_reach.start klog_step.init]) simp
  moreover obtain i where i: "kl_heap ?st 5 = Some i" "it_magic i = KLOG_ITEM_MAGIC" "it_original_verbose i = 0" "it_verbose i = 0xe"
    by (simp add: klog_init_def Let_def demo_item_def)
  obtain st1 where st1: "klog_set_verbose 100 0 5 0xff 0 10 ?st = Inr (0, st1)" "kl_timers st1 = [5]"
      "kl_heap st1 5 = Some ((set_item_verbose (i\<lparr>it_original_verbose := 0xe\<rparr>) 0xff 0)\<lparr>it_expires := 0 + 10 * 100\<rparr>)"
    using klog_set_verbose_temporary [OF i(1,2), of 10 100 0 "0xff" 0] i(3,4) by (auto simp: klog_init_def Let_def)
  ultimately have "klog_reach st1" using klog_reach.step klog_step.set_verbose by blast
  from klog_timers_safe [OF this] st1 timer_runs [OF st1(3)]
  show ?thesis by auto
qed

end
