(* ===== verification/KlogIoctl.thy ===== *)
theory KlogIoctl
  imports Klog HexText
begin

text \<open>
  The interface of the logging module in \<open>/proc/klog\<close>: \<open>drivers/klog/src/klog_ioctl.c\<close> and
  \<open>klog_show_list\<close> of \<open>klog_linux.c\<close>.  A read formats the list of items into the caller's buffer, a
  write is parsed as a command.  The kernel's \<open>snprintf\<close>, \<open>strim\<close> and \<open>sscanf\<close> are modelled as far
  as they are used: \<open>snprintf\<close> refuses a size beyond \<open>INT_MAX\<close> and returns 0, \<open>sscanf\<close> bounds no string.
\<close>

subsection \<open>Reading the list\<close>

text \<open>\<open>"%*s"\<close>, \<open>"%-*s"\<close> and \<open>"%d"\<close>.\<close>

definition pad_left :: "nat \<Rightarrow> string \<Rightarrow> string" where
  "pad_left w s = replicate (w - length s) CHR '' '' @ s"

definition pad_right :: "nat \<Rightarrow> string \<Rightarrow> string" where
  "pad_right w s = s @ replicate (w - length s) CHR '' ''"

definition int_str :: "int \<Rightarrow> string" where
  "int_str i = (if i < 0 then ''-'' @ dec_str (nat (- i)) else dec_str (nat i))"

text \<open>
  \<open>len += snprintf (kbuf + len, size - len, ...)\<close> for a text: with room for \<open>n\<close> characters it stores
  at most \<open>n - 1\<close> of them and a terminator, and it returns the length of the text; a negative
  room is a huge size.
\<close>

definition append_text :: "nat \<Rightarrow> nat \<times> string \<Rightarrow> string \<Rightarrow> nat \<times> string" where
  "append_text sz = (\<lambda>(len, kbuf) txt.
     if sz < len then (len, kbuf)
     else if sz = len then (len + length txt, kbuf)
     else (len + length txt, overlay len (take (sz - len - 1) txt @ [CHR 0x00]) kbuf))"

definition list_head :: string where
  "list_head = ''klog list:'' @ [CHR 0x0A] @ pad_left 16 ''name'' @ '' '' @ pad_left 8 ''verbose'' @ '' ''
     @ pad_left 8 ''rate'' @ '' '' @ pad_left 8 ''intv'' @ '' '' @ pad_left 8 ''burst'' @ '' ''
     @ pad_left 8 ''rst_vb'' @ '' '' @ pad_left 8 ''rst_rl'' @ '' '' @ pad_left 8 ''expir'' @ [CHR 0x0A]"

definition item_line :: "u32 \<Rightarrow> u32 \<Rightarrow> klog_item \<Rightarrow> string" where
  "item_line HZ jiffies i =
     (let hex = \<lambda>w :: u32. pad_right 8 (hex_str (unat w)); hz = int (unat HZ); iv = rl_interval (it_ratelimit i) in
      pad_left 16 (it_name i) @ '' 0x'' @ hex (it_verbose i AND 0xff) @ '' 0x'' @ hex (drop_bit 16 (it_verbose i))
      @ '' '' @ pad_right 8 (int_str (if iv < 0 then - (- iv div hz) else iv div hz))
      @ '' '' @ pad_right 8 (int_str (rl_burst (it_ratelimit i)))
      @ '' 0x'' @ hex (it_original_verbose i AND 0xff) @ '' 0x'' @ hex (drop_bit 16 (it_original_verbose i))
      @ '' '' @ pad_right 8 (dec_str (unat ((it_expires i - jiffies) div HZ))) @ [CHR 0x0A])"

fun show_loop :: "u32 \<Rightarrow> u32 \<Rightarrow> klog_state \<Rightarrow> nat \<Rightarrow> nat list \<Rightarrow> nat \<times> string \<Rightarrow> (nat \<times> string) result" where
  "show_loop HZ jiffies st sz [] b = Inr b"
| "show_loop HZ jiffies st sz (a # as) b = bindR (item_at st a) (\<lambda>i.
     show_loop HZ jiffies st sz as (append_text sz b (item_line HZ jiffies i)))"

definition klog_show_list :: "u32 \<Rightarrow> u32 \<Rightarrow> klog_state \<Rightarrow> string \<Rightarrow> nat \<Rightarrow> (nat \<times> string) result" where
  "klog_show_list HZ jiffies st kbuf sz = show_loop HZ jiffies st sz (g_klog_list st) (append_text sz (0, kbuf) list_head)"

definition usage_text :: string where
  "usage_text = [CHR 0x0A] @ ''Command: '' @ [CHR 0x0A]
     @ ''   set_verbose   name  verbose   ratelimit'' @ [CHR 0x0A]
     @ ''       --- set `verbose` with `ratelimit` on every bits'' @ [CHR 0x0A]
     @ ''           verbose(0~0xFF): 0x1->DEBUG, 0x2->INFO, 0x4->WARN, 0x8->ERROR, 0x10->DUMPBUF, 0x40~0x8000->TRACE-1~TRACE-10'' @ [CHR 0x0A]
     @ ''           ratelimit(0~0xFF): open limit on `verbose`'' @ [CHR 0x0A]
     @ ''   set_ratelimit name  interval  burst'' @ [CHR 0x0A]
     @ ''       --- max `burst` in one `interval`'' @ [CHR 0x0A]"

text \<open>
  \<open>klog_read\<close> with the file position \<open>off\<close>, for a \<open>count\<close> that an \<open>int\<close> holds: what it returns, the new
  position and the buffer.
\<close>

definition klog_read :: "u32 \<Rightarrow> u32 \<Rightarrow> klog_state \<Rightarrow> string \<Rightarrow> nat \<Rightarrow> nat \<Rightarrow> (nat \<times> nat \<times> string) result" where
  "klog_read HZ jiffies st buf count off =
     (if off \<noteq> 0 then Inr (0, off, buf)
      else bindR (klog_show_list HZ jiffies st buf count) (\<lambda>b.
        let (len, buf') = append_text count b usage_text in Inr (len, off + len, buf')))"

subsection \<open>Commands\<close>

definition kspace :: "char \<Rightarrow> bool" where
  "kspace c \<longleftrightarrow> is_space c \<or> c = CHR 0xA0"

definition skip_spaces :: "string \<Rightarrow> string" where
  "skip_spaces s = dropWhile kspace s"

definition strim :: "string \<Rightarrow> string" where
  "strim s = skip_spaces (rev (dropWhile kspace (rev s)))"

text \<open>\<open>%x\<close>: the value of the digits and the rest of the text.\<close>

definition scan_hex :: "string \<Rightarrow> (nat \<times> string) option" where
  "scan_hex s = (case skip_spaces s of
       [] \<Rightarrow> None
     | c # r \<Rightarrow> if xdigit c = None then None
         else let s1 = (if c = CHR ''0'' \<and> r \<noteq> [] \<and> hd r \<in> {CHR ''x'', CHR ''X''} then tl r else c # r)
              in Some (foldl (\<lambda>a d. 16 * a + the (xdigit d)) 0 (takeWhile (\<lambda>d. xdigit d \<noteq> None) s1),
                       dropWhile (\<lambda>d. xdigit d \<noteq> None) s1))"

text \<open>
  \<open>sscanf (s, "<lit> %s %x %x", name, ...)\<close> with \<open>char name[32]\<close>: None unless all three conversions
  succeed.
\<close>

definition scan_command :: "string \<Rightarrow> string \<Rightarrow> (string \<times> nat \<times> nat) option result" where
  "scan_command lit s =
     (if take (length lit) s \<noteq> lit then Inr None
      else let s1 = skip_spaces (drop (length lit) s); name = takeWhile (\<lambda>c. \<not> kspace c) s1 in
        if s1 = [] then Inr None
        else if 32 \<le> length name then Inl Out_of_bounds
        else case scan_hex (drop (length name) s1) of
          None \<Rightarrow> Inr None
        | Some (v, s2) \<Rightarrow> (case scan_hex s2 of None \<Rightarrow> Inr None | Some (w, _) \<Rightarrow> Inr (Some (name, v, w))))"

text \<open>
  \<open>klog_write\<close>: \<open>buf\<close> is what the caller writes, \<open>copy_ok\<close> whether it can be copied from user space.
\<close>

definition klog_write :: "bool \<Rightarrow> string \<Rightarrow> klog_state \<Rightarrow> (int \<times> klog_state) result" where
  "klog_write copy_ok buf st =
     (let count = length buf; cnt = (if 1024 \<le> count then 1023 else count) in
      if \<not> copy_ok then Inr (- EPERM, st)
      else let ptr = strim (takeWhile (\<lambda>c. c \<noteq> CHR 0x00) (take cnt buf)) in
        if take 11 ptr = ''set_verbose'' then
          bindR (scan_command ''set_verbose'' ptr) (\<lambda>r. case r of
              None \<Rightarrow> Inr (- EINVAL, st)
            | Some (name, verbose, limit) \<Rightarrow>
                bindR (klog_set_verbose_by_name name (of_nat verbose) (of_nat limit) st) (\<lambda>(_, st'). Inr (int count, st')))
        else if take 13 ptr = ''set_ratelimit'' then
          bindR (scan_command ''set_ratelimit'' ptr) (\<lambda>r. case r of
              None \<Rightarrow> Inr (- EINVAL, st)
            | Some (name, interval, burst) \<Rightarrow>
                bindR (klog_set_ratelimit_by_name name (sint (of_nat interval :: u32)) (sint (of_nat burst :: u32)) st)
                  (\<lambda>(_, st'). Inr (int count, st')))
        else Inr (int count, st))"

subsection \<open>Requests and the life of the file\<close>

definition klog_open :: int where "klog_open = 0"

definition klog_release :: int where "klog_release = 0"

definition klog_ioctl :: "u32 \<Rightarrow> int" where
  "klog_ioctl cmd = - EPERM"

text \<open>The entry in \<open>/proc\<close>: whether it exists.\<close>

definition klog_interface_init :: "bool \<Rightarrow> bool \<Rightarrow> int \<times> bool" where
  "klog_interface_init created entry = (if created then (0, True) else (- 1, False))"

definition klog_interface_fini :: "bool \<Rightarrow> bool" where
  "klog_interface_fini entry = False"

definition klog_module_init :: "bool \<Rightarrow> bool \<Rightarrow> int \<times> bool" where
  "klog_module_init created entry = klog_interface_init created entry"

definition klog_module_fini :: "bool \<Rightarrow> bool" where
  "klog_module_fini entry = klog_interface_fini entry"

subsection \<open>Hexadecimal arguments\<close>

lemma hex_value:
  "foldl (\<lambda>a d. 16 * a + the (xdigit d)) acc (hex_str n) = acc * 16 ^ length (hex_str n) + n"
proof (induction n arbitrary: acc rule: hex_str.induct)
  case (1 n)
  show ?case
  proof (cases "n < 16")
    case True
    then show ?thesis by (simp add: hex_str.simps)
  next
    case False
    have "hex_str n = hex_str (n div 16) @ [hex_digit (n mod 16)]" using False by (subst hex_str.simps) simp
    then show ?thesis using "1.IH" [OF False, of acc] by (simp add: algebra_simps)
  qed
qed

lemma hex_str_chars:
  assumes "c \<in> set (hex_str n)"
  shows "xdigit c \<noteq> None" "\<not> kspace c" "c \<noteq> CHR 0x00" "c \<noteq> CHR ''x''" "c \<noteq> CHR ''X''"
proof -
  obtain d where "d < 16" "c = hex_digit d" using hex_str_xdigits [OF assms] by blast
  then have x: "xdigit c \<noteq> None" by simp
  then show "xdigit c \<noteq> None" "c \<noteq> CHR 0x00" "c \<noteq> CHR ''x''" "c \<noteq> CHR ''X''" "\<not> kspace c"
    by (auto simp: xdigit_def kspace_def is_space_def Let_def split: if_splits)
qed

lemma scan_hex_str:
  assumes "rest = [] \<or> kspace (hd rest)" "\<forall>c \<in> set sp. kspace c"
  shows "scan_hex (sp @ hex_str n @ rest) = Some (n, rest)"
proof -
  obtain c r where h: "hex_str n = c # r" by (cases "hex_str n") auto
  have c: "xdigit c \<noteq> None" "\<not> kspace c" using hex_str_chars [of c n] h by auto
  have sk: "skip_spaces (sp @ hex_str n @ rest) = c # (r @ rest)"
    using assms(2) c h by (auto simp: skip_spaces_def)
  have nospace: "kspace d \<Longrightarrow> xdigit d = None" for d
    by (auto simp: kspace_def is_space_def xdigit_def Let_def)
  have nox: "r @ rest \<noteq> [] \<Longrightarrow> hd (r @ rest) \<notin> {CHR ''x'', CHR ''X''}"
    using hex_str_chars(4,5) [of "hd r" n] h assms(1)
    by (cases r) (auto simp: kspace_def is_space_def)
  have d: "takeWhile (\<lambda>d. xdigit d \<noteq> None) (hex_str n @ rest) = hex_str n"
    "dropWhile (\<lambda>d. xdigit d \<noteq> None) (hex_str n @ rest) = rest"
    using hex_str_chars(1) [of _ n] assms(1) nospace [of "hd rest"]
    by (cases rest; simp add: takeWhile_append dropWhile_append)+
  show ?thesis
    unfolding scan_hex_def sk list.case using c nox d h hex_value [of 0 n] by (auto simp: Let_def)
qed

subsection \<open>A command is carried out\<close>

lemma strim_trims:
  assumes "\<not> kspace c" "\<not> kspace d" "\<forall>x \<in> set sp. kspace x"
  shows "strim (c # mid @ d # sp) = c # mid @ [d]"
proof -
  have "dropWhile kspace (rev (c # mid @ d # sp)) = d # rev (c # mid)"
    using assms(2,3) by (simp add: dropWhile_append)
  then show ?thesis using assms(1) by (simp add: strim_def skip_spaces_def)
qed

text \<open>The text of a command with a name and two hexadecimal arguments.\<close>

definition command_text :: "string \<Rightarrow> string \<Rightarrow> nat \<Rightarrow> nat \<Rightarrow> string" where
  "command_text lit name v w = lit @ '' '' @ name @ '' '' @ hex_str v @ '' '' @ hex_str w"

definition plain_name :: "string \<Rightarrow> bool" where
  "plain_name name \<longleftrightarrow> name \<noteq> [] \<and> (\<forall>c \<in> set name. \<not> kspace c \<and> c \<noteq> CHR 0x00)"

lemma space_kspace [simp]: "kspace CHR '' ''" "kspace CHR 0x0A"
  by (simp_all add: kspace_def is_space_def)

lemma scan_command_text:
  assumes "plain_name name"
  shows "scan_command lit (command_text lit name v w) =
    (if 32 \<le> length name then Inl Out_of_bounds else Inr (Some (name, v, w)))"
proof -
  let ?args = "'' '' @ hex_str v @ '' '' @ hex_str w"
  have s1: "skip_spaces ('' '' @ name @ ?args) = name @ ?args"
    using assms by (cases name) (auto simp: skip_spaces_def plain_name_def)
  have name: "takeWhile (\<lambda>c. \<not> kspace c) (name @ ?args) = name"
    using assms by (subst takeWhile_append2) (auto simp: plain_name_def)
  have v: "scan_hex ?args = Some (v, '' '' @ hex_str w)"
    using scan_hex_str [of "'' '' @ hex_str w" "'' ''" v] by simp
  have w: "scan_hex ('' '' @ hex_str w) = Some (w, [])"
    using scan_hex_str [of "[]" "'' ''" w] by simp
  have ne: "name @ ?args \<noteq> []" by simp
  show ?thesis
    unfolding scan_command_def command_text_def append_assoc [symmetric] append_eq_conv_conj
    using s1 name v w ne by (simp add: Let_def)
qed

lemma command_text_ptr:
  assumes "plain_name name" "lit = c # lit'" "\<not> kspace c" "\<forall>x \<in> set lit. x \<noteq> CHR 0x00"
    and "\<forall>x \<in> set nl. kspace x \<and> x \<noteq> CHR 0x00"
  shows "strim (takeWhile (\<lambda>c. c \<noteq> CHR 0x00) (command_text lit name v w @ nl)) = command_text lit name v w"
proof -
  obtain mid d where h: "hex_str w = mid @ [d]" by (metis hex_str_not_Nil rev_exhaust)
  have d: "\<not> kspace d" using hex_str_chars(2) [of d w] h by simp
  have "CHR 0x00 \<notin> set (hex_str n)" for n using hex_str_chars(3) by blast
  then have "CHR 0x00 \<notin> set (command_text lit name v w @ nl)"
    using assms(1,4,5) by (auto simp: command_text_def plain_name_def)
  then have "takeWhile (\<lambda>c. c \<noteq> CHR 0x00) (command_text lit name v w @ nl) = command_text lit name v w @ nl"
    by (auto simp: takeWhile_eq_all_conv)
  then show ?thesis
    using strim_trims [of c d nl "lit' @ '' '' @ name @ '' '' @ hex_str v @ '' '' @ mid"] assms(2,3,5) d h
    by (simp add: command_text_def)
qed

text \<open>
  C37.  A written command is carried out.  Writing \<open>set_verbose\<close>, a name and two hexadecimal numbers
  to \<open>/proc/klog\<close>, with or without white space behind them, gives every item of that name the kinds and
  limits of the numbers, leaves the other items alone and returns the number of bytes written;
  a name of 32 characters or more is written outside the buffer for it, on the stack.
\<close>

theorem klog_write_set_verbose:
  assumes "klog_ok st" "plain_name name" "\<forall>x \<in> set nl. kspace x \<and> x \<noteq> CHR 0x00"
    and "length (command_text ''set_verbose'' name (unat (v :: u16)) (unat (l :: u16)) @ nl) < 1024"
  shows "if length name < 32
    then (\<exists>st'. klog_write True (command_text ''set_verbose'' name (unat v) (unat l) @ nl) st =
          Inr (int (length (command_text ''set_verbose'' name (unat v) (unat l) @ nl)), st')
        \<and> klog_ok st' \<and> (\<forall>a. kl_heap st' a = (if named st name a
            then map_option (\<lambda>i. set_item_verbose (i\<lparr>it_original_verbose := 0\<rparr>) v l) (kl_heap st a) else kl_heap st a)))
    else klog_write True (command_text ''set_verbose'' name (unat v) (unat l) @ nl) st = Inl Out_of_bounds"
proof -
  let ?t = "command_text ''set_verbose'' name (unat v) (unat l)"
  have ptr: "strim (takeWhile (\<lambda>c. c \<noteq> CHR 0x00) (?t @ nl)) = ?t"
    by (rule command_text_ptr [OF assms(2) refl _ _ assms(3)]) (simp_all add: kspace_def is_space_def)
  have lit: "take 11 ?t = ''set_verbose''" by (simp add: command_text_def)
  have run: "klog_write True (?t @ nl) st =
      (if 32 \<le> length name then Inl Out_of_bounds
       else bindR (klog_set_verbose_by_name name v l st) (\<lambda>(_, st'). Inr (int (length (?t @ nl)), st')))"
    using assms(4) ptr lit scan_command_text [OF assms(2)] by (simp add: klog_write_def Let_def)
  show ?thesis
    unfolding run using klog_set_verbose_by_name_spec [OF assms(1), of name v l] by auto
qed

theorem klog_write_set_verbose_witness:
  "\<exists>st'. klog_write True (command_text ''set_verbose'' ''ntrack'' 0xff 0x8 @ [CHR 0x0A]) demo_klog = Inr (24, st')
     \<and> map_option it_verbose (kl_heap st' 5) = Some 0x800ff"
proof -
  have len: "length (command_text ''set_verbose'' ''ntrack'' 255 8 @ [CHR 0x0A]) = 24"
    by (simp add: command_text_def hex_str.simps)
  have "plain_name ''ntrack''" by code_simp
  then show ?thesis
    using klog_write_set_verbose [of demo_klog "''ntrack''" "[CHR 0x0A]" "0xff" "0x8"] demo_klog_ok len
    by auto
qed

subsection \<open>What a read returns\<close>

text \<open>The buffer and the length after the text \<open>t\<close> was printed into \<open>count\<close> characters.\<close>

definition filled :: "nat \<Rightarrow> string \<Rightarrow> nat \<times> string \<Rightarrow> bool" where
  "filled count t = (\<lambda>(len, kbuf).
     length kbuf = count \<and> (if length t < count then len = length t \<and> take len kbuf = t
       else if length t = count then len = count \<and> take (count - 1) kbuf = take (count - 1) t
       else count < len \<and> len \<le> length t))"

lemma filled_append:
  assumes "filled count t b"
  shows "filled count (t @ txt) (append_text count b txt)"
proof (cases "length t < count")
  case True
  obtain len kbuf where b: "b = (len, kbuf)" by (cases b)
  let ?src = "take (count - len - 1) txt @ [CHR 0x00]"
  have l: "len = length t" "length kbuf = count" "take len kbuf = t"
    using assms True by (auto simp: filled_def b)
  have "append_text count b txt = (len + length txt, overlay len ?src kbuf)"
    using True l by (simp add: append_text_def b)
  moreover have "length (overlay len ?src kbuf) = count" using True l by simp
  moreover have "take n (overlay len ?src kbuf) = take n (t @ txt)" if "n < count" "n \<le> length (t @ txt)" for n
    using that l by (auto simp: overlay_def min_def)
  ultimately show ?thesis using True l by (auto simp: filled_def)
next
  case False
  then show ?thesis using assms by (auto simp: filled_def append_text_def split: if_splits)
qed

definition klog_list_text :: "u32 \<Rightarrow> u32 \<Rightarrow> klog_state \<Rightarrow> string" where
  "klog_list_text HZ jiffies st = list_head @ concat (map (\<lambda>a. item_line HZ jiffies (the (kl_heap st a))) (g_klog_list st))"

lemma show_loop_filled:
  assumes "set as \<subseteq> dom (kl_heap st)" "filled count t b"
  obtains b' where "show_loop HZ jiffies st count as b = Inr b'"
    "filled count (t @ concat (map (\<lambda>a. item_line HZ jiffies (the (kl_heap st a))) as)) b'"
  using assms
proof (induction as arbitrary: t b thesis)
  case (Cons a as)
  then obtain i where i: "kl_heap st a = Some i" by auto
  show ?case
    by (rule Cons.IH [where t = "t @ item_line HZ jiffies i" and b = "append_text count b (item_line HZ jiffies i)"])
      (use Cons.prems i filled_append in \<open>auto simp: item_at_Some\<close>)
qed simp

text \<open>
  A read from the start, with room for \<open>count\<close> characters: when the whole text fits with its
  terminator, the buffer holds it and its length is returned; when it does not fit, the
  result is more than the caller asked for.  A read from elsewhere is the end of the file.
\<close>

theorem klog_read_returns:
  assumes "klog_ok st" "length buf = count"
  shows "\<exists>len buf'. klog_read HZ jiffies st buf count 0 = Inr (len, len, buf') \<and> length buf' = count
    \<and> (length (klog_list_text HZ jiffies st @ usage_text) < count \<longrightarrow>
        len = length (klog_list_text HZ jiffies st @ usage_text)
        \<and> take len buf' = klog_list_text HZ jiffies st @ usage_text)
    \<and> (count < length (klog_list_text HZ jiffies st @ usage_text) \<longrightarrow> count < len)"
proof -
  have sub: "set (g_klog_list st) \<subseteq> dom (kl_heap st)" using assms(1) by (simp add: klog_ok_def)
  have start: "filled count [] (0, buf)" using assms(2) by (auto simp: filled_def)
  obtain b where run: "show_loop HZ jiffies st count (g_klog_list st) (append_text count (0, buf) list_head) = Inr b"
    and b: "filled count (klog_list_text HZ jiffies st) b"
    by (rule show_loop_filled [OF sub filled_append [OF start, of list_head]]) (auto simp: klog_list_text_def)
  obtain len buf' where e: "append_text count b usage_text = (len, buf')" by fastforce
  have "filled count (klog_list_text HZ jiffies st @ usage_text) (len, buf')"
    using filled_append [OF b, of usage_text] by (simp add: e)
  moreover have "klog_read HZ jiffies st buf count 0 = Inr (len, len, buf')"
    by (simp add: klog_read_def klog_show_list_def run e)
  ultimately show ?thesis by (auto simp: filled_def split: if_splits)
qed

end
