(* ===== verification/Printf.thy ===== *)
theory Printf
  imports HexText "HOL-Library.Sublist"
begin

text \<open>
  The part of \<open>printf\<close> and \<open>printk\<close> that the log lines of this repository use: the conversions \<open>%u\<close>,
  \<open>%d\<close>, \<open>%x\<close>, \<open>%s\<close> and \<open>%p\<close>, with a field width and the zero flag.  An argument is what is passed
  after the default promotions: a 32-bit integer, a string or a pointer, of which the text it
  prints is given, since the C library chooses it.  A conversion whose argument is missing or
  of another type is undefined in C and a fault here.
\<close>

subsection \<open>Formats\<close>

datatype conv = C_u | C_d | C_x | C_s | C_p

datatype piece = Lit char | Conv bool nat conv

datatype arg = Word u32 | Str string | Ptr string

datatype argtype = T_word | T_str | T_ptr

fun type_of :: "arg \<Rightarrow> argtype" where
  "type_of (Word x) = T_word"
| "type_of (Str s) = T_str"
| "type_of (Ptr s) = T_ptr"

fun conv_type :: "conv \<Rightarrow> argtype" where
  "conv_type C_s = T_str"
| "conv_type C_p = T_ptr"
| "conv_type _ = T_word"

definition conv_of :: "char \<Rightarrow> conv option" where
  "conv_of c = map_of [(CHR ''u'', C_u), (CHR ''d'', C_d), (CHR ''x'', C_x), (CHR ''s'', C_s), (CHR ''p'', C_p)] c"

definition digits_val :: "nat \<Rightarrow> string \<Rightarrow> nat" where
  "digits_val base s = foldl (\<lambda>v c. base * v + (case xdigit c of Some d \<Rightarrow> d | None \<Rightarrow> 0)) 0 s"

text \<open>What stands behind a percent sign: the zero flag, the width, the conversion, the rest.\<close>

definition directive :: "string \<Rightarrow> (piece \<times> string) option" where
  "directive s =
     (let zero = (take 1 s = ''0''); s1 = (if zero then drop 1 s else s);
          width = takeWhile is_digit s1
      in case dropWhile is_digit s1 of
           [] \<Rightarrow> None
         | c # rest \<Rightarrow> if c = CHR ''%'' then Some (Lit c, rest)
             else map_option (\<lambda>k. (Conv zero (digits_val 10 width) k, rest)) (conv_of c))"

lemma directive_shorter: "directive s = Some (p, rest) \<Longrightarrow> length rest < length s"
proof -
  assume "directive s = Some (p, rest)"
  then obtain s1 c where "dropWhile is_digit s1 = c # rest" "length s1 \<le> length s"
    by (auto simp: directive_def Let_def split: list.splits if_splits)
  then show ?thesis using length_dropWhile_le [of is_digit s1] by simp
qed

function pieces :: "string \<Rightarrow> piece list option" where
  "pieces [] = Some []"
| "pieces (c # s) = (if c \<noteq> CHR ''%'' then map_option ((#) (Lit c)) (pieces s)
     else case directive s of None \<Rightarrow> None | Some (p, rest) \<Rightarrow> map_option ((#) p) (pieces rest))"
  by pat_completeness auto
termination by (relation "measure length") (auto dest: directive_shorter)

subsection \<open>Printing\<close>

text \<open>A number of at least \<open>w\<close> characters: zeros go between the sign and the digits, blanks in front of the sign.\<close>

definition number_text :: "bool \<Rightarrow> nat \<Rightarrow> bool \<Rightarrow> string \<Rightarrow> string" where
  "number_text zero w negative digits =
     (let sign = (if negative then ''-'' else []); missing = w - length sign - length digits
      in if zero then sign @ replicate missing CHR ''0'' @ digits
         else replicate missing CHR '' '' @ sign @ digits)"

definition padded :: "nat \<Rightarrow> string \<Rightarrow> string" where
  "padded w s = replicate (w - length s) CHR '' '' @ s"

fun conv_text :: "bool \<Rightarrow> nat \<Rightarrow> conv \<Rightarrow> arg \<Rightarrow> string result" where
  "conv_text zero w C_u (Word x) = Inr (number_text zero w False (dec_str (unat x)))"
| "conv_text zero w C_x (Word x) = Inr (number_text zero w False (hex_str (unat x)))"
| "conv_text zero w C_d (Word x) = Inr (number_text zero w (sint x < 0) (dec_str (nat \<bar>sint x\<bar>)))"
| "conv_text zero w C_s (Str s) = Inr (padded w s)"
| "conv_text zero w C_p (Ptr s) = Inr (padded w s)"
| "conv_text _ _ _ _ = Inl Out_of_bounds"

fun print_pieces :: "piece list \<Rightarrow> arg list \<Rightarrow> string result" where
  "print_pieces [] args = Inr []"
| "print_pieces (Lit c # ps) args = bindR (print_pieces ps args) (\<lambda>s. Inr (c # s))"
| "print_pieces (Conv zero w k # ps) [] = Inl Out_of_bounds"
| "print_pieces (Conv zero w k # ps) (a # args) =
     bindR (conv_text zero w k a) (\<lambda>t. bindR (print_pieces ps args) (\<lambda>s. Inr (t @ s)))"

definition sprintf :: "string \<Rightarrow> arg list \<Rightarrow> string result" where
  "sprintf fmt args = (case pieces fmt of None \<Rightarrow> Inl Out_of_bounds | Some ps \<Rightarrow> print_pieces ps args)"

subsection \<open>Types of a format\<close>

fun piece_types :: "piece list \<Rightarrow> argtype list" where
  "piece_types [] = []"
| "piece_types (Lit c # ps) = piece_types ps"
| "piece_types (Conv zero w k # ps) = conv_type k # piece_types ps"

definition format_types :: "string \<Rightarrow> argtype list option" where
  "format_types fmt = map_option piece_types (pieces fmt)"

lemma conv_text_typed: "(\<exists>t. conv_text zero w k a = Inr t) \<longleftrightarrow> type_of a = conv_type k"
  by (cases k; cases a) simp_all

lemma print_pieces_typed:
  "(\<exists>s. print_pieces ps args = Inr s) \<longleftrightarrow> prefix (piece_types ps) (map type_of args)"
proof (induction ps args rule: print_pieces.induct)
  case (4 zero w k ps a args)
  then show ?case using conv_text_typed [of zero w k a] by (auto simp: bindR_eq_Inr)
qed (auto simp: bindR_eq_Inr)

text \<open>A line is printed exactly when its arguments begin with the types the format asks for.\<close>

lemma sprintf_typed:
  "(\<exists>s. sprintf fmt args = Inr s)
     \<longleftrightarrow> (case format_types fmt of None \<Rightarrow> False | Some ts \<Rightarrow> prefix ts (map type_of args))"
  by (auto simp: sprintf_def format_types_def print_pieces_typed split: option.splits)

lemma sprintf_prints: "format_types fmt = Some (map type_of args) \<Longrightarrow> \<exists>s. sprintf fmt args = Inr s"
  by (simp add: sprintf_typed)

subsection \<open>Reading a line back\<close>

text \<open>
  The inverse of printing, for lines made of numbers: a conversion reads blanks, a sign and the
  digits that follow.
\<close>

definition base_of :: "conv \<Rightarrow> nat" where
  "base_of k = (if k = C_x then 16 else 10)"

definition digit_in :: "nat \<Rightarrow> char \<Rightarrow> bool" where
  "digit_in base c = (case xdigit c of Some d \<Rightarrow> d < base | None \<Rightarrow> False)"

definition scan_number :: "nat \<Rightarrow> string \<Rightarrow> u32 \<times> string" where
  "scan_number base s =
     (let s1 = dropWhile ((=) CHR '' '') s; negative = (take 1 s1 = ''-'');
          s2 = (if negative then drop 1 s1 else s1);
          v = word_of_nat (digits_val base (takeWhile (digit_in base) s2))
      in (if negative then - v else v, dropWhile (digit_in base) s2))"

fun scan :: "piece list \<Rightarrow> string \<Rightarrow> u32 list option" where
  "scan [] s = (if s = [] then Some [] else None)"
| "scan (Lit c # ps) s = (case s of [] \<Rightarrow> None | x # r \<Rightarrow> if x = c then scan ps r else None)"
| "scan (Conv zero w k # ps) s = (if conv_type k \<noteq> T_word then None
     else let (v, r) = scan_number (base_of k) s in map_option ((#) v) (scan ps r))"

definition sscanf :: "string \<Rightarrow> string \<Rightarrow> u32 list option" where
  "sscanf fmt s = (case pieces fmt of None \<Rightarrow> None | Some ps \<Rightarrow> scan ps s)"

text \<open>Only numbers, and none runs into the next: a conversion is followed by something that is not a digit.\<close>

fun separated :: "piece list \<Rightarrow> bool" where
  "separated [] \<longleftrightarrow> True"
| "separated (Lit c # ps) \<longleftrightarrow> separated ps"
| "separated (Conv zero w k # ps) \<longleftrightarrow> conv_type k = T_word \<and> separated ps
     \<and> (case ps of [] \<Rightarrow> True | Lit c # _ \<Rightarrow> \<not> digit_in (base_of k) c | _ \<Rightarrow> False)"

definition readable :: "string \<Rightarrow> bool" where
  "readable fmt = (case pieces fmt of None \<Rightarrow> False | Some ps \<Rightarrow> separated ps)"

lemma xdigit_dec_char [simp]: "n < 10 \<Longrightarrow> xdigit (char_of (48 + n :: nat)) = Some n"
  by (simp add: xdigit_def)

lemma digits_val_snoc: "digits_val base (s @ [c]) = base * digits_val base s + (case xdigit c of Some d \<Rightarrow> d | None \<Rightarrow> 0)"
  by (simp add: digits_val_def)

lemma digits_val_dec: "digits_val 10 (dec_str n) = n \<and> (\<forall>c \<in> set (dec_str n). digit_in 10 c)"
proof (induction n rule: dec_str.induct)
  case (1 n)
  show ?case
  proof (cases "n < 10")
    case True
    then show ?thesis by (simp add: dec_str.simps [of n] digits_val_def digit_in_def)
  next
    case False
    then show ?thesis using 1 by (simp add: dec_str.simps [of n] digits_val_snoc digit_in_def)
  qed
qed

lemma digits_val_hex: "digits_val 16 (hex_str n) = n \<and> (\<forall>c \<in> set (hex_str n). digit_in 16 c)"
proof (induction n rule: hex_str.induct)
  case (1 n)
  show ?case
  proof (cases "n < 16")
    case True
    then show ?thesis by (simp add: hex_str.simps [of n] digits_val_def digit_in_def)
  next
    case False
    then show ?thesis using 1 by (simp add: hex_str.simps [of n] digits_val_snoc digit_in_def)
  qed
qed

lemma digits_val_zeros: "digits_val base (replicate n CHR ''0'' @ s) = digits_val base s"
  by (induction n) (simp_all add: digits_val_def xdigit_def)

lemma digit_in_0 [simp]: "0 < base \<Longrightarrow> digit_in base CHR ''0''"
  by (simp add: digit_in_def xdigit_def)

lemma digit_in_others [simp]: "\<not> digit_in base CHR '' ''" "\<not> digit_in base CHR ''-''"
  by (simp_all add: digit_in_def xdigit_def)

text \<open>A printed number in front of something that is not a digit.\<close>

lemma scan_number_text:
  assumes ds: "\<forall>c \<in> set ds. digit_in base c" "ds \<noteq> []" and base: "0 < base"
    and rest: "\<forall>c r. rest = c # r \<longrightarrow> \<not> digit_in base c"
  shows "scan_number base (number_text zero w negative ds @ rest)
     = (let v = word_of_nat (digits_val base ds) in (if negative then - v else v, rest))"
proof -
  have stop: "takeWhile (digit_in base) rest = []" "dropWhile (digit_in base) rest = rest"
    using rest by (cases rest; simp)+
  define zs where "zs = (if zero then replicate (w - length (if negative then ''-'' else []) - length ds) CHR ''0'' else [])"
  define bl where "bl = (if zero then [] else replicate (w - length (if negative then ''-'' else []) - length ds) CHR '' '')"
  have nt: "number_text zero w negative ds = bl @ (if negative then ''-'' else []) @ zs @ ds"
    by (simp add: number_text_def Let_def zs_def bl_def)
  have zd: "\<forall>c \<in> set (zs @ ds). digit_in base c" using ds(1) base by (auto simp: zs_def split: if_splits)
  obtain d cs where d: "zs @ ds = d # cs" using ds(2) by (cases "zs @ ds") auto
  then have nd: "d \<noteq> CHR '' ''" "d \<noteq> CHR ''-''" using zd by auto
  have "dropWhile ((=) CHR '' '') (bl @ s) = dropWhile ((=) CHR '' '') s" for s
    by (rule dropWhile_append2) (auto simp: bl_def split: if_splits)
  then have s1: "dropWhile ((=) CHR '' '') (number_text zero w negative ds @ rest)
      = (if negative then ''-'' else []) @ (d # cs) @ rest"
    using nd d by (auto simp: nt)
  have tk: "takeWhile (digit_in base) ((d # cs) @ rest) = d # cs" "dropWhile (digit_in base) ((d # cs) @ rest) = rest"
    using zd stop unfolding d by (simp_all add: takeWhile_append2 dropWhile_append2)
  have val: "digits_val base (d # cs) = digits_val base ds"
    unfolding d [symmetric] by (simp add: zs_def digits_val_zeros)
  show ?thesis unfolding scan_number_def Let_def s1 using tk val nd by (cases negative) simp_all
qed

lemma word_of_nat_abs_sint: "(if sint x < 0 then - word_of_nat (nat \<bar>sint x\<bar>) else word_of_nat (nat \<bar>sint x\<bar>)) = (x :: u32)"
  by (cases "sint x < 0") simp_all

lemma scan_conv_text:
  assumes "conv_text zero w k a = Inr t" "conv_type k = T_word"
    and "\<forall>c r. rest = c # r \<longrightarrow> \<not> digit_in (base_of k) c"
  shows "\<exists>x. a = Word x \<and> scan_number (base_of k) (t @ rest) = (x, rest)"
proof (cases a)
  case (Word x)
  have [simp]: "dec_str n \<noteq> []" for n using dec_str_first [of n] by auto
  show ?thesis
    using assms Word digits_val_dec digits_val_hex word_of_nat_abs_sint [of x]
    by (cases k) (auto simp: scan_number_text base_of_def Let_def split: if_splits)
qed (use assms in \<open>cases k; simp\<close>)+

lemma print_pieces_Lit: "print_pieces (Lit c # ps) args = Inr s \<Longrightarrow> \<exists>r. s = c # r"
  by (auto simp: bindR_eq_Inr)

lemma scan_print:
  assumes "separated ps" "print_pieces ps args = Inr s" "length args = length (piece_types ps)"
  shows "\<exists>xs. args = map Word xs \<and> scan ps s = Some xs"
  using assms
proof (induction ps args arbitrary: s rule: print_pieces.induct)
  case (4 zero w k ps a args)
  then obtain t r where t: "conv_text zero w k a = Inr t" "print_pieces ps args = Inr r" "s = t @ r"
    by (auto simp: bindR_eq_Inr)
  have "\<not> digit_in (base_of k) c" if "r = c # q" for c q
    using 4(2) t(2) that by (auto simp: bindR_eq_Inr split: list.splits piece.splits)
  then obtain x where x: "a = Word x" "scan_number (base_of k) (t @ r) = (x, r)"
    using scan_conv_text [OF t(1), of r] 4(2) by auto
  obtain xs where "args = map Word xs" "scan ps r = Some xs" using 4(1) [OF _ t(2)] 4(2,4) by auto
  then have "a # args = map Word (x # xs) \<and> scan (Conv zero w k # ps) s = Some (x # xs)"
    using x t(3) 4(2) by simp
  then show ?case by (rule exI)
qed (auto simp: bindR_eq_Inr)

text \<open>A line that was printed can be read back.\<close>

lemma sscanf_sprintf:
  assumes "readable fmt" "format_types fmt = Some (map type_of (map Word xs))"
  shows "\<exists>s. sprintf fmt (map Word xs) = Inr s \<and> sscanf fmt s = Some xs"
proof -
  obtain s where s: "sprintf fmt (map Word xs) = Inr s" using sprintf_prints [OF assms(2)] by blast
  obtain ps where ps: "pieces fmt = Some ps" "piece_types ps = map type_of (map Word xs)" "separated ps"
    using assms by (auto simp: format_types_def readable_def split: option.splits)
  have "\<exists>ys. map Word xs = map Word ys \<and> scan ps s = Some ys"
    using s ps by (intro scan_print) (simp_all add: sprintf_def)
  then have "scan ps s = Some xs" by (auto simp: inj_map_eq_map inj_def)
  then show ?thesis using s ps(1) by (simp add: sscanf_def)
qed

end
