(* ===== verification/HexDump.thy ===== *)
theory HexDump
  imports HexText
begin

text \<open>
  The two hex dumps: \<open>hex_printout\<close> of \<open>drivers/klog/src/klog_linux.c\<close>, which builds each line in a
  buffer of 120 characters with a moving pointer, and \<open>hexdump\<close> of \<open>libs/utils/src/utils.c\<close>, which
  collects each line in three strings with \<open>strncat\<close>.  What they print is the result; the first
  line of \<open>hex_printout\<close>, with the address, is kept as the values it shows.
\<close>

subsection \<open>hex_printout\<close>

definition hex_char :: "nat \<Rightarrow> char" where
  "hex_char n = ''0123456789ABCDEF'' ! n"

definition printed_char :: "byte \<Rightarrow> char" where
  "printed_char b = (if 0x20 \<le> b \<and> b \<le> 0x7e \<and> b \<noteq> 0x25 then char_of (unat b) else CHR ''.'')"

text \<open>The two loops over the bytes of a line; \<open>dst\<close> is the position in the buffer.\<close>

fun hex_loop :: "nat \<Rightarrow> bytes \<Rightarrow> string \<Rightarrow> (nat \<times> string) result" where
  "hex_loop dst [] msgbuf = Inr (dst, msgbuf)"
| "hex_loop dst (ival # bs) msgbuf =
     bindR (mem_write dst [hex_char (unat (drop_bit 4 ival AND 0x0F)), hex_char (unat (ival AND 0x0F)), CHR '' ''] msgbuf)
       (hex_loop (dst + 3) bs)"

fun text_loop :: "nat \<Rightarrow> bytes \<Rightarrow> string \<Rightarrow> (nat \<times> string) result" where
  "text_loop dst [] msgbuf = Inr (dst, msgbuf)"
| "text_loop dst (b # bs) msgbuf = bindR (mem_write dst [printed_char b] msgbuf) (text_loop (dst + 1) bs)"

definition hex_line :: "bytes \<Rightarrow> string \<Rightarrow> string result" where
  "hex_line line msgbuf =
     bindR (mem_write 0 (replicate 4 CHR '' '') msgbuf) (\<lambda>m.
     bindR (hex_loop 4 line m) (\<lambda>(dst, m).
     let gap = 3 * (17 - length line) in
     bindR (mem_write dst (replicate gap CHR '' '') m) (\<lambda>m.
     bindR (text_loop (dst + gap) line m) (\<lambda>(dst, m).
     mem_write dst [CHR 0x0A, CHR 0x00] m))))"

fun hex_lines :: "nat \<Rightarrow> nat \<Rightarrow> u32 \<Rightarrow> bytes \<Rightarrow> string \<Rightarrow> string list result" where
  "hex_lines 0 ptr len buf msgbuf = Inr []"
| "hex_lines (Suc j) ptr len buf msgbuf =
     (let nbytes = (if len < 16 then unat len else 16) in
      bindR (mem_read ptr nbytes buf) (\<lambda>line.
      bindR (hex_line line msgbuf) (\<lambda>msgbuf.
      bindR (hex_lines j (ptr + nbytes) (len - of_nat nbytes) buf msgbuf) (\<lambda>rest.
        Inr (takeWhile (\<lambda>c. c \<noteq> CHR 0x00) msgbuf # rest)))))"

definition hex_printout :: "string \<Rightarrow> string \<Rightarrow> bytes \<Rightarrow> u32 \<Rightarrow> ((string \<times> u32) \<times> string list) result" where
  "hex_printout msgbuf msg buf len =
     (let nlines = unat (drop_bit 4 (len + 0x0f)) in
      bindR (hex_lines nlines 0 len buf msgbuf) (\<lambda>lines. Inr ((msg, len), lines)))"

text \<open>The line that the buffer holds in the end.\<close>

definition line_text :: "bytes \<Rightarrow> string" where
  "line_text line = replicate 4 CHR '' ''
     @ concat (map (\<lambda>b. [hex_char (unat (drop_bit 4 b AND 0x0F)), hex_char (unat (b AND 0x0F)), CHR '' '']) line)
     @ replicate (3 * (17 - length line)) CHR '' '' @ map printed_char line @ [CHR 0x0A]"

lemma mem_write_at:
  assumes "dst = length pre" "length src \<le> length rest"
  shows "mem_write dst src (pre @ rest) = Inr (pre @ src @ drop (length src) rest)"
  using assms by (simp add: mem_write_def overlay_def)

lemma hex_loop_runs:
  assumes "dst = length pre" "3 * length bs \<le> length rest"
  shows "hex_loop dst bs (pre @ rest) = Inr (dst + 3 * length bs,
    pre @ concat (map (\<lambda>b. [hex_char (unat (drop_bit 4 b AND 0x0F)), hex_char (unat (b AND 0x0F)), CHR '' '']) bs)
      @ drop (3 * length bs) rest)"
  using assms
proof (induction bs arbitrary: dst pre rest)
  case (Cons b bs)
  let ?s = "[hex_char (unat (drop_bit 4 b AND 0x0F)), hex_char (unat (b AND 0x0F)), CHR '' '']"
  have "mem_write dst ?s (pre @ rest) = Inr ((pre @ ?s) @ drop 3 rest)"
    using Cons.prems mem_write_at [of dst pre ?s rest] by (simp add: numeral_3_eq_3)
  then show ?case
    using Cons.prems Cons.IH [of "dst + 3" "pre @ ?s" "drop 3 rest"] by (simp add: add.commute)
qed simp

lemma text_loop_runs:
  assumes "dst = length pre" "length bs \<le> length rest"
  shows "text_loop dst bs (pre @ rest) = Inr (dst + length bs, pre @ map printed_char bs @ drop (length bs) rest)"
  using assms
proof (induction bs arbitrary: dst pre rest)
  case (Cons b bs)
  have "mem_write dst [printed_char b] (pre @ rest) = Inr ((pre @ [printed_char b]) @ drop 1 rest)"
    using Cons.prems mem_write_at [of dst pre "[printed_char b]" rest] by simp
  then show ?case
    using Cons.prems Cons.IH [of "dst + 1" "pre @ [printed_char b]" "drop 1 rest"] by (simp add: drop_Suc)
qed simp

lemma length_hex_text [simp]: "length (concat (map (\<lambda>b. [f b, g b, h b]) bs)) = 3 * length bs"
  by (induction bs) simp_all

lemma length_line_text: "length line \<le> 16 \<Longrightarrow> length (line_text line) = 56 + length line"
  by (simp add: line_text_def)

text \<open>A line of at most sixteen bytes fits the buffer with room to spare.\<close>

lemma hex_line_runs:
  assumes "length line \<le> 16" "length msgbuf = 120"
  shows "hex_line line msgbuf = Inr (line_text line @ CHR 0x00 # drop (57 + length line) msgbuf)"
proof -
  let ?n = "length line"
  let ?hex = "concat (map (\<lambda>b. [hex_char (unat (drop_bit 4 b AND 0x0F)), hex_char (unat (b AND 0x0F)), CHR '' '']) line)"
  let ?p1 = "replicate 4 CHR '' ''" and ?gap = "replicate (3 * (17 - ?n)) CHR '' ''"
  have sum: "4 + 3 * ?n + 3 * (17 - ?n) = 55" using assms(1) by simp
  have d55: "drop (3 * (17 - ?n)) (drop (4 + 3 * ?n) msgbuf) = drop 55 msgbuf"
    by (simp only: drop_drop add.commute [of "3 * (17 - ?n)"] sum)
  have 1: "mem_write 0 ?p1 msgbuf = Inr (?p1 @ drop 4 msgbuf)"
    using assms mem_write_at [of 0 "[]" ?p1 msgbuf] by simp
  have 2: "hex_loop 4 line (?p1 @ drop 4 msgbuf) = Inr (4 + 3 * ?n, (?p1 @ ?hex) @ drop (4 + 3 * ?n) msgbuf)"
    using assms by (subst hex_loop_runs) (simp_all add: add.commute)
  have 3: "mem_write (4 + 3 * ?n) ?gap ((?p1 @ ?hex) @ drop (4 + 3 * ?n) msgbuf)
      = Inr ((?p1 @ ?hex @ ?gap) @ drop 55 msgbuf)"
    using assms d55 by (subst mem_write_at) (simp_all del: drop_drop)
  have 4: "text_loop 55 line ((?p1 @ ?hex @ ?gap) @ drop 55 msgbuf)
      = Inr (55 + ?n, (?p1 @ ?hex @ ?gap @ map printed_char line) @ drop (55 + ?n) msgbuf)"
    using assms by (subst text_loop_runs) (simp_all add: add.commute)
  have 5: "mem_write (55 + ?n) [CHR 0x0A, CHR 0x00] ((?p1 @ ?hex @ ?gap @ map printed_char line) @ drop (55 + ?n) msgbuf)
      = Inr (line_text line @ CHR 0x00 # drop (57 + ?n) msgbuf)"
    using assms by (subst mem_write_at) (simp_all add: line_text_def)
  show ?thesis
    unfolding hex_line_def Let_def 1 bindR_simps 2 prod.case 3 sum 4 5 by simp
qed

lemma printed_char_not_NUL: "printed_char b \<noteq> CHR 0x00"
proof (cases "0x20 \<le> b \<and> b \<le> 0x7e \<and> b \<noteq> 0x25")
  case True
  then have "0x20 \<le> unat b" using word_le_nat_alt [of "0x20" b] by simp
  then have "(of_char (char_of (unat b) :: char) :: nat) \<noteq> of_char (CHR 0x00)"
    using unat_less_size(1) [of b] by (simp add: of_char_of)
  then show ?thesis using True by (metis printed_char_def)
next
  case False
  then have "printed_char b = CHR ''.''" unfolding printed_char_def by (rule if_not_P)
  then show ?thesis by simp
qed

lemma hex_char_digit:
  assumes "n < 16"
  shows "hex_char n \<noteq> CHR 0x00" "xdigit (hex_char n) = Some n"
proof -
  have "n \<in> set [0, 1, 2, 3, 4, 5, 6, 7, 8, 9, 10, 11, 12, 13, 14, 15]" using assms by (simp) arith
  then show "hex_char n \<noteq> CHR 0x00" "xdigit (hex_char n) = Some n"
    by (auto simp: hex_char_def xdigit_def)
qed

lemma nibbles:
  "unat (drop_bit 4 b AND (0x0F :: byte)) = unat b div 16" "unat (b AND (0x0F :: byte)) = unat b mod 16"
proof -
  have m: "(0x0F :: byte) = mask 4" by (simp add: mask_eq_exp_minus_1)
  have "unat b div 16 < 16" using unat_less_size(1) [of b] by simp
  then show "unat (drop_bit 4 b AND (0x0F :: byte)) = unat b div 16" "unat (b AND (0x0F :: byte)) = unat b mod 16"
    unfolding m take_bit_eq_mask [symmetric] unsigned_take_bit_eq unsigned_drop_bit_eq
    by (simp_all add: drop_bit_eq_div take_bit_eq_mod)
qed

lemma nibbles_less: "unat (drop_bit 4 b AND (0x0F :: byte)) < 16" "unat (b AND (0x0F :: byte)) < 16"
  using unat_less_size(1) [of b] unfolding nibbles by simp_all

lemma line_text_not_NUL: "c \<in> set (line_text line) \<Longrightarrow> c \<noteq> CHR 0x00"
  using printed_char_not_NUL hex_char_digit(1) nibbles_less by (fastforce simp: line_text_def)

lemma line_text_printed: "takeWhile (\<lambda>c. c \<noteq> CHR 0x00) (line_text line @ CHR 0x00 # rest) = line_text line"
  using line_text_not_NUL by (subst takeWhile_append2) auto

text \<open>A buffer in lines of sixteen bytes.\<close>

fun blocks16 :: "bytes \<Rightarrow> bytes list" where
  "blocks16 bs = (if bs = [] then [] else take 16 bs # blocks16 (drop 16 bs))"

declare blocks16.simps [simp del]

lemma concat_blocks16: "concat (blocks16 bs) = bs"
  by (induction bs rule: blocks16.induct) (subst blocks16.simps, simp)

lemma lines_step: "0 < n \<Longrightarrow> Suc ((n - 16 + 15) div 16) = (n + 15) div (16 :: nat)"
proof (cases "n < 16")
  case True
  moreover assume "0 < n"
  ultimately have "(n + 15) div 16 = 1" by (intro div_nat_eqI) simp_all
  then show ?thesis using True by simp
next
  case False
  then obtain m where "n = m + 16" by (metis le_add_diff_inverse2 not_less)
  then show ?thesis by simp
qed

lemma length_blocks16: "length (blocks16 bs) = (length bs + 15) div 16"
proof (induction bs rule: blocks16.induct)
  case (1 bs)
  then show ?case by (subst blocks16.simps) (auto simp: lines_step)
qed

lemma hex_lines_runs:
  assumes "ptr + unat len \<le> length buf" "n = (unat len + 15) div 16" "length msgbuf = 120"
  shows "hex_lines n ptr len buf msgbuf = Inr (map line_text (blocks16 (window ptr (unat len) buf)))"
  using assms
proof (induction n arbitrary: ptr len msgbuf)
  case 0
  then have "unat len = 0" by simp
  then show ?case by (simp add: window_def blocks16.simps)
next
  case (Suc n)
  define k where "k = (if len < 16 then unat len else 16)"
  have len16: "len < 16 \<longleftrightarrow> unat len < 16" by (simp add: word_less_nat_alt)
  have k: "k \<le> unat len" "k \<le> 16" "0 < k" using Suc.prems(2) by (auto simp: k_def len16)
  have sub: "unat (len - of_nat k) = unat len - k"
    using k unat_less_size(3) [of len] by (simp add: unat_sub word_le_nat_alt unat_of_nat take_bit_nat_eq_self)
  have line: "length (window ptr k buf) = k" using k Suc.prems(1) by simp
  let ?m = "line_text (window ptr k buf) @ CHR 0x00 # drop (57 + k) msgbuf"
  have run: "hex_line (window ptr k buf) msgbuf = Inr ?m"
    using hex_line_runs [of "window ptr k buf" msgbuf] line k Suc.prems(3) by simp
  have rest: "hex_lines n (ptr + k) (len - of_nat k) buf ?m
      = Inr (map line_text (blocks16 (window (ptr + k) (unat len - k) buf)))"
  proof -
    have "unat len - k = unat len - 16" by (simp add: k_def len16)
    then have "n = (unat (len - of_nat k) + 15) div 16"
      using lines_step [of "unat len"] Suc.prems(2) k unfolding sub by simp
    then show ?thesis
      using Suc.IH [of "ptr + k" "len - of_nat k" ?m] Suc.prems(1,3) k line
      unfolding sub by (simp add: length_line_text)
  qed
  have w: "window ptr (unat len) buf = window ptr k buf @ window (ptr + k) (unat len - k) buf"
    using window_append [of ptr k "unat len - k" buf] k(1) by simp
  have "blocks16 (window ptr (unat len) buf) = window ptr k buf # blocks16 (window (ptr + k) (unat len - k) buf)"
  proof (cases "k = 16")
    case True
    then show ?thesis using line k unfolding w by (subst blocks16.simps) auto
  next
    case False
    then have "unat len = k" by (simp add: k_def split: if_splits)
    then show ?thesis using line k by (subst blocks16.simps) (auto simp: window_def blocks16.simps)
  qed
  moreover have "mem_read ptr k buf = Inr (window ptr k buf)" using k Suc.prems(1) by (simp add: mem_read_def)
  ultimately show ?case using run rest by (simp add: k_def [symmetric] line_text_printed)
qed

text \<open>Reading a line back: pairs of digits up to the first gap.\<close>

fun read_hex :: "string \<Rightarrow> bytes" where
  "read_hex (a # b # c # cs) = (case (xdigit a, xdigit b) of
     (Some h, Some l) \<Rightarrow> word_of_nat (16 * h + l) # read_hex cs | _ \<Rightarrow> [])"
| "read_hex _ = []"

lemma read_line_text:
  assumes "length line \<le> 16"
  shows "read_hex (drop 4 (line_text line)) = line"
proof -
  have "read_hex (concat (map (\<lambda>b. [hex_char (unat (drop_bit 4 b AND 0x0F)), hex_char (unat (b AND 0x0F)), CHR '' '']) bs)
      @ CHR '' '' # CHR '' '' # CHR '' '' # cs) = bs" for bs cs
  proof (induction bs)
    case Nil
    show ?case by (simp add: xdigit_def)
  next
    case (Cons b bs)
    have "xdigit (hex_char (unat (drop_bit 4 b AND 0x0F))) = Some (unat b div 16)"
      "xdigit (hex_char (unat (b AND 0x0F))) = Some (unat b mod 16)"
      by (rule trans [OF hex_char_digit(2) [OF nibbles_less(1)] arg_cong [where f = Some, OF nibbles(1)]],
          rule trans [OF hex_char_digit(2) [OF nibbles_less(2)] arg_cong [where f = Some, OF nibbles(2)]])
    then show ?case using Cons byte_of_nibbles [of b] by (simp only: list.map concat.simps append.simps read_hex.simps prod.case option.case)
  qed
  moreover have "replicate (3 * (17 - length line)) CHR '' ''
      = CHR '' '' # CHR '' '' # CHR '' '' # replicate (3 * (16 - length line)) CHR '' ''"
    using assms by (simp add: Suc_diff_le numeral_3_eq_3 flip: replicate_Suc)
  ultimately show ?thesis by (simp add: line_text_def)
qed

lemma hex_printout_runs:
  assumes "unat len \<le> length buf" "length msgbuf = 120" "unat len + 15 < 2 ^ 32"
  shows "hex_printout msgbuf msg buf len = Inr ((msg, len), map line_text (blocks16 (take (unat len) buf)))"
proof -
  have "unat (drop_bit 4 (len + 0x0f)) = (unat len + 15) div 16"
    using assms(3) by (simp add: unsigned_drop_bit_eq drop_bit_eq_div unat_word_ariths take_bit_nat_eq_self)
  then show ?thesis
    using hex_lines_runs [of 0 len buf "(unat len + 15) div 16" msgbuf] assms(1,2)
    by (simp add: hex_printout_def window_def)
qed

text \<open>
  C38.  The dump shows the buffer.  \<open>hex_printout\<close> of \<open>len\<close> readable bytes stays inside its line
  buffer and prints one line for each sixteen bytes or rest of them, none longer than 72
  characters; reading the hexadecimal columns of the lines back gives the bytes.
  A length within fifteen of the word's end wraps around in the number of lines, and nothing of
  the buffer is printed.
\<close>

theorem hex_printout_shows:
  assumes "length msgbuf = 120"
  shows "(unat len \<le> length buf \<and> unat len + 15 < 2 ^ 32 \<longrightarrow>
      (\<exists>lines. hex_printout msgbuf msg buf len = Inr ((msg, len), lines)
        \<and> length lines = (unat len + 15) div 16 \<and> (\<forall>l \<in> set lines. length l \<le> 72)
        \<and> concat (map (\<lambda>l. read_hex (drop 4 l)) lines) = take (unat len) buf))
    \<and> (2 ^ 32 \<le> unat len + 15 \<longrightarrow> hex_printout msgbuf msg buf len = Inr ((msg, len), []))"
proof (intro conjI impI)
  assume len: "unat len \<le> length buf \<and> unat len + 15 < 2 ^ 32"
  let ?bs = "blocks16 (take (unat len) buf)"
  have short: "length l \<le> 16" if "l \<in> set (blocks16 bs)" for l bs
    using that by (induction bs rule: blocks16.induct) (subst (asm) (2) blocks16.simps, auto split: if_splits)
  have "map (\<lambda>l. read_hex (drop 4 l)) (map line_text ?bs) = ?bs"
    by (simp add: map_idI read_line_text short)
  then have "concat (map (\<lambda>l. read_hex (drop 4 l)) (map line_text ?bs)) = take (unat len) buf"
    by (simp only: concat_blocks16)
  moreover have "\<forall>l \<in> set (map line_text ?bs). length l \<le> 72"
    using short by (fastforce simp: length_line_text)
  ultimately show "\<exists>lines. hex_printout msgbuf msg buf len = Inr ((msg, len), lines)
      \<and> length lines = (unat len + 15) div 16 \<and> (\<forall>l \<in> set lines. length l \<le> 72)
      \<and> concat (map (\<lambda>l. read_hex (drop 4 l)) lines) = take (unat len) buf"
    using len assms by (intro exI [of _ "map line_text ?bs"] conjI) (simp_all add: hex_printout_runs length_blocks16)
next
  assume "2 ^ 32 \<le> unat len + 15"
  then have "unat (len + 0x0f) < 16"
    using unat_less_size(3) [of len] by (simp add: unat_word_ariths mod_if) linarith
  then have "unat (drop_bit 4 (len + 0x0f)) = 0"
    unfolding unsigned_drop_bit_eq by (simp add: drop_bit_eq_div take_bit_nat_eq_self)
  then show "hex_printout msgbuf msg buf len = Inr ((msg, len), [])"
    by (simp add: hex_printout_def)
qed

theorem hex_printout_shows_witness:
  "\<exists>lines. hex_printout (replicate 120 CHR ''?'') ''key'' [0x41, 0x25, 0xff] 3 = Inr ((''key'', 3), lines)
     \<and> length lines = 1 \<and> concat (map (\<lambda>l. read_hex (drop 4 l)) lines) = [0x41, 0x25, 0xff]"
  using hex_printout_shows [of "replicate 120 CHR ''?''" 3 "[0x41, 0x25, 0xff]" "''key''"] by auto

subsection \<open>hexdump\<close>

text \<open>
  \<open>strncat (dst, src, sizeof (dst) - strlen (dst) - 1)\<close>: \<open>sz\<close> is the size of the array of \<open>dst\<close>.
  The strings are kept without their terminator, which always fits.
\<close>

definition strncat_into :: "nat \<Rightarrow> string \<Rightarrow> string \<Rightarrow> string" where
  "strncat_into sz dst src = dst @ take (sz - length dst - 1) src"

text \<open>\<open>"%.4x"\<close>, and \<open>"[%4.4s]   %-50.50s  %s\n"\<close>.\<close>

definition hex4_str :: "nat \<Rightarrow> string" where
  "hex4_str n = replicate (4 - length (hex_str n)) CHR ''0'' @ hex_str n"

definition dump_line :: "string \<Rightarrow> string \<Rightarrow> string \<Rightarrow> string" where
  "dump_line addrstr hexstr charstr =
     (let a = take 4 addrstr; h = take 50 hexstr in
      ''['' @ replicate (4 - length a) CHR '' '' @ a @ '']   '' @ h @ replicate (50 - length h) CHR '' ''
        @ ''  '' @ charstr @ [CHR 0x0A])"

definition shown_char :: "byte \<Rightarrow> char" where
  "shown_char c = (if c < 0x21 \<or> 0x7d < c then CHR ''.'' else char_of (unat c))"

record dump_st =
  d_addrstr :: string
  d_hexstr :: string
  d_charstr :: string

text \<open>One round of the loop, on byte \<open>n\<close> (counted from 1): the line it prints, if any.\<close>

definition hexdump_step :: "nat \<Rightarrow> byte \<Rightarrow> dump_st \<Rightarrow> string list \<times> dump_st" where
  "hexdump_step n b s =
     (let s1 = (if n mod 16 = 1 then s\<lparr>d_addrstr := take 9 (hex4_str (n - 1))\<rparr> else s);
          s2 = s1\<lparr>d_hexstr := strncat_into 53 (d_hexstr s1) (take 3 (hex2 b @ '' ''))\<rparr>;
          s3 = s2\<lparr>d_charstr := strncat_into 21 (d_charstr s2) [shown_char b]\<rparr>
      in if n mod 16 = 0
         then ([dump_line (d_addrstr s3) (d_hexstr s3) (d_charstr s3)], s3\<lparr>d_hexstr := [], d_charstr := []\<rparr>)
         else if n mod 8 = 0
         then ([], s3\<lparr>d_hexstr := strncat_into 53 (d_hexstr s3) ''  '', d_charstr := strncat_into 21 (d_charstr s3) '' ''\<rparr>)
         else ([], s3))"

fun hexdump_loop :: "nat \<Rightarrow> nat \<Rightarrow> bytes \<Rightarrow> dump_st \<Rightarrow> (string list \<times> dump_st) result" where
  "hexdump_loop n 0 p s = Inr ([], s)"
| "hexdump_loop n (Suc k) [] s = Inl Out_of_bounds"
| "hexdump_loop n (Suc k) (b # p) s =
     (let (out, s1) = hexdump_step n b s in
      bindR (hexdump_loop (n + 1) k p s1) (\<lambda>(out2, s2). Inr (out @ out2, s2)))"

definition hexdump_rest :: "dump_st \<Rightarrow> string list" where
  "hexdump_rest s = (if d_hexstr s \<noteq> [] then [dump_line (d_addrstr s) (d_hexstr s) (d_charstr s)] else [])"

definition hexdump :: "bytes \<Rightarrow> int \<Rightarrow> string list result" where
  "hexdump data sz =
     bindR (hexdump_loop 1 (nat sz) data \<lparr>d_addrstr = [], d_hexstr = [], d_charstr = []\<rparr>) (\<lambda>(out, s).
       Inr (out @ hexdump_rest s))"

text \<open>What the strings hold after the bytes of a line.\<close>

definition hexstr_of :: "bytes \<Rightarrow> string" where
  "hexstr_of bs = concat (map (\<lambda>b. hex2 b @ '' '') (take 8 bs)) @ (if 8 \<le> length bs then ''  '' else [])
     @ concat (map (\<lambda>b. hex2 b @ '' '') (drop 8 bs))"

definition charstr_of :: "bytes \<Rightarrow> string" where
  "charstr_of bs = map shown_char (take 8 bs) @ (if 8 \<le> length bs then '' '' else []) @ map shown_char (drop 8 bs)"

definition line_of :: "nat \<Rightarrow> bytes \<Rightarrow> string" where
  "line_of off bs = dump_line (hex4_str off) (hexstr_of bs) (charstr_of bs)"

fun lines_from :: "nat \<Rightarrow> bytes \<Rightarrow> string list" where
  "lines_from off bs = (if bs = [] then [] else line_of off (take 16 bs) # lines_from (off + 16) (drop 16 bs))"

declare lines_from.simps [simp del]

lemma hexstr_of_snoc:
  "hexstr_of (r @ [b]) = hexstr_of r @ hex2 b @ '' '' @ (if length r = 7 then ''  '' else [])"
  by (cases "length r < 8") (auto simp: hexstr_of_def)

lemma charstr_of_snoc:
  "charstr_of (r @ [b]) = charstr_of r @ [shown_char b] @ (if length r = 7 then '' '' else [])"
  by (cases "length r < 8") (auto simp: charstr_of_def)

lemma length_strs:
  "length (hexstr_of r) = 3 * length r + (if 8 \<le> length r then 2 else 0)"
  "length (charstr_of r) = length r + (if 8 \<le> length r then 1 else 0)"
proof -
  have l: "length (concat (map (\<lambda>b. hex2 b @ '' '') bs)) = 3 * length bs" for bs
    by (induction bs) simp_all
  show "length (hexstr_of r) = 3 * length r + (if 8 \<le> length r then 2 else 0)"
    unfolding hexstr_of_def length_append l by auto
  show "length (charstr_of r) = length r + (if 8 \<le> length r then 1 else 0)"
    by (simp add: charstr_of_def)
qed

text \<open>The strings of the state are those of the bytes \<open>r\<close> of the line at \<open>off\<close>.\<close>

definition dumping :: "nat \<Rightarrow> bytes \<Rightarrow> dump_st \<Rightarrow> bool" where
  "dumping off r s \<longleftrightarrow> d_hexstr s = hexstr_of r \<and> d_charstr s = charstr_of r \<and> (r \<noteq> [] \<longrightarrow> d_addrstr s = hex4_str off)"

lemma hexdump_step_line:
  assumes "dumping (16 * q) r s" "length r < 16" "16 * q < 2 ^ 32"
  obtains s' where "hexdump_step (16 * q + length r + 1) b s =
      (if length r = 15 then [line_of (16 * q) (r @ [b])] else [], s')"
    "dumping (if length r = 15 then 16 * Suc q else 16 * q) (if length r = 15 then [] else r @ [b]) s'"
proof -
  let ?n = "16 * q + length r + 1"
  have m: "?n mod 16 = (length r + 1) mod 16" by simp
  have m8: "?n mod 8 = (length r + 1) mod 8"
    using mod_mult_self4 [of 8 "2 * q" "length r + 1"] by simp
  have addr: "take 9 (hex4_str (16 * q)) = hex4_str (16 * q)"
    using hex_str_length [of "16 * q" 7] assms(3) by (simp add: hex4_str_def)
  note strncat_into_def [simp] length_strs [simp]
  define s1 where "s1 = (if length r = 0 then s\<lparr>d_addrstr := hex4_str (16 * q)\<rparr> else s)"
  have s1: "d_addrstr s1 = hex4_str (16 * q)" "d_hexstr s1 = hexstr_of r" "d_charstr s1 = charstr_of r"
    using assms(1) by (auto simp: s1_def dumping_def)
  have a: "?n mod 16 = 1 \<longleftrightarrow> length r = 0" "?n mod 16 = 0 \<longleftrightarrow> length r = 15"
    "?n mod 8 = 0 \<longleftrightarrow> length r = 7 \<or> length r = 15"
    using assms(2) unfolding m m8 by (auto simp: mod_if split: if_splits)
  have e: "(if ?n mod 16 = 1 then s\<lparr>d_addrstr := take 9 (hex4_str (?n - 1))\<rparr> else s) = s1"
    unfolding a(1) s1_def using addr by simp
  have hex: "strncat_into 53 (hexstr_of r) (hex2 b @ '' '') = hexstr_of r @ hex2 b @ '' ''"
    and ch: "strncat_into 21 (charstr_of r) [shown_char b] = charstr_of r @ [shown_char b]"
    using assms(2) by auto
  have step: "hexdump_step ?n b s = (let s3 = s1\<lparr>d_hexstr := hexstr_of r @ hex2 b @ '' '', d_charstr := charstr_of r @ [shown_char b]\<rparr>
      in if length r = 15
         then ([dump_line (d_addrstr s3) (d_hexstr s3) (d_charstr s3)], s3\<lparr>d_hexstr := [], d_charstr := []\<rparr>)
         else if length r = 7
         then ([], s3\<lparr>d_hexstr := strncat_into 53 (d_hexstr s3) ''  '', d_charstr := strncat_into 21 (d_charstr s3) '' ''\<rparr>)
         else ([], s3))"
    unfolding hexdump_step_def e unfolding a(2,3) by (simp add: Let_def hex ch s1 del: strncat_into_def)
  show thesis
  proof (rule that)
    show "hexdump_step ?n b s = (if length r = 15 then [line_of (16 * q) (r @ [b])] else [], snd (hexdump_step ?n b s))"
      unfolding step using s1 by (simp add: Let_def line_of_def hexstr_of_snoc charstr_of_snoc)
    show "dumping (if length r = 15 then 16 * Suc q else 16 * q) (if length r = 15 then [] else r @ [b]) (snd (hexdump_step ?n b s))"
      unfolding step using s1 assms(2)
      by (auto simp: Let_def dumping_def hexstr_of_snoc charstr_of_snoc) (simp_all add: hexstr_of_def charstr_of_def)
  qed
qed

lemma hexdump_loop_lines:
  assumes "dumping (16 * q) r s" "length r < 16" "k \<le> length p" "16 * q + length r + k \<le> 2 ^ 32"
  shows "\<exists>out s'. hexdump_loop (16 * q + length r + 1) k p s = Inr (out, s')
    \<and> out @ hexdump_rest s' = lines_from (16 * q) (r @ take k p)"
  using assms
proof (induction k arbitrary: q r s p)
  case 0
  have "hexstr_of r = [] \<longleftrightarrow> r = []" using length_strs(1) [of r] by fastforce
  moreover have "lines_from (16 * q) r = (if r = [] then [] else [line_of (16 * q) r])"
    using "0.prems"(2) by (subst lines_from.simps) (simp add: lines_from.simps)
  ultimately show ?case using "0.prems"(1) by (auto simp: dumping_def line_of_def hexdump_rest_def)
next
  case (Suc k)
  obtain b p' where p: "p = b # p'" using Suc.prems(3) by (cases p) auto
  let ?n = "16 * q + length r + 1"
  obtain s' where step: "hexdump_step ?n b s = (if length r = 15 then [line_of (16 * q) (r @ [b])] else [], s')"
    and d: "dumping (if length r = 15 then 16 * Suc q else 16 * q) (if length r = 15 then [] else r @ [b]) s'"
    by (rule hexdump_step_line [OF Suc.prems(1,2), of b]) (use Suc.prems(4) in auto)
  show ?case
  proof (cases "length r = 15")
    case True
    have "lines_from (16 * q) (r @ take (Suc k) p) = line_of (16 * q) (r @ [b]) # lines_from (16 * Suc q) (take k p')"
      using True p by (subst lines_from.simps) (simp add: add.commute)
    moreover have "?n + 1 = 16 * Suc q + length ([] :: bytes) + 1" using True by simp
    moreover obtain out s2 where "hexdump_loop (16 * Suc q + length ([] :: bytes) + 1) k p' s' = Inr (out, s2)"
      "out @ hexdump_rest s2 = lines_from (16 * Suc q) ([] @ take k p')"
      using Suc.IH [of "Suc q" "[]" s' p'] d True p Suc.prems(3,4) by auto
    ultimately show ?thesis using step True p by simp
  next
    case False
    then show ?thesis
      using Suc.IH [of q "r @ [b]" s' p'] step d p Suc.prems(2-4) by auto
  qed
qed

text \<open>
  \<open>hexdump\<close> of at most 4 GiB of readable bytes prints a line for each sixteen of them, complete:
  none of its strings is ever cut off.
\<close>

theorem hexdump_lines:
  assumes "0 \<le> sz" "nat sz \<le> length data" "sz \<le> 2 ^ 32"
  shows "hexdump data sz = Inr (lines_from 0 (take (nat sz) data))"
  using assms hexdump_loop_lines [of 0 "[]" "\<lparr>d_addrstr = [], d_hexstr = [], d_charstr = []\<rparr>" "nat sz" data]
  by (auto simp: hexdump_def dumping_def hexstr_of_def charstr_of_def nat_le_iff)

text \<open>The address column shows the first four digits only, which are the wrong ones from 64 KiB on.\<close>

lemma hexdump_address_cut: "line_of 0x12340 bs = line_of 0x1234 bs"
proof -
  have "take 4 (hex4_str 0x12340) = take 4 (hex4_str 0x1234)"
    by (simp add: hex4_str_def hex_str.simps hex_digit_def)
  then show ?thesis by (simp add: line_of_def dump_line_def)
qed

end
