(* ===== verification/KlogMacros.thy ===== *)
theory KlogMacros
  imports Klog HexDump
begin

text \<open>
  The logging macros of \<open>drivers/klog/src/klog.h\<close>, through which both drivers print: each asks its
  check and, when it passes, prints where it stands and the formatted text, and for a dump the
  bytes of the buffer.  What is printed is the result, in the order of the calls of \<open>printk\<close>.
\<close>

datatype printk = Text string | Dump "(string \<times> u32) \<times> string list"

text \<open>\<open>printk ("[dbug] (%s, %d): ", __FUNCTION__, __LINE__)\<close>: the place of a call is its function and line.\<close>

type_synonym place = "string \<times> nat"

definition log_prefix :: "string \<Rightarrow> place \<Rightarrow> string" where
  "log_prefix tag at = tag @ '' ('' @ fst at @ '', '' @ dec_str (snd at) @ ''): ''"

definition print_if :: "string \<Rightarrow> place \<Rightarrow> string \<Rightarrow> (bool \<times> klog_state) result \<Rightarrow> (printk list \<times> klog_state) result" where
  "print_if tag at txt check = bindR check (\<lambda>(ok, st).
     Inr (if ok then [Text (log_prefix tag at), Text txt] else [], st))"

definition klog_debug :: "ratelimit_fn \<Rightarrow> nat \<Rightarrow> place \<Rightarrow> string \<Rightarrow> klog_state \<Rightarrow> (printk list \<times> klog_state) result" where
  "klog_debug rl logfd at fmt st = print_if ''[dbug]'' at fmt (klog_debug_check rl logfd st)"

definition klog_info :: "ratelimit_fn \<Rightarrow> nat \<Rightarrow> place \<Rightarrow> string \<Rightarrow> klog_state \<Rightarrow> (printk list \<times> klog_state) result" where
  "klog_info rl logfd at fmt st = print_if ''[info]'' at fmt (klog_info_check rl logfd st)"

definition klog_warn :: "ratelimit_fn \<Rightarrow> nat \<Rightarrow> place \<Rightarrow> string \<Rightarrow> klog_state \<Rightarrow> (printk list \<times> klog_state) result" where
  "klog_warn rl logfd at fmt st = print_if ''[warn]'' at fmt (klog_warn_check rl logfd st)"

definition klog_error :: "ratelimit_fn \<Rightarrow> nat \<Rightarrow> place \<Rightarrow> string \<Rightarrow> klog_state \<Rightarrow> (printk list \<times> klog_state) result" where
  "klog_error rl logfd at fmt st = print_if ''[erro]'' at fmt (klog_error_check rl logfd st)"

text \<open>\<open>klog_dumpbuf\<close>: \<open>msgbuf\<close> is the uninitialised line buffer of \<open>hex_printout\<close>.\<close>

definition klog_dumpbuf :: "string \<Rightarrow> ratelimit_fn \<Rightarrow> nat \<Rightarrow> bytes \<Rightarrow> u32 \<Rightarrow> place \<Rightarrow> string \<Rightarrow> klog_state
    \<Rightarrow> (printk list \<times> klog_state) result" where
  "klog_dumpbuf msgbuf rl logfd buf len at fmt st =
     bindR (klog_dumpbuf_check rl logfd st) (\<lambda>(ok, st').
       if ok then bindR (hex_printout msgbuf [] buf len) (\<lambda>d.
         Inr ([Text (log_prefix ''[dump]'' at), Text fmt, Dump d], st'))
       else Inr ([], st'))"

definition klog_trace :: "ratelimit_fn \<Rightarrow> nat \<Rightarrow> nat \<Rightarrow> place \<Rightarrow> string \<Rightarrow> klog_state \<Rightarrow> (printk list \<times> klog_state) result" where
  "klog_trace rl logfd level at fmt st = print_if ''[trac]'' at fmt (klog_trace_check rl logfd level st)"

subsection \<open>A program that logs\<close>

datatype log_call =
    Debug place string | Info place string | Warn place string | Error place string
  | Dumpbuf bytes u32 place string | Trace nat place string

fun do_call :: "string \<Rightarrow> ratelimit_fn \<Rightarrow> nat \<Rightarrow> log_call \<Rightarrow> klog_state \<Rightarrow> (printk list \<times> klog_state) result" where
  "do_call msgbuf rl logfd (Debug at fmt) st = klog_debug rl logfd at fmt st"
| "do_call msgbuf rl logfd (Info at fmt) st = klog_info rl logfd at fmt st"
| "do_call msgbuf rl logfd (Warn at fmt) st = klog_warn rl logfd at fmt st"
| "do_call msgbuf rl logfd (Error at fmt) st = klog_error rl logfd at fmt st"
| "do_call msgbuf rl logfd (Dumpbuf buf len at fmt) st = klog_dumpbuf msgbuf rl logfd buf len at fmt st"
| "do_call msgbuf rl logfd (Trace level at fmt) st = klog_trace rl logfd level at fmt st"

fun log_calls :: "string \<Rightarrow> ratelimit_fn \<Rightarrow> nat \<Rightarrow> log_call list \<Rightarrow> klog_state \<Rightarrow> (printk list \<times> klog_state) result" where
  "log_calls msgbuf rl logfd [] st = Inr ([], st)"
| "log_calls msgbuf rl logfd (c # cs) st =
     bindR (do_call msgbuf rl logfd c st) (\<lambda>(out, st1).
     bindR (log_calls msgbuf rl logfd cs st1) (\<lambda>(out2, st2). Inr (out @ out2, st2)))"

text \<open>The kind of a call, and what it prints when the kind is let through.\<close>

fun kind_of :: "log_call \<Rightarrow> nat" where
  "kind_of (Debug at fmt) = 0"
| "kind_of (Info at fmt) = 1"
| "kind_of (Warn at fmt) = 2"
| "kind_of (Error at fmt) = 3"
| "kind_of (Dumpbuf buf len at fmt) = 4"
| "kind_of (Trace level at fmt) = 5 + level"

fun prints :: "log_call \<Rightarrow> printk list" where
  "prints (Debug at fmt) = [Text (log_prefix ''[dbug]'' at), Text fmt]"
| "prints (Info at fmt) = [Text (log_prefix ''[info]'' at), Text fmt]"
| "prints (Warn at fmt) = [Text (log_prefix ''[warn]'' at), Text fmt]"
| "prints (Error at fmt) = [Text (log_prefix ''[erro]'' at), Text fmt]"
| "prints (Dumpbuf buf len at fmt) = [Text (log_prefix ''[dump]'' at), Text fmt,
     Dump (([], len), map line_text (blocks16 (take (unat len) buf)))]"
| "prints (Trace level at fmt) = [Text (log_prefix ''[trac]'' at), Text fmt]"

text \<open>A dump names memory that can be read, and a trace one of the ten levels.\<close>

fun call_ok :: "log_call \<Rightarrow> bool" where
  "call_ok (Dumpbuf buf len at fmt) \<longleftrightarrow> unat len \<le> length buf \<and> unat len + 15 < 2 ^ 32"
| "call_ok (Trace level at fmt) \<longleftrightarrow> level \<le> 10"
| "call_ok _ \<longleftrightarrow> True"

lemmas check_defs = klog_debug_check_def klog_info_check_def klog_warn_check_def klog_error_check_def
  klog_dumpbuf_check_def klog_trace_check_def

lemmas macro_defs = klog_debug_def klog_info_def klog_warn_def klog_error_def klog_dumpbuf_def klog_trace_def print_if_def

subsection \<open>The contract of a check\<close>

text \<open>
  What a macro relies on: in a state where no kind is limited, a check answers whether the
  kind is let through and changes nothing.  Any sequence of gated outputs then comes to the
  outputs of the kinds that are let through.
\<close>

locale log_gate =
  fixes unlimited :: "'s \<Rightarrow> bool" and check :: "nat \<Rightarrow> 's \<Rightarrow> (bool \<times> 's) result" and lets :: "'s \<Rightarrow> nat \<Rightarrow> bool"
  assumes check_lets: "unlimited s \<Longrightarrow> n < 16 \<Longrightarrow> check n s = Inr (lets s n, s)"
begin

fun run_gated :: "(nat \<times> 'o list result) list \<Rightarrow> 's \<Rightarrow> ('o list \<times> 's) result" where
  "run_gated [] s = Inr ([], s)"
| "run_gated ((n, out) # cs) s = bindR (check n s) (\<lambda>(ok, s1).
     bindR (if ok then out else Inr []) (\<lambda>o1.
     bindR (run_gated cs s1) (\<lambda>(o2, s2). Inr (o1 @ o2, s2))))"

lemma run_gated_lets:
  assumes "unlimited s" "\<And>c. c \<in> set cs \<Longrightarrow> kind c < 16 \<and> outp c = Inr (shows c)"
  shows "run_gated (map (\<lambda>c. (kind c, outp c)) cs) s = Inr (concat (map shows (filter (\<lambda>c. lets s (kind c)) cs)), s)"
  using assms(2) by (induction cs) (simp_all add: check_lets [OF assms(1)])

end

definition item_unlimited :: "nat \<Rightarrow> klog_state \<Rightarrow> bool" where
  "item_unlimited a st = (case kl_heap st a of
      Some i \<Rightarrow> (\<forall>n < 16. \<not> bit (it_verbose i) (n + 16)) | None \<Rightarrow> False)"

definition item_lets :: "nat \<Rightarrow> klog_state \<Rightarrow> nat \<Rightarrow> bool" where
  "item_lets a st n = (case kl_heap st a of Some i \<Rightarrow> bit (it_verbose i) n | None \<Rightarrow> False)"

interpretation gate: log_gate "item_unlimited a" "klog_verbose_check rl a" "item_lets a"
  for a :: nat and rl :: ratelimit_fn
  by unfold_locales (auto simp: item_unlimited_def item_lets_def klog_verbose_check_bits split: option.splits)

fun output_of :: "string \<Rightarrow> log_call \<Rightarrow> printk list result" where
  "output_of msgbuf (Dumpbuf buf len at fmt) = bindR (hex_printout msgbuf [] buf len) (\<lambda>d.
     Inr [Text (log_prefix ''[dump]'' at), Text fmt, Dump d])"
| "output_of msgbuf c = Inr (prints c)"

text \<open>The macros are gated outputs.\<close>

lemma log_calls_gated:
  "log_calls msgbuf rl a cs st = gate.run_gated rl a (map (\<lambda>c. (kind_of c, output_of msgbuf c)) cs) st"
proof (induction cs arbitrary: st)
  case (Cons c cs)
  have "do_call msgbuf rl a c st = bindR (klog_verbose_check rl a (kind_of c) st) (\<lambda>(ok, s1).
      bindR (if ok then output_of msgbuf c else Inr []) (\<lambda>o1. Inr (o1, s1)))"
    by (cases c) (auto simp: macro_defs check_defs bindR_assoc split_def intro!: arg_cong [where f = "bindR _"] ext)
  then show ?case using Cons by (simp add: bindR_assoc split_def)
qed simp

lemma output_prints: "call_ok c \<Longrightarrow> length msgbuf = 120 \<Longrightarrow> kind_of c < 16 \<and> output_of msgbuf c = Inr (prints c)"
  by (cases c) (simp_all add: hex_printout_runs)

lemma log_calls_item:
  assumes heap: "kl_heap st a = Some i" and v: "it_verbose i = push_bit 16 (ucast (0 :: u16)) OR ucast (v :: u16)"
    and ok: "\<forall>c \<in> set cs. call_ok c" "length msgbuf = 120"
  shows "log_calls msgbuf rl a cs st = Inr (concat (map prints (filter (\<lambda>c. bit v (kind_of c)) cs)), st)"
proof -
  have bits: "n < 16 \<Longrightarrow> bit (it_verbose i) n \<longleftrightarrow> bit v n" "n < 16 \<Longrightarrow> \<not> bit (it_verbose i) (n + 16)" for n
    using item_verbose_bits [of n 0 v] by (simp_all only: v bit_0_eq bot_apply bot_bool_def not_False_eq_True)
  have "item_unlimited a st" using heap bits(2) by (simp add: item_unlimited_def)
  then have "log_calls msgbuf rl a cs st = Inr (concat (map prints (filter (\<lambda>c. item_lets a st (kind_of c)) cs)), st)"
    using output_prints ok unfolding log_calls_gated by (intro gate.run_gated_lets) auto
  moreover have "filter (\<lambda>c. item_lets a st (kind_of c)) cs = filter (\<lambda>c. bit v (kind_of c)) cs"
    using output_prints ok bits(1) heap by (intro filter_cong) (auto simp: item_lets_def)
  ultimately show ?thesis by simp
qed

text \<open>
  A program that logs through an item without limits prints exactly the calls whose kinds the
  item lets through, complete and in order, and changes nothing.
\<close>

theorem log_calls_prints:
  assumes "klog_ok st" "a \<in> dom (kl_heap st)" "klog_set_verbose HZ jiffies a v 0 (- 1) st = Inr (r, st')"
    and "\<forall>c \<in> set cs. call_ok c" "length msgbuf = 120"
  shows "log_calls msgbuf rl a cs st' = Inr (concat (map prints (filter (\<lambda>c. bit v (kind_of c)) cs)), st')"
proof -
  obtain i where i: "kl_heap st a = Some i" "it_magic i = KLOG_ITEM_MAGIC"
    using assms(1,2) by (auto simp: klog_ok_def)
  have "kl_heap st' a = Some (set_item_verbose (i\<lparr>it_original_verbose := 0\<rparr>) v 0)"
    using assms(3) i by (auto simp: klog_set_verbose_def item_at_Some clear_item_timer_def)
  then show ?thesis by (rule log_calls_item [OF _ set_item_verbose_value assms(4,5)])
qed

end
