(* ===== verification/LogText.thy ===== *)
theory LogText
  imports Printf KlogMacros NtrackUser RingBuffer NosUsers
begin

text \<open>
  The log lines of the repository: the macros of \<open>include/src/ntrack_log.h\<close> in their kernel and
  their user-space form, those of \<open>drivers/nos/src/nos_debug.h\<close>, and the functions of the shared
  headers that only print (\<open>dump_user\<close>, \<open>rbf_dump\<close>, \<open>print_macxx\<close>).  The result of each is the text it
  writes.  The theory shows that the formats ask for the types the macros pass, and that the
  lines of \<open>nquery\<close> can be read back to the values they were printed from.
\<close>

subsection \<open>Addresses\<close>

text \<open>\<open>NIPQUAD\<close> and \<open>HIPQUAD\<close>: the bytes of an address in the order of the memory, and in the reverse order.\<close>

definition addr_byte :: "endian \<Rightarrow> u32 \<Rightarrow> nat \<Rightarrow> arg" where
  "addr_byte en addr i = Word (ucast (enc32 en addr ! i))"

definition NIPQUAD :: "endian \<Rightarrow> u32 \<Rightarrow> arg list" where
  "NIPQUAD en addr = [addr_byte en addr 0, addr_byte en addr 1, addr_byte en addr 2, addr_byte en addr 3]"

definition HIPQUAD :: "endian \<Rightarrow> u32 \<Rightarrow> arg list" where
  "HIPQUAD en addr = [addr_byte en addr 3, addr_byte en addr 2, addr_byte en addr 1, addr_byte en addr 0]"

subsection \<open>Flows and users\<close>

text \<open>
  The tuple of a flow and the reference count of a user are fields of the structures of
  \<open>linux/nos_track.h\<close> that only these macros read.  That header is not part of the repository; the
  fields are taken to be integers of at most 32 bits, given as they are promoted when they are
  passed.
\<close>

record flow_tuple =
  ip_src :: u32
  ip_dst :: u32
  port_src :: u32
  port_dst :: u32
  proto :: u32

definition FMT_FLOW_STR :: string where
  "FMT_FLOW_STR = ''fid: %u-%u [%u.%u.%u.%u:%u -> %u.%u.%u.%u:%u-%u]''"

definition FMT_FLOW :: "endian \<Rightarrow> flow_info_t \<Rightarrow> flow_tuple \<Rightarrow> arg list" where
  "FMT_FLOW en fi t = [Word (fi_id fi), Word (fi_magic fi)]
     @ HIPQUAD en (ip_src t) @ [Word (port_src t)]
     @ HIPQUAD en (ip_dst t) @ [Word (port_dst t)]
     @ [Word (proto t)]"

definition FMT_USER_STR :: string where
  "FMT_USER_STR = ''uid:%8u magic:%8u gid:%4d ref:%4u - %u.%u.%u.%u''"

definition FMT_USER :: "endian \<Rightarrow> user_info_t \<Rightarrow> u32 \<Rightarrow> arg list" where
  "FMT_USER en ui refcnt = [Word (ui_id ui), Word (ui_magic ui), Word (word_of_int (hdr_group_id (ui_hdr ui))), Word refcnt]
     @ HIPQUAD en (ui_ip ui)"

subsection \<open>The macros in user space\<close>

text \<open>\<open>nt_print\<close> is \<open>printf\<close>; the others write two texts to the standard error stream, a prefix and the line.\<close>

definition nt_print :: "string \<Rightarrow> arg list \<Rightarrow> string result" where
  "nt_print fmt args = sprintf fmt args"

definition prefixed :: "string \<Rightarrow> arg list \<Rightarrow> string \<Rightarrow> arg list \<Rightarrow> string result" where
  "prefixed prefix_fmt prefix_args fmt args =
     bindR (sprintf prefix_fmt prefix_args) (\<lambda>a. bindR (sprintf fmt args) (\<lambda>b. Inr (a @ b)))"

definition nt_debug :: "string \<Rightarrow> string \<Rightarrow> arg list \<Rightarrow> string result" where
  "nt_debug fn fmt args = prefixed ''[dbg] %s: '' [Str fn] fmt args"

definition nt_info :: "string \<Rightarrow> string \<Rightarrow> arg list \<Rightarrow> string result" where
  "nt_info fn fmt args = prefixed ''[inf] %s: '' [Str fn] fmt args"

definition nt_warn :: "string \<Rightarrow> string \<Rightarrow> arg list \<Rightarrow> string result" where
  "nt_warn fn fmt args = prefixed ''[war] %s: '' [Str fn] fmt args"

definition nt_error :: "string \<Rightarrow> string \<Rightarrow> arg list \<Rightarrow> string result" where
  "nt_error fn fmt args = prefixed ''[err] %s: '' [Str fn] fmt args"

definition nt_dump :: "string \<Rightarrow> bytes \<Rightarrow> int \<Rightarrow> string \<Rightarrow> arg list \<Rightarrow> string result" where
  "nt_dump fn buf sz fmt args =
     bindR (prefixed ''[dump] %s: '' [Str fn] fmt args) (\<lambda>a. bindR (hexdump buf sz) (\<lambda>ls. Inr (a @ concat ls)))"

definition nt_assert :: "bool \<Rightarrow> unit result" where
  "nt_assert x = assertR x"

subsection \<open>The macros in the kernel\<close>

text \<open>
  The kernel forms pass their arguments to the macros of \<open>klog.h\<close>, on the item \<open>ntrack_klog_fd\<close>.
  The line is formatted only when the check of the macro lets it through.
\<close>

definition formatted :: "string \<Rightarrow> arg list \<Rightarrow> (string \<Rightarrow> (printk list \<times> klog_state) result) \<Rightarrow> (printk list \<times> klog_state) result" where
  "formatted fmt args macro = (case sprintf fmt args of
      Inr line \<Rightarrow> macro line
    | Inl e \<Rightarrow> bindR (macro []) (\<lambda>(out, st). if out = [] then Inr ([], st) else Inl e))"

definition nt_debug_kernel :: "ratelimit_fn \<Rightarrow> nat \<Rightarrow> place \<Rightarrow> string \<Rightarrow> arg list \<Rightarrow> klog_state \<Rightarrow> (printk list \<times> klog_state) result" where
  "nt_debug_kernel rl ntrack_klog_fd at fmt args st = formatted fmt args (\<lambda>line. klog_debug rl ntrack_klog_fd at line st)"

definition nt_info_kernel :: "ratelimit_fn \<Rightarrow> nat \<Rightarrow> place \<Rightarrow> string \<Rightarrow> arg list \<Rightarrow> klog_state \<Rightarrow> (printk list \<times> klog_state) result" where
  "nt_info_kernel rl ntrack_klog_fd at fmt args st = formatted fmt args (\<lambda>line. klog_info rl ntrack_klog_fd at line st)"

definition nt_warn_kernel :: "ratelimit_fn \<Rightarrow> nat \<Rightarrow> place \<Rightarrow> string \<Rightarrow> arg list \<Rightarrow> klog_state \<Rightarrow> (printk list \<times> klog_state) result" where
  "nt_warn_kernel rl ntrack_klog_fd at fmt args st = formatted fmt args (\<lambda>line. klog_warn rl ntrack_klog_fd at line st)"

definition nt_error_kernel :: "ratelimit_fn \<Rightarrow> nat \<Rightarrow> place \<Rightarrow> string \<Rightarrow> arg list \<Rightarrow> klog_state \<Rightarrow> (printk list \<times> klog_state) result" where
  "nt_error_kernel rl ntrack_klog_fd at fmt args st = formatted fmt args (\<lambda>line. klog_error rl ntrack_klog_fd at line st)"

definition nt_dump_kernel :: "string \<Rightarrow> ratelimit_fn \<Rightarrow> nat \<Rightarrow> bytes \<Rightarrow> u32 \<Rightarrow> place \<Rightarrow> string \<Rightarrow> arg list \<Rightarrow> klog_state
    \<Rightarrow> (printk list \<times> klog_state) result" where
  "nt_dump_kernel msgbuf rl ntrack_klog_fd buf sz at fmt args st =
     formatted fmt args (\<lambda>line. klog_dumpbuf msgbuf rl ntrack_klog_fd buf sz at line st)"

definition nt_trace_kernel :: "ratelimit_fn \<Rightarrow> nat \<Rightarrow> nat \<Rightarrow> place \<Rightarrow> string \<Rightarrow> arg list \<Rightarrow> klog_state \<Rightarrow> (printk list \<times> klog_state) result" where
  "nt_trace_kernel rl ntrack_klog_fd level at fmt args st =
     formatted fmt args (\<lambda>line. klog_trace rl ntrack_klog_fd level at line st)"

subsection \<open>Functions of the shared headers that print\<close>

abbreviation (input) newline :: string where "newline \<equiv> [CHR 0x0A]"
abbreviation (input) tab :: string where "tab \<equiv> [CHR 0x09]"

definition dump_user :: "endian \<Rightarrow> user_info_t \<Rightarrow> string result" where
  "dump_user en ui = nt_print (''%u.%u.%u.%u - %x'' @ newline) (HIPQUAD en (ui_ip ui) @ [Word (hdr_flags (ui_hdr ui))])"

text \<open>The lines of \<open>rbf_init\<close> and \<open>rbf_dump\<close> in user space; \<open>p\<close> is the text of the address of the ring.\<close>

definition rbf_init_line :: "string \<Rightarrow> rbf_t \<Rightarrow> string result" where
  "rbf_init_line p rbp = nt_info ''rbf_init''
     (newline @ tab @ ''mem: %p'' @ newline
       @ tab @ ''sz: 0x%x count: 0x%x'' @ newline
       @ tab @ ''r: %d, w: %d'' @ newline)
     [Ptr p, Word (hdr_size (hdr rbp)), Word (ucast (hdr_count (hdr rbp))),
      Word (ucast (hdr_r (hdr rbp))), Word (ucast (hdr_w (hdr rbp)))]"

definition rbf_dump :: "string \<Rightarrow> rbf_t \<Rightarrow> string result" where
  "rbf_dump p rbp =
     bindR (nt_debug ''rbf_dump'' (''mem: %p, sz: 0x%x, count: 0x%x'' @ newline)
       [Ptr p, Word (hdr_size (hdr rbp)), Word (ucast (hdr_count (hdr rbp)))]) (\<lambda>a.
     bindR (nt_debug ''rbf_dump'' (tab @ ''r: %d, w: %d'' @ newline)
       [Word (ucast (hdr_r (hdr rbp))), Word (ucast (hdr_w (hdr rbp)))]) (\<lambda>b.
     Inr (a @ b)))"

text \<open>The lines of \<open>nquery\<close> for a flow with its user, and for a user.\<close>

definition FLOW_LINE :: string where
  "FLOW_LINE = FMT_FLOW_STR @ newline @ tab @ FMT_USER_STR @ newline"

definition flow_line :: "endian \<Rightarrow> flow_info_t \<Rightarrow> flow_tuple \<Rightarrow> user_info_t \<Rightarrow> u32 \<Rightarrow> string result" where
  "flow_line en fi t ui refcnt = nt_print FLOW_LINE (FMT_FLOW en fi t @ FMT_USER en ui refcnt)"

definition USER_LINE :: string where
  "USER_LINE = FMT_USER_STR @ newline"

definition user_line :: "endian \<Rightarrow> user_info_t \<Rightarrow> u32 \<Rightarrow> string result" where
  "user_line en ui refcnt = nt_print USER_LINE (FMT_USER en ui refcnt)"

subsection \<open>The macros of the nos driver\<close>

definition nos_NIPQUAD :: "endian \<Rightarrow> u32 \<Rightarrow> arg list" where
  "nos_NIPQUAD en addr = [addr_byte en addr 0, addr_byte en addr 1, addr_byte en addr 2, addr_byte en addr 3]"

definition nos_HIPQUAD :: "endian \<Rightarrow> u32 \<Rightarrow> arg list" where
  "nos_HIPQUAD en addr = [addr_byte en addr 3, addr_byte en addr 2, addr_byte en addr 1, addr_byte en addr 0]"

definition nos_FMT_FLOW_STR :: string where
  "nos_FMT_FLOW_STR = ''%u.%u.%u.%u:%u->%u.%u.%u.%u:%u [%u]''"

definition nos_FMT_FLOW :: "endian \<Rightarrow> flow_tuple \<Rightarrow> arg list" where
  "nos_FMT_FLOW en t = nos_HIPQUAD en (ip_src t) @ [Word (port_src t)]
     @ nos_HIPQUAD en (ip_dst t) @ [Word (port_dst t), Word (proto t)]"

text \<open>\<open>debug\<close> tells whether \<open>__DEBUG\<close> is defined; a place is a function and a line.\<close>

definition place_args :: "place \<Rightarrow> arg list" where
  "place_args at = [Str (fst at), Word (word_of_nat (snd at))]"

definition NOS_DBG :: "bool \<Rightarrow> place \<Rightarrow> string \<Rightarrow> arg list \<Rightarrow> string result" where
  "NOS_DBG debug at fmt args = (if debug then prefixed ''[dbg: %s,%d] '' (place_args at) fmt args else Inr [])"

definition DBG_IF :: "bool \<Rightarrow> bool \<Rightarrow> place \<Rightarrow> string \<Rightarrow> arg list \<Rightarrow> string result" where
  "DBG_IF debug exp at fmt args = (if debug then (if exp then NOS_DBG debug at fmt args else Inr []) else Inr [])"

definition logerr :: "place \<Rightarrow> string \<Rightarrow> arg list \<Rightarrow> string result" where
  "logerr at fmt args = prefixed ''[err: %s,%d] '' (place_args at) fmt args"

definition loginfo :: "place \<Rightarrow> string \<Rightarrow> arg list \<Rightarrow> string result" where
  "loginfo at fmt args = prefixed ''[msg: %s,%d] '' (place_args at) fmt args"

definition print_macxx :: "bytes \<Rightarrow> string result" where
  "print_macxx mac = bindR (mem_read 0 6 mac) (\<lambda>m.
     loginfo (''print_macxx'', 10) (''%02x:%02x:%02x:%02x:%02x:%02x'' @ newline) (map (\<lambda>b. Word (ucast b)) m))"

text \<open>Reading the \<open>sysfs\<close> attribute: what is stored in the buffer and its length.\<close>

definition nos_sysfs_attr_show :: "(int \<times> string) result" where
  "nos_sysfs_attr_show = bindR (sprintf (''tbq status: %s'' @ newline) [Str ''...'']) (\<lambda>s. Inr (int (length s), s))"

text \<open>
  The line of \<open>user_hash_show\<close> for a user: \<open>p->mac\<close> is an array, so a pointer is passed (\<open>mac\<close> is its text).
  For \<open>%u\<close> that is undefined in C, and a fault here.
\<close>

definition user_show_line :: "string \<Rightarrow> user_node \<Rightarrow> string result" where
  "user_show_line mac p = loginfo (''user_hash_show'', 111) (''%u %u %u %u'' @ newline)
     [Ptr mac, Word (un_ip p), Word (un_jf p), Word (un_status p)]"

subsection \<open>Types\<close>

definition well_typed :: "string \<Rightarrow> arg list \<Rightarrow> bool" where
  "well_typed fmt args = (case format_types fmt of None \<Rightarrow> False | Some ts \<Rightarrow> prefix ts (map type_of args))"

lemma prefixed_typed:
  "(\<exists>s. prefixed pf pa fmt args = Inr s) \<longleftrightarrow> well_typed pf pa \<and> well_typed fmt args"
  using sprintf_typed [of pf pa] sprintf_typed [of fmt args]
  by (auto simp: prefixed_def bindR_eq_Inr well_typed_def)

lemma prefixes_typed:
  "well_typed ''[dbg] %s: '' [Str fn]" "well_typed ''[inf] %s: '' [Str fn]" "well_typed ''[war] %s: '' [Str fn]"
  "well_typed ''[err] %s: '' [Str fn]" "well_typed ''[dump] %s: '' [Str fn]"
  "well_typed ''[dbg: %s,%d] '' (place_args at)" "well_typed ''[err: %s,%d] '' (place_args at)"
  "well_typed ''[msg: %s,%d] '' (place_args at)"
proof -
  have "format_types ''[dbg] %s: '' = Some [T_str]" "format_types ''[inf] %s: '' = Some [T_str]"
    "format_types ''[war] %s: '' = Some [T_str]" "format_types ''[err] %s: '' = Some [T_str]"
    "format_types ''[dump] %s: '' = Some [T_str]"
    "format_types ''[dbg: %s,%d] '' = Some [T_str, T_word]" "format_types ''[err: %s,%d] '' = Some [T_str, T_word]"
    "format_types ''[msg: %s,%d] '' = Some [T_str, T_word]" by code_simp+
  then show "well_typed ''[dbg] %s: '' [Str fn]" "well_typed ''[inf] %s: '' [Str fn]" "well_typed ''[war] %s: '' [Str fn]"
    "well_typed ''[err] %s: '' [Str fn]" "well_typed ''[dump] %s: '' [Str fn]"
    "well_typed ''[dbg: %s,%d] '' (place_args at)" "well_typed ''[err: %s,%d] '' (place_args at)"
    "well_typed ''[msg: %s,%d] '' (place_args at)" by (simp_all add: well_typed_def place_args_def)
qed

lemmas macro_typed = nt_debug_def nt_info_def nt_warn_def nt_error_def NOS_DBG_def logerr_def loginfo_def
  prefixed_typed prefixes_typed

lemma line_types:
  "format_types FLOW_LINE = Some (replicate 21 T_word)"
  "format_types USER_LINE = Some (replicate 8 T_word)"
  "format_types nos_FMT_FLOW_STR = Some (replicate 11 T_word)"
  "format_types (''%u.%u.%u.%u - %x'' @ newline) = Some (replicate 5 T_word)"
  "format_types (newline @ tab @ ''mem: %p'' @ newline @ tab @ ''sz: 0x%x count: 0x%x'' @ newline @ tab @ ''r: %d, w: %d'' @ newline)
     = Some (T_ptr # replicate 4 T_word)"
  "format_types (''mem: %p, sz: 0x%x, count: 0x%x'' @ newline) = Some (T_ptr # replicate 2 T_word)"
  "format_types (tab @ ''r: %d, w: %d'' @ newline) = Some (replicate 2 T_word)"
  "format_types (''%02x:%02x:%02x:%02x:%02x:%02x'' @ newline) = Some (replicate 6 T_word)"
  "format_types (''%u %u %u %u'' @ newline) = Some (replicate 4 T_word)"
  by code_simp+

lemma quad_types [simp]:
  "map type_of (HIPQUAD en x) = replicate 4 T_word" "map type_of (NIPQUAD en x) = replicate 4 T_word"
  "map type_of (nos_HIPQUAD en x) = replicate 4 T_word"
  by (simp_all add: HIPQUAD_def NIPQUAD_def nos_HIPQUAD_def addr_byte_def numeral_eq_Suc)

lemma line_args:
  "map type_of (FMT_FLOW en fi t @ FMT_USER en ui refcnt) = replicate 21 T_word"
  "map type_of (FMT_USER en ui refcnt) = replicate 8 T_word"
  "map type_of (HIPQUAD en x @ [Word f]) = replicate 5 T_word"
  "map type_of (nos_FMT_FLOW en t) = replicate 11 T_word"
  by (simp_all add: FMT_FLOW_def FMT_USER_def nos_FMT_FLOW_def numeral_eq_Suc)

lemma loginfo_typed: "(\<exists>s. loginfo at fmt args = Inr s) \<longleftrightarrow> well_typed fmt args"
  by (simp add: macro_typed)

lemma printed_lines:
  "\<exists>s. flow_line en fi t ui refcnt = Inr s" "\<exists>s. user_line en ui refcnt = Inr s" "\<exists>s. dump_user en ui = Inr s"
  unfolding flow_line_def user_line_def dump_user_def nt_print_def
  by (rule sprintf_prints, simp only: line_types line_args)+

lemma print_macxx_typed: "(\<exists>s. print_macxx mac = Inr s) \<longleftrightarrow> 6 \<le> length mac"
proof -
  have "map type_of (map (\<lambda>b. Word (ucast (b :: byte))) m) = replicate (length m) T_word" for m
    by (induction m) simp_all
  then have "\<exists>s. loginfo at (''%02x:%02x:%02x:%02x:%02x:%02x'' @ newline) (map (\<lambda>b. Word (ucast b)) (window 0 6 mac)) = Inr s"
    if "6 \<le> length mac" for at
    unfolding loginfo_typed well_typed_def line_types option.case using that by simp
  then show ?thesis by (simp add: print_macxx_def mem_read_def)
qed

lemma rbf_lines:
  "\<exists>s. rbf_init_line p rbp = Inr s" "\<exists>s. rbf_dump p rbp = Inr s"
proof -
  have "\<exists>s. nt_info fn fmt args = Inr s" "\<exists>s. nt_debug fn fmt args = Inr s"
    if "format_types fmt = Some (map type_of args)" for fn fmt args
    using that well_typed_def [of fmt args] by (simp_all add: macro_typed)
  note line = this
  show "\<exists>s. rbf_init_line p rbp = Inr s"
    unfolding rbf_init_line_def by (rule line(1)) (simp add: line_types [simplified] numeral_eq_Suc)
  obtain a where a: "nt_debug ''rbf_dump'' (''mem: %p, sz: 0x%x, count: 0x%x'' @ newline)
       [Ptr p, Word (hdr_size (hdr rbp)), Word (ucast (hdr_count (hdr rbp)))] = Inr a"
    using line(2) line_types(6) by (fastforce simp: numeral_eq_Suc)
  obtain b where b: "nt_debug ''rbf_dump'' (tab @ ''r: %d, w: %d'' @ newline)
       [Word (ucast (hdr_r (hdr rbp))), Word (ucast (hdr_w (hdr rbp)))] = Inr b"
    using line(2) line_types(7) by (fastforce simp: numeral_eq_Suc)
  show "\<exists>s. rbf_dump p rbp = Inr s" unfolding rbf_dump_def a b by simp
qed

lemma nos_sysfs_attr_show_text: "nos_sysfs_attr_show = Inr (16, ''tbq status: ...'' @ newline)"
  by code_simp

lemma user_show_line_undefined: "\<nexists>s. user_show_line q n = Inr s"
  unfolding user_show_line_def loginfo_typed well_typed_def line_types by (simp add: numeral_eq_Suc)

text \<open>
  A macro of \<open>ntrack_log.h\<close> or \<open>nos_debug.h\<close> writes its line exactly when the arguments begin with the
  types its format asks for (a debug macro of the \<open>nos\<close> driver only when \<open>__DEBUG\<close> is defined), and the
  lines the headers and \<open>nquery\<close> print are all of that kind, whatever the values: no conversion
  is left without an argument or meets one of another type.  The line of \<open>user_hash_show\<close> is
  not: it passes the address of an array to \<open>%u\<close>, so it is undefined for every user.
\<close>

theorem log_lines_typed:
  "((\<exists>s. nt_debug fn fmt args = Inr s) \<longleftrightarrow> well_typed fmt args)
   \<and> ((\<exists>s. nt_info fn fmt args = Inr s) \<longleftrightarrow> well_typed fmt args)
   \<and> ((\<exists>s. nt_warn fn fmt args = Inr s) \<longleftrightarrow> well_typed fmt args)
   \<and> ((\<exists>s. nt_error fn fmt args = Inr s) \<longleftrightarrow> well_typed fmt args)
   \<and> ((\<exists>s. logerr at fmt args = Inr s) \<longleftrightarrow> well_typed fmt args)
   \<and> ((\<exists>s. loginfo at fmt args = Inr s) \<longleftrightarrow> well_typed fmt args)
   \<and> ((\<exists>s. NOS_DBG True at fmt args = Inr s) \<longleftrightarrow> well_typed fmt args) \<and> NOS_DBG False at fmt args = Inr []
   \<and> (\<exists>s. flow_line en fi t ui refcnt = Inr s) \<and> (\<exists>s. user_line en ui refcnt = Inr s) \<and> (\<exists>s. dump_user en ui = Inr s)
   \<and> (\<exists>s. rbf_init_line p rbp = Inr s) \<and> (\<exists>s. rbf_dump p rbp = Inr s)
   \<and> ((\<exists>s. print_macxx mac = Inr s) \<longleftrightarrow> 6 \<le> length mac)
   \<and> (\<nexists>s. user_show_line q n = Inr s)"
  using printed_lines rbf_lines print_macxx_typed [of mac] user_show_line_undefined [of q n]
  by (simp add: macro_typed)

subsection \<open>Reading the lines back\<close>

text \<open>The four numbers of an address, the most significant first, and as a machine of either byte order shows them.\<close>

definition quad :: "u32 \<Rightarrow> u32 list" where
  "quad addr = map ucast (enc32 Big addr)"

definition quad_shown :: "endian \<Rightarrow> u32 \<Rightarrow> u32 list" where
  "quad_shown en addr = (case en of Little \<Rightarrow> quad addr | Big \<Rightarrow> rev (quad addr))"

lemma HIPQUAD_shows: "HIPQUAD en x = map Word (quad_shown en x)"
  by (cases en) (simp_all add: HIPQUAD_def addr_byte_def quad_shown_def quad_def enc32_def byte_order_def)

lemma NIPQUAD_shows: "NIPQUAD en x = rev (HIPQUAD en x)"
  by (simp add: NIPQUAD_def HIPQUAD_def)

lemma nos_quads: "nos_NIPQUAD = NIPQUAD" "nos_HIPQUAD = HIPQUAD"
  by (simp_all add: fun_eq_iff nos_NIPQUAD_def NIPQUAD_def nos_HIPQUAD_def HIPQUAD_def)

lemma quad_determines: "dec32 Big (map ucast (quad x)) = x"
proof -
  have "ucast (ucast b :: u32) = b" for b :: byte by (rule bit_word_eqI) (simp add: bit_simps)
  then have "map ucast (quad x) = enc32 Big x" by (simp add: quad_def map_idI)
  then show ?thesis by simp
qed

definition flow_values :: "endian \<Rightarrow> flow_info_t \<Rightarrow> flow_tuple \<Rightarrow> u32 list" where
  "flow_values en fi t = [fi_id fi, fi_magic fi] @ quad_shown en (ip_src t) @ [port_src t]
     @ quad_shown en (ip_dst t) @ [port_dst t, proto t]"

definition user_values :: "endian \<Rightarrow> user_info_t \<Rightarrow> u32 \<Rightarrow> u32 list" where
  "user_values en ui refcnt = [ui_id ui, ui_magic ui, word_of_int (hdr_group_id (ui_hdr ui)), refcnt]
     @ quad_shown en (ui_ip ui)"

lemma FMT_values:
  "FMT_FLOW en fi t = map Word (flow_values en fi t)" "FMT_USER en ui refcnt = map Word (user_values en ui refcnt)"
  by (simp_all add: FMT_FLOW_def FMT_USER_def flow_values_def user_values_def HIPQUAD_shows)

lemma lines_readable:
  "readable FLOW_LINE" "readable USER_LINE" "readable nos_FMT_FLOW_STR" "readable (''%u.%u.%u.%u - %x'' @ newline)"
  by code_simp+

lemma read_line:
  assumes "readable fmt" "format_types fmt = Some (replicate n T_word)" "args = map Word xs" "length xs = n"
  shows "\<exists>s. nt_print fmt args = Inr s \<and> sscanf fmt s = Some xs"
proof -
  have "map type_of (map Word xs) = replicate n T_word" unfolding assms(4) [symmetric] by (induction xs) simp_all
  then show ?thesis using sscanf_sprintf [of fmt xs] assms by (simp add: nt_print_def)
qed

lemma length_values [simp]:
  "length (quad_shown en x) = 4" "length (flow_values en fi t) = 13" "length (user_values en ui refcnt) = 8"
proof -
  have "length (quad_shown en x) = 4" for x by (cases en) (simp_all add: quad_shown_def quad_def)
  then show "length (quad_shown en x) = 4" "length (flow_values en fi t) = 13" "length (user_values en ui refcnt) = 8"
    by (simp_all add: flow_values_def user_values_def)
qed

text \<open>
  C40.  What \<open>nquery\<close> prints can be read back: scanning the line of a flow and its user by the format it
  was printed with gives the identifiers, the magics, the group, the reference count, the
  ports and the protocol, and each address as four numbers, from which the address is
  determined.  The same holds of the lines of a user, of \<open>dump_user\<close> and of the flow format of
  the \<open>nos\<close> driver.  The addresses appear most significant byte first on a little-endian machine
  and reversed on a big-endian one.
\<close>

theorem log_lines_read_back:
  "(\<exists>s. flow_line en fi t ui refcnt = Inr s
      \<and> sscanf FLOW_LINE s = Some (flow_values en fi t @ user_values en ui refcnt))
   \<and> (\<exists>s. user_line en ui refcnt = Inr s \<and> sscanf USER_LINE s = Some (user_values en ui refcnt))
   \<and> (\<exists>s. dump_user en ui = Inr s
        \<and> sscanf (''%u.%u.%u.%u - %x'' @ newline) s = Some (quad_shown en (ui_ip ui) @ [hdr_flags (ui_hdr ui)]))
   \<and> (\<exists>s. nt_print nos_FMT_FLOW_STR (nos_FMT_FLOW en t) = Inr s
        \<and> sscanf nos_FMT_FLOW_STR s = Some (quad_shown en (ip_src t) @ [port_src t] @ quad_shown en (ip_dst t) @ [port_dst t, proto t]))
   \<and> quad_shown Little x = quad x \<and> quad_shown Big x = rev (quad x) \<and> dec32 Big (map ucast (quad x)) = x"
  unfolding flow_line_def user_line_def dump_user_def
  by (intro conjI read_line [OF lines_readable(1) line_types(1)] read_line [OF lines_readable(2) line_types(2)]
      read_line [OF lines_readable(3) line_types(3)] read_line [OF lines_readable(4) line_types(4)])
    (simp_all add: FMT_values nos_FMT_FLOW_def nos_quads HIPQUAD_shows quad_determines quad_shown_def [of Little] quad_shown_def [of Big])

subsection \<open>The log of nos_track\<close>

datatype nt_call =
    Nt_debug place string "arg list" | Nt_info place string "arg list" | Nt_warn place string "arg list"
  | Nt_error place string "arg list" | Nt_dump bytes u32 place string "arg list" | Nt_trace nat place string "arg list"

fun nt_do :: "string \<Rightarrow> ratelimit_fn \<Rightarrow> nat \<Rightarrow> nt_call \<Rightarrow> klog_state \<Rightarrow> (printk list \<times> klog_state) result" where
  "nt_do msgbuf rl fd (Nt_debug at fmt args) st = nt_debug_kernel rl fd at fmt args st"
| "nt_do msgbuf rl fd (Nt_info at fmt args) st = nt_info_kernel rl fd at fmt args st"
| "nt_do msgbuf rl fd (Nt_warn at fmt args) st = nt_warn_kernel rl fd at fmt args st"
| "nt_do msgbuf rl fd (Nt_error at fmt args) st = nt_error_kernel rl fd at fmt args st"
| "nt_do msgbuf rl fd (Nt_dump buf sz at fmt args) st = nt_dump_kernel msgbuf rl fd buf sz at fmt args st"
| "nt_do msgbuf rl fd (Nt_trace level at fmt args) st = nt_trace_kernel rl fd level at fmt args st"

fun nt_calls :: "string \<Rightarrow> ratelimit_fn \<Rightarrow> nat \<Rightarrow> nt_call list \<Rightarrow> klog_state \<Rightarrow> (printk list \<times> klog_state) result" where
  "nt_calls msgbuf rl fd [] st = Inr ([], st)"
| "nt_calls msgbuf rl fd (c # cs) st =
     bindR (nt_do msgbuf rl fd c st) (\<lambda>(out, st1).
     bindR (nt_calls msgbuf rl fd cs st1) (\<lambda>(out2, st2). Inr (out @ out2, st2)))"

text \<open>The call of \<open>klog\<close> that a call comes to once its line is formatted.\<close>

fun to_klog :: "nt_call \<Rightarrow> log_call result" where
  "to_klog (Nt_debug at fmt args) = bindR (sprintf fmt args) (\<lambda>s. Inr (Debug at s))"
| "to_klog (Nt_info at fmt args) = bindR (sprintf fmt args) (\<lambda>s. Inr (Info at s))"
| "to_klog (Nt_warn at fmt args) = bindR (sprintf fmt args) (\<lambda>s. Inr (Warn at s))"
| "to_klog (Nt_error at fmt args) = bindR (sprintf fmt args) (\<lambda>s. Inr (Error at s))"
| "to_klog (Nt_dump buf sz at fmt args) = bindR (sprintf fmt args) (\<lambda>s. Inr (Dumpbuf buf sz at s))"
| "to_klog (Nt_trace level at fmt args) = bindR (sprintf fmt args) (\<lambda>s. Inr (Trace level at s))"

lemmas kernel_macro_defs = nt_debug_kernel_def nt_info_kernel_def nt_warn_kernel_def nt_error_kernel_def
  nt_dump_kernel_def nt_trace_kernel_def formatted_def

lemma nt_do_klog: "to_klog c = Inr k \<Longrightarrow> nt_do msgbuf rl fd c st = do_call msgbuf rl fd k st"
  by (cases c) (auto simp: kernel_macro_defs bindR_eq_Inr)

lemma nt_calls_klog:
  "map to_klog cs = map Inr ks \<Longrightarrow> nt_calls msgbuf rl fd cs st = log_calls msgbuf rl fd ks st"
  by (induction cs arbitrary: ks st) (auto simp: nt_do_klog)

text \<open>A line that is not let through is not formatted: it cannot fault, whatever its arguments.\<close>

lemma nt_do_silent:
  assumes "klog_verbose_check rl fd n st = Inr (False, st')" "c \<in> {Nt_debug at fmt args, Nt_info at fmt args, Nt_warn at fmt args, Nt_error at fmt args}"
    and "n = (case c of Nt_debug _ _ _ \<Rightarrow> 0 | Nt_info _ _ _ \<Rightarrow> 1 | Nt_warn _ _ _ \<Rightarrow> 2 | _ \<Rightarrow> 3)"
  shows "nt_do msgbuf rl fd c st = Inr ([], st')"
  using assms by (auto simp: kernel_macro_defs macro_defs check_defs split: sum.splits)

text \<open>
  The kernel log of \<open>nos_track\<close>: with the item set to the kinds \<open>v\<close>, a run of well-typed calls prints
  the lines of the kinds in \<open>v\<close>, formatted, complete and in order.
\<close>

theorem nt_calls_print:
  assumes "klog_ok st" "fd \<in> dom (kl_heap st)" "klog_set_verbose HZ jiffies fd v 0 (- 1) st = Inr (r, st')"
    and "map to_klog cs = map Inr ks" "\<forall>k \<in> set ks. call_ok k" "length msgbuf = 120"
  shows "nt_calls msgbuf rl fd cs st' = Inr (concat (map prints (filter (\<lambda>k. bit v (kind_of k)) ks)), st')"
  using nt_calls_klog [OF assms(4)] log_calls_prints [OF assms(1-3,5,6)] by simp

text \<open>The log as \<open>ntrack_modules_init\<close> opens it: kinds \<open>0x0e\<close>, no limits.\<close>

fun let_through :: "nt_call \<Rightarrow> bool" where
  "let_through (Nt_info at fmt args) = True"
| "let_through (Nt_warn at fmt args) = True"
| "let_through (Nt_error at fmt args) = True"
| "let_through _ = False"

lemma ntrack_kinds:
  assumes "to_klog c = Inr k" "call_ok k"
  shows "bit (0x0e :: u16) (kind_of k) \<longleftrightarrow> let_through c"
proof -
  have all: "\<forall>n \<in> set [0..<16]. bit (0x0e :: u16) n \<longleftrightarrow> n = 1 \<or> n = 2 \<or> n = 3" by code_simp
  have bits: "bit (0x0e :: u16) n \<longleftrightarrow> n = 1 \<or> n = 2 \<or> n = 3" for n
    using all bit_imp_le_length [of "0x0e :: u16" n] by (cases "n < 16") auto
  show ?thesis unfolding bits using assms by (cases c) (auto simp: bindR_eq_Inr)
qed

text \<open>A call with arguments of the right types and readable memory, and what it prints when it is let through.\<close>

definition nt_ok :: "nt_call \<Rightarrow> bool" where
  "nt_ok c = (case to_klog c of Inr k \<Rightarrow> call_ok k | Inl e \<Rightarrow> False)"

definition nt_prints :: "nt_call \<Rightarrow> printk list" where
  "nt_prints c = (case to_klog c of Inr k \<Rightarrow> prints k | Inl e \<Rightarrow> [])"

lemma nt_ok_klog:
  assumes "\<forall>c \<in> set cs. nt_ok c"
  obtains ks where "map to_klog cs = map Inr ks" "\<forall>k \<in> set ks. call_ok k"
    "concat (map prints (filter (\<lambda>k. bit (0x0e :: u16) (kind_of k)) ks)) = concat (map nt_prints (filter let_through cs))"
proof -
  have "\<exists>ks. map to_klog cs = map Inr ks \<and> (\<forall>k \<in> set ks. call_ok k)
    \<and> concat (map prints (filter (\<lambda>k. bit (0x0e :: u16) (kind_of k)) ks)) = concat (map nt_prints (filter let_through cs))"
    using assms
  proof (induction cs)
    case (Cons c cs)
    then obtain ks where ks: "map to_klog cs = map Inr ks" "\<forall>k \<in> set ks. call_ok k"
      "concat (map prints (filter (\<lambda>k. bit (0x0e :: u16) (kind_of k)) ks)) = concat (map nt_prints (filter let_through cs))"
      by auto
    obtain k where k: "to_klog c = Inr k" "call_ok k" using Cons.prems by (auto simp: nt_ok_def split: sum.splits)
    show ?case using ks k ntrack_kinds [OF k] by (intro exI [of _ "k # ks"]) (simp add: nt_prints_def [of c])
  qed simp
  then show thesis using that by blast
qed

text \<open>
  The log of the module as it is loaded.  \<open>ntrack_modules_init\<close> opens its log with the kinds
  \<open>0x0e\<close> and no limits: from then on a run of calls of the kernel macros with well-typed arguments
  prints the information, the warnings and the errors among them, formatted, each with its
  prefix, complete and in order, and no debug line, dump or trace, and it leaves the log as it is.
\<close>

theorem ntrack_log_default:
  assumes "klog_init HZ (Some (fd, fresh)) (Some ''ntrack'') 0x0e 0 st = (Some fd, st')"
    and "\<forall>c \<in> set cs. nt_ok c" "length msgbuf = 120"
  shows "nt_calls msgbuf rl fd cs st' = Inr (concat (map nt_prints (filter let_through cs)), st')"
proof -
  obtain i where i: "kl_heap st' fd = Some i" "it_verbose i = push_bit 16 (ucast (0 :: u16)) OR ucast (0x0e :: u16)"
    using assms(1) by (auto simp: klog_init_def Let_def set_item_verbose_def)
  obtain ks where ks: "map to_klog cs = map Inr ks" "\<forall>k \<in> set ks. call_ok k"
    "concat (map prints (filter (\<lambda>k. bit (0x0e :: u16) (kind_of k)) ks)) = concat (map nt_prints (filter let_through cs))"
    by (rule nt_ok_klog [OF assms(2)])
  show ?thesis using nt_calls_klog [OF ks(1)] log_calls_item [OF i ks(2) assms(3)] ks(3) by simp
qed

theorem ntrack_log_default_witness:
  "nt_calls (replicate 120 CHR ''?'') (\<lambda>r. (True, r)) 9
     [Nt_debug (''nl_recv'', 270) ''hidden'' [],
      Nt_info (''ntrack_conf_sync'', 116) ''num rules: %d set.'' [Word 3]]
     (snd (klog_init 250 (Some (9, demo_item)) (Some ''ntrack'') 0x0e 0 demo_klog))
   = Inr ([Text ''[info] (ntrack_conf_sync, 116): '', Text ''num rules: 3 set.''],
       snd (klog_init 250 (Some (9, demo_item)) (Some ''ntrack'') 0x0e 0 demo_klog))"
proof -
  let ?cs = "[Nt_debug (''nl_recv'', 270) ''hidden'' [],
      Nt_info (''ntrack_conf_sync'', 116) ''num rules: %d set.'' [Word 3]]"
  have "list_all nt_ok ?cs" by code_simp
  then have ok: "\<forall>c \<in> set ?cs. nt_ok c" by (simp only: list_all_iff)
  have out: "concat (map nt_prints (filter let_through ?cs))
      = [Text ''[info] (ntrack_conf_sync, 116): '', Text ''num rules: 3 set.'']" by code_simp
  have init: "klog_init 250 (Some (9, demo_item)) (Some ''ntrack'') 0x0e 0 demo_klog
      = (Some 9, snd (klog_init 250 (Some (9, demo_item)) (Some ''ntrack'') 0x0e 0 demo_klog))"
    by (simp add: klog_init_def Let_def)
  show ?thesis unfolding out [symmetric] by (rule ntrack_log_default [OF init ok]) simp
qed

end
