(* ===== verification/ModuleLog.thy ===== *)
theory ModuleLog
  imports NtrackHooks LogText
begin

text \<open>
  The module \<open>nos_track\<close> while it is loaded and unloaded, with the log of \<open>klog\<close> it writes to and the
  handlers that run beside it.  \<open>NtrackHooks\<close> treats \<open>ntrack_modules_init\<close> and \<open>ntrack_modules_exit\<close> of
  \<open>drivers/nos_track/src/ntrack_hooks.c\<close> as one step each, on an abstract log; here they advance
  statement by statement on an item of \<open>klog_linux.c\<close>, and between two statements netlink messages
  arrive, packets are forwarded and work items run, as soon as and as long as each is registered.

  The theory shows that the thread does what the functions of \<open>NtrackHooks\<close> say, that in every
  interleaving the handlers of the module find its log, with one exception, and what happens
  in that one: the error path frees the log before it closes the netlink socket.
\<close>

subsection \<open>The loading thread\<close>

text \<open>Where the thread is: the next statement of \<open>ntrack_modules_init\<close>, of its label \<open>__err\<close>, or of \<open>ntrack_modules_exit\<close>.\<close>

datatype load_pc =
    Open_log | Conf_init | Msg_init | Register | Set_match | Loaded
  | Err_msg int | Err_log int | Err_conf int | Failed int
  | Exit_match | Exit_hooks | Exit_msg | Exit_conf | Exit_log | Unloaded

text \<open>
  The state: \<open>ntrack_klog_fd\<close>, the state of \<open>klog\<close>, the rest of the module (whose field for the
  abstract log is not used) and what has been printed.
\<close>

record loading =
  lo_fd :: "nat option"
  lo_klog :: klog_state
  lo_mod :: mod_state
  lo_out :: "printk list"

text \<open>
  What the kernel answers: the memory of the log item, the outcomes of the allocations and
  registrations, and the lines that the functions called by a statement print themselves.
\<close>

record load_env =
  le_HZ :: u32
  le_mem :: "(nat \<times> klog_item) option"
  le_rl :: ratelimit_fn
  le_msgbuf :: string
  le_nl :: bool
  le_nr :: nat
  le_base :: bool
  le_size :: u32
  le_wq :: bool
  le_hooks :: int
  le_calls :: "load_pc \<Rightarrow> nt_call list"

definition log_lines :: "load_env \<Rightarrow> nt_call list \<Rightarrow> loading \<Rightarrow> loading result" where
  "log_lines e cs lo = (if cs = [] then Inr lo else case lo_fd lo of
      None \<Rightarrow> Inl Null_deref
    | Some fd \<Rightarrow> bindR (nt_calls (le_msgbuf e) (le_rl e) fd cs (lo_klog lo)) (\<lambda>(out, k).
        Inr (lo\<lparr>lo_klog := k, lo_out := lo_out lo @ out\<rparr>)))"

definition init_info :: "nat \<Rightarrow> string \<Rightarrow> nt_call" where
  "init_info line text' = Nt_info (''ntrack_modules_init'', line) (text' @ newline) []"

definition set_conf :: "conf_state \<Rightarrow> loading \<Rightarrow> loading" where
  "set_conf c lo = lo\<lparr>lo_mod := (lo_mod lo)\<lparr>md_conf := c\<rparr>\<rparr>"

definition set_msg :: "nmsg_state \<Rightarrow> loading \<Rightarrow> loading" where
  "set_msg m lo = lo\<lparr>lo_mod := (lo_mod lo)\<lparr>md_msg := m\<rparr>\<rparr>"

definition fini_log :: "loading \<Rightarrow> loading result" where
  "fini_log lo = (case lo_fd lo of
      None \<Rightarrow> Inl Null_deref
    | Some fd \<Rightarrow> bindR (klog_fini fd (lo_klog lo)) (\<lambda>(_, k). Inr (lo\<lparr>lo_klog := k\<rparr>)))"

fun load_step :: "load_env \<Rightarrow> load_pc \<Rightarrow> loading \<Rightarrow> (load_pc \<times> loading) result" where
  "load_step e Open_log lo = (let (fd, k) = klog_init (le_HZ e) (le_mem e) (Some ''ntrack'') 0x0e 0 (lo_klog lo) in
     if fd = None then Inr (Failed (- ENOMEM), lo\<lparr>lo_fd := fd, lo_klog := k\<rparr>)
     else Inr (Conf_init, lo\<lparr>lo_fd := fd, lo_klog := k\<rparr>))"
| "load_step e Conf_init lo = bindR (log_lines e [init_info 169 ''init netlink conf io.''] lo) (\<lambda>lo1.
     let (ret, c) = ntrack_conf_init (le_nl e) (md_conf (lo_mod lo1)) in
     bindR (log_lines e (le_calls e Conf_init) (set_conf c lo1)) (\<lambda>lo2.
       Inr (if ret \<noteq> 0 then Err_msg ret else Msg_init, lo2)))"
| "load_step e Msg_init lo = bindR (log_lines e [init_info 175 ''ntrack cap init.''] lo) (\<lambda>lo1.
     bindR (nmsg_init (le_nr e) (le_base e) (le_size e) (le_wq e) (md_msg (lo_mod lo1))) (\<lambda>(ret, m).
     bindR (log_lines e (le_calls e Msg_init) (set_msg m lo1)) (\<lambda>lo2.
       Inr (if ret \<noteq> 0 then Err_msg ret else Register, lo2))))"
| "load_step e Register lo = bindR (log_lines e [init_info 181 ''init nf hooks.''] lo) (\<lambda>lo1.
     if le_hooks e \<noteq> 0 then Inr (Err_msg (le_hooks e), lo1)
     else Inr (Set_match, lo1\<lparr>lo_mod := (lo_mod lo1)\<lparr>md_hooks := True\<rparr>\<rparr>))"
| "load_step e Set_match lo = Inr (Loaded, lo\<lparr>lo_mod := (lo_mod lo)\<lparr>md_match_fn := True\<rparr>\<rparr>)"
| "load_step e (Err_msg ret) lo = bindR (nmsg_cleanup (md_msg (lo_mod lo))) (\<lambda>m.
     bindR (log_lines e (le_calls e (Err_msg ret)) (set_msg m lo)) (\<lambda>lo1. Inr (Err_log ret, lo1)))"
| "load_step e (Err_log ret) lo = bindR (if lo_fd lo \<noteq> None then fini_log lo else Inr lo) (\<lambda>lo1. Inr (Err_conf ret, lo1))"
| "load_step e (Err_conf ret) lo = bindR (ntrack_conf_exit (md_conf (lo_mod lo))) (\<lambda>c. Inr (Failed ret, set_conf c lo))"
| "load_step e (Failed ret) lo = Inr (Failed ret, lo)"
| "load_step e Loaded lo =
     bindR (log_lines e [Nt_info (''ntrack_modules_exit'', 202) (''module cleanup.'' @ newline) []] lo) (\<lambda>lo1. Inr (Exit_match, lo1))"
| "load_step e Exit_match lo = Inr (Exit_hooks, lo\<lparr>lo_mod := (lo_mod lo)\<lparr>md_match_fn := False\<rparr>\<rparr>)"
| "load_step e Exit_hooks lo = Inr (Exit_msg, lo\<lparr>lo_mod := (lo_mod lo)\<lparr>md_hooks := False\<rparr>\<rparr>)"
| "load_step e Exit_msg lo = bindR (nmsg_cleanup (md_msg (lo_mod lo))) (\<lambda>m.
     bindR (log_lines e (le_calls e Exit_msg) (set_msg m lo)) (\<lambda>lo1. Inr (Exit_conf, lo1)))"
| "load_step e Exit_conf lo = bindR (ntrack_conf_exit (md_conf (lo_mod lo))) (\<lambda>c. Inr (Exit_log, set_conf c lo))"
| "load_step e Exit_log lo = bindR (fini_log lo) (\<lambda>lo1. Inr (Unloaded, lo1))"
| "load_step e Unloaded lo = Inr (Unloaded, lo)"

subsection \<open>The handlers\<close>

text \<open>
  \<open>nl_recv\<close> with its line; \<open>cs\<close> are the lines of \<open>ntrack_conf_sync\<close>.
\<close>

definition nl_recv_logged ::
  "load_env \<Rightarrow> endian \<Rightarrow> conf_env \<Rightarrow> u32 \<Rightarrow> bool \<Rightarrow> bool \<Rightarrow> nat \<Rightarrow> bytes \<Rightarrow> nt_call list \<Rightarrow> loading \<Rightarrow> loading result" where
  "nl_recv_logged e en env jiffies kz vm mem skb cs lo =
     (if length skb < NLMSG_HDRLEN then Inr lo
      else bindR (field32 en 0 skb) (\<lambda>nlmsg_len.
        if \<not> NLMSG_OK (unat nlmsg_len) (length skb) then Inr lo
        else bindR (field32 en 12 skb) (\<lambda>pid.
          bindR (if kz then log_lines e [Nt_info (''nl_recv'', 282) (''pid: %d, dlen=%d'' @ newline)
              [Word pid, Word (nlmsg_len - 16)]] lo else Inr lo) (\<lambda>lo1.
          bindR (nl_recv en env jiffies kz vm mem skb (md_conf (lo_mod lo1))) (\<lambda>c.
          log_lines e (if kz then cs else []) (set_conf c lo1))))))"

text \<open>The hook on a forwarded packet, for the users and sent packets \<open>us\<close> and \<open>tx\<close> of the moment.\<close>

definition hook_logged ::
  "load_env \<Rightarrow> hook_env \<Rightarrow> hook_alloc \<Rightarrow> u32 \<Rightarrow> nf_conn option \<Rightarrow> sk_buff \<Rightarrow> net_device \<Rightarrow> net_device option \<Rightarrow> user_info_t list
   \<Rightarrow> (nat \<times> bytes) list \<Rightarrow> nt_call list \<Rightarrow> loading \<Rightarrow> loading result" where
  "hook_logged e env al jiffies conn skb in_dev out_dev us tx cs lo =
     bindR (ntrack_hook_fw env al jiffies conn skb in_dev out_dev
       \<lparr>st_users = us, st_conf = md_conf (lo_mod lo), st_msg = md_msg (lo_mod lo), st_xmit = tx\<rparr>) (\<lambda>(_, st).
     log_lines e cs (set_msg (st_msg st) lo))"

definition work_logged :: "load_env \<Rightarrow> nat \<Rightarrow> nt_call list \<Rightarrow> loading \<Rightarrow> loading result" where
  "work_logged e cpu cs lo =
     bindR (nmsg_wq_dequeue_func cpu (md_msg (lo_mod lo))) (\<lambda>m. log_lines e cs (set_msg m lo))"

text \<open>A handler runs between two statements of the thread while it is registered.\<close>

inductive load_run :: "load_env \<Rightarrow> load_pc \<times> loading \<Rightarrow> load_pc \<times> loading \<Rightarrow> bool" for e where
  thread: "load_step e pc lo = Inr (pc', lo') \<Longrightarrow> load_run e (pc, lo) (pc', lo')"
| netlink: "conf_nl_sock (md_conf (lo_mod lo)) = Nl_live \<Longrightarrow> nl_recv_logged e en env jiffies kz vm mem skb cs lo = Inr lo'
    \<Longrightarrow> load_run e (pc, lo) (pc, lo')"
| packet: "md_hooks (lo_mod lo) \<Longrightarrow> hook_logged e henv al jiffies conn p in_dev out_dev us tx cs lo = Inr lo'
    \<Longrightarrow> load_run e (pc, lo) (pc, lo')"
| work: "nmsg_wq (md_msg (lo_mod lo)) = Wq_live \<Longrightarrow> nmsg_target_cpu (md_msg (lo_mod lo)) cpu = Inr q \<Longrightarrow> cpu_wq_msg q
    \<Longrightarrow> work_logged e cpu cs lo = Inr lo'
    \<Longrightarrow> load_run e (pc, lo) (pc, lo')"

inductive load_reach :: "load_env \<Rightarrow> loading \<Rightarrow> load_pc \<times> loading \<Rightarrow> bool" for e lo where
  start: "load_reach e lo (Open_log, lo)"
| step: "load_reach e lo s \<Longrightarrow> load_run e s t \<Longrightarrow> load_reach e lo t"

subsection \<open>What the handlers keep\<close>

lemma conf_sync_keeps:
  assumes "ntrack_conf_sync env jiffies vm mem str cs = Inr (r, cs', h)"
  shows "conf_nl_sock cs' = conf_nl_sock cs"
  using assms unfolding ntrack_conf_sync_def ntrack_conf_free_def Let_def
  by (auto simp: bindR_eq_Inr split: if_splits option.splits)

lemma nl_recv_keeps:
  assumes "nl_recv en env jiffies kz vm mem skb cs = Inr cs'"
  shows "conf_nl_sock cs' = conf_nl_sock cs"
  using assms unfolding nl_recv_def Let_def
  by (auto simp: bindR_eq_Inr dest!: conf_sync_keeps split: if_splits)

lemma set_cpu_wq [simp]: "nmsg_wq (set_cpu st i q) = nmsg_wq st"
  by (simp add: set_cpu_def)

lemma work_keeps: "nmsg_wq_dequeue_func cpu m = Inr m' \<Longrightarrow> nmsg_wq m' = nmsg_wq m"
  by (auto simp: nmsg_wq_dequeue_func_def bindR_eq_Inr)

lemma enqueue_keeps: "nmsg_enqueue en nr node h b key m = Inr (r, m') \<Longrightarrow> nmsg_wq m' = nmsg_wq m"
  by (auto simp: nmsg_enqueue_def Let_def bindR_eq_Inr split: if_splits option.splits)

lemma report_keeps: "report_online env al j i ui st = Inr (v, st') \<Longrightarrow> nmsg_wq (st_msg st') = nmsg_wq (st_msg st)"
  by (auto simp: report_online_def report_due_def Let_def bindR_eq_Inr set_user_def dest!: enqueue_keeps split: if_splits)

lemma decide_msg: "hook_decide env al conn skb d o' st = Inr (Some (i, ui, st')) \<Longrightarrow> st_msg st' = st_msg st"
  by (auto simp: hook_decide_def Let_def bindR_eq_Inr set_user_def split: if_splits option.splits)

lemma hook_keeps: "ntrack_hook_fw env al j conn skb d o' st = Inr (v, st') \<Longrightarrow> nmsg_wq (st_msg st') = nmsg_wq (st_msg st)"
  by (auto simp: ntrack_hook_fw_def bindR_eq_Inr dest!: report_keeps decide_msg split: option.splits)

lemma cleanup_done: "nmsg_cleanup m = Inr m' \<Longrightarrow> nmsg_wq m' \<noteq> Wq_live"
  by (auto simp: nmsg_cleanup_def bindR_eq_Inr split: wq_ptr.splits)

subsection \<open>The log is open\<close>

definition log_open :: "loading \<Rightarrow> bool" where
  "log_open lo \<longleftrightarrow> (\<exists>fd i. lo_fd lo = Some fd \<and> kl_heap (lo_klog lo) fd = Some i \<and> it_magic i = KLOG_ITEM_MAGIC
     \<and> it_verbose i = push_bit 16 (ucast (0 :: u16)) OR ucast (0x0e :: u16))"

text \<open>An open log prints the lines of its kinds and stays as it is.\<close>

lemma log_lines_open:
  assumes "log_open lo" "\<forall>c \<in> set cs. nt_ok c" "length (le_msgbuf e) = 120"
  shows "log_lines e cs lo = Inr (lo\<lparr>lo_out := lo_out lo @ concat (map nt_prints (filter let_through cs))\<rparr>)"
proof -
  obtain fd i where i: "lo_fd lo = Some fd" "kl_heap (lo_klog lo) fd = Some i"
    "it_verbose i = push_bit 16 (ucast (0 :: u16)) OR ucast (0x0e :: u16)"
    using assms(1) by (auto simp: log_open_def)
  obtain ks where ks: "map to_klog cs = map Inr ks" "\<forall>k \<in> set ks. call_ok k"
    "concat (map prints (filter (\<lambda>k. bit (0x0e :: u16) (kind_of k)) ks)) = concat (map nt_prints (filter let_through cs))"
    by (rule nt_ok_klog [OF assms(2)])
  have "nt_calls (le_msgbuf e) (le_rl e) fd cs (lo_klog lo)
      = Inr (concat (map nt_prints (filter let_through cs)), lo_klog lo)"
    using nt_calls_klog [OF ks(1)] log_calls_item [OF i(2,3) ks(2) assms(3)] ks(3) by simp
  then show ?thesis using i(1) by (simp add: log_lines_def)
qed

text \<open>Whatever is printed, an open log is not changed by printing.\<close>

lemma check_open:
  assumes "kl_heap k fd = Some i" "it_verbose i = push_bit 16 (ucast (0 :: u16)) OR ucast (0x0e :: u16)"
    "klog_verbose_check rl fd n k = Inr (b, k')"
  shows "k' = k"
proof -
  have v: "it_verbose i = 0x0e" using assms(2) by simp
  have "\<forall>m \<in> set [0..<32]. bit (0x0e :: u32) m \<longrightarrow> \<not> bit (0x0e :: u32) (m + 16)" by code_simp
  then have "bit (0x0e :: u32) n \<longrightarrow> \<not> bit (0x0e :: u32) (n + 16)"
    using bit_imp_le_length [of "0x0e :: u32" n] by (cases "n < 32") auto
  then show ?thesis using assms(1,3) unfolding klog_verbose_check_def item_at_Some [OF assms(1)] bindR_simps v
    by (simp add: verbose_value_bit limit_value_bit split: if_splits)
qed

lemma nt_do_open:
  assumes "kl_heap k fd = Some i" "it_verbose i = push_bit 16 (ucast (0 :: u16)) OR ucast (0x0e :: u16)"
    "nt_do msgbuf rl fd c k = Inr (out, k')"
  shows "k' = k"
  using assms(3) check_open [OF assms(1,2)]
  by (cases c) (auto simp: kernel_macro_defs macro_defs check_defs bindR_eq_Inr split: sum.splits if_splits)

lemma nt_calls_open:
  assumes "kl_heap k fd = Some i" "it_verbose i = push_bit 16 (ucast (0 :: u16)) OR ucast (0x0e :: u16)"
    "nt_calls msgbuf rl fd cs k = Inr (out, k')"
  shows "k' = k"
  using assms(3)
proof (induction cs arbitrary: out)
  case (Cons c cs)
  then show ?case by (auto simp: bindR_eq_Inr dest!: nt_do_open [OF assms(1,2)])
qed simp

lemma log_lines_keeps:
  assumes "log_lines e cs lo = Inr lo'" "log_open lo"
  shows "lo_mod lo' = lo_mod lo" "log_open lo'"
proof -
  have "lo_mod lo' = lo_mod lo \<and> log_open lo'"
  proof (cases "cs = []")
    case False
    obtain fd i where i: "lo_fd lo = Some fd" "kl_heap (lo_klog lo) fd = Some i"
      "it_verbose i = push_bit 16 (ucast (0 :: u16)) OR ucast (0x0e :: u16)"
      using assms(2) by (auto simp: log_open_def)
    then show ?thesis using assms False
      by (auto simp: log_lines_def bindR_eq_Inr log_open_def dest!: nt_calls_open [OF i(2,3)])
  qed (use assms in \<open>simp add: log_lines_def\<close>)
  then show "lo_mod lo' = lo_mod lo" "log_open lo'" by simp_all
qed

subsection \<open>The invariant of loading\<close>

definition log_closed :: "loading \<Rightarrow> bool" where
  "log_closed lo = (case lo_fd lo of None \<Rightarrow> True | Some fd \<Rightarrow> kl_heap (lo_klog lo) fd = None)"

lemma log_closed_None [simp]: "lo_fd lo = None \<Longrightarrow> log_closed lo"
  by (simp add: log_closed_def)

definition sock_open :: "loading \<Rightarrow> bool" where
  "sock_open lo \<longleftrightarrow> conf_nl_sock (md_conf (lo_mod lo)) = Nl_live"

definition queue_open :: "loading \<Rightarrow> bool" where
  "queue_open lo \<longleftrightarrow> nmsg_wq (md_msg (lo_mod lo)) = Wq_live"

definition hooks_on :: "loading \<Rightarrow> bool" where
  "hooks_on lo \<longleftrightarrow> md_hooks (lo_mod lo)"

fun load_inv :: "load_pc \<Rightarrow> loading \<Rightarrow> bool" where
  "load_inv Open_log lo \<longleftrightarrow> \<not> sock_open lo \<and> \<not> queue_open lo \<and> \<not> hooks_on lo"
| "load_inv Conf_init lo \<longleftrightarrow> log_open lo \<and> \<not> queue_open lo \<and> \<not> hooks_on lo"
| "load_inv Msg_init lo \<longleftrightarrow> log_open lo \<and> \<not> queue_open lo \<and> \<not> hooks_on lo"
| "load_inv Register lo \<longleftrightarrow> log_open lo \<and> \<not> hooks_on lo"
| "load_inv (Err_msg ret) lo \<longleftrightarrow> log_open lo \<and> \<not> hooks_on lo"
| "load_inv (Err_log ret) lo \<longleftrightarrow> log_open lo \<and> \<not> queue_open lo \<and> \<not> hooks_on lo"
| "load_inv (Err_conf ret) lo \<longleftrightarrow> log_closed lo \<and> \<not> queue_open lo \<and> \<not> hooks_on lo"
| "load_inv (Failed ret) lo \<longleftrightarrow> log_closed lo \<and> \<not> sock_open lo \<and> \<not> queue_open lo \<and> \<not> hooks_on lo"
| "load_inv Exit_msg lo \<longleftrightarrow> log_open lo \<and> \<not> hooks_on lo"
| "load_inv Exit_conf lo \<longleftrightarrow> log_open lo \<and> \<not> queue_open lo \<and> \<not> hooks_on lo"
| "load_inv Exit_log lo \<longleftrightarrow> log_open lo \<and> \<not> sock_open lo \<and> \<not> queue_open lo \<and> \<not> hooks_on lo"
| "load_inv Unloaded lo \<longleftrightarrow> log_closed lo \<and> \<not> sock_open lo \<and> \<not> queue_open lo \<and> \<not> hooks_on lo"
| "load_inv _ lo \<longleftrightarrow> log_open lo"

text \<open>What the thread's updates and a printed line do to the four resources.\<close>

lemma resources_set [simp]:
  "log_open (set_conf c lo) = log_open lo" "queue_open (set_conf c lo) = queue_open lo" "hooks_on (set_conf c lo) = hooks_on lo"
  "log_open (set_msg m lo) = log_open lo" "sock_open (set_msg m lo) = sock_open lo" "hooks_on (set_msg m lo) = hooks_on lo"
  "sock_open (set_conf c lo) = (conf_nl_sock c = Nl_live)" "queue_open (set_msg m lo) = (nmsg_wq m = Wq_live)"
  "log_closed (set_conf c lo) = log_closed lo" "log_closed (set_msg m lo) = log_closed lo"
  by (simp_all add: log_open_def log_closed_def sock_open_def queue_open_def hooks_on_def set_conf_def set_msg_def split: option.split)

lemma resources_mod [simp]:
  "log_open (lo\<lparr>lo_mod := d\<rparr>) = log_open lo" "hooks_on (lo\<lparr>lo_mod := d\<rparr>) = md_hooks d"
  by (simp_all add: log_open_def hooks_on_def)

definition same_resources :: "loading \<Rightarrow> loading \<Rightarrow> bool" where
  "same_resources lo lo' \<longleftrightarrow> (log_open lo \<longrightarrow> log_open lo') \<and> (log_closed lo \<longrightarrow> log_closed lo') \<and> sock_open lo' = sock_open lo
     \<and> queue_open lo' = queue_open lo \<and> hooks_on lo' = hooks_on lo"

lemma same_resources_refl [simp]: "same_resources lo lo"
  by (simp add: same_resources_def)

lemma same_resources_trans: "same_resources lo lo1 \<Longrightarrow> same_resources lo1 lo2 \<Longrightarrow> same_resources lo lo2"
  by (auto simp: same_resources_def)

text \<open>A line for a log that has been freed is a use of freed memory.\<close>

lemma nt_do_freed: "kl_heap k fd = None \<Longrightarrow> nt_do msgbuf rl fd c k = Inl Use_after_free"
  by (cases c) (auto simp: kernel_macro_defs macro_defs check_defs klog_verbose_check_def item_at_def split: sum.split)

lemma log_lines_closed:
  assumes "log_closed lo" "log_lines e cs lo = Inr lo'" shows "lo' = lo"
  using assms by (cases cs) (auto simp: log_lines_def log_closed_def nt_do_freed split: option.splits)

lemma log_lines_resources:
  assumes "log_lines e cs lo = Inr lo'" shows "same_resources lo lo'"
proof -
  have "lo_mod lo' = lo_mod lo" using assms by (auto simp: log_lines_def bindR_eq_Inr split: if_splits option.splits)
  then have "sock_open lo' = sock_open lo" "queue_open lo' = queue_open lo" "hooks_on lo' = hooks_on lo"
    by (simp_all add: sock_open_def queue_open_def hooks_on_def)
  moreover have "log_open lo \<Longrightarrow> log_open lo'" by (rule log_lines_keeps(2) [OF assms])
  moreover have "log_closed lo \<Longrightarrow> log_closed lo'" using log_lines_closed [OF _ assms] by simp
  ultimately show ?thesis by (simp add: same_resources_def)
qed

lemma set_same_resources:
  "conf_nl_sock c = conf_nl_sock (md_conf (lo_mod lo)) \<Longrightarrow> same_resources lo (set_conf c lo)"
  "nmsg_wq m = nmsg_wq (md_msg (lo_mod lo)) \<Longrightarrow> same_resources lo (set_msg m lo)"
  by (simp_all add: same_resources_def sock_open_def [of lo] queue_open_def [of lo])

lemma conf_exit_closes: "ntrack_conf_exit c = Inr c' \<Longrightarrow> conf_nl_sock c' \<noteq> Nl_live"
  by (auto simp: ntrack_conf_exit_def split: nl_ptr.splits)

lemma fini_log_resources:
  assumes "fini_log lo = Inr lo'"
  shows "sock_open lo' = sock_open lo" "queue_open lo' = queue_open lo" "hooks_on lo' = hooks_on lo"
    "log_open lo \<Longrightarrow> log_closed lo'"
  using assms by (auto simp: fini_log_def klog_fini_def item_at_def log_open_def log_closed_def sock_open_def queue_open_def
      hooks_on_def bindR_eq_Inr split: option.splits if_splits)

text \<open>Every statement of the thread and every handler keeps the invariant.\<close>

lemma load_step_inv: "load_step e pc lo = Inr (pc', lo') \<Longrightarrow> load_inv pc lo \<Longrightarrow> load_inv pc' lo'"
proof (cases pc)
  case Open_log
  assume "load_step e pc lo = Inr (pc', lo')" "load_inv pc lo"
  then show ?thesis using Open_log
    by (cases "le_mem e") (auto simp: klog_init_def Let_def log_open_def log_closed_def set_item_verbose_def sock_open_def queue_open_def hooks_on_def)
next
  case Conf_init
  assume "load_step e pc lo = Inr (pc', lo')" "load_inv pc lo"
  then show ?thesis using Conf_init by (auto simp: bindR_eq_Inr split_def Let_def simp: same_resources_def dest!: log_lines_resources)
next
  case Msg_init
  assume "load_step e pc lo = Inr (pc', lo')" "load_inv pc lo"
  then show ?thesis using Msg_init by (auto simp: bindR_eq_Inr split_def Let_def simp: same_resources_def dest!: log_lines_resources)
qed (auto simp: bindR_eq_Inr same_resources_def split: if_splits
    dest!: log_lines_resources dest: cleanup_done conf_exit_closes fini_log_resources)

lemma same_resources_inv: "load_inv pc lo \<Longrightarrow> same_resources lo lo' \<Longrightarrow> load_inv pc lo'"
  by (cases pc) (auto simp: same_resources_def)

lemma nl_recv_logged_resources:
  assumes "nl_recv_logged e en env jiffies kz vm mem skb cs lo = Inr lo'"
  shows "same_resources lo lo'"
proof (cases "lo' = lo")
  case False
  then obtain lo1 c cs1 cs2 where "(if kz then log_lines e cs1 lo else Inr lo) = Inr lo1"
    "nl_recv en env jiffies kz vm mem skb (md_conf (lo_mod lo1)) = Inr c" "log_lines e cs2 (set_conf c lo1) = Inr lo'"
    using assms by (auto simp: nl_recv_logged_def bindR_eq_Inr split: if_splits)
  then have "same_resources lo lo1" "same_resources lo1 (set_conf c lo1)" "same_resources (set_conf c lo1) lo'"
    by (auto dest: log_lines_resources nl_recv_keeps intro: set_same_resources split: if_splits)
  then show ?thesis using same_resources_trans by blast
qed simp

lemma hook_logged_resources:
  assumes "hook_logged e henv al jiffies conn p in_dev out_dev us tx cs lo = Inr lo'"
  shows "same_resources lo lo'"
proof -
  obtain v st where "ntrack_hook_fw henv al jiffies conn p in_dev out_dev
       \<lparr>st_users = us, st_conf = md_conf (lo_mod lo), st_msg = md_msg (lo_mod lo), st_xmit = tx\<rparr> = Inr (v, st)"
    and l: "log_lines e cs (set_msg (st_msg st) lo) = Inr lo'"
    using assms by (auto simp: hook_logged_def bindR_eq_Inr)
  then have "same_resources lo (set_msg (st_msg st) lo)" by (intro set_same_resources) (auto dest: hook_keeps)
  then show ?thesis using log_lines_resources [OF l] same_resources_trans by blast
qed

lemma work_logged_resources:
  assumes "work_logged e cpu cs lo = Inr lo'" shows "same_resources lo lo'"
proof -
  obtain m where m: "nmsg_wq_dequeue_func cpu (md_msg (lo_mod lo)) = Inr m" and l: "log_lines e cs (set_msg m lo) = Inr lo'"
    using assms by (auto simp: work_logged_def bindR_eq_Inr)
  have "same_resources lo (set_msg m lo)" by (rule set_same_resources) (rule work_keeps [OF m])
  then show ?thesis using log_lines_resources [OF l] same_resources_trans by blast
qed

text \<open>While a handler is registered the log is open, except between the two last statements of the error path.\<close>

lemma handler_finds_log:
  assumes "load_inv pc lo" "sock_open lo \<or> queue_open lo \<or> hooks_on lo" "\<forall>ret. pc \<noteq> Err_conf ret"
  shows "log_open lo"
  using assms by (cases pc) auto

lemma load_run_inv: "load_run e s t \<Longrightarrow> load_inv (fst s) (snd s) \<Longrightarrow> load_inv (fst t) (snd t)"
  by (induction rule: load_run.induct)
    (auto intro: load_step_inv same_resources_inv nl_recv_logged_resources hook_logged_resources work_logged_resources)

lemma load_reach_inv:
  assumes "load_reach e lo s" "load_inv Open_log lo" shows "load_inv (fst s) (snd s)"
  using assms by (induction rule: load_reach.induct) (auto intro: load_run_inv simp del: load_inv.simps)

subsection \<open>The thread alone\<close>

fun at_rest :: "load_pc \<Rightarrow> bool" where
  "at_rest Loaded = True"
| "at_rest (Failed ret) = True"
| "at_rest Unloaded = True"
| "at_rest _ = False"

fun statements_left :: "load_pc \<Rightarrow> nat" where
  "statements_left Open_log = 8"
| "statements_left Conf_init = 7"
| "statements_left Msg_init = 6"
| "statements_left Register = 5"
| "statements_left Set_match = 4"
| "statements_left (Err_msg ret) = 3"
| "statements_left (Err_log ret) = 2"
| "statements_left (Err_conf ret) = 1"
| "statements_left Exit_match = 5"
| "statements_left Exit_hooks = 4"
| "statements_left Exit_msg = 3"
| "statements_left Exit_conf = 2"
| "statements_left Exit_log = 1"
| "statements_left _ = 0"

lemma load_step_left:
  assumes "load_step e pc lo = Inr (pc', lo')" "\<not> at_rest pc" shows "statements_left pc' < statements_left pc"
  using assms by (cases pc) (auto simp: bindR_eq_Inr Let_def split_def split: if_splits)

function run_thread :: "load_env \<Rightarrow> load_pc \<Rightarrow> loading \<Rightarrow> (load_pc \<times> loading) result" where
  "run_thread e pc lo = (if at_rest pc then Inr (pc, lo) else case load_step e pc lo of
      Inl f \<Rightarrow> Inl f
    | Inr (pc', lo') \<Rightarrow> run_thread e pc' lo')"
  by pat_completeness auto
termination
  by (relation "measure (\<lambda>(e, pc, lo). statements_left pc)") (auto dest: load_step_left)

declare run_thread.simps [simp del]

definition ntrack_modules_init_logged :: "load_env \<Rightarrow> loading \<Rightarrow> (load_pc \<times> loading) result" where
  "ntrack_modules_init_logged e lo = run_thread e Open_log lo"

definition ntrack_modules_exit_logged :: "load_env \<Rightarrow> loading \<Rightarrow> (load_pc \<times> loading) result" where
  "ntrack_modules_exit_logged e lo = bindR (load_step e Loaded lo) (\<lambda>(pc, lo'). run_thread e pc lo')"

text \<open>The module of \<open>NtrackHooks\<close> that a state stands for.\<close>

definition log_abs :: "loading \<Rightarrow> mod_state" where
  "log_abs lo = (lo_mod lo)\<lparr>md_klog := (case lo_fd lo of None \<Rightarrow> Kl_null
     | Some fd \<Rightarrow> if kl_heap (lo_klog lo) fd = None then Kl_freed else Kl_live)\<rparr>"

text \<open>A thread that runs gives the outcome of a function on modules: the same fault, or the result that stands for its module.\<close>

definition runs_as :: "(load_pc \<times> loading) result \<Rightarrow> (load_pc \<times> mod_state) result \<Rightarrow> bool" where
  "runs_as r f = (case f of Inl x \<Rightarrow> r = Inl x | Inr (pc, md) \<Rightarrow> (\<exists>lo. r = Inr (pc, lo) \<and> log_abs lo = md))"

lemma runs_as_simps [simp]:
  "runs_as (Inl f) (Inl g) \<longleftrightarrow> f = g" "runs_as (Inr (pc, lo)) (Inr (pc', md)) \<longleftrightarrow> pc = pc' \<and> log_abs lo = md"
  by (auto simp: runs_as_def)

lemma log_abs_simps [simp]:
  "log_abs (lo\<lparr>lo_out := x\<rparr>) = log_abs lo"
  "log_abs (set_conf c lo) = (log_abs lo)\<lparr>md_conf := c\<rparr>" "log_abs (set_msg m lo) = (log_abs lo)\<lparr>md_msg := m\<rparr>"
  "md_conf (log_abs lo) = md_conf (lo_mod lo)" "md_msg (log_abs lo) = md_msg (lo_mod lo)"
  by (simp_all add: log_abs_def set_conf_def set_msg_def split: option.split)

lemma log_open_out [simp]: "log_open (lo\<lparr>lo_out := x\<rparr>) = log_open lo"
  by (simp add: log_open_def)

lemma md_klog_abs: "log_open lo \<Longrightarrow> md_klog (log_abs lo) = Kl_live"
  by (auto simp: log_open_def log_abs_def)

lemma fini_log_abs:
  assumes "log_open lo"
  obtains k where "fini_log lo = Inr (lo\<lparr>lo_klog := k\<rparr>)" "log_abs (lo\<lparr>lo_klog := k\<rparr>) = (log_abs lo)\<lparr>md_klog := Kl_freed\<rparr>"
proof -
  obtain fd i where i: "lo_fd lo = Some fd" "kl_heap (lo_klog lo) fd = Some i" "it_magic i = KLOG_ITEM_MAGIC"
    using assms by (auto simp: log_open_def)
  let ?k = "(lo_klog lo)\<lparr>g_klog_list := remove1 fd (g_klog_list (lo_klog lo)), kl_heap := (kl_heap (lo_klog lo))(fd := None)\<rparr>"
  have "fini_log lo = Inr (lo\<lparr>lo_klog := ?k\<rparr>)" using i by (simp add: fini_log_def klog_fini_def item_at_def)
  moreover have "log_abs (lo\<lparr>lo_klog := ?k\<rparr>) = (log_abs lo)\<lparr>md_klog := Kl_freed\<rparr>" using i(1) by (simp add: log_abs_def)
  ultimately show thesis by (rule that)
qed

text \<open>The lines of the two functions, and those of the functions they call, have arguments of the right types.\<close>

definition env_ok :: "load_env \<Rightarrow> bool" where
  "env_ok e \<longleftrightarrow> length (le_msgbuf e) = 120 \<and> (\<forall>pc. \<forall>c \<in> set (le_calls e pc). nt_ok c)"

lemma thread_lines_ok:
  "nt_ok (init_info 169 ''init netlink conf io.'')" "nt_ok (init_info 175 ''ntrack cap init.'')"
  "nt_ok (init_info 181 ''init nf hooks.'')" "nt_ok (Nt_info (''ntrack_modules_exit'', 202) (''module cleanup.'' @ newline) [])"
  by code_simp+

lemma thread_line:
  assumes "env_ok e" "log_open lo" "nt_ok c"
  obtains out where "log_lines e [c] lo = Inr (lo\<lparr>lo_out := out\<rparr>)"
  using log_lines_open [OF assms(2), of "[c]" e] assms(1,3) that by (simp add: env_ok_def)

lemma called_lines:
  assumes "env_ok e" "log_open lo"
  obtains out where "log_lines e (le_calls e pc) lo = Inr (lo\<lparr>lo_out := out\<rparr>)"
  using log_lines_open [OF assms(2), of "le_calls e pc" e] assms(1) that by (simp add: env_ok_def)

lemma run_step:
  "\<not> at_rest pc \<Longrightarrow> run_thread e pc lo = bindR (load_step e pc lo) (\<lambda>(pc', lo'). run_thread e pc' lo')"
  "at_rest pc \<Longrightarrow> run_thread e pc lo = Inr (pc, lo)"
  by (subst run_thread.simps, simp add: bindR_def split: sum.split)+

lemma run_conf_exit:
  "runs_as (run_thread e (Err_conf ret) lo)
    (bindR (ntrack_conf_exit (md_conf (log_abs lo))) (\<lambda>c. Inr (Failed ret, (log_abs lo)\<lparr>md_conf := c\<rparr>)))"
  by (cases "ntrack_conf_exit (md_conf (lo_mod lo))") (simp_all add: run_step)

lemma err_run:
  assumes "env_ok e" "log_open lo"
  shows "runs_as (run_thread e (Err_msg ret) lo) (bindR (modules_err (log_abs lo)) (\<lambda>md. Inr (Failed ret, md)))"
proof (cases "nmsg_cleanup (md_msg (lo_mod lo))")
  case (Inl f)
  then show ?thesis by (simp add: run_step modules_err_def)
next
  case (Inr m)
  obtain out where l: "log_lines e (le_calls e (Err_msg ret)) (set_msg m lo) = Inr ((set_msg m lo)\<lparr>lo_out := out\<rparr>)"
    using called_lines [OF assms(1), of "set_msg m lo"] assms(2) by auto
  let ?lo = "(set_msg m lo)\<lparr>lo_out := out\<rparr>"
  have op: "log_open ?lo" using assms(2) by simp
  obtain k where k: "fini_log ?lo = Inr (?lo\<lparr>lo_klog := k\<rparr>)"
    "log_abs (?lo\<lparr>lo_klog := k\<rparr>) = (log_abs ?lo)\<lparr>md_klog := Kl_freed\<rparr>" by (rule fini_log_abs [OF op])
  have fd: "lo_fd ?lo \<noteq> None" using op by (auto simp: log_open_def)
  have "runs_as (run_thread e (Err_conf ret) (?lo\<lparr>lo_klog := k\<rparr>))
      (bindR (ntrack_conf_exit (md_conf (log_abs (?lo\<lparr>lo_klog := k\<rparr>)))) (\<lambda>c. Inr (Failed ret, (log_abs (?lo\<lparr>lo_klog := k\<rparr>))\<lparr>md_conf := c\<rparr>)))"
    by (rule run_conf_exit)
  then show ?thesis
    using Inr l k fd md_klog_abs [OF op] assms(2) md_klog_abs [of lo]
    by (simp add: run_step modules_err_def klog_fini_ptr_def bindR_assoc Let_def)
qed

lemma register_run:
  assumes "env_ok e" "log_open lo"
  shows "runs_as (run_thread e Register lo)
    (if le_hooks e \<noteq> 0 then bindR (modules_err (log_abs lo)) (\<lambda>md. Inr (Failed (le_hooks e), md))
     else Inr (Loaded, (log_abs lo)\<lparr>md_hooks := True, md_match_fn := True\<rparr>))"
proof -
  obtain out where l: "log_lines e [init_info 181 ''init nf hooks.''] lo = Inr (lo\<lparr>lo_out := out\<rparr>)"
    by (rule thread_line [OF assms thread_lines_ok(3)])
  have "log_abs (lo\<lparr>lo_out := out, lo_mod := (lo_mod lo)\<lparr>md_hooks := True, md_match_fn := True\<rparr>\<rparr>)
      = (log_abs lo)\<lparr>md_hooks := True, md_match_fn := True\<rparr>" by (simp add: log_abs_def split: option.split)
  then show ?thesis using l err_run [OF assms(1), of "lo\<lparr>lo_out := out\<rparr>" "le_hooks e"] assms(2)
    by (simp add: run_step)
qed

lemma msg_init_run:
  assumes "env_ok e" "log_open lo"
  shows "runs_as (run_thread e Msg_init lo)
    (bindR (nmsg_init (le_nr e) (le_base e) (le_size e) (le_wq e) (md_msg (log_abs lo))) (\<lambda>(ret, m).
       if ret \<noteq> 0 then bindR (modules_err ((log_abs lo)\<lparr>md_msg := m\<rparr>)) (\<lambda>md. Inr (Failed ret, md))
       else if le_hooks e \<noteq> 0 then bindR (modules_err ((log_abs lo)\<lparr>md_msg := m\<rparr>)) (\<lambda>md. Inr (Failed (le_hooks e), md))
       else Inr (Loaded, (log_abs lo)\<lparr>md_msg := m, md_hooks := True, md_match_fn := True\<rparr>)))"
proof -
  obtain out where l: "log_lines e [init_info 175 ''ntrack cap init.''] lo = Inr (lo\<lparr>lo_out := out\<rparr>)"
    by (rule thread_line [OF assms thread_lines_ok(2)])
  show ?thesis
  proof (cases "nmsg_init (le_nr e) (le_base e) (le_size e) (le_wq e) (md_msg (lo_mod lo))")
    case (Inl f)
    then show ?thesis using l by (simp add: run_step)
  next
    case (Inr rm)
    obtain ret m where rm: "rm = (ret, m)" by fastforce
    let ?lo = "set_msg m (lo\<lparr>lo_out := out\<rparr>)"
    have op: "log_open ?lo" using assms(2) by simp
    obtain out2 where l2: "log_lines e (le_calls e Msg_init) ?lo = Inr (?lo\<lparr>lo_out := out2\<rparr>)" by (rule called_lines [OF assms(1) op])
    show ?thesis
      using Inr rm l l2 op err_run [OF assms(1), of "?lo\<lparr>lo_out := out2\<rparr>" ret, unfolded log_abs_simps]
        register_run [OF assms(1), of "?lo\<lparr>lo_out := out2\<rparr>", unfolded log_abs_simps]
      by (simp add: run_step(1) [of Msg_init])
  qed
qed

lemma conf_init_run:
  assumes "env_ok e" "log_open lo"
  shows "runs_as (run_thread e Conf_init lo)
    (let (ret, c) = ntrack_conf_init (le_nl e) (md_conf (log_abs lo)); md = (log_abs lo)\<lparr>md_conf := c\<rparr> in
     if ret \<noteq> 0 then bindR (modules_err md) (\<lambda>md. Inr (Failed ret, md))
     else bindR (nmsg_init (le_nr e) (le_base e) (le_size e) (le_wq e) (md_msg md)) (\<lambda>(ret, m).
       if ret \<noteq> 0 then bindR (modules_err (md\<lparr>md_msg := m\<rparr>)) (\<lambda>md. Inr (Failed ret, md))
       else if le_hooks e \<noteq> 0 then bindR (modules_err (md\<lparr>md_msg := m\<rparr>)) (\<lambda>md. Inr (Failed (le_hooks e), md))
       else Inr (Loaded, md\<lparr>md_msg := m, md_hooks := True, md_match_fn := True\<rparr>)))"
proof -
  obtain out where l: "log_lines e [init_info 169 ''init netlink conf io.''] lo = Inr (lo\<lparr>lo_out := out\<rparr>)"
    by (rule thread_line [OF assms thread_lines_ok(1)])
  obtain ret c where c: "ntrack_conf_init (le_nl e) (md_conf (lo_mod lo)) = (ret, c)" by fastforce
  let ?lo = "set_conf c (lo\<lparr>lo_out := out\<rparr>)"
  have op: "log_open ?lo" using assms(2) by simp
  obtain out2 where l2: "log_lines e (le_calls e Conf_init) ?lo = Inr (?lo\<lparr>lo_out := out2\<rparr>)" by (rule called_lines [OF assms(1) op])
  show ?thesis
    using c l l2 op err_run [OF assms(1), of "?lo\<lparr>lo_out := out2\<rparr>" ret, unfolded log_abs_simps]
      msg_init_run [OF assms(1), of "?lo\<lparr>lo_out := out2\<rparr>", unfolded log_abs_simps]
    by (simp add: run_step(1) [of Conf_init] Let_def)
qed

lemma exit_run:
  assumes "env_ok e" "log_open lo"
  shows "runs_as (ntrack_modules_exit_logged e lo) (bindR (ntrack_modules_exit (log_abs lo)) (\<lambda>md. Inr (Unloaded, md)))"
proof -
  obtain out where l: "log_lines e [Nt_info (''ntrack_modules_exit'', 202) (''module cleanup.'' @ newline) []] lo = Inr (lo\<lparr>lo_out := out\<rparr>)"
    by (rule thread_line [OF assms thread_lines_ok(4)])
  let ?md = "(lo_mod lo)\<lparr>md_match_fn := False, md_hooks := False\<rparr>"
  let ?lo = "lo\<lparr>lo_out := out, lo_mod := ?md\<rparr>"
  have start: "ntrack_modules_exit_logged e lo = run_thread e Exit_msg ?lo"
    using l by (simp add: ntrack_modules_exit_logged_def run_step(1) [of Exit_match] run_step(1) [of Exit_hooks])
  show ?thesis
  proof (cases "nmsg_cleanup (md_msg (lo_mod lo))")
    case (Inl f)
    then show ?thesis unfolding start by (simp add: run_step ntrack_modules_exit_def)
  next
    case m: (Inr m)
    have "log_open (set_msg m ?lo)" using assms(2) by (simp add: log_open_def set_msg_def)
    then obtain out2 where l2: "log_lines e (le_calls e Exit_msg) (set_msg m ?lo) = Inr ((set_msg m ?lo)\<lparr>lo_out := out2\<rparr>)"
      by (rule called_lines [OF assms(1)])
    show ?thesis
    proof (cases "ntrack_conf_exit (md_conf (lo_mod lo))")
      case (Inl f)
      then show ?thesis unfolding start using m l2 by (simp add: run_step ntrack_modules_exit_def set_msg_def)
    next
      case c: (Inr c)
      let ?lo3 = "set_conf c ((set_msg m ?lo)\<lparr>lo_out := out2\<rparr>)"
      have op: "log_open ?lo3" using assms(2) by (simp add: log_open_def set_msg_def set_conf_def)
      obtain k where k: "fini_log ?lo3 = Inr (?lo3\<lparr>lo_klog := k\<rparr>)" "log_abs (?lo3\<lparr>lo_klog := k\<rparr>) = (log_abs ?lo3)\<lparr>md_klog := Kl_freed\<rparr>"
        by (rule fini_log_abs [OF op])
      have "log_abs ?lo3 = (log_abs lo)\<lparr>md_match_fn := False, md_hooks := False, md_msg := m, md_conf := c\<rparr>"
        by (simp add: log_abs_def set_msg_def set_conf_def split: option.split)
      then show ?thesis unfolding start using m l2 c k md_klog_abs [OF assms(2)]
        by (simp add: run_step ntrack_modules_exit_def klog_fini_ptr_def set_msg_def)
    qed
  qed
qed

subsection \<open>The properties\<close>

text \<open>
  C29.  The loading thread on the real log does what the two functions do on the abstract one.
  With well-typed lines, \<open>ntrack_modules_init\<close> run statement by statement ends loaded or failed with
  the result and the module that the function of the abstract model returns, or with its fault;
  and from an open log \<open>ntrack_modules_exit\<close> ends unloaded with the module of that function.
\<close>

theorem modules_logged_refine:
  assumes "env_ok e"
  shows "runs_as (ntrack_modules_init_logged e lo)
      (bindR (ntrack_modules_init (le_mem e \<noteq> None) (le_nl e) (le_nr e) (le_base e) (le_size e) (le_wq e) (le_hooks e) (log_abs lo))
        (\<lambda>(ret, md). Inr (if ret = 0 then Loaded else Failed ret, md)))
    \<and> (log_open lo \<longrightarrow> runs_as (ntrack_modules_exit_logged e lo)
        (bindR (ntrack_modules_exit (log_abs lo)) (\<lambda>md. Inr (Unloaded, md))))"
proof (intro conjI impI)
  show "runs_as (ntrack_modules_init_logged e lo)
      (bindR (ntrack_modules_init (le_mem e \<noteq> None) (le_nl e) (le_nr e) (le_base e) (le_size e) (le_wq e) (le_hooks e) (log_abs lo))
        (\<lambda>(ret, md). Inr (if ret = 0 then Loaded else Failed ret, md)))"
  proof (cases "le_mem e")
    case None
    then show ?thesis
      by (simp add: ntrack_modules_init_logged_def run_step klog_init_def ntrack_modules_init_def log_abs_def)
  next
    case (Some am)
    obtain a fresh where am: "am = (a, fresh)" by fastforce
    obtain k where k: "klog_init (le_HZ e) (le_mem e) (Some ''ntrack'') 0x0e 0 (lo_klog lo) = (Some a, k)"
      using Some am by (simp add: klog_init_def Let_def)
    let ?lo = "lo\<lparr>lo_fd := Some a, lo_klog := k\<rparr>"
    have op: "log_open ?lo" using k Some am by (auto simp: klog_init_def Let_def log_open_def set_item_verbose_def)
    have ab: "log_abs ?lo = (log_abs lo)\<lparr>md_klog := Kl_live\<rparr>" using md_klog_abs [OF op] by (auto simp: log_abs_def)
    have "ntrack_modules_init_logged e lo = run_thread e Conf_init ?lo"
      using k by (simp add: ntrack_modules_init_logged_def run_step(1) [of Open_log])
    then show ?thesis
      using conf_init_run [OF assms op, unfolded ab] Some
      by (auto simp: ntrack_modules_init_def bindR_assoc Let_def split_def if_distrib [of "\<lambda>r. bindR r _"] cong: if_cong)
  qed
  show "runs_as (ntrack_modules_exit_logged e lo) (bindR (ntrack_modules_exit (log_abs lo)) (\<lambda>md. Inr (Unloaded, md)))"
    if "log_open lo" by (rule exit_run [OF assms that])
qed

text \<open>The match function is set in the last statement of loading and reset in the first of unloading.\<close>

definition match_on :: "loading \<Rightarrow> bool" where
  "match_on lo \<longleftrightarrow> md_match_fn (lo_mod lo)"

definition match_inv :: "load_pc \<Rightarrow> loading \<Rightarrow> bool" where
  "match_inv pc lo \<longleftrightarrow> (pc \<noteq> Loaded \<and> pc \<noteq> Exit_match \<longrightarrow> \<not> match_on lo)"

lemma log_lines_mod: "log_lines e cs lo = Inr lo' \<Longrightarrow> lo_mod lo' = lo_mod lo"
  by (auto simp: log_lines_def bindR_eq_Inr split: if_splits option.splits)

lemma fini_log_mod: "fini_log lo = Inr lo' \<Longrightarrow> lo_mod lo' = lo_mod lo"
  by (auto simp: fini_log_def bindR_eq_Inr split: option.splits)

lemma load_step_match:
  assumes "load_step e pc lo = Inr (pc', lo')" "match_inv pc lo"
  shows "match_inv pc' lo'"
  using assms by (cases pc) (auto simp: match_inv_def match_on_def bindR_eq_Inr split_def Let_def set_conf_def set_msg_def
      dest!: log_lines_mod fini_log_mod split: if_splits)

lemma load_run_match: "load_run e s t \<Longrightarrow> match_inv (fst s) (snd s) \<Longrightarrow> match_inv (fst t) (snd t)"
proof (induction rule: load_run.induct)
  case (thread pc lo pc' lo')
  then show ?case using load_step_match by simp
next
  case (netlink lo en env jiffies kz vm mem skb cs lo' pc)
  then have "match_on lo' = match_on lo"
    by (auto simp: nl_recv_logged_def match_on_def set_conf_def bindR_eq_Inr dest!: log_lines_mod split: if_splits)
  then show ?case using netlink by (simp add: match_inv_def)
next
  case (packet lo henv al jiffies conn p in_dev out_dev us tx cs lo' pc)
  then have "match_on lo' = match_on lo" by (auto simp: hook_logged_def match_on_def set_msg_def bindR_eq_Inr dest!: log_lines_mod)
  then show ?case using packet by (simp add: match_inv_def)
next
  case (work lo cpu q cs lo' pc)
  then have "match_on lo' = match_on lo" by (auto simp: work_logged_def match_on_def set_msg_def bindR_eq_Inr dest!: log_lines_mod)
  then show ?case using work by (simp add: match_inv_def)
qed

lemma load_reach_match:
  assumes "load_reach e lo s" "\<not> match_on lo" shows "match_inv (fst s) (snd s)"
  using assms
proof (induction rule: load_reach.induct)
  case start
  then show ?case by (simp add: match_inv_def)
next
  case (step s t)
  then show ?case using load_run_match by blast
qed

text \<open>No statement of the thread gives the rule table back.\<close>

lemma load_step_table:
  assumes "load_step e pc lo = Inr (pc', lo')"
  shows "G_AuthConf (md_conf (lo_mod lo')) = G_AuthConf (md_conf (lo_mod lo))"
  using assms by (cases pc) (auto simp: bindR_eq_Inr split_def Let_def set_conf_def set_msg_def ntrack_conf_init_def ntrack_conf_exit_def
      dest!: log_lines_mod fini_log_mod split: if_splits nl_ptr.splits)

text \<open>
  C15.  The handlers find the log.  In every interleaving of the loading or unloading thread with
  netlink messages, packets and work items that starts with nothing registered: wherever the thread
  is, except between the two last statements of its error path, while any handler is registered
  every run of well-typed log calls prints its information, warnings and errors, complete and in
  order, and faults nowhere; and when the thread has failed or the module is unloaded, the socket,
  the work queue, the hooks, the match function and the log item are released.  The rule table
  is not: no statement of the thread frees it.
\<close>

theorem module_log_safe:
  assumes "load_reach e lo0 (pc, lo)" "\<not> sock_open lo0" "\<not> queue_open lo0" "\<not> hooks_on lo0" "\<not> match_on lo0" "length (le_msgbuf e) = 120"
  shows "((\<forall>ret. pc \<noteq> Err_conf ret) \<and> (sock_open lo \<or> queue_open lo \<or> hooks_on lo) \<and> (\<forall>c \<in> set cs. nt_ok c)
      \<longrightarrow> log_lines e cs lo = Inr (lo\<lparr>lo_out := lo_out lo @ concat (map nt_prints (filter let_through cs))\<rparr>))
    \<and> (pc = Unloaded \<or> (\<exists>ret. pc = Failed ret)
      \<longrightarrow> log_closed lo \<and> \<not> sock_open lo \<and> \<not> queue_open lo \<and> \<not> hooks_on lo \<and> \<not> match_on lo)
    \<and> (\<forall>pc' lo'. load_step e pc lo = Inr (pc', lo') \<longrightarrow> G_AuthConf (md_conf (lo_mod lo')) = G_AuthConf (md_conf (lo_mod lo)))"
proof -
  have i: "load_inv pc lo" using load_reach_inv [OF assms(1)] assms(2-4) by simp
  have "match_inv pc lo" using load_reach_match [OF assms(1,5)] by simp
  with i have "pc = Unloaded \<or> (\<exists>ret. pc = Failed ret)
      \<longrightarrow> log_closed lo \<and> \<not> sock_open lo \<and> \<not> queue_open lo \<and> \<not> hooks_on lo \<and> \<not> match_on lo" by (auto simp: match_inv_def)
  then show ?thesis using i handler_finds_log log_lines_open [of lo cs e] assms(6) load_step_table by blast
qed

subsection \<open>The error path\<close>

lemma reach_thread: "load_reach e lo0 (pc, lo) \<Longrightarrow> load_step e pc lo = Inr (pc', lo') \<Longrightarrow> load_reach e lo0 (pc', lo')"
  by (rule load_reach.step [OF _ load_run.thread])

text \<open>The thread gets to the registration of the hooks.\<close>

lemma reaches_register:
  assumes "env_ok e" "le_mem e = Some (a, fresh)" "le_nl e" "nmsg_init (le_nr e) (le_base e) (le_size e) (le_wq e) (md_msg (lo_mod lo0)) = Inr (0, m)"
  obtains lo where "load_reach e lo0 (Register, lo)" "log_open lo" "sock_open lo" "md_msg (lo_mod lo) = m"
proof -
  obtain lo1 where r1: "load_reach e lo0 (Conf_init, lo1)" "log_open lo1" "lo_mod lo1 = lo_mod lo0"
  proof
    let ?lo = "lo0\<lparr>lo_fd := Some a, lo_klog := snd (klog_init (le_HZ e) (le_mem e) (Some ''ntrack'') 0x0e 0 (lo_klog lo0))\<rparr>"
    show "load_reach e lo0 (Conf_init, ?lo)"
      by (rule reach_thread [OF load_reach.start]) (simp add: assms(2) klog_init_def Let_def)
    show "log_open ?lo" by (simp add: assms(2) klog_init_def Let_def log_open_def set_item_verbose_def)
  qed simp
  obtain out where l1: "log_lines e [init_info 169 ''init netlink conf io.''] lo1 = Inr (lo1\<lparr>lo_out := out\<rparr>)"
    by (rule thread_line [OF assms(1) r1(2) thread_lines_ok(1)])
  let ?lo1 = "set_conf ((md_conf (lo_mod lo0))\<lparr>conf_nl_sock := Nl_live\<rparr>) (lo1\<lparr>lo_out := out\<rparr>)"
  obtain out2 where l2: "log_lines e (le_calls e Conf_init) ?lo1 = Inr (?lo1\<lparr>lo_out := out2\<rparr>)"
    using called_lines [OF assms(1), of ?lo1] r1(2) by auto
  let ?lo2 = "?lo1\<lparr>lo_out := out2\<rparr>"
  have r2: "load_reach e lo0 (Msg_init, ?lo2)"
    by (rule reach_thread [OF r1(1)]) (simp add: l1 l2 r1(3) ntrack_conf_init_def assms(3))
  have lo2: "log_open ?lo2" "sock_open ?lo2" "md_msg (lo_mod ?lo2) = md_msg (lo_mod lo0)"
    using r1(2,3) by (simp_all add: sock_open_def set_conf_def)
  obtain out3 where l3: "log_lines e [init_info 175 ''ntrack cap init.''] ?lo2 = Inr (?lo2\<lparr>lo_out := out3\<rparr>)"
    by (rule thread_line [OF assms(1) lo2(1) thread_lines_ok(2)])
  let ?lo3 = "set_msg m (?lo2\<lparr>lo_out := out3\<rparr>)"
  obtain out4 where l4: "log_lines e (le_calls e Msg_init) ?lo3 = Inr (?lo3\<lparr>lo_out := out4\<rparr>)"
    using called_lines [OF assms(1), of ?lo3] lo2(1) by auto
  show thesis
  proof
    show "load_reach e lo0 (Register, ?lo3\<lparr>lo_out := out4\<rparr>)"
      by (rule reach_thread [OF r2]) (use l3 l4 lo2(3) assms(4) in simp)
    show "log_open (?lo3\<lparr>lo_out := out4\<rparr>)" using lo2(1) by simp
    show "sock_open (?lo3\<lparr>lo_out := out4\<rparr>)" "md_msg (lo_mod (?lo3\<lparr>lo_out := out4\<rparr>)) = m"
      using r1(3) by (simp_all add: sock_open_def set_conf_def set_msg_def)
  qed
qed

text \<open>From there a failed registration leads to the statement before the socket is closed, with the log freed.\<close>

lemma reaches_window:
  assumes "env_ok e" "le_hooks e \<noteq> 0" "load_reach e lo0 (Register, lo)" "log_open lo" "sock_open lo"
    and "nmsg_cleanup (md_msg (lo_mod lo)) = Inr m"
  obtains lo' where "load_reach e lo0 (Err_conf (le_hooks e), lo')" "log_closed lo'" "sock_open lo'" "lo_fd lo' \<noteq> None"
proof -
  obtain out where l1: "log_lines e [init_info 181 ''init nf hooks.''] lo = Inr (lo\<lparr>lo_out := out\<rparr>)"
    by (rule thread_line [OF assms(1,4) thread_lines_ok(3)])
  have r1: "load_reach e lo0 (Err_msg (le_hooks e), lo\<lparr>lo_out := out\<rparr>)"
    by (rule reach_thread [OF assms(3)]) (simp add: l1 assms(2))
  let ?lo1 = "set_msg m (lo\<lparr>lo_out := out\<rparr>)"
  obtain out2 where l2: "log_lines e (le_calls e (Err_msg (le_hooks e))) ?lo1 = Inr (?lo1\<lparr>lo_out := out2\<rparr>)"
    using called_lines [OF assms(1), of ?lo1] assms(4) by auto
  let ?lo2 = "?lo1\<lparr>lo_out := out2\<rparr>"
  have r2: "load_reach e lo0 (Err_log (le_hooks e), ?lo2)"
    by (rule reach_thread [OF r1]) (simp add: l2 assms(6))
  have op: "log_open ?lo2" using assms(4) by simp
  obtain k where k: "fini_log ?lo2 = Inr (?lo2\<lparr>lo_klog := k\<rparr>)" by (rule fini_log_abs [OF op])
  have fd: "lo_fd ?lo2 \<noteq> None" using op by (auto simp: log_open_def)
  show thesis
  proof
    show "load_reach e lo0 (Err_conf (le_hooks e), ?lo2\<lparr>lo_klog := k\<rparr>)"
      by (rule reach_thread [OF r2]) (use k fd in simp)
    show "log_closed (?lo2\<lparr>lo_klog := k\<rparr>)" by (rule fini_log_resources(4) [OF k op])
    show "sock_open (?lo2\<lparr>lo_klog := k\<rparr>)" using assms(5) by (simp add: sock_open_def set_msg_def)
    show "lo_fd (?lo2\<lparr>lo_klog := k\<rparr>) \<noteq> None" using fd by simp
  qed
qed

lemma lines_freed: "log_closed lo \<Longrightarrow> lo_fd lo \<noteq> None \<Longrightarrow> log_lines e (c # cs) lo = Inl Use_after_free"
  by (auto simp: log_lines_def log_closed_def nt_do_freed)

lemma nl_recv_window:
  assumes "log_closed lo" "lo_fd lo \<noteq> None" "NLMSG_HDRLEN \<le> length skb" "NLMSG_OK (unat (dec32 en (window 0 4 skb))) (length skb)"
  shows "nl_recv_logged e en env jiffies True vm mem skb cs lo = Inl Use_after_free"
  using assms(3,4) by (simp add: nl_recv_logged_def field32_def mem_read_def lines_freed [OF assms(1,2)])

text \<open>
  C24.  The window of the error path.  When the module has opened its log, its socket and its queue and
  the registration of the hooks fails, there is a state of the loading thread in which the socket
  still accepts messages and the log is already freed: every well-formed netlink message that
  arrives there makes \<open>nl_recv\<close> print to freed memory.
\<close>

theorem module_log_window:
  assumes "env_ok e" "le_mem e = Some (a, fresh)" "le_nl e" "le_base e" "le_wq e" "le_hooks e \<noteq> 0"
    and "mod_fresh (le_nr e) (lo_mod lo0)" "0 < le_nr e" "RBF_NODE_SIZE * 32 \<le> unat (le_size e) div le_nr e"
    and "unat (le_size e) div le_nr e < 65536 * RBF_NODE_SIZE"
    and "NLMSG_HDRLEN \<le> length skb" "NLMSG_OK (unat (dec32 en (window 0 4 skb))) (length skb)"
  shows "\<exists>lo. load_reach e lo0 (Err_conf (le_hooks e), lo) \<and> sock_open lo
    \<and> nl_recv_logged e en env jiffies True vm mem skb cs lo = Inl Use_after_free"
proof -
  let ?n = "le_nr e" and ?m = "md_msg (lo_mod lo0)"
  obtain sz where run: "nmsg_init ?n True (le_size e) True ?m = Inr (0, ?m\<lparr>nmsg_wq := Wq_live,
      nmsg_cpus := replicate ?n (nmsg_init_cpu sz) @ drop ?n (nmsg_cpus ?m), nt_cap_block_sz := sz\<rparr>)"
    and ok: "nmsg_cpu_ok (nmsg_init_cpu sz)"
    using nmsg_init_runs [of ?n ?m "le_size e"] assms(7-10) by (auto simp: mod_fresh_def)
  define m where "m = ?m\<lparr>nmsg_wq := Wq_live,
      nmsg_cpus := replicate ?n (nmsg_init_cpu sz) @ drop ?n (nmsg_cpus ?m), nt_cap_block_sz := sz\<rparr>"
  have m: "nmsg_ok ?n m" "length (nmsg_cpus m) = ?n"
    using assms(7,8) ok by (simp_all add: m_def nmsg_ok_def mod_fresh_def nth_append)
  obtain m' where m': "nmsg_cleanup m = Inr m'" using nmsg_cleanup_ok [OF m] by blast
  obtain lo where lo: "load_reach e lo0 (Register, lo)" "log_open lo" "sock_open lo" "md_msg (lo_mod lo) = m"
    using reaches_register [OF assms(1-3)] run assms(4,5) m_def by auto
  obtain lo' where lo': "load_reach e lo0 (Err_conf (le_hooks e), lo')" "log_closed lo'" "sock_open lo'" "lo_fd lo' \<noteq> None"
    using reaches_window [OF assms(1,6) lo(1-3)] m' lo(4) by auto
  show ?thesis using lo' nl_recv_window [OF lo'(2,4) assms(11,12)] by blast
qed

subsection \<open>An example\<close>

definition load_demo :: "int \<Rightarrow> load_env" where
  "load_demo r = \<lparr>le_HZ = 250, le_mem = Some (9, demo_item), le_rl = (\<lambda>s. (True, s)), le_msgbuf = replicate 120 CHR ''?'', le_nl = True, le_nr = 2,
     le_base = True, le_size = 131072, le_wq = True, le_hooks = r, le_calls = (\<lambda>_. [])\<rparr>"

definition demo_load :: loading where
  "demo_load = \<lparr>lo_fd = None, lo_klog = demo_klog, lo_mod = demo_mod, lo_out = []\<rparr>"

lemma load_demo_ok: "env_ok (load_demo r)" "le_mem (load_demo r) = Some (9, demo_item)" "le_nl (load_demo r)" "le_base (load_demo r)"
  "le_wq (load_demo r)" "le_hooks (load_demo r) = r" "mod_fresh (le_nr (load_demo r)) (lo_mod demo_load)" "le_nr (load_demo r) = 2"
  "le_size (load_demo r) = 131072" "length (le_msgbuf (load_demo r)) = 120"
  by (simp_all add: env_ok_def load_demo_def demo_load_def mod_fresh_def demo_mod_def demo_cs_def demo_state_def)

lemma demo_message: "NLMSG_OK (unat (dec32 Little (window 0 4 (16 # replicate 15 0)))) (length (16 # replicate 15 (0 :: byte)))"
  by code_simp

theorem module_log_window_witness:
  "\<exists>lo. load_reach (load_demo (- 12)) demo_load (Err_conf (- 12), lo) \<and> sock_open lo
    \<and> nl_recv_logged (load_demo (- 12)) Little demo_env 0 True True 0 (16 # replicate 15 0) [] lo = Inl Use_after_free"
  using module_log_window [OF load_demo_ok(1-5) _ load_demo_ok(7) _ _ _ _ demo_message, of "- 12" demo_env 0 True 0 "[]"]
  by (simp add: load_demo_ok)

definition opened_load :: loading where
  "opened_load = demo_load\<lparr>lo_fd := Some 9, lo_klog := snd (klog_init 250 (Some (9, demo_item)) (Some ''ntrack'') 0x0e 0 demo_klog)\<rparr>"

theorem modules_logged_refine_witness:
  "(\<exists>lo. ntrack_modules_init_logged ((load_demo 0)\<lparr>le_nl := False\<rparr>) demo_load = Inr (Failed (- EINVAL), lo) \<and> mod_released (log_abs lo))
   \<and> (\<exists>lo. ntrack_modules_exit_logged (load_demo 0) opened_load = Inr (Unloaded, lo) \<and> mod_released (log_abs lo))"
proof -
  note demos = demo_load_def demo_mod_def demo_cs_def demo_state_def
  let ?e = "(load_demo 0)\<lparr>le_nl := False\<rparr>"
  have e: "env_ok ?e" using load_demo_ok(1) [of 0] by (simp add: env_ok_def)
  have op: "log_open opened_load" by (simp add: opened_load_def log_open_def klog_init_def Let_def set_item_verbose_def)
  let ?md = "(log_abs demo_load)\<lparr>md_klog := Kl_freed, md_conf := (md_conf (log_abs demo_load))\<lparr>conf_nl_sock := Nl_null\<rparr>\<rparr>"
  have init: "ntrack_modules_init (le_mem ?e \<noteq> None) (le_nl ?e) (le_nr ?e) (le_base ?e) (le_size ?e) (le_wq ?e) (le_hooks ?e) (log_abs demo_load)
      = Inr (- EINVAL, ?md)"
    by (simp add: ntrack_modules_init_def load_demo_def ntrack_conf_init_def modules_err_def nmsg_cleanup_def demos
        klog_fini_ptr_def ntrack_conf_exit_def log_abs_def)
  have exit: "ntrack_modules_exit (log_abs opened_load) = Inr ((log_abs opened_load)\<lparr>md_match_fn := False, md_hooks := False, md_klog := Kl_freed\<rparr>)"
    using md_klog_abs [OF op]
    by (simp add: ntrack_modules_exit_def nmsg_cleanup_def opened_load_def demos klog_fini_ptr_def ntrack_conf_exit_def log_abs_def Let_def)
  have "mod_released ?md" "mod_released ((log_abs opened_load)\<lparr>md_match_fn := False, md_hooks := False, md_klog := Kl_freed\<rparr>)"
    by (simp_all add: mod_released_def opened_load_def demos log_abs_def)
  then show ?thesis
    using modules_logged_refine [OF e, of demo_load] modules_logged_refine [OF load_demo_ok(1), of 0 opened_load] init exit op
    by (auto simp: runs_as_def)
qed

theorem module_log_safe_witness:
  "\<exists>lo. load_reach (load_demo 0) demo_load (Register, lo) \<and> sock_open lo
    \<and> log_lines (load_demo 0) [Nt_info (''nl_recv'', 282) ''pid: %d'' [Word 7]] lo
      = Inr (lo\<lparr>lo_out := lo_out lo @ [Text ''[info] (nl_recv, 282): '', Text ''pid: 7'']\<rparr>)"
proof -
  let ?c = "Nt_info (''nl_recv'', 282) ''pid: %d'' [Word 7]"
  obtain sz where "nmsg_init 2 True 131072 True (md_msg (lo_mod demo_load)) = Inr (0, sz)"
    using nmsg_init_runs [of 2 "md_msg (lo_mod demo_load)" 131072]
    by (auto simp: demo_load_def demo_mod_def demo_state_def)
  then obtain lo where lo: "load_reach (load_demo 0) demo_load (Register, lo)" "sock_open lo"
    using reaches_register [OF load_demo_ok(1-3), of 0 demo_load sz] load_demo_ok(4,5,8,9) [of 0] by auto
  have "nt_ok ?c" "concat (map nt_prints (filter let_through [?c])) = [Text ''[info] (nl_recv, 282): '', Text ''pid: 7'']"
    by code_simp+
  moreover have "\<not> sock_open demo_load" "\<not> queue_open demo_load" "\<not> hooks_on demo_load" "\<not> match_on demo_load"
    by (simp_all add: sock_open_def queue_open_def hooks_on_def match_on_def demo_load_def demo_mod_def demo_cs_def demo_state_def)
  ultimately have "log_lines (load_demo 0) [?c] lo = Inr (lo\<lparr>lo_out := lo_out lo @ [Text ''[info] (nl_recv, 282): '', Text ''pid: 7'']\<rparr>)"
    using module_log_safe [OF lo(1), of "[?c]"] load_demo_ok(10) lo(2) by simp
  then show ?thesis using lo by blast
qed

end
