(* ===== verification/ConfRcu.thy ===== *)
theory ConfRcu
  imports NtrackConf
begin

text \<open>
  Replacing the rule table while packets are decided.  \<open>ntrack_conf_sync\<close> of
  \<open>drivers/nos_track/src/ntrack_conf.c\<close> takes the old table out of \<open>G_AuthConf\<close>, waits for a grace period,
  frees it and puts the new one in; \<open>user_need_redirect\<close> loads \<open>G_AuthConf\<close> up to three times in one
  call, once itself and once in each call of \<open>ntrack_user_match\<close>, and uses the tables afterwards.
  \<open>NtrackConf\<close> treats a call as one step; here the loads, the uses and the statements of the update
  interleave, for any number of packets on different processors.  Each packet has a user of its own:
  that two packets of one user write the same structure is not part of this model.

  What the kernel promises is modelled by the sets of readers that \<open>synchronize_rcu\<close> waits for: those
  that run when it is called.  A hook is such a reader from its entry to its return, since
  netfilter calls hooks inside a read-side section.  Netlink calls \<open>nl_recv\<close> in the context of each
  sender; nothing in the driver orders two of these calls.

  The theory shows that one updater is safe, and that a packet is then decided as the table
  that was installed when it arrived says, or let pass; and that two updaters free a table twice.
\<close>

subsection \<open>A packet that is decided\<close>

text \<open>Where \<open>user_need_redirect\<close> is, with the addresses of the tables it has loaded.\<close>

datatype rd_pc =
    Rd_out | Rd_enter | Rd_test nat | Rd_match nat | Rd_matching nat "nat option" | Rd_rule nat
  | Rd_rematch nat | Rd_rematching nat "nat option" | Rd_decide nat "int option" | Rd_return int

text \<open>
  The user at the entry, the table of the first load, and whether a load found no table are kept to
  state what the result has to be.
\<close>

record reader =
  rd_pc :: rd_pc
  rd_ui :: user_info_t
  rd_skb :: sk_buff
  rd_ui0 :: user_info_t
  rd_conf0 :: "G_AUTHCONF_t option"
  rd_missed :: bool

type_synonym tables = "nat \<rightharpoonup> G_AUTHCONF_t"

definition conf_at :: "tables \<Rightarrow> nat \<Rightarrow> G_AUTHCONF_t result" where
  "conf_at h a = (case h a of None \<Rightarrow> Inl Use_after_free | Some c \<Rightarrow> Inr c)"

text \<open>The state that \<open>NtrackConf\<close> has, with a table in \<open>G_AuthConf\<close>: \<open>ntrack_user_match\<close> reads nothing else of it.\<close>

definition table_state :: "G_AUTHCONF_t option \<Rightarrow> conf_state" where
  "table_state c = \<lparr>G_AuthConf = c, vm_blocks = 0, set_refs = [], user_process_pid = 0, conf_nl_sock = Nl_live\<rparr>"

definition user_match_at :: "conf_env \<Rightarrow> tables \<Rightarrow> nat option \<Rightarrow> user_info_t \<Rightarrow> sk_buff \<Rightarrow> (int \<times> user_info_t) result" where
  "user_match_at env h p ui skb = (case p of
      None \<Rightarrow> ntrack_user_match env (table_state None) ui skb
    | Some a \<Rightarrow> bindR (conf_at h a) (\<lambda>c. ntrack_user_match env (table_state (Some c)) ui skb))"

fun reader_step :: "conf_env \<Rightarrow> tables \<Rightarrow> nat option \<Rightarrow> rd_pc \<Rightarrow> user_info_t \<Rightarrow> sk_buff \<Rightarrow> (rd_pc \<times> user_info_t) result" where
  "reader_step env h g Rd_enter ui skb = (case g of None \<Rightarrow> Inr (Rd_return 0, ui) | Some a \<Rightarrow> Inr (Rd_test a, ui))"
| "reader_step env h g (Rd_test a) ui skb = bindR (conf_at h a) (\<lambda>c.
     if conf_num_rules c = 0 then Inr (Rd_return 0, ui)
     else if hdr_rule_magic (ui_hdr ui) = 0 then Inr (Rd_match a, ui) else Inr (Rd_rule a, ui))"
| "reader_step env h g (Rd_match a) ui skb = Inr (Rd_matching a g, ui)"
| "reader_step env h g (Rd_matching a p) ui skb = bindR (user_match_at env h p ui skb) (\<lambda>(m, ui1).
     Inr (if m = 0 then Rd_return 0 else Rd_rule a, ui1))"
| "reader_step env h g (Rd_rule a) ui skb = bindR (conf_at h a) (\<lambda>c.
     bindR (deref_rule c (user_get_rule ui c)) (\<lambda>r.
       if hdr_rule_magic (ui_hdr ui) \<noteq> rule_magic r then Inr (Rd_rematch a, ui)
       else Inr (Rd_decide a (user_get_rule ui c), ui)))"
| "reader_step env h g (Rd_rematch a) ui skb = Inr (Rd_rematching a g, ui)"
| "reader_step env h g (Rd_rematching a p) ui skb = bindR (user_match_at env h p ui skb) (\<lambda>(m, ui1).
     if m = 0 then Inr (Rd_return 0, ui1)
     else bindR (conf_at h a) (\<lambda>c. Inr (Rd_decide a (user_get_rule ui1 c), ui1)))"
| "reader_step env h g (Rd_decide a rule) ui skb = bindR (conf_at h a) (\<lambda>c.
     bindR (redirect_decision c rule ui) (\<lambda>(ret, ui1). Inr (Rd_return ret, ui1)))"
| "reader_step env h g pc ui skb = Inr (pc, ui)"

text \<open>The steps that load \<open>G_AuthConf\<close>, and the reader after a step.\<close>

fun loads :: "rd_pc \<Rightarrow> bool" where
  "loads Rd_enter = True"
| "loads (Rd_match a) = True"
| "loads (Rd_rematch a) = True"
| "loads _ = False"

definition stepped :: "tables \<Rightarrow> nat option \<Rightarrow> reader \<Rightarrow> rd_pc \<Rightarrow> user_info_t \<Rightarrow> reader" where
  "stepped h g x pc ui = x\<lparr>rd_pc := pc, rd_ui := ui,
     rd_conf0 := (if rd_pc x = Rd_enter then Option.bind g h else rd_conf0 x),
     rd_missed := (rd_missed x \<or> loads (rd_pc x) \<and> g = None)\<rparr>"

subsection \<open>An update\<close>

text \<open>
  Where \<open>ntrack_conf_sync\<close> is once it has built a table: the address of the new table, the old one it
  has loaded, and the readers it waits for.
\<close>

datatype updater =
    Up_idle | Up_built nat | Up_load nat | Up_null nat "nat option" | Up_wait nat "nat option"
  | Up_sync nat "nat option" "nat set" | Up_free nat "nat option" | Up_assign nat

fun update_step :: "nat set \<Rightarrow> tables \<Rightarrow> nat option \<Rightarrow> updater \<Rightarrow> (tables \<times> nat option \<times> updater) result" where
  "update_step act h g (Up_built a) = Inr (h, g, if g = None then Up_assign a else Up_load a)"
| "update_step act h g (Up_load a) = Inr (h, g, Up_null a g)"
| "update_step act h g (Up_null a old) = Inr (h, None, Up_wait a old)"
| "update_step act h g (Up_wait a old) = Inr (h, g, Up_sync a old act)"
| "update_step act h g (Up_sync a old W) = Inr (h, g, if W = {} then Up_free a old else Up_sync a old W)"
| "update_step act h g (Up_free a old) = (case old of
      None \<Rightarrow> Inr (h, g, Up_assign a)
    | Some t \<Rightarrow> if h t = None then Inl Use_after_free else Inr (h(t := None), g, Up_assign a))"
| "update_step act h g (Up_assign a) = Inr (h, Some a, Up_idle)"
| "update_step act h g Up_idle = Inr (h, g, Up_idle)"

text \<open>A reader that returns is not waited for any more.\<close>

fun left :: "nat \<Rightarrow> updater \<Rightarrow> updater" where
  "left r (Up_sync a old W) = Up_sync a old (W - {r})"
| "left r up = up"

subsection \<open>The interleaved system\<close>

record rcu =
  rc_tables :: tables
  rc_conf :: "nat option"
  rc_readers :: "nat \<Rightarrow> reader"
  rc_updaters :: "nat \<Rightarrow> updater"

definition in_section :: "rcu \<Rightarrow> nat set" where
  "in_section s = {r. rd_pc (rc_readers s r) \<noteq> Rd_out}"

text \<open>
  Tables have at least \<open>n\<close> rules, and a user that carries a rule carries one of the first \<open>n\<close>: for
  a user that does not, \<open>user_need_redirect_ref\<close> gives the fault.
\<close>

definition table_ok :: "nat \<Rightarrow> G_AUTHCONF_t \<Rightarrow> bool" where
  "table_ok n c \<longleftrightarrow> conf_ok c \<and> n \<le> conf_num_rules c"

definition known_user :: "nat \<Rightarrow> user_info_t \<Rightarrow> bool" where
  "known_user n ui \<longleftrightarrow> (hdr_rule_magic (ui_hdr ui) \<noteq> 0 \<longrightarrow> 0 \<le> rule_index ui \<and> rule_index ui < int n)"

inductive rcu_step :: "conf_env \<Rightarrow> nat \<Rightarrow> nat set \<Rightarrow> rcu \<Rightarrow> rcu \<Rightarrow> bool" for env n U where
  arrive: "rd_pc (rc_readers s r) = Rd_out \<Longrightarrow> forwarded skb \<Longrightarrow> known_user n ui
    \<Longrightarrow> rcu_step env n U s (s\<lparr>rc_readers := (rc_readers s)(r :=
          \<lparr>rd_pc = Rd_enter, rd_ui = ui, rd_skb = skb, rd_ui0 = ui, rd_conf0 = None,
            rd_missed = False\<rparr>)\<rparr>)"
| read: "rc_readers s r = x \<Longrightarrow> reader_step env (rc_tables s) (rc_conf s) (rd_pc x) (rd_ui x) (rd_skb x) = Inr (pc, ui)
    \<Longrightarrow> rcu_step env n U s (s\<lparr>rc_readers := (rc_readers s)(r := stepped (rc_tables s) (rc_conf s) x pc ui)\<rparr>)"
| leave: "rd_pc (rc_readers s r) = Rd_return ret
    \<Longrightarrow> rcu_step env n U s (s\<lparr>rc_readers := (rc_readers s)(r := (rc_readers s r)\<lparr>rd_pc := Rd_out\<rparr>),
          rc_updaters := (\<lambda>u. left r (rc_updaters s u))\<rparr>)"
| build: "u \<in> U \<Longrightarrow> rc_updaters s u = Up_idle \<Longrightarrow> rc_tables s a = None \<Longrightarrow> table_ok n c
    \<Longrightarrow> rcu_step env n U s (s\<lparr>rc_tables := (rc_tables s)(a \<mapsto> c), rc_updaters := (rc_updaters s)(u := Up_built a)\<rparr>)"
| update: "u \<in> U \<Longrightarrow> update_step (in_section s) (rc_tables s) (rc_conf s) (rc_updaters s u) = Inr (h, g, up)
    \<Longrightarrow> rcu_step env n U s (s\<lparr>rc_tables := h, rc_conf := g, rc_updaters := (rc_updaters s)(u := up)\<rparr>)"

inductive rcu_reach :: "conf_env \<Rightarrow> nat \<Rightarrow> nat set \<Rightarrow> rcu \<Rightarrow> rcu \<Rightarrow> bool" for env n U s0 where
  start: "rcu_reach env n U s0 s0"
| step: "rcu_reach env n U s0 s \<Longrightarrow> rcu_step env n U s t \<Longrightarrow> rcu_reach env n U s0 t"

definition rcu_start :: "nat \<Rightarrow> rcu \<Rightarrow> bool" where
  "rcu_start n s \<longleftrightarrow> (\<forall>r. rd_pc (rc_readers s r) = Rd_out) \<and> (\<forall>u. rc_updaters s u = Up_idle)
     \<and> dom (rc_tables s) = set_option (rc_conf s) \<and> (\<forall>c \<in> ran (rc_tables s). table_ok n c)"

subsection \<open>What is left of a decision\<close>

text \<open>The rest of \<open>user_need_redirect\<close> from each point on, if every load finds the table \<open>c\<close>.\<close>

definition rest_rematch :: "conf_env \<Rightarrow> G_AUTHCONF_t \<Rightarrow> user_info_t \<Rightarrow> sk_buff \<Rightarrow> (int \<times> user_info_t) result" where
  "rest_rematch env c ui skb = bindR (ntrack_user_match env (table_state (Some c)) ui skb) (\<lambda>(m, ui1).
     if m = 0 then Inr (0, ui1) else redirect_decision c (user_get_rule ui1 c) ui1)"

definition rest_rule :: "conf_env \<Rightarrow> G_AUTHCONF_t \<Rightarrow> user_info_t \<Rightarrow> sk_buff \<Rightarrow> (int \<times> user_info_t) result" where
  "rest_rule env c ui skb = bindR (deref_rule c (user_get_rule ui c)) (\<lambda>r.
     if hdr_rule_magic (ui_hdr ui) \<noteq> rule_magic r then rest_rematch env c ui skb
     else redirect_decision c (user_get_rule ui c) ui)"

definition rest_match :: "conf_env \<Rightarrow> G_AUTHCONF_t \<Rightarrow> user_info_t \<Rightarrow> sk_buff \<Rightarrow> (int \<times> user_info_t) result" where
  "rest_match env c ui skb = bindR (ntrack_user_match env (table_state (Some c)) ui skb) (\<lambda>(m, ui1).
     if m = 0 then Inr (0, ui1) else rest_rule env c ui1 skb)"

fun rest :: "conf_env \<Rightarrow> G_AUTHCONF_t \<Rightarrow> rd_pc \<Rightarrow> user_info_t \<Rightarrow> sk_buff \<Rightarrow> (int \<times> user_info_t) result" where
  "rest env c (Rd_test a) ui skb = (if conf_num_rules c = 0 then Inr (0, ui)
     else if hdr_rule_magic (ui_hdr ui) = 0 then rest_match env c ui skb else rest_rule env c ui skb)"
| "rest env c (Rd_match a) ui skb = rest_match env c ui skb"
| "rest env c (Rd_matching a p) ui skb = rest_match env c ui skb"
| "rest env c (Rd_rule a) ui skb = rest_rule env c ui skb"
| "rest env c (Rd_rematch a) ui skb = rest_rematch env c ui skb"
| "rest env c (Rd_rematching a p) ui skb = rest_rematch env c ui skb"
| "rest env c (Rd_decide a rule) ui skb = redirect_decision c rule ui"
| "rest env c (Rd_return ret) ui skb = Inr (ret, ui)"
| "rest env c pc ui skb = Inr (0, ui)"

lemmas rest_defs = rest_match_def rest_rule_def rest_rematch_def

lemma rest_call: "rest env c (Rd_test a) ui skb = user_need_redirect env (table_state (Some c)) ui skb"
  by (auto simp: user_need_redirect_def table_state_def Let_def rest_defs intro!: arg_cong [where f = "bindR _"] ext)

lemma call_returns:
  assumes "table_ok n c" "known_user n ui" "forwarded skb"
  shows "\<exists>y. user_need_redirect env (table_state (Some c)) ui skb = Inr y"
proof (cases "conf_num_rules c = 0")
  case True
  then show ?thesis by (simp add: user_need_redirect_def table_state_def)
next
  case False
  have "user_fits c ui" using assms(1,2) by (auto simp: table_ok_def known_user_def user_fits_def)
  moreover have "conf_ok c" using assms(1) by (simp add: table_ok_def)
  ultimately show ?thesis using user_need_redirect_refined [of c skb "table_state (Some c)" ui env] False assms(3)
    by (auto simp: table_state_def)
qed

text \<open>A user that has just been matched carries the magic of its rule, so that it is not matched again.\<close>

definition rule_current :: "G_AUTHCONF_t \<Rightarrow> user_info_t \<Rightarrow> bool" where
  "rule_current c ui \<longleftrightarrow> (\<exists>r. deref_rule c (user_get_rule ui c) = Inr r \<and> rule_magic r = hdr_rule_magic (ui_hdr ui))"

lemma matched_current:
  assumes "table_ok n c" "forwarded skb" "ntrack_user_match env (table_state (Some c)) ui skb = Inr (m, ui1)"
  shows "if m = 0 then ui1 = ui else rule_current c ui1"
proof -
  have c: "conf_ok c" using assms(1) by (simp add: table_ok_def)
  obtain iph where iph: "ip_hdr skb = Inr iph" using ip_hdr_ok assms(2) by (auto simp: forwarded_def)
  have "case first_hit env c skb iph of None \<Rightarrow> m = 0 \<and> ui1 = ui | Some i \<Rightarrow> m \<noteq> 0 \<and> ui1 = mark_user ui i (conf_rules c ! i)"
    using ntrack_user_match_cases [OF c assms(2) iph, of "table_state (Some c)" env ui] assms(3) by (auto simp: table_state_def)
  then show ?thesis
  proof (cases "first_hit env c skb iph")
    case (Some i)
    then have i: "i < conf_num_rules c" by (rule first_hit_less)
    with Some \<open>case first_hit env c skb iph of None \<Rightarrow> _ | Some i \<Rightarrow> _ i\<close>
    have "m \<noteq> 0" "ui1 = mark_user ui i (conf_rules c ! i)" by simp_all
    then show ?thesis using redirect_marked(2) [OF c i, of ui "conf_rules c ! i"] by (auto simp: rule_current_def)
  qed simp
qed

subsection \<open>The invariant of a reader\<close>

fun held :: "rd_pc \<Rightarrow> nat set" where
  "held (Rd_test a) = {a}"
| "held (Rd_match a) = {a}"
| "held (Rd_matching a p) = insert a (set_option p)"
| "held (Rd_rule a) = {a}"
| "held (Rd_rematch a) = {a}"
| "held (Rd_rematching a p) = insert a (set_option p)"
| "held (Rd_decide a rule) = {a}"
| "held _ = {}"

text \<open>Whether the user is still as it was at the entry, which it is before every load.\<close>

fun user_kept :: "rd_pc \<Rightarrow> G_AUTHCONF_t \<Rightarrow> user_info_t \<Rightarrow> user_info_t \<Rightarrow> bool" where
  "user_kept (Rd_rule a) c ui0 ui \<longleftrightarrow> ui = ui0 \<or> rule_current c ui"
| "user_kept (Rd_decide a rule) c ui0 ui \<longleftrightarrow> True"
| "user_kept pc c ui0 ui \<longleftrightarrow> ui = ui0"

text \<open>Whether the load before a match found no table.\<close>

fun missing :: "rd_pc \<Rightarrow> bool" where
  "missing (Rd_matching a p) \<longleftrightarrow> p = None"
| "missing (Rd_rematching a p) \<longleftrightarrow> p = None"
| "missing _ \<longleftrightarrow> False"

text \<open>
  The packet is decided as one call with the table of its first load decides it, unless a load
  found no table: then it passes and its user is as it was.
\<close>

definition outcome_ok :: "conf_env \<Rightarrow> reader \<Rightarrow> int \<Rightarrow> bool" where
  "outcome_ok env x ret \<longleftrightarrow>
     (if rd_missed x then ret = 0 \<and> rd_ui x = rd_ui0 x
      else \<exists>c. rd_conf0 x = Some c \<and> user_need_redirect env (table_state (Some c)) (rd_ui0 x) (rd_skb x) = Inr (ret, rd_ui x))"

definition rd_inv :: "conf_env \<Rightarrow> nat \<Rightarrow> tables \<Rightarrow> reader \<Rightarrow> bool" where
  "rd_inv env n h x \<longleftrightarrow> rd_pc x = Rd_out \<or> forwarded (rd_skb x) \<and> known_user n (rd_ui0 x) \<and>
     (case rd_pc x of
        Rd_enter \<Rightarrow> rd_ui x = rd_ui0 x \<and> \<not> rd_missed x
      | Rd_return ret \<Rightarrow> outcome_ok env x ret
      | pc \<Rightarrow> (\<exists>c. rd_conf0 x = Some c \<and> table_ok n c \<and> (\<forall>p \<in> held pc. h p = Some c) \<and> user_kept pc c (rd_ui0 x) (rd_ui x)
          \<and> rd_missed x = missing pc
          \<and> rest env c pc (rd_ui x) (rd_skb x) = user_need_redirect env (table_state (Some c)) (rd_ui0 x) (rd_skb x)))"

lemma rd_inv_tables: "rd_inv env n h x \<Longrightarrow> \<forall>p \<in> held (rd_pc x). h' p = h p \<Longrightarrow> rd_inv env n h' x"
  by (auto simp: rd_inv_def split: rd_pc.splits)

definition step_ok :: "conf_env \<Rightarrow> nat \<Rightarrow> tables \<Rightarrow> nat option \<Rightarrow> reader \<Rightarrow> bool" where
  "step_ok env n h g x \<longleftrightarrow> (\<exists>pc ui. reader_step env h g (rd_pc x) (rd_ui x) (rd_skb x) = Inr (pc, ui)
     \<and> rd_inv env n h (stepped h g x pc ui) \<and> held pc \<subseteq> held (rd_pc x) \<union> set_option g)"

lemma step_okI:
  assumes "reader_step env h g (rd_pc x) (rd_ui x) (rd_skb x) = Inr (pc, ui)" "rd_inv env n h (stepped h g x pc ui)"
    "held pc \<subseteq> held (rd_pc x) \<union> set_option g"
  shows "step_ok env n h g x"
  using assms by (auto simp: step_ok_def)

lemma enter_ok:
  assumes "rd_inv env n h x" "rd_pc x = Rd_enter" "\<forall>a. g = Some a \<longrightarrow> (\<exists>c. h a = Some c \<and> table_ok n c)"
  shows "step_ok env n h g x"
proof (cases g)
  case None
  then show ?thesis using assms by (intro step_okI [where pc = "Rd_return 0" and ui = "rd_ui x"])
      (auto simp: rd_inv_def stepped_def outcome_ok_def)
next
  case (Some a)
  then show ?thesis using assms by (intro step_okI [where pc = "Rd_test a" and ui = "rd_ui x"])
      (auto simp: rd_inv_def stepped_def rest_call simp del: rest.simps)
qed

text \<open>What the invariant gives inside the call.\<close>

lemma rd_invD:
  assumes "rd_inv env n h x" "rd_pc x = pc" "held pc \<noteq> {}"
  shows "\<exists>c y. rd_conf0 x = Some c \<and> table_ok n c \<and> (\<forall>p \<in> held pc. h p = Some c) \<and> user_kept pc c (rd_ui0 x) (rd_ui x)
    \<and> rd_missed x = missing pc \<and> user_need_redirect env (table_state (Some c)) (rd_ui0 x) (rd_skb x) = Inr y \<and> rest env c pc (rd_ui x) (rd_skb x) = Inr y
    \<and> forwarded (rd_skb x) \<and> known_user n (rd_ui0 x)"
proof -
  obtain c where c: "rd_conf0 x = Some c" "table_ok n c" "\<forall>p \<in> held pc. h p = Some c" "user_kept pc c (rd_ui0 x) (rd_ui x)"
    "rd_missed x = missing pc" "rest env c pc (rd_ui x) (rd_skb x) = user_need_redirect env (table_state (Some c)) (rd_ui0 x) (rd_skb x)"
    "forwarded (rd_skb x)" "known_user n (rd_ui0 x)"
    using assms by (cases pc) (auto simp: rd_inv_def simp del: rest.simps)
  obtain y where "user_need_redirect env (table_state (Some c)) (rd_ui0 x) (rd_skb x) = Inr y"
    using call_returns [OF c(2,8,7)] by blast
  then show ?thesis using c by (intro exI [where x = c] exI [where x = y]) simp
qed

lemma rd_invI:
  assumes "rd_conf0 x = Some c" "table_ok n c" "\<forall>p \<in> held pc. h p = Some c" "user_kept pc c (rd_ui0 x) ui"
    "user_need_redirect env (table_state (Some c)) (rd_ui0 x) (rd_skb x) = Inr y" "rest env c pc ui (rd_skb x) = Inr y"
    "forwarded (rd_skb x)" "known_user n (rd_ui0 x)" "held pc \<noteq> {}" "rd_pc x \<noteq> Rd_enter"
    "(rd_missed x \<or> loads (rd_pc x) \<and> g = None) = missing pc"
  shows "rd_inv env n h (stepped h g x pc ui)"
  using assms by (cases pc) (auto simp: rd_inv_def stepped_def simp del: rest.simps)

lemma return_ok:
  assumes "rd_conf0 x = Some c" "user_need_redirect env (table_state (Some c)) (rd_ui0 x) (rd_skb x) = Inr y"
    "if rd_missed x then ret = 0 \<and> ui = rd_ui0 x else y = (ret, ui)" "forwarded (rd_skb x)" "known_user n (rd_ui0 x)"
    "rd_pc x \<noteq> Rd_enter" "\<not> loads (rd_pc x)"
  shows "rd_inv env n h (stepped h g x (Rd_return ret) ui)"
  using assms by (auto simp: rd_inv_def stepped_def outcome_ok_def)

text \<open>The steps inside the call, one lemma per kind of step.\<close>

lemma test_ok:
  assumes inv: "rd_inv env n h x" and pc: "rd_pc x = Rd_test a"
  shows "step_ok env n h g x"
proof -
  obtain c y where c: "rd_conf0 x = Some c" "table_ok n c" "h a = Some c" "rd_ui x = rd_ui0 x"
    "user_need_redirect env (table_state (Some c)) (rd_ui0 x) (rd_skb x) = Inr y" "rest env c (Rd_test a) (rd_ui x) (rd_skb x) = Inr y"
    "forwarded (rd_skb x)" "known_user n (rd_ui0 x)" "\<not> rd_missed x"
    using rd_invD [OF inv pc] by (auto simp del: rest.simps)
  note I = rd_invI [OF c(1,2) _ _ c(5) _ c(7,8)]
  consider "conf_num_rules c = 0" | "conf_num_rules c \<noteq> 0" "hdr_rule_magic (ui_hdr (rd_ui x)) = 0"
    | "conf_num_rules c \<noteq> 0" "hdr_rule_magic (ui_hdr (rd_ui x)) \<noteq> 0" by blast
  then show ?thesis
  proof cases
    case 1
    then show ?thesis using c pc by (intro step_okI [where pc = "Rd_return 0" and ui = "rd_ui x"] return_ok [OF c(1,5) _ c(7,8)])
        (auto simp: conf_at_def)
  next
    case 2
    then show ?thesis using c pc by (intro step_okI [where pc = "Rd_match a" and ui = "rd_ui x"] I) (auto simp: conf_at_def)
  next
    case 3
    then show ?thesis using c pc by (intro step_okI [where pc = "Rd_rule a" and ui = "rd_ui x"] I) (auto simp: conf_at_def)
  qed
qed

text \<open>While a table is held, a load finds it or nothing.\<close>

lemma load_ok:
  assumes inv: "rd_inv env n h x" and pc: "rd_pc x = Rd_match a \<and> pc' = Rd_matching a g \<or> rd_pc x = Rd_rematch a \<and> pc' = Rd_rematching a g"
    and g: "g = None \<or> g = Some a"
  shows "step_ok env n h g x"
proof -
  have "held (rd_pc x) \<noteq> {}" using pc by auto
  then obtain c y where c: "rd_conf0 x = Some c" "table_ok n c" "\<forall>p \<in> held (rd_pc x). h p = Some c" "user_kept (rd_pc x) c (rd_ui0 x) (rd_ui x)"
    "user_need_redirect env (table_state (Some c)) (rd_ui0 x) (rd_skb x) = Inr y" "rest env c (rd_pc x) (rd_ui x) (rd_skb x) = Inr y"
    "forwarded (rd_skb x)" "known_user n (rd_ui0 x)" "rd_missed x = missing (rd_pc x)"
    using rd_invD [OF inv refl] by metis
  show ?thesis using c pc g by (intro step_okI [where pc = pc' and ui = "rd_ui x"] rd_invI [OF c(1,2) _ _ c(5) _ c(7,8)]) auto
qed

text \<open>A match in the table that was loaded, or in none.\<close>

lemma user_match_at_held:
  assumes "\<forall>q \<in> set_option p. h q = Some c"
  shows "user_match_at env h p ui skb = (if p = None then Inr (0, ui) else ntrack_user_match env (table_state (Some c)) ui skb)"
  using assms by (cases p) (auto simp: user_match_at_def conf_at_def table_state_def ntrack_user_match_def)

lemma matching_ok:
  assumes inv: "rd_inv env n h x" and pc: "rd_pc x = Rd_matching a p"
  shows "step_ok env n h g x"
proof -
  obtain c y where c: "rd_conf0 x = Some c" "table_ok n c" "h a = Some c" "\<forall>q \<in> set_option p. h q = Some c" "rd_ui x = rd_ui0 x"
    "user_need_redirect env (table_state (Some c)) (rd_ui0 x) (rd_skb x) = Inr y" "rest_match env c (rd_ui x) (rd_skb x) = Inr y"
    "forwarded (rd_skb x)" "known_user n (rd_ui0 x)" "rd_missed x \<longleftrightarrow> p = None"
    using rd_invD [OF inv pc] by auto
  obtain m ui1 where m: "ntrack_user_match env (table_state (Some c)) (rd_ui x) (rd_skb x) = Inr (m, ui1)"
    using c(7) by (auto simp: rest_match_def bindR_eq_Inr)
  note cur = matched_current [OF c(2,8) m]
  note at = user_match_at_held [OF c(4), of env "rd_ui x" "rd_skb x"]
  note R = return_ok [OF c(1,6) _ c(8,9)]
  consider "p = None" | "p \<noteq> None" "m = 0" | "p \<noteq> None" "m \<noteq> 0" by blast
  then show ?thesis
  proof cases
    case 1
    then show ?thesis using c pc at by (intro step_okI [where pc = "Rd_return 0" and ui = "rd_ui x"] R) auto
  next
    case 2
    then show ?thesis using c pc at m cur by (intro step_okI [where pc = "Rd_return 0" and ui = ui1] R) (auto simp: rest_match_def)
  next
    case 3
    then show ?thesis using c pc at m cur
      by (intro step_okI [where pc = "Rd_rule a" and ui = ui1] rd_invI [OF c(1,2) _ _ c(6) _ c(8,9)]) (auto simp: rest_match_def)
  qed
qed

lemma rule_ok:
  assumes inv: "rd_inv env n h x" and pc: "rd_pc x = Rd_rule a"
  shows "step_ok env n h g x"
proof -
  obtain c y where c: "rd_conf0 x = Some c" "table_ok n c" "h a = Some c" "rd_ui x = rd_ui0 x \<or> rule_current c (rd_ui x)"
    "user_need_redirect env (table_state (Some c)) (rd_ui0 x) (rd_skb x) = Inr y" "rest_rule env c (rd_ui x) (rd_skb x) = Inr y"
    "forwarded (rd_skb x)" "known_user n (rd_ui0 x)" "\<not> rd_missed x"
    using rd_invD [OF inv pc] by auto
  obtain r where r: "deref_rule c (user_get_rule (rd_ui x) c) = Inr r"
    using c(6) by (auto simp: rest_rule_def bindR_eq_Inr)
  note I = rd_invI [OF c(1,2) _ _ c(5) _ c(7,8)]
  show ?thesis
  proof (cases "hdr_rule_magic (ui_hdr (rd_ui x)) = rule_magic r")
    case True
    then show ?thesis using c pc r
      by (intro step_okI [where pc = "Rd_decide a (user_get_rule (rd_ui x) c)" and ui = "rd_ui x"] I)
        (auto simp: conf_at_def rest_rule_def)
  next
    case False
    then show ?thesis using c pc r by (intro step_okI [where pc = "Rd_rematch a" and ui = "rd_ui x"] I)
        (auto simp: conf_at_def rest_rule_def rule_current_def)
  qed
qed

lemma rematching_ok:
  assumes inv: "rd_inv env n h x" and pc: "rd_pc x = Rd_rematching a p"
  shows "step_ok env n h g x"
proof -
  obtain c y where c: "rd_conf0 x = Some c" "table_ok n c" "h a = Some c" "\<forall>q \<in> set_option p. h q = Some c" "rd_ui x = rd_ui0 x"
    "user_need_redirect env (table_state (Some c)) (rd_ui0 x) (rd_skb x) = Inr y" "rest_rematch env c (rd_ui x) (rd_skb x) = Inr y"
    "forwarded (rd_skb x)" "known_user n (rd_ui0 x)" "rd_missed x \<longleftrightarrow> p = None"
    using rd_invD [OF inv pc] by auto
  obtain m ui1 where m: "ntrack_user_match env (table_state (Some c)) (rd_ui x) (rd_skb x) = Inr (m, ui1)"
    using c(7) by (auto simp: rest_rematch_def bindR_eq_Inr)
  note cur = matched_current [OF c(2,8) m]
  note at = user_match_at_held [OF c(4), of env "rd_ui x" "rd_skb x"]
  note R = return_ok [OF c(1,6) _ c(8,9)]
  consider "p = None" | "p \<noteq> None" "m = 0" | "p \<noteq> None" "m \<noteq> 0" by blast
  then show ?thesis
  proof cases
    case 1
    then show ?thesis using c pc at by (intro step_okI [where pc = "Rd_return 0" and ui = "rd_ui x"] R) auto
  next
    case 2
    then show ?thesis using c pc at m cur by (intro step_okI [where pc = "Rd_return 0" and ui = ui1] R) (auto simp: rest_rematch_def)
  next
    case 3
    then show ?thesis using c pc at m
      by (intro step_okI [where pc = "Rd_decide a (user_get_rule ui1 c)" and ui = ui1] rd_invI [OF c(1,2) _ _ c(6) _ c(8,9)])
        (auto simp: rest_rematch_def conf_at_def)
  qed
qed

lemma decide_ok:
  assumes inv: "rd_inv env n h x" and pc: "rd_pc x = Rd_decide a rule"
  shows "step_ok env n h g x"
proof -
  obtain c ret ui1 where c: "rd_conf0 x = Some c" "h a = Some c" "redirect_decision c rule (rd_ui x) = Inr (ret, ui1)"
    "user_need_redirect env (table_state (Some c)) (rd_ui0 x) (rd_skb x) = Inr (ret, ui1)"
    "forwarded (rd_skb x)" "known_user n (rd_ui0 x)" "\<not> rd_missed x"
    using rd_invD [OF inv pc] by auto
  then show ?thesis using pc
    by (intro step_okI [where pc = "Rd_return ret" and ui = ui1] return_ok [OF c(1,4) _ c(5,6)]) (auto simp: conf_at_def)
qed

lemmas pc_steps = test_ok matching_ok rule_ok rematching_ok decide_ok

text \<open>Every step of a reader returns and keeps its invariant.\<close>

lemma reader_step_ok:
  assumes inv: "rd_inv env n h x" and held: "\<forall>p \<in> held (rd_pc x). g = None \<or> g = Some p"
    and g: "\<forall>a. g = Some a \<longrightarrow> (\<exists>c. h a = Some c \<and> table_ok n c)"
  shows "step_ok env n h g x"
proof (cases "rd_pc x")
  case Rd_enter
  then show ?thesis using inv g by (intro enter_ok)
next
  case (Rd_match a)
  then show ?thesis using inv held by (intro load_ok [where pc' = "Rd_matching a g"]) auto
next
  case (Rd_rematch a)
  then show ?thesis using inv held by (intro load_ok [where pc' = "Rd_rematching a g"]) auto
next
  case Rd_out
  then show ?thesis using inv by (intro step_okI [where pc = "Rd_out" and ui = "rd_ui x"]) (auto simp: rd_inv_def stepped_def)
next
  case (Rd_return ret)
  then show ?thesis using inv by (intro step_okI [where pc = "Rd_return ret" and ui = "rd_ui x"])
      (auto simp: rd_inv_def stepped_def outcome_ok_def)
qed (auto intro: pc_steps [OF inv])

subsection \<open>The invariant of the system\<close>

text \<open>With one updater: the tables that exist, by where the update is.\<close>

fun up_inv :: "nat set \<Rightarrow> nat option \<Rightarrow> updater \<Rightarrow> bool" where
  "up_inv D g Up_idle \<longleftrightarrow> D = set_option g"
| "up_inv D g (Up_built a) \<longleftrightarrow> a \<notin> set_option g \<and> D = insert a (set_option g)"
| "up_inv D g (Up_load a) \<longleftrightarrow> g \<noteq> None \<and> a \<notin> set_option g \<and> D = insert a (set_option g)"
| "up_inv D g (Up_null a old) \<longleftrightarrow> old = g \<and> g \<noteq> None \<and> a \<notin> set_option g \<and> D = insert a (set_option g)"
| "up_inv D g (Up_wait a old) \<longleftrightarrow> g = None \<and> (\<exists>t. old = Some t \<and> t \<noteq> a \<and> D = {a, t})"
| "up_inv D g (Up_sync a old W) \<longleftrightarrow> g = None \<and> (\<exists>t. old = Some t \<and> t \<noteq> a \<and> D = {a, t})"
| "up_inv D g (Up_free a old) \<longleftrightarrow> g = None \<and> (\<exists>t. old = Some t \<and> t \<noteq> a \<and> D = {a, t})"
| "up_inv D g (Up_assign a) \<longleftrightarrow> g = None \<and> D = {a}"

text \<open>The tables a reader may hold: the installed one, or the old one as long as the update has to wait for it.\<close>

fun may_hold :: "nat option \<Rightarrow> updater \<Rightarrow> nat \<Rightarrow> nat set" where
  "may_hold g (Up_wait a old) r = set_option old"
| "may_hold g (Up_sync a old W) r = (if r \<in> W then set_option old else {})"
| "may_hold g up r = set_option g"

definition rcu_inv :: "conf_env \<Rightarrow> nat \<Rightarrow> rcu \<Rightarrow> bool" where
  "rcu_inv env n s \<longleftrightarrow> up_inv (dom (rc_tables s)) (rc_conf s) (rc_updaters s 0)
     \<and> (\<forall>c \<in> ran (rc_tables s). table_ok n c)
     \<and> (\<forall>r. rd_inv env n (rc_tables s) (rc_readers s r)
          \<and> held (rd_pc (rc_readers s r)) \<subseteq> may_hold (rc_conf s) (rc_updaters s 0) r)"

lemma up_inv_conf: "up_inv D g up \<Longrightarrow> set_option g \<subseteq> D"
  by (cases up) auto

lemma up_inv_hold: "up_inv D g up \<Longrightarrow> may_hold g up r \<subseteq> D \<and> (g = None \<or> may_hold g up r = set_option g)"
  by (cases up) auto

lemma start_inv: "rcu_start n s \<Longrightarrow> rcu_inv env n s"
  by (auto simp: rcu_start_def rcu_inv_def rd_inv_def)

lemma inv_reader_step:
  assumes "rcu_inv env n s"
  shows "step_ok env n (rc_tables s) (rc_conf s) (rc_readers s r)"
proof -
  note I = assms [unfolded rcu_inv_def]
  then have up: "up_inv (dom (rc_tables s)) (rc_conf s) (rc_updaters s 0)" by blast
  have hold: "held (rd_pc (rc_readers s r)) \<subseteq> may_hold (rc_conf s) (rc_updaters s 0) r" using I by blast
  have "\<forall>p \<in> held (rd_pc (rc_readers s r)). rc_conf s = None \<or> rc_conf s = Some p"
    using up_inv_hold [OF up, of r] hold by (cases "rc_conf s") auto
  moreover have "\<exists>c. rc_tables s a = Some c \<and> table_ok n c" if "rc_conf s = Some a" for a
    using up_inv_conf [OF up] that I by (auto simp: ran_def)
  ultimately show ?thesis using I by (intro reader_step_ok) auto
qed

lemma inv_update_step:
  assumes "rcu_inv env n s"
  shows "\<exists>y. update_step (in_section s) (rc_tables s) (rc_conf s) (rc_updaters s 0) = Inr y"
proof -
  have "up_inv (dom (rc_tables s)) (rc_conf s) (rc_updaters s 0)" using assms by (simp add: rcu_inv_def)
  then show ?thesis by (cases "rc_updaters s 0") (auto simp: dom_def)
qed

lemma inv_outcome:
  assumes "rcu_inv env n s" "rd_pc (rc_readers s r) = Rd_return ret"
  shows "outcome_ok env (rc_readers s r) ret"
proof -
  have "rd_inv env n (rc_tables s) (rc_readers s r)" using assms(1) by (simp add: rcu_inv_def)
  then show ?thesis using assms(2) by (simp add: rd_inv_def)
qed

text \<open>A step of the update keeps the invariant.\<close>

lemma update_keeps_tables:
  assumes "up_inv (dom h) g up" "update_step act h g up = Inr (h', g', up')"
  shows "up_inv (dom h') g' up' \<and> ran h' \<subseteq> ran h"
  using assms by (cases up) (auto simp: ran_def split: option.splits if_splits)

lemma update_keeps_hold:
  assumes "up_inv (dom h) g up" "update_step act h g up = Inr (h', g', up')" "P \<subseteq> may_hold g up r" "r \<in> act \<or> P = {}"
  shows "P \<subseteq> may_hold g' up' r \<and> (\<forall>p \<in> P. h' p = h p)"
  using assms by (cases up) (auto simp: subset_iff split: option.splits if_splits)

lemma inv_update:
  assumes inv: "rcu_inv env n s" and st: "update_step (in_section s) (rc_tables s) (rc_conf s) (rc_updaters s 0) = Inr (h, g, up)"
  shows "rcu_inv env n (s\<lparr>rc_tables := h, rc_conf := g, rc_updaters := (rc_updaters s)(0 := up)\<rparr>)"
proof -
  note I = inv [unfolded rcu_inv_def]
  then have u: "up_inv (dom (rc_tables s)) (rc_conf s) (rc_updaters s 0)" by blast
  have "rd_inv env n h (rc_readers s r) \<and> held (rd_pc (rc_readers s r)) \<subseteq> may_hold g up r" for r
  proof -
    have "held (rd_pc (rc_readers s r)) \<subseteq> may_hold g up r \<and> (\<forall>p \<in> held (rd_pc (rc_readers s r)). h p = rc_tables s p)"
      using I by (intro update_keeps_hold [OF u st]) (auto simp: in_section_def)
    then show ?thesis using I rd_inv_tables by metis
  qed
  then show ?thesis using update_keeps_tables [OF u st] I by (auto simp: rcu_inv_def)
qed

lemma inv_reads:
  assumes inv: "rcu_inv env n s" and st: "reader_step env (rc_tables s) (rc_conf s) (rd_pc (rc_readers s r)) (rd_ui (rc_readers s r))
      (rd_skb (rc_readers s r)) = Inr (pc, ui)"
  shows "rcu_inv env n (s\<lparr>rc_readers := (rc_readers s)(r := stepped (rc_tables s) (rc_conf s) (rc_readers s r) pc ui)\<rparr>)"
proof -
  note I = inv [unfolded rcu_inv_def]
  have "rd_inv env n (rc_tables s) (stepped (rc_tables s) (rc_conf s) (rc_readers s r) pc ui)"
      "held pc \<subseteq> held (rd_pc (rc_readers s r)) \<union> set_option (rc_conf s)"
    using inv_reader_step [OF inv, of r] st by (auto simp: step_ok_def)
  moreover have "set_option (rc_conf s) \<subseteq> may_hold (rc_conf s) (rc_updaters s 0) r" using I by (cases "rc_updaters s 0") auto
  moreover have "held (rd_pc (rc_readers s r)) \<subseteq> may_hold (rc_conf s) (rc_updaters s 0) r" using I by blast
  ultimately have "held pc \<subseteq> may_hold (rc_conf s) (rc_updaters s 0) r" by blast
  then show ?thesis using I \<open>rd_inv env n _ (stepped _ _ _ _ _)\<close> by (auto simp: rcu_inv_def stepped_def)
qed

lemma inv_build:
  assumes inv: "rcu_inv env n s" and "rc_updaters s 0 = Up_idle" "rc_tables s a = None" "table_ok n c"
  shows "rcu_inv env n (s\<lparr>rc_tables := (rc_tables s)(a \<mapsto> c), rc_updaters := (rc_updaters s)(0 := Up_built a)\<rparr>)"
proof -
  note I = inv [unfolded rcu_inv_def]
  have d: "dom (rc_tables s) = set_option (rc_conf s)" using I assms(2) by simp
  have "rd_inv env n ((rc_tables s)(a \<mapsto> c)) (rc_readers s r)" for r
  proof -
    have "held (rd_pc (rc_readers s r)) \<subseteq> dom (rc_tables s)" using I assms(2) d by simp
    then have "\<forall>p \<in> held (rd_pc (rc_readers s r)). ((rc_tables s)(a \<mapsto> c)) p = rc_tables s p" using assms(3) by auto
    moreover have "rd_inv env n (rc_tables s) (rc_readers s r)" using I by blast
    ultimately show ?thesis using rd_inv_tables by blast
  qed
  moreover have "\<forall>x \<in> ran ((rc_tables s)(a \<mapsto> c)). table_ok n x" using I assms(3,4) by (simp add: ran_map_upd)
  moreover have "up_inv (dom ((rc_tables s)(a \<mapsto> c))) (rc_conf s) (Up_built a)" using assms(3) d by auto
  ultimately show ?thesis using I assms(2) by (simp add: rcu_inv_def)
qed

lemma inv_arrive:
  assumes "rcu_inv env n s" "forwarded skb" "known_user n ui"
  shows "rcu_inv env n (s\<lparr>rc_readers := (rc_readers s)(r :=
    \<lparr>rd_pc = Rd_enter, rd_ui = ui, rd_skb = skb, rd_ui0 = ui, rd_conf0 = None, rd_missed = False\<rparr>)\<rparr>)"
  using assms by (simp add: rcu_inv_def rd_inv_def)

lemma left_keeps: "up_inv D g up \<Longrightarrow> up_inv D g (left r up)" "r' \<noteq> r \<Longrightarrow> may_hold g (left r up) r' = may_hold g up r'"
  by (cases up; auto)+

lemma inv_leave:
  assumes "rcu_inv env n s"
  shows "rcu_inv env n (s\<lparr>rc_readers := (rc_readers s)(r := (rc_readers s r)\<lparr>rd_pc := Rd_out\<rparr>),
    rc_updaters := (\<lambda>u. left r (rc_updaters s u))\<rparr>)"
  using assms by (simp add: rcu_inv_def rd_inv_def left_keeps)

lemma step_inv: "rcu_step env n {0} s t \<Longrightarrow> rcu_inv env n s \<Longrightarrow> rcu_inv env n t"
  by (induction rule: rcu_step.induct) (auto intro: inv_arrive inv_reads inv_leave inv_build inv_update)

lemma reach_inv: "rcu_reach env n {0} s0 s \<Longrightarrow> rcu_start n s0 \<Longrightarrow> rcu_inv env n s"
  by (induction rule: rcu_reach.induct) (auto intro: start_inv step_inv)

subsection \<open>One updater\<close>

text \<open>
  C14.  With any number of packets decided on other processors while one sender replaces the rule
  table again and again, in any interleaving of the loads, the uses and the statements of the
  update: no step of a packet uses a table that was freed, the update never frees a table twice, and
  a packet whose decision is complete has the result and the user that one undisturbed call with
  the table of its first load gives, or, if one of its loads came between the two assignments of
  \<open>G_AuthConf\<close>, passes with its user unchanged.
\<close>

theorem conf_rcu_safe:
  assumes "rcu_start n s0" "rcu_reach env n {0} s0 s"
  shows "(\<forall>r. let x = rc_readers s r in
           (\<exists>y. reader_step env (rc_tables s) (rc_conf s) (rd_pc x) (rd_ui x) (rd_skb x) = Inr y)
           \<and> (\<forall>ret. rd_pc x = Rd_return ret \<longrightarrow> outcome_ok env x ret))
       \<and> (\<exists>y. update_step (in_section s) (rc_tables s) (rc_conf s) (rc_updaters s 0) = Inr y)"
proof -
  have inv: "rcu_inv env n s" using reach_inv assms by blast
  have "\<exists>y. reader_step env (rc_tables s) (rc_conf s) (rd_pc (rc_readers s r)) (rd_ui (rc_readers s r)) (rd_skb (rc_readers s r)) = Inr y" for r
    using inv_reader_step [OF inv, of r] by (auto simp: step_ok_def)
  then show ?thesis unfolding Let_def using inv_outcome [OF inv] inv_update_step [OF inv] by blast
qed

subsection \<open>Schedules\<close>

text \<open>A step by what happens, to run the system on a schedule.\<close>

datatype rcu_event = Arrive nat user_info_t sk_buff | Read nat | Build nat nat G_AUTHCONF_t | Update nat

fun rcu_apply :: "conf_env \<Rightarrow> nat \<Rightarrow> rcu_event \<Rightarrow> rcu \<Rightarrow> rcu option" where
  "rcu_apply env n (Arrive r ui skb) s = (if rd_pc (rc_readers s r) = Rd_out \<and> forwarded skb \<and> known_user n ui
     then Some (s\<lparr>rc_readers := (rc_readers s)(r :=
       \<lparr>rd_pc = Rd_enter, rd_ui = ui, rd_skb = skb, rd_ui0 = ui, rd_conf0 = None, rd_missed = False\<rparr>)\<rparr>) else None)"
| "rcu_apply env n (Read r) s = (let x = rc_readers s r in
     case reader_step env (rc_tables s) (rc_conf s) (rd_pc x) (rd_ui x) (rd_skb x) of
       Inl f \<Rightarrow> None
     | Inr (pc, ui) \<Rightarrow> Some (s\<lparr>rc_readers := (rc_readers s)(r := stepped (rc_tables s) (rc_conf s) x pc ui)\<rparr>))"
| "rcu_apply env n (Build u a c) s = (if rc_updaters s u = Up_idle \<and> rc_tables s a = None \<and> table_ok n c
     then Some (s\<lparr>rc_tables := (rc_tables s)(a \<mapsto> c), rc_updaters := (rc_updaters s)(u := Up_built a)\<rparr>) else None)"
| "rcu_apply env n (Update u) s = (case update_step (in_section s) (rc_tables s) (rc_conf s) (rc_updaters s u) of
       Inl f \<Rightarrow> None
     | Inr (h, g, up) \<Rightarrow> Some (s\<lparr>rc_tables := h, rc_conf := g, rc_updaters := (rc_updaters s)(u := up)\<rparr>))"

fun updates_by :: "rcu_event \<Rightarrow> nat set" where
  "updates_by (Build u a c) = {u}"
| "updates_by (Update u) = {u}"
| "updates_by _ = {}"

lemma rcu_apply_step: "rcu_apply env n ev s = Some t \<Longrightarrow> updates_by ev \<subseteq> U \<Longrightarrow> rcu_step env n U s t"
  by (cases ev) (auto simp: Let_def split: if_splits sum.splits prod.splits intro: rcu_step.intros)

fun rcu_run :: "conf_env \<Rightarrow> nat \<Rightarrow> rcu_event list \<Rightarrow> rcu \<Rightarrow> rcu option" where
  "rcu_run env n [] s = Some s"
| "rcu_run env n (ev # evs) s = Option.bind (rcu_apply env n ev s) (rcu_run env n evs)"

lemma rcu_run_reach:
  "rcu_run env n evs s = Some t \<Longrightarrow> \<forall>ev \<in> set evs. updates_by ev \<subseteq> U \<Longrightarrow> rcu_reach env n U s0 s \<Longrightarrow> rcu_reach env n U s0 t"
proof (induction evs arbitrary: s)
  case (Cons ev evs)
  then obtain s1 where "rcu_apply env n ev s = Some s1" "rcu_run env n evs s1 = Some t" by (auto simp: bind_eq_Some_conv)
  moreover from this Cons have "rcu_step env n U s s1" by (intro rcu_apply_step) auto
  ultimately show ?case using Cons by (auto intro: rcu_reach.step)
qed simp

text \<open>One table is installed, and nobody runs.\<close>

definition rcu_one :: "G_AUTHCONF_t \<Rightarrow> rcu" where
  "rcu_one c = \<lparr>rc_tables = [0 \<mapsto> c], rc_conf = Some 0,
     rc_readers = (\<lambda>_. \<lparr>rd_pc = Rd_out, rd_ui = demo_user, rd_skb = demo_fw, rd_ui0 = demo_user, rd_conf0 = None, rd_missed = False\<rparr>),
     rc_updaters = (\<lambda>_. Up_idle)\<rparr>"

lemma rcu_one_start: "table_ok n c \<Longrightarrow> rcu_start n (rcu_one c)"
  by (simp add: rcu_start_def rcu_one_def)

lemma demo_table_ok: "table_ok 0 demo_conf"
  by (simp add: table_ok_def demo_conf_ok)

text \<open>A packet has loaded the table when the update takes it out and is about to wait.\<close>

definition demo_update :: "rcu_event list" where
  "demo_update = [Arrive 0 demo_user demo_fw, Read 0, Build 0 1 demo_conf, Update 0, Update 0, Update 0]"

lemma demo_update_run:
  "\<exists>s. rcu_run demo_env 0 demo_update (rcu_one demo_conf) = Some s \<and> rc_conf s = None \<and> rd_pc (rc_readers s 0) = Rd_test 0
     \<and> rc_updaters s 0 = Up_wait 1 (Some 0)"
  by (simp add: demo_update_def rcu_one_def demo_table_ok demo_fw_forwarded known_user_def demo_user_magic stepped_def)

theorem conf_rcu_safe_witness:
  "\<exists>s. rcu_reach demo_env 0 {0} (rcu_one demo_conf) s \<and> rc_conf s = None \<and> rc_updaters s 0 = Up_wait 1 (Some 0)
     \<and> (\<exists>y. reader_step demo_env (rc_tables s) None (Rd_test 0) (rd_ui (rc_readers s 0)) (rd_skb (rc_readers s 0)) = Inr y)"
proof -
  obtain s where s: "rcu_run demo_env 0 demo_update (rcu_one demo_conf) = Some s" "rc_conf s = None"
    "rd_pc (rc_readers s 0) = Rd_test 0" "rc_updaters s 0 = Up_wait 1 (Some 0)"
    using demo_update_run by blast
  then have "rcu_reach demo_env 0 {0} (rcu_one demo_conf) s"
    by (intro rcu_run_reach [OF s(1)] rcu_reach.start) (simp add: demo_update_def)
  moreover from conf_rcu_safe [OF rcu_one_start [OF demo_table_ok] this] s
  have "\<exists>y. reader_step demo_env (rc_tables s) None (Rd_test 0) (rd_ui (rc_readers s 0)) (rd_skb (rc_readers s 0)) = Inr y"
    unfolding Let_def by metis
  ultimately show ?thesis using s by blast
qed

subsection \<open>Two updaters\<close>

text \<open>Both take the table out before either of them frees it.\<close>

definition double_update :: "rcu_event list" where
  "double_update = [Build 0 1 demo_conf, Build 1 2 demo_conf, Update 0, Update 0, Update 1, Update 1, Update 0, Update 1]
     @ [Update 0, Update 0, Update 0] @ [Update 1, Update 1]"

text \<open>
  C25.  With two senders the replacement is not safe, with no packet at all: from a state in which one
  table is installed, two calls of \<open>ntrack_conf_sync\<close> can interleave so that the second one calls
  \<open>vfree\<close> on a table that the first one has freed.
\<close>

theorem conf_two_updaters:
  "\<exists>s. rcu_start 0 (rcu_one demo_conf) \<and> rcu_reach env 0 {0, 1} (rcu_one demo_conf) s
     \<and> update_step (in_section s) (rc_tables s) (rc_conf s) (rc_updaters s 1) = Inl Use_after_free"
proof -
  have "\<exists>s. rcu_run env 0 double_update (rcu_one demo_conf) = Some s \<and> rc_tables s 0 = None \<and> rc_updaters s 1 = Up_free 2 (Some 0)"
    by (simp add: double_update_def rcu_one_def demo_table_ok in_section_def)
  then obtain s where s: "rcu_run env 0 double_update (rcu_one demo_conf) = Some s" "rc_tables s 0 = None" "rc_updaters s 1 = Up_free 2 (Some 0)"
    by blast
  then have "rcu_reach env 0 {0, 1} (rcu_one demo_conf) s"
    by (intro rcu_run_reach [OF s(1)] rcu_reach.start) (simp add: double_update_def)
  then show ?thesis using s rcu_one_start [OF demo_table_ok] by auto
qed

end
