(* ===== verification/Spec2Isabelle.thy ===== *)
theory Spec2Isabelle
  imports RingTest RingStores System HookTables KlogIoctl ModuleLog ConfRcu
begin

text \<open>
  Verification of the puppies traffic tracker: the kernel drivers that authenticate users of a
  gateway and report them to user space, the shared-memory ring between the two, and the
  programs at its other end.

  \<^bold>\<open>The program.\<close>  The driver \<open>nos_track\<close> hooks forwarded packets.  It finds the user of the
  packet's connection, lets the rules decide whether the user has to authenticate, answers
  the HTTP request of such a user with a redirection, and queues a message for users that
  are online.  A work item moves queued messages into a ring in shared memory, one ring for
  each CPU.  The daemon \<open>ntrackd\<close> maps that memory, sends the rules to the driver as a JSON text over
  netlink, and shows the users of the messages it takes from the ring; \<open>nquery\<close> lists and
  changes the table of users.  The driver \<open>nos\<close> is the older solution: a hash table of MAC
  addresses and a hook that redirects everybody who is not in it.  Both drivers print through
  \<open>klog\<close>.

  \<^bold>\<open>Theories and sources\<close> (files under \<open>src/\<close>; definitions keep the names of the functions).
  \<^item> \<open>Prelude\<close>, \<open>Bytes\<close>, \<open>Decimal\<close>, \<open>HexText\<close>: machine words, faults and results, arrays with checked
    access, byte orders, numbers as text.  A C function that can go wrong returns a
    \<open>fault + 'a\<close>; a write or read outside an object, a null or stale pointer, a division
    by zero, an uninitialised variable and a failed assertion are values of \<open>fault\<close>.
  \<^item> \<open>RingBuffer\<close>, \<open>RingConcurrency\<close>, \<open>RingStores\<close>, \<open>RingTest\<close>: \<open>include/src/ntrack_rbf.h\<close> and its test
    \<open>apps/ntrackd/src/main_test.c\<close>.  The four operations refine a bounded
    queue (locale \<open>ring_channel\<close>); with one producer and one consumer interleaving at single
    bytes, messages arrive complete, in order and once, and nothing faults; the test program
    passes under every interleaving.  With store buffers this still holds when the bytes of
    a node are committed before its index, and fails when stores are committed in any order.
  \<^item> \<open>MsgQueue\<close>: \<open>drivers/nos_track/src/ntrack_msg.c\<close> and \<open>include/src/ntrack_msg.h\<close>.  Queueing on every
    branch, the work function and that it ends with an empty list, start-up, the order of
    delivery, and the window in which a half-filled message can be taken.
  \<^item> \<open>NxJson\<close>, \<open>NxJsonString\<close>, \<open>NxJsonHeap\<close>, \<open>NxJsonParse\<close>, \<open>NxJsonView\<close>: \<open>drivers/nos_track/src/nxjson.c\<close>.  The parser on
    the text it overwrites and the heap of nodes it builds: in-place decoding against a
    reference, UTF-8, freeing, safety on every terminated text, and the tree as
    a client reads it (locale \<open>json_view\<close>).
  \<^item> \<open>NxJsonGrammar\<close>, \<open>NxJsonText\<close>: the language the parser accepts, as an inductive grammar (comments,
    blanks, the escapes, what follows a number), and a printer of documents.  A text of the grammar is read as the
    document it stands for, whatever the blanks and comments, and a printed document is read
    back.
  \<^item> \<open>NtrackUser\<close>, \<open>Packet\<close>: \<open>include/src/ntrack_comm.h\<close>, \<open>include/src/ntrack_auth.h\<close>, \<open>ntrack_auth.c\<close>: users, flows,
    the status byte, the clock, and the classification of packets.
  \<^item> \<open>NtrackConf\<close>, \<open>ConfText\<close>: \<open>ntrack_conf.c\<close>.  The rules a document installs, matching, and the decision with
    its reference definition; then the rules as a function of the document, so that a
    configuration text of the grammar installs exactly the rules it writes down.
  \<^item> \<open>ConfRcu\<close>: \<open>ntrack_conf.c\<close> again, load by load, with any number of packets that are decided while the table
    is replaced.  With one sender no freed table is used, and each packet is decided by the
    table of its first load or let pass; two senders can free a table twice.
  \<^item> \<open>Redirect\<close>: \<open>redirect.c\<close>.  The redirection text and the two packets, byte by byte.
  \<^item> \<open>NtrackHooks\<close>: \<open>ntrack_hooks.c\<close>.  The hooks, and loading and unloading the module.
  \<^item> \<open>ModuleLog\<close>: loading and unloading again, statement by statement on the module's log item in
    \<open>klog\<close>, while netlink messages, packets and work items arrive.  The thread refines the functions
    of \<open>NtrackHooks\<close>; the handlers find the log in every interleaving, except at the end of the
    error path, where the log is freed before the socket is closed.
  \<^item> \<open>HookTables\<close>: the tables of hooks that the two drivers register, and the verdict on a packet
    when both are loaded.
  \<^item> \<open>NtMessage\<close>: \<open>libs/utils/src/nt_message.c\<close>.  Attaching to the memory and the consumer's loop (locale
    \<open>ring_reader\<close>, which extends \<open>ring_channel\<close>).
  \<^item> \<open>Daemon\<close>: \<open>apps/ntrackd/src/main.c\<close>, \<open>apps/nquery/src/main.c\<close>; a list of rules that is printed as a
    configuration and sent over netlink takes effect in the kernel.
  \<^item> \<open>System\<close>: the packets, the work item, the daemon's loop and configuration messages interleave
    on one shared state.  No interleaving faults; the daemon shows only users of the table, none
    more often than packets of that user were seen; and from every state the work item and
    enough reading rounds empty the queue and show what was waiting, up to the size of the ring.
  \<^item> \<open>NosUsers\<close>, \<open>NosHooks\<close>: \<open>drivers/nos/src\<close>.  The hash table as a map (locale \<open>mac_table\<close>), the hook with its
    verdicts and packets, checksums, and the invariant of the reachable states.
  \<^item> \<open>Klog\<close>, \<open>KlogIoctl\<close>, \<open>KlogMacros\<close>, \<open>HexDump\<close>: \<open>drivers/klog/src\<close> and \<open>libs/utils/src/utils.c\<close>.  Log items and their
    timers (what is set is what is checked; temporary changes and when undoing them fails; the
    reachable states in which no timer touches freed memory), the interface in \<open>/proc\<close>, the macros the drivers print with (locale \<open>log_gate\<close>), and the two hex dumps.
  \<^item> \<open>Printf\<close>, \<open>LogText\<close>: \<open>include/src/ntrack_log.h\<close>, \<open>drivers/nos/src/nos_debug.h\<close> and the functions of
    the headers that print.  The conversions of \<open>printf\<close> that the repository uses with
    their argument types; every line of the headers is well typed, the lines of \<open>nquery\<close> can be
    read back, and the kernel log prints what its kinds let through.

  This theory composes them for a single packet: it makes the daemon show its user.

  \<^bold>\<open>State.\<close>  A structure is a record with the fields of the source that the code uses.  Memory
  that is shared or linked is explicit: the node heap of the parser, the ring's bytes, the heap
  of log items, the lists of the message queue.  Pointers into arrays are positions.  Machine
  integers keep their width; signed values are \<open>int\<close> where the source cannot overflow them.

  \<^bold>\<open>Arguments.\<close>  What belongs to the kernel or the C library is an argument of the definitions that use it, with the
  documented behaviour the proofs need as a named hypothesis (\<open>strtol_ok\<close>, \<open>encoder_fits\<close>, \<open>csum_adds\<close>,
  \<open>csum_folds\<close>, \<open>netfilter_order\<close>): outcomes of allocations and the contents of fresh memory, connection
  tracking, IP sets, checksum primitives, the hash function \<open>jhash\<close>, the clock and its rate, rate
  limiting, \<open>/proc\<close> files, \<open>mmap\<close>, sockets and core masks.

  \<^bold>\<open>Loops.\<close>  Loops over lists and texts are recursive functions with a termination proof.  The parser and
  \<open>nx_json_free\<close> recurse on fuel: twice the length of the text plus two, and twice the number
  of nodes; the theorems show that this never runs out.  The daemon's loop runs until a signal,
  so \<open>nt_message_process\<close> is given its number of rounds.

  \<^bold>\<open>Not modelled.\<close>  Locks: an operation is one step, except where the order of steps is the
  point (the ring and its test; linking and filling a node; the events of \<open>System\<close>; the loading
  thread of \<open>ModuleLog\<close>; the table of \<open>ConfRcu\<close>, whose packets do not share a user).  Memory is sequentially consistent outside \<open>RingStores\<close>, and loads take effect in
  program order there too.  The operations of the drivers do not carry the log: that they print,
  and what, is the subject of \<open>LogText\<close> for the lines of the shared headers and of \<open>nquery\<close>, and of
  \<open>ModuleLog\<close> for loading and for \<open>nl_recv\<close>, not of every message.  The registration of hooks and of sysfs attributes is its
  outcome, and \<open>nos_config_cleanup\<close> does nothing.  The dump of the two tables when the daemon
  starts, doubles in the parser (the kernel build has none) and
  the Lua programs under \<open>apps/tbqd\<close>, which are not C, are left out.
\<close>

subsection \<open>From a packet to the daemon\<close>

text \<open>
  C10.  A silent user's packet is seen by the daemon.  Let the user \<open>i\<close> of a forwarded packet be
  authenticated and its time stamp out of date, and let nothing wait on CPU 0.  Then the hook
  lets the packet pass; the work item it raises moves one message into the ring of CPU 0;
  and the daemon, attached to that ring and to the user table, shows in its next round
  exactly this user and leaves the ring empty.
\<close>

theorem keep_alive_reaches_daemon:
  assumes "hook_ok env st" "linear_packet skb" "length (dev_name in_dev) < IFNAMSIZ"
    and "al_node al = Some node" "length (node_buff node) = RBF_NODE_SIZE"
    and "ct_nos ct = Some nos" "trk_user nos = Some i" "i < length (st_users st)" "\<not> ct_untracked ct"
    and "ip_hdr skb = Inr iph" "\<not> l3filter (env_ipv4 (he_conf env)) iph"
    and "user_need_redirect (he_conf env) (st_conf st) (st_users st ! i) skb = Inr (r, ui)"
    and "user_timeout (he_HZ env) jiffies ui" "nt_auth_status ui \<ge> AUTH_OK"
    and "unat (ui_id (st_users st ! i)) = i"
    and "cpu_list (nmsg_cpus (st_msg st) ! 0) = []" "rbf_contents (cpu_rbfp (nmsg_cpus (st_msg st) ! 0)) = []"
    and "0 < rbf_capacity (cpu_rbfp (nmsg_cpus (st_msg st) ! 0))"
    and "nt_message_rbf lib = Some 0" "area_blocks area \<noteq> []"
  shows "\<exists>st' m area'. ntrack_hook_fw env al jiffies (Some ct) skb in_dev out_dev st = Inr (1, st')
    \<and> nmsg_wq_dequeue_func 0 (st_msg st') = Inr m
    \<and> nt_message_process 1
        (Some (fn_message_disp (he_endian env) (he_user_max env) \<lparr>nt_flows = flows, nt_users = st_users st'\<rparr>)) lib
        (area\<lparr>area_blocks := (area_blocks area)[0 := cpu_rbfp (nmsg_cpus m ! 0)]\<rparr>) [] = Inr (area', [Show_user i])
    \<and> rbf_contents (area_blocks area' ! 0) = []"
proof -
  have q: "nmsg_cpu_ok (nmsg_cpus (st_msg st) ! 0)" "0 < length (nmsg_cpus (st_msg st))" "0 < he_nr_cpu_ids env"
    using assms(1) by (auto simp: hook_ok_def nmsg_ok_def)
  have count: "unat (cpu_count (nmsg_cpus (st_msg st) ! 0)) \<le> NCAP_MAX_COUNT"
    using q(1) assms(16) by (simp add: nmsg_cpu_ok_def)
  let ?en = "he_endian env" and ?u = "st_users st ! i"
  let ?msg = "nmsg_hdr_bytes ?en (nmsg_hdr_init 3 8) @ auth_msg_bytes ?en (ui_magic ?u) (ui_id ?u)"
  obtain st' n where hook: "ntrack_hook_fw env al jiffies (Some ct) skb in_dev out_dev st = Inr (1, st')"
    and ok: "nmsg_ok (he_nr_cpu_ids env) (st_msg st')"
    and n: "cpu_list (nmsg_cpus (st_msg st') ! 0) = [n]" "node_bytes n = ?msg"
      "cpu_rbfp (nmsg_cpus (st_msg st') ! 0) = cpu_rbfp (nmsg_cpus (st_msg st) ! 0)"
    and us: "st_users st' = (st_users st)[i := snd (user_update_timestamp jiffies ui)]"
      "ui_magic ui = ui_magic ?u"
    by (rule ntrack_hook_fw_queues [OF assms(1-12) count assms(13,14), of out_dev]) (simp add: assms(16))
  obtain m q' slots where deq: "nmsg_wq_dequeue_func 0 (st_msg st') = Inr m" "m = set_cpu (st_msg st') 0 q'"
    and q': "nmsg_cpu_ok q'" "rbf_contents (cpu_rbfp q') = slots"
      "list_all2 carries slots (take (rbf_capacity (cpu_rbfp (nmsg_cpus (st_msg st) ! 0))) [?msg])"
    by (rule nmsg_wq_dequeue_func_ok [OF ok q(3)]) (use n assms(17) in auto)
  obtain slot where slot: "rbf_contents (cpu_rbfp q') = [slot]" "carries slot ?msg"
    using q'(2,3) assms(18) by (auto simp: list_all2_Cons2 take_Cons' split: if_splits)
  have cpu: "nmsg_cpus m ! 0 = q'" using deq(2) ok by (auto simp: set_cpu_def nmsg_ok_def intro!: nth_list_update_eq)
  let ?nt = "\<lparr>nt_flows = flows, nt_users = st_users st'\<rparr>"
  let ?area = "area\<lparr>area_blocks := (area_blocks area)[0 := cpu_rbfp (nmsg_cpus m ! 0)]\<rparr>"
  have i: "i < he_user_max env" using assms(1,15) nth_mem [OF assms(8)] by (auto simp: hook_ok_def users_ok_def)
  have "fn_message_disp ?en (he_user_max env) ?nt slot [] = Inr ([] @ [Show_user (unat (ui_id ?u))])"
    by (rule fn_message_disp_auth [OF slot(2)])
      (use assms(8,15) i us in \<open>simp_all add: user_update_timestamp_def\<close>)
  then have run: "foldR (fn_message_disp ?en (he_user_max env) ?nt) (take 1 (rbf_contents (area_blocks ?area ! 0))) [] = Inr [Show_user i]"
    using assms(15,20) slot(1) cpu by simp
  have "rbf_ok (area_blocks ?area ! 0)" using q'(1) cpu assms(20) by (simp add: nmsg_cpu_ok_def)
  moreover have "0 < length (area_blocks ?area)" using assms(20) by simp
  ultimately obtain rb' where
    "nt_message_process 1 (Some (fn_message_disp ?en (he_user_max env) ?nt)) lib ?area []
       = Inr (?area\<lparr>area_blocks := (area_blocks ?area)[0 := rb']\<rparr>, [Show_user i])"
    "rbf_contents rb' = drop 1 (rbf_contents (area_blocks ?area ! 0))"
    using nt_message_process_runs [OF assms(19) _ _ run] by metis
  then show ?thesis using hook deq slot(1) cpu assms(20) by auto
qed

theorem keep_alive_reaches_daemon_witness:
  "\<exists>st' m area'. ntrack_hook_fw demo_hook_env demo_alloc 9000 (Some demo_conn) demo_fw
      \<lparr>dev_index = 1, dev_name = ''br-lan''\<rparr> None demo_online = Inr (1, st')
    \<and> nmsg_wq_dequeue_func 0 (st_msg st') = Inr m
    \<and> nt_message_process 1
        (Some (fn_message_disp Little 8 \<lparr>nt_flows = [], nt_users = st_users st'\<rparr>)) demo_lib
        (demo_area\<lparr>area_blocks := (area_blocks demo_area)[0 := cpu_rbfp (nmsg_cpus m ! 0)]\<rparr>) [] = Inr (area', [Show_user 0])"
proof -
  let ?iph = "\<lparr>ip_ihl = 5, ip_version = 4, ip_tot_len = 44, ip_protocol = 6, ip_saddr = 0xc0a80102, ip_daddr = 0x08080808\<rparr>"
  have "case user_need_redirect (he_conf demo_hook_env) (st_conf demo_online) (st_users demo_online ! 0) demo_fw of
      Inl _ \<Rightarrow> False | Inr (r, u) \<Rightarrow> user_timeout 100 9000 u \<and> 3 \<le> nt_auth_status u"
    by code_simp
  then obtain r u where u: "user_need_redirect (he_conf demo_hook_env) (st_conf demo_online)
      (st_users demo_online ! 0) demo_fw = Inr (r, u)" "user_timeout 100 9000 u" "3 \<le> nt_auth_status u"
    by (auto split: sum.splits)
  have f: "\<not> l3filter (env_ipv4 (he_conf demo_hook_env)) ?iph" by code_simp
  have e: "he_HZ demo_hook_env = 100" "he_endian demo_hook_env = Little" "he_user_max demo_hook_env = 8"
    by (simp_all add: demo_hook_env_def)
  have st: "length (st_users demo_online) = 1" "ui_id (st_users demo_online ! 0) = 0"
    "nmsg_cpus (st_msg demo_online) ! 0 = demo_cpu" "cpu_list demo_cpu = []"
    by (simp_all add: demo_online_def demo_hook_state_def demo_state_def demo_cpu_def)
  from keep_alive_reaches_daemon [OF demo_online_ok demo_fw_linear _ _ demo_ok(2) _ _ _ _ demo_fw_hdr f u(1),
      of "\<lparr>dev_index = 1, dev_name = ''br-lan''\<rparr>" demo_alloc demo_conn _ 9000 demo_lib demo_area None "[]"]
  show ?thesis using u(2,3) st e demo_ok by (auto simp: demo_lib_def demo_area_def)
qed

end
